(* ===== verification/Prelude.thy ===== *)
theory Prelude
  imports Main "HOL-Library.Word"
begin

text \<open>
  Shared vocabulary of the development: the machine types of the C++ sources, the SDK's
  structured error and its value-or-error result, the loop combinators in which the sources'
  \<open>for\<close> loops with early returns are written, big-endian byte strings, the byte order
  used by \<open>std::lexicographical_compare\<close>, and the two interfaces (a canonical codec and a
  guarded machine) that several components provide.
\<close>

unbundle bit_operations_syntax

named_theorems result_simps \<open>rewrite rules for results and their loops\<close>
named_theorems codec_simps \<open>round-trip equations\<close>

section \<open>Machine types\<close>

text \<open>
  \<open>std::byte\<close>, \<open>std::uint16_t\<close>, \<open>std::uint32_t\<close> and \<open>std::uint64_t\<close> are words of their
  width. \<open>std::string\<close> is a HOL string, whose characters are bytes. A \<open>std::size_t\<close> that
  measures memory (a container size, an offset into it, a configured limit) is a \<open>nat\<close>.
\<close>

type_synonym byte = "8 word"
type_synonym u16 = "16 word"
type_synonym u32 = "32 word"
type_synonym u64 = "64 word"
type_synonym bytes = "byte list"

section \<open>Results\<close>

text \<open>The SDK's \<open>error\<close> struct; \<open>result<T>\<close> holds either it or a value.\<close>

record sdk_error =
  err_code :: string
  err_field :: string
  err_detail :: string

abbreviation Err :: "string \<Rightarrow> string \<Rightarrow> string \<Rightarrow> sdk_error" where
  "Err c f d \<equiv> \<lparr>err_code = c, err_field = f, err_detail = d\<rparr>"

type_synonym 'a result = "sdk_error + 'a"

text \<open>\<open>if (!r) return unexpected(r.error());\<close> followed by the rest of the function.\<close>

definition and_then :: "'e + 'a \<Rightarrow> ('a \<Rightarrow> 'e + 'b) \<Rightarrow> 'e + 'b" where
  "and_then r f = (case r of Inl e \<Rightarrow> Inl e | Inr x \<Rightarrow> f x)"

lemma and_then_simps [simp, result_simps]:
  "and_then (Inl e) f = Inl e"
  "and_then (Inr x) f = f x"
  by (simp_all add: and_then_def)

lemma and_then_Inr_iff [result_simps]:
  "and_then r f = Inr y \<longleftrightarrow> (\<exists>x. r = Inr x \<and> f x = Inr y)"
  by (cases r) auto

lemma and_then_Inl_iff:
  "and_then r f = Inl e \<longleftrightarrow> r = Inl e \<or> (\<exists>x. r = Inr x \<and> f x = Inl e)"
  by (cases r) auto

lemma and_then_cong [fundef_cong]:
  "r = r' \<Longrightarrow> (\<And>x. r' = Inr x \<Longrightarrow> f x = g x) \<Longrightarrow> and_then r f = and_then r' g"
  by (cases r') auto

lemma if_Inl_Inr_iff [result_simps]:
  "((if b then Inl e else r) = Inr y) \<longleftrightarrow> \<not> b \<and> r = Inr y"
  by auto

section \<open>Loops with early return\<close>

text \<open>A range \<open>for\<close> whose body updates the loop state or returns an error.\<close>

fun try_fold :: "('a \<Rightarrow> 's \<Rightarrow> 'e + 's) \<Rightarrow> 'a list \<Rightarrow> 's \<Rightarrow> 'e + 's" where
  "try_fold f [] s = Inr s"
| "try_fold f (x # xs) s = and_then (f x s) (try_fold f xs)"

lemma try_fold_cong [fundef_cong]:
  assumes "xs = ys" "s = t" "\<And>x r. x \<in> set ys \<Longrightarrow> f x r = g x r"
  shows "try_fold f xs s = try_fold g ys t"
  using assms(3) unfolding assms(1,2)
proof (induction ys arbitrary: t)
  case Nil
  then show ?case by simp
next
  case (Cons y ys)
  then show ?case by (cases "g y t") auto
qed

lemma try_fold_append:
  "try_fold f (xs @ ys) s = and_then (try_fold f xs s) (try_fold f ys)"
proof (induction xs arbitrary: s)
  case Nil
  then show ?case by simp
next
  case (Cons x xs)
  then show ?case by (cases "f x s") auto
qed

lemma try_fold_invariant:
  assumes "try_fold f xs s = Inr t" "P s"
    "\<And>x r r'. x \<in> set xs \<Longrightarrow> P r \<Longrightarrow> f x r = Inr r' \<Longrightarrow> P r'"
  shows "P t"
  using assms
proof (induction xs arbitrary: s)
  case Nil
  then show ?case by simp
next
  case (Cons x xs)
  then obtain r where r: "f x s = Inr r" "try_fold f xs r = Inr t"
    by (auto simp: and_then_Inr_iff)
  show ?case
    using Cons.IH [OF r(2)] Cons.prems(2,3) r(1) by auto
qed

text \<open>A counted \<open>for\<close> whose body does not use the index.\<close>

primrec repeat_result :: "nat \<Rightarrow> ('s \<Rightarrow> 'e + 's) \<Rightarrow> 's \<Rightarrow> 'e + 's" where
  "repeat_result 0 f s = Inr s"
| "repeat_result (Suc n) f s = and_then (f s) (repeat_result n f)"

lemma repeat_result_cong [fundef_cong]:
  assumes "n = m" "s = t" "\<And>r. f r = g r"
  shows "repeat_result n f s = repeat_result m g t"
proof -
  have "f = g" using assms(3) by auto
  then show ?thesis using assms(1,2) by simp
qed

text \<open>
  A chain of checks in the order of the source; the first failing check decides the error.
\<close>

fun first_error :: "'a result list \<Rightarrow> unit result" where
  "first_error [] = Inr ()"
| "first_error (r # rs) = and_then r (\<lambda>_. first_error rs)"

lemma first_error_ok_iff [result_simps]:
  "first_error rs = Inr u \<longleftrightarrow> (\<forall>r \<in> set rs. \<exists>x. r = Inr x)"
proof (induction rs)
  case Nil
  then show ?case by simp
next
  case (Cons r rs)
  then show ?case by (cases r) auto
qed

section \<open>Byte strings\<close>

definition byte_of_char :: "char \<Rightarrow> byte" where
  "byte_of_char c = of_char c"

definition char_of_byte :: "byte \<Rightarrow> char" where
  "char_of_byte b = char_of (unat b)"

abbreviation bytes_of :: "string \<Rightarrow> bytes" where
  "bytes_of s \<equiv> map byte_of_char s"

abbreviation string_of :: "bytes \<Rightarrow> string" where
  "string_of bs \<equiv> map char_of_byte bs"

lemma byte_of_char_of_byte [simp]: "byte_of_char (char_of_byte b) = b"
proof -
  have "(of_char (char_of (unat b) :: char) :: byte) = word_of_nat (unat b mod 256)"
    by (metis of_char_of of_nat_of_char)
  also have "unat b mod 256 = unat b"
    by (rule mod_less) (rule order_less_le_trans [OF unsigned_less], simp)
  finally show ?thesis
    by (simp add: byte_of_char_def char_of_byte_def)
qed

lemma unat_of_nat_byte: "unat (word_of_nat n :: byte) = n mod 256"
  by (simp add: unat_of_nat)

lemma char_of_byte_of_char [simp]: "char_of_byte (byte_of_char c) = c"
proof -
  have "unat (of_char c :: byte) = of_char c"
    by (metis of_char_mod_256 of_nat_of_char unat_of_nat_byte)
  then show ?thesis
    by (simp add: byte_of_char_def char_of_byte_def)
qed

lemma string_of_bytes_of [simp]: "string_of (bytes_of s) = s"
  by (induction s) simp_all

lemma bytes_of_string_of [simp]: "bytes_of (string_of bs) = bs"
  by (induction bs) simp_all

lemma bytes_of_inject [simp]: "bytes_of s = bytes_of t \<longleftrightarrow> s = t"
  by (metis string_of_bytes_of)

text \<open>\<open>std::lexicographical_compare\<close> on bytes.\<close>

fun lex_less :: "bytes \<Rightarrow> bytes \<Rightarrow> bool" where
  "lex_less xs [] = False"
| "lex_less [] (y # ys) = True"
| "lex_less (x # xs) (y # ys) = (x < y \<or> (x = y \<and> lex_less xs ys))"

lemma lex_less_irrefl [simp]: "\<not> lex_less xs xs"
  by (induction xs) simp_all

lemma lex_less_trans: "lex_less xs ys \<Longrightarrow> lex_less ys zs \<Longrightarrow> lex_less xs zs"
proof (induction xs ys arbitrary: zs rule: lex_less.induct)
  case (3 x xs y ys)
  then show ?case by (cases zs) auto
qed (auto split: list.splits elim: lex_less.elims)

lemma lex_less_total: "xs \<noteq> ys \<Longrightarrow> lex_less xs ys \<or> lex_less ys xs"
  by (induction xs ys rule: lex_less.induct) (auto simp: neq_Nil_conv)

lemma lex_less_asym: "lex_less xs ys \<Longrightarrow> \<not> lex_less ys xs"
  using lex_less_trans [of xs ys xs] by auto

text \<open>\<open>input.subspan(offset, count)\<close>, used within bounds only.\<close>

definition subspan :: "'a list \<Rightarrow> nat \<Rightarrow> nat \<Rightarrow> 'a list" where
  "subspan xs off n = take n (drop off xs)"

lemma subspan_drop: "subspan input off n = take n (drop off input)"
  by (simp add: subspan_def)

lemma subspan_chain: "subspan xs i n @ drop (i + n) xs = drop i xs"
  by (simp add: subspan_def add.commute [of i] flip: drop_drop)

lemma length_subspan: "i + n \<le> length xs \<Longrightarrow> length (subspan xs i n) = n"
  by (simp add: subspan_def)

section \<open>Big-endian integers\<close>

text \<open>
  \<open>append_be\<close>, \<open>append_length\<close> and \<open>canonical_u64\<close> all emit the low \<open>n\<close> bytes of a value,
  most significant first.
\<close>

primrec be_bytes :: "nat \<Rightarrow> u64 \<Rightarrow> bytes" where
  "be_bytes 0 v = []"
| "be_bytes (Suc n) v = ucast (drop_bit (8 * n) v) # be_bytes n v"

text \<open>
  The reading loop \<open>value = (value << 8U) | byte\<close>.
\<close>

definition be_step :: "u64 \<Rightarrow> byte \<Rightarrow> u64" where
  "be_step acc b = push_bit 8 acc OR ucast b"

definition be_value :: "bytes \<Rightarrow> u64" where
  "be_value bs = foldl be_step 0 bs"

lemma length_be_bytes [simp]: "length (be_bytes n v) = n"
  by (induction n) simp_all

lemma foldl_be_step_be_bytes:
  "foldl be_step a (be_bytes n v) = push_bit (8 * n) a OR take_bit (8 * n) v"
proof (induction n arbitrary: a)
  case 0
  then show ?case by simp
next
  case (Suc n)
  have "push_bit (8 * n) (push_bit 8 a OR ucast (ucast (drop_bit (8 * n) v) :: byte)) OR take_bit (8 * n) v
      = push_bit (8 * Suc n) a OR take_bit (8 * Suc n) v"
    by (rule bit_word_eqI)
      (auto simp: bit_or_iff bit_push_bit_iff bit_take_bit_iff bit_ucast_iff bit_drop_bit_eq algebra_simps
        dest: bit_imp_le_length)
  then show ?case
    by (simp add: Suc.IH be_step_def [of a])
qed

lemma be_value_be_bytes [codec_simps]: "be_value (be_bytes n v) = take_bit (8 * n) v"
  by (simp add: be_value_def foldl_be_step_be_bytes)

lemma be_value_be_bytes_8 [simp, codec_simps]: "be_value (be_bytes 8 v) = v"
proof -
  have "take_bit 64 v = v" by (rule bit_word_eqI) (auto simp: bit_take_bit_iff dest: bit_imp_le_length)
  then show ?thesis by (simp add: be_value_be_bytes)
qed

lemma be_value_snoc: "be_value (bs @ [b]) = push_bit 8 (be_value bs) OR ucast b"
  by (simp add: be_value_def be_step_def)

lemma be_bytes_snoc: "be_bytes (Suc n) v = be_bytes n (drop_bit 8 v) @ [ucast v]"
  by (induction n) (simp_all add: drop_bit_drop_bit add.commute)

lemma take_bit_be_value: "take_bit (8 * length bs) (be_value bs) = be_value bs"
proof (induction bs rule: rev_induct)
  case Nil
  then show ?case by (simp add: be_value_def)
next
  case (snoc b bs)
  have bits: "bit (be_value bs) i \<Longrightarrow> i < 8 * length bs" for i
    using snoc by (metis bit_take_bit_iff)
  show ?case
    by (rule bit_word_eqI)
      (auto simp: be_value_snoc bit_or_iff bit_push_bit_iff bit_take_bit_iff bit_ucast_iff
        dest: bits bit_imp_le_length)
qed

lemma be_bytes_be_value [codec_simps]: "length bs \<le> 8 \<Longrightarrow> be_bytes (length bs) (be_value bs) = bs"
proof (induction bs rule: rev_induct)
  case Nil
  then show ?case by simp
next
  case (snoc b bs)
  have bits: "bit (be_value bs) i \<Longrightarrow> i < 8 * length bs" for i
    by (metis bit_take_bit_iff take_bit_be_value)
  have dr: "drop_bit 8 (be_value (bs @ [b])) = be_value bs"
    using snoc.prems
    by (intro bit_word_eqI)
      (auto simp: be_value_snoc bit_or_iff bit_push_bit_iff bit_drop_bit_eq bit_ucast_iff
        dest: bits bit_imp_le_length)
  have lo: "ucast (be_value (bs @ [b])) = b"
    by (rule bit_word_eqI)
      (auto simp: be_value_snoc bit_or_iff bit_push_bit_iff bit_ucast_iff dest: bit_imp_le_length)
  have "be_bytes (length (bs @ [b])) (be_value (bs @ [b]))
      = be_bytes (length bs) (drop_bit 8 (be_value (bs @ [b]))) @ [ucast (be_value (bs @ [b]))]"
    by (metis be_bytes_snoc length_append_singleton)
  then show ?case
    using snoc by (simp add: dr lo)
qed

lemma unat_be_value_less: "length bs \<le> 8 \<Longrightarrow> unat (be_value bs) < 2 ^ (8 * length bs)"
  by (metis take_bit_be_value take_bit_nat_less_exp unsigned_take_bit_eq)

lemma be_bytes_subspan: "i + n \<le> length h \<Longrightarrow> n \<le> 8 \<Longrightarrow> be_bytes n (be_value (subspan h i n)) = subspan h i n"
  using be_bytes_be_value [of "subspan h i n"] by (simp add: length_subspan)

section \<open>Bounds of machine integers\<close>

lemma unat_u64_max [simp]: "unat (- 1 :: u64) = 18446744073709551615"
  by (simp add: unsigned_minus_1_eq_mask mask_eq_exp_minus_1)

lemma unat_u64_less: "unat (w :: u64) < 2 ^ 64"
  by (rule order_less_le_trans [OF unsigned_less]) simp

lemma unat_u64_le: "unat (w :: u64) \<le> 18446744073709551615"
  using unat_u64_less [of w] by simp

lemma unat_word_inject: "unat x = unat y \<longleftrightarrow> x = (y :: 'a::len word)"
  by (metis unsigned_word_eqI)

lemma unat_u64_plus:
  assumes "unat x + unat y < 2 ^ 64"
  shows "unat (x + y :: u64) = unat x + unat y"
  using assms by (simp add: unat_word_ariths)

lemma unat_u64_plus_1: "w \<noteq> - 1 \<Longrightarrow> unat (w + 1 :: u64) = unat w + 1"
  by (metis add.commute unatSuc Suc_eq_plus1 add_eq_0_iff add.inverse_inverse)

lemma unat_u64_sub: "y \<le> x \<Longrightarrow> unat (x - y :: u64) = unat x - unat y"
  by (rule unat_sub)

lemma unat_u64_headroom: "unat (- 1 - x :: u64) = 18446744073709551615 - unat x"
  by (subst unat_sub) simp_all

text \<open>The overflow guard \<open>y > max - x\<close> of the sources.\<close>

lemma u64_no_overflow: "\<not> y > - 1 - x \<longleftrightarrow> unat x + unat y < 2 ^ 64" for x y :: u64
  using unat_u64_less [of x] by (auto simp: word_less_nat_alt unat_u64_headroom)

section \<open>Lower-case hexadecimal\<close>

text \<open>The digest checks accept \<open>0\<close>-\<open>9\<close> and \<open>a\<close>-\<open>f\<close>.\<close>

definition lower_hex :: "char \<Rightarrow> bool" where
  "lower_hex c = (let b = byte_of_char c in (0x30 \<le> b \<and> b \<le> 0x39) \<or> (0x61 \<le> b \<and> b \<le> 0x66))"

definition starts_with :: "string \<Rightarrow> string \<Rightarrow> bool" where
  "starts_with s p = (take (length p) s = p)"

section \<open>Interface: a canonical codec\<close>

text \<open>
  \<open>encode\<close> and \<open>decode\<close> of a wire format: every accepted byte string is the encoding of the
  value it decodes to, so there is exactly one spelling of each value.
\<close>

locale canonical_codec =
  fixes encode :: "'v \<Rightarrow> 'e + 'b list"
    and decode :: "'b list \<Rightarrow> 'e + 'v"
  assumes encode_decode: "decode bs = Inr v \<Longrightarrow> encode v = Inr bs"
begin

lemma decode_inject:
  assumes "decode bs = Inr v" "decode cs = Inr v"
  shows "bs = cs"
  using assms encode_decode by (metis sum.inject(2))

lemma decode_encode_of_accepted:
  assumes "decode bs = Inr v" "encode v = Inr cs"
  shows "decode cs = Inr v"
  using assms encode_decode by (metis sum.inject(2))

lemma non_encoding_rejected:
  assumes "\<And>v. encode v \<noteq> Inr bs"
  shows "\<exists>e. decode bs = Inl e"
  using assms encode_decode by (cases "decode bs") auto

end

section \<open>Interface: a guarded machine\<close>

text \<open>
  An object whose operations either fail and leave the object unchanged, or return the updated
  object. \<open>run\<close> applies a list of inputs, skipping the rejected ones, as a host that keeps
  using the object after an error would.
\<close>

fun run_machine :: "('i \<Rightarrow> 's \<Rightarrow> 'e + 's) \<Rightarrow> 'i list \<Rightarrow> 's \<Rightarrow> 's" where
  "run_machine step [] s = s"
| "run_machine step (i # is) s =
     run_machine step is (case step i s of Inl e \<Rightarrow> s | Inr t \<Rightarrow> t)"

text \<open>The inputs of such a run that were accepted.\<close>

fun accepted_inputs :: "('i \<Rightarrow> 's \<Rightarrow> 'e + 's) \<Rightarrow> 'i list \<Rightarrow> 's \<Rightarrow> 'i list" where
  "accepted_inputs step [] s = []"
| "accepted_inputs step (i # is) s = (case step i s of
      Inl e \<Rightarrow> accepted_inputs step is s | Inr t \<Rightarrow> i # accepted_inputs step is t)"

lemma try_fold_accepted: "try_fold step (accepted_inputs step is s) s = Inr (run_machine step is s)"
  by (induction "is" arbitrary: s) (auto split: sum.splits)

lemma accepted_inputs_run:
  "run_machine step (accepted_inputs step is s) s = run_machine step is s"
  by (induction "is" arbitrary: s) (auto split: sum.splits)

text \<open>Proving something of a chain of accepted inputs: what holds of each step carries over.\<close>

lemma try_fold_snoc_induct [consumes 1, case_names nil snoc]:
  assumes "try_fold step is s = Inr t"
    and "P [] s"
    and "\<And>is i r u. try_fold step is s = Inr r \<Longrightarrow> P is r \<Longrightarrow> step i r = Inr u \<Longrightarrow> P (is @ [i]) u"
  shows "P is t"
  using assms(1)
proof (induction "is" arbitrary: t rule: rev_induct)
  case Nil
  then show ?case using assms(2) by simp
next
  case (snoc i "is")
  then obtain r where "try_fold step is s = Inr r" "step i r = Inr t"
    by (auto simp: try_fold_append and_then_Inr_iff)
  then show ?case using snoc.IH assms(3) by blast
qed

locale guarded_machine =
  fixes step :: "'i \<Rightarrow> 's \<Rightarrow> 'e + 's"
    and inv :: "'s \<Rightarrow> bool"
  assumes step_inv: "inv s \<Longrightarrow> step i s = Inr t \<Longrightarrow> inv t"
begin

lemma run_inv: "inv s \<Longrightarrow> inv (run_machine step is s)"
proof (induction "is" arbitrary: s)
  case Nil
  then show ?case by simp
next
  case (Cons i "is")
  then show ?case by (auto split: sum.splits intro: step_inv)
qed

end

text \<open>A machine with a quantity no operation lets fall (a sequence number, a generation).\<close>

locale monotone_machine = guarded_machine step inv
  for step :: "'i \<Rightarrow> 's \<Rightarrow> 'e + 's" and inv :: "'s \<Rightarrow> bool" +
  fixes rank :: "'s \<Rightarrow> nat"
  assumes step_rank: "inv s \<Longrightarrow> step i s = Inr t \<Longrightarrow> rank s \<le> rank t"
begin

lemma run_rank: "inv s \<Longrightarrow> rank s \<le> rank (run_machine step is s)"
proof (induction "is" arbitrary: s)
  case Nil
  then show ?case by simp
next
  case (Cons i "is")
  show ?case
  proof (cases "step i s")
    case (Inl e)
    then show ?thesis using Cons by simp
  next
    case (Inr t)
    then have "inv t" "rank s \<le> rank t"
      using Cons.prems step_inv step_rank by blast+
    then show ?thesis using Inr Cons.IH [of t] by simp
  qed
qed

end

text \<open>Sorting by a key that a mapped function reads.\<close>

lemma insort_key_map: "insort_key g (h x) (map h xs) = map h (insort_key (\<lambda>x. g (h x)) x xs)"
  by (induction xs) auto

lemma sort_key_map: "sort_key g (map h xs) = map h (sort_key (\<lambda>x. g (h x)) xs)"
  by (induction xs) (simp_all add: insort_key_map)

end
