(* ===== verification/Utf8.thy ===== *)
theory Utf8
  imports Prelude
begin

text \<open>
  The two strict UTF-8 validators of the repository: \<open>cbor::valid_utf8\<close>
  (\<open>src/protocol_v2/cbor.cpp\<close>), which compares bytes with the ranges of the Unicode table,
  and \<open>sdk::detail::valid_utf8\<close> (\<open>src/sdk/json_internal.hpp\<close>), which decodes the code point and
  compares it with the least value of its width. The lemmas show that they accept the same
  byte strings.
\<close>

section \<open>The byte-range validator\<close>

text \<open>
  The index loop is a recursion on the unread bytes: \<open>index + k >= text.size()\<close> says that fewer
  than \<open>k\<close> bytes follow the first.
\<close>

fun cbor_valid_utf8 :: "bytes \<Rightarrow> bool" where
  "cbor_valid_utf8 [] = True"
| "cbor_valid_utf8 (first # rest) =
    (if first \<le> 0x7f then cbor_valid_utf8 rest
     else if 0xc2 \<le> first \<and> first \<le> 0xdf then
       (case rest of
          second # rest1 \<Rightarrow>
            if second < 0x80 \<or> 0xbf < second then False
            else cbor_valid_utf8 rest1
        | _ \<Rightarrow> False)
     else if 0xe0 \<le> first \<and> first \<le> 0xef then
       (case rest of
          second # third # rest2 \<Rightarrow>
            if third < 0x80 \<or> 0xbf < third \<or> second < 0x80 \<or> 0xbf < second then False
            else if (first = 0xe0 \<and> second < 0xa0) \<or> (first = 0xed \<and> 0x9f < second) then False
            else cbor_valid_utf8 rest2
        | _ \<Rightarrow> False)
     else if 0xf0 \<le> first \<and> first \<le> 0xf4 then
       (case rest of
          second # third # fourth # rest3 \<Rightarrow>
            if second < 0x80 \<or> 0xbf < second \<or> third < 0x80 \<or> 0xbf < third
               \<or> fourth < 0x80 \<or> 0xbf < fourth then False
            else if (first = 0xf0 \<and> second < 0x90) \<or> (first = 0xf4 \<and> 0x8f < second) then False
            else cbor_valid_utf8 rest3
        | _ \<Rightarrow> False)
     else False)"

section \<open>The code-point validator\<close>

text \<open>\<open>code_point = (code_point << 6U) | (continuation & 0x3fU);\<close>\<close>

definition code_point_step :: "u32 \<Rightarrow> byte \<Rightarrow> u32" where
  "code_point_step code_point c = push_bit 6 code_point OR (ucast c AND 0x3f)"

text \<open>
  The inner loop over the continuation bytes: \<open>Inl\<close> is the offset it returns early with,
  \<open>Inr\<close> the decoded code point with the bytes after the sequence.
\<close>

fun utf8_continuation :: "nat \<Rightarrow> nat \<Rightarrow> u32 \<Rightarrow> bytes \<Rightarrow> nat + u32 \<times> bytes" where
  "utf8_continuation 0 pos code_point input = Inr (code_point, input)"
| "utf8_continuation (Suc n) pos code_point [] = Inl pos"
| "utf8_continuation (Suc n) pos code_point (c # input) =
    (if c AND 0xc0 \<noteq> 0x80 then Inl pos
     else utf8_continuation n (Suc pos) (code_point_step code_point c) input)"

text \<open>Width, initial code point and least code point of a leading byte; \<open>None\<close> rejects it.\<close>

definition utf8_lead :: "byte \<Rightarrow> (nat \<times> u32 \<times> u32) option" where
  "utf8_lead first =
    (if 0xc2 \<le> first \<and> first \<le> 0xdf then Some (2, ucast first AND 0x1f, 0x80)
     else if 0xe0 \<le> first \<and> first \<le> 0xef then Some (3, ucast first AND 0x0f, 0x800)
     else if 0xf0 \<le> first \<and> first \<le> 0xf4 then Some (4, ucast first AND 0x07, 0x10000)
     else None)"

lemma utf8_continuation_length:
  "utf8_continuation n pos cp input = Inr (cp', rest) \<Longrightarrow> length rest \<le> length input"
proof (induction n pos cp input rule: utf8_continuation.induct)
  case (3 n pos cp c input)
  then show ?case by (fastforce split: if_splits)
qed auto

function invalid_utf8_offset_at :: "nat \<Rightarrow> bytes \<Rightarrow> nat option" where
  "invalid_utf8_offset_at index [] = None"
| "invalid_utf8_offset_at index (first # rest) =
    (if first \<le> 0x7f then invalid_utf8_offset_at (Suc index) rest
     else case utf8_lead first of
        None \<Rightarrow> Some index
      | Some (width, lead, minimum) \<Rightarrow>
          if width > length (first # rest) then Some index
          else case utf8_continuation (width - 1) (Suc index) lead rest of
              Inl bad \<Rightarrow> Some bad
            | Inr (code_point, rest') \<Rightarrow>
                if code_point < minimum \<or> 0x10ffff < code_point
                   \<or> (0xd800 \<le> code_point \<and> code_point \<le> 0xdfff)
                then Some index
                else invalid_utf8_offset_at (index + width) rest')"
  by pat_completeness auto
termination
  by (relation "measure (\<lambda>(i, bs). length bs)")
    (auto dest!: utf8_continuation_length)

definition sdk_valid_utf8 :: "bytes \<Rightarrow> bool" where
  "sdk_valid_utf8 input = (invalid_utf8_offset_at 0 input = None)"

section \<open>Arithmetic of one sequence\<close>

lemma byte_unat_less: "unat (b :: byte) < 256"
  by (rule order_less_le_trans [OF unsigned_less]) simp

lemma continuation_mask: "c AND 0xc0 = (0x80 :: byte) \<longleftrightarrow> 0x80 \<le> c \<and> c \<le> 0xbf"
proof -
  have "c AND NOT (mask 6) = push_bit 6 (drop_bit 6 c)"
    by (rule bit_word_eqI) (auto simp: bit_and_iff bit_not_iff bit_mask_iff bit_push_bit_iff bit_drop_bit_eq)
  moreover have "NOT (mask 6) = (0xc0 :: byte)"
    by (simp add: mask_eq_exp_minus_1)
  ultimately have "c AND 0xc0 = push_bit 6 (drop_bit 6 c)"
    by simp
  moreover have "unat (push_bit 6 (drop_bit 6 c)) = unat c div 64 * 64"
    using byte_unat_less [of c]
    by (simp add: push_bit_eq_mult drop_bit_eq_div unat_word_ariths unat_div)
  moreover have "unat c div 64 * 64 = 128 \<longleftrightarrow> 128 \<le> unat c \<and> unat c \<le> 191"
  proof
    assume "unat c div 64 * 64 = 128"
    then show "128 \<le> unat c \<and> unat c \<le> 191"
      using div_mult_mod_eq [of "unat c" 64] mod_less_divisor [of 64 "unat c"] by linarith
  next
    assume "128 \<le> unat c \<and> unat c \<le> 191"
    then have "unat c div 64 = 2"
      by (intro div_nat_eqI) simp_all
    then show "unat c div 64 * 64 = 128"
      by simp
  qed
  ultimately show ?thesis
    by (simp add: word_unat_eq_iff word_le_nat_alt)
qed

lemma unat_and_mask_u32: "unat (w AND mask n) = unat w mod 2 ^ n"
  by (simp add: unsigned_take_bit_eq flip: take_bit_eq_mask) (simp add: take_bit_eq_mod)

lemma unat_ucast_byte_u32 [simp]: "unat (ucast (b :: byte) :: u32) = unat b"
  by (simp add: unsigned_ucast_eq take_bit_eq_mod) (rule mod_less, rule order_less_le_trans [OF unsigned_less], simp)

lemma lead_bits:
  "unat (ucast (b :: byte) AND 0x1f :: u32) = unat b mod 32"
  "unat (ucast (b :: byte) AND 0x0f :: u32) = unat b mod 16"
  "unat (ucast (b :: byte) AND 0x07 :: u32) = unat b mod 8"
  "unat (ucast (b :: byte) AND 0x3f :: u32) = unat b mod 64"
  using unat_and_mask_u32 [of "ucast b :: u32" 5] unat_and_mask_u32 [of "ucast b :: u32" 4]
    unat_and_mask_u32 [of "ucast b :: u32" 3] unat_and_mask_u32 [of "ucast b :: u32" 6]
  by (simp_all add: mask_eq_exp_minus_1)

lemma shift_or_disjoint:
  "push_bit 6 cp OR (ucast (c :: byte) AND 0x3f) = push_bit 6 cp + (ucast c AND 0x3f :: u32)"
proof (rule disjunctive_add [symmetric])
  fix n
  have "bit (ucast c AND 0x3f :: u32) n \<Longrightarrow> n < 6"
    using bit_take_bit_iff [of 6 "ucast c :: u32" n] take_bit_eq_mask [of 6 "ucast c :: u32"]
    by (simp add: mask_eq_exp_minus_1)
  then show "\<not> bit (push_bit 6 cp) n \<or> \<not> bit (ucast c AND 0x3f :: u32) n"
    by (auto simp: bit_push_bit_iff)
qed

lemma unat_code_point_step:
  assumes "unat cp < 2 ^ 20"
  shows "unat (code_point_step cp c) = unat cp * 64 + unat c mod 64"
proof -
  have "unat (push_bit 6 cp) = unat cp * 64"
    using assms by (simp add: push_bit_eq_mult unat_word_ariths)
  moreover have "unat cp * 64 + unat c mod 64 < 2 ^ 32"
    using assms by simp
  ultimately show ?thesis
    by (simp add: code_point_step_def shift_or_disjoint unat_word_ariths lead_bits)
qed

lemma byte_le_unat: "(a :: byte) \<le> b \<longleftrightarrow> unat a \<le> unat b" "(a :: byte) < b \<longleftrightarrow> unat a < unat b"
  by (simp_all add: word_le_nat_alt word_less_nat_alt)

lemmas byte_arith = byte_le_unat continuation_mask lead_bits unat_code_point_step
  word_less_nat_alt [where 'a = 32] word_le_nat_alt [where 'a = 32]

lemma byte_mods:
  fixes n :: nat
  shows "0xc2 \<le> n \<Longrightarrow> n \<le> 0xdf \<Longrightarrow> n mod 32 = n - 0xc0"
    and "0xe0 \<le> n \<Longrightarrow> n \<le> 0xef \<Longrightarrow> n mod 16 = n - 0xe0"
    and "0xf0 \<le> n \<Longrightarrow> n \<le> 0xf4 \<Longrightarrow> n mod 8 = n - 0xf0"
    and "0x80 \<le> n \<Longrightarrow> n \<le> 0xbf \<Longrightarrow> n mod 64 = n - 0x80"
  by (rule mod_nat_eqI; simp add: diff_diff_cancel)+


section \<open>One sequence of each width\<close>

text \<open>The code-point conditions of a sequence, as the byte ranges the other validator uses.\<close>

lemma seq2_conditions:
  assumes "(0xc2 :: byte) \<le> f" "f \<le> 0xdf" "(0x80 :: byte) \<le> c" "c \<le> 0xbf"
  defines "cp \<equiv> code_point_step (ucast f AND 0x1f) c"
  shows "\<not> (cp < 0x80 \<or> 0x10ffff < cp \<or> (0xd800 \<le> cp \<and> cp \<le> 0xdfff))"
proof -
  have "unat cp = (unat f - 0xc0) * 64 + (unat c - 0x80)"
    using assms(1-4) unfolding cp_def by (simp add: byte_arith byte_mods)
  then show ?thesis
    using assms(1-4) by (simp add: byte_arith) arith
qed

lemma seq3_conditions:
  assumes "(0xe0 :: byte) \<le> f" "f \<le> 0xef" "(0x80 :: byte) \<le> c" "c \<le> 0xbf" "(0x80 :: byte) \<le> d" "d \<le> 0xbf"
  defines "cp \<equiv> code_point_step (code_point_step (ucast f AND 0x0f) c) d"
  shows "(cp < 0x800 \<or> 0x10ffff < cp \<or> (0xd800 \<le> cp \<and> cp \<le> 0xdfff))
    \<longleftrightarrow> (f = 0xe0 \<and> c < 0xa0) \<or> (f = 0xed \<and> 0x9f < c)"
proof -
  have eq: "unat cp = ((unat f - 0xe0) * 64 + (unat c - 0x80)) * 64 + (unat d - 0x80)"
    using assms(1-6) unfolding cp_def by (simp add: byte_arith byte_mods)
  have "f = 0xe0 \<longleftrightarrow> unat f = 0xe0" "f = 0xed \<longleftrightarrow> unat f = 0xed"
    by (simp_all add: word_unat_eq_iff)
  then show ?thesis
    using assms(1-6) by (simp add: byte_arith eq) arith
qed

lemma seq4_conditions:
  assumes "(0xf0 :: byte) \<le> f" "f \<le> 0xf4" "(0x80 :: byte) \<le> c" "c \<le> 0xbf" "(0x80 :: byte) \<le> d" "d \<le> 0xbf"
    "(0x80 :: byte) \<le> e" "e \<le> 0xbf"
  defines "cp \<equiv> code_point_step (code_point_step (code_point_step (ucast f AND 0x07) c) d) e"
  shows "(cp < 0x10000 \<or> 0x10ffff < cp \<or> (0xd800 \<le> cp \<and> cp \<le> 0xdfff))
    \<longleftrightarrow> (f = 0xf0 \<and> c < 0x90) \<or> (f = 0xf4 \<and> 0x8f < c)"
proof -
  have eq: "unat cp = (((unat f - 0xf0) * 64 + (unat c - 0x80)) * 64 + (unat d - 0x80)) * 64 + (unat e - 0x80)"
    using assms(1-8) unfolding cp_def by (simp add: byte_arith byte_mods)
  have "f = 0xf0 \<longleftrightarrow> unat f = 0xf0" "f = 0xf4 \<longleftrightarrow> unat f = 0xf4"
    by (simp_all add: word_unat_eq_iff)
  then show ?thesis
    using assms(1-8) by (simp add: byte_arith eq) arith
qed


section \<open>Equivalence of the two validators\<close>

text \<open>
  One iteration of either loop, per width of the leading byte. A sequence of two, three or four
  bytes is accepted under the same conditions by both.
\<close>

definition cont_byte :: "byte \<Rightarrow> bool" where
  "cont_byte c = (0x80 \<le> c \<and> c \<le> 0xbf)"

declare cbor_valid_utf8.simps(2) [simp del] invalid_utf8_offset_at.simps(2) [simp del]

lemma lead_exclusive:
  "(f :: byte) \<le> 0xdf \<Longrightarrow> \<not> 0xe0 \<le> f" "(f :: byte) \<le> 0xef \<Longrightarrow> \<not> 0xf0 \<le> f"
  "(0xc2 :: byte) \<le> f \<Longrightarrow> \<not> f \<le> 0x7f" "(0xe0 :: byte) \<le> f \<Longrightarrow> \<not> f \<le> 0x7f"
  "(0xf0 :: byte) \<le> f \<Longrightarrow> \<not> f \<le> 0x7f" "(0xe0 :: byte) \<le> f \<Longrightarrow> \<not> f \<le> 0xdf"
  "(0xf0 :: byte) \<le> f \<Longrightarrow> \<not> f \<le> 0xdf" "(0xf0 :: byte) \<le> f \<Longrightarrow> \<not> f \<le> 0xef"
  by (simp_all add: byte_le_unat)

lemma ascii_step:
  assumes "f \<le> 0x7f"
  shows "invalid_utf8_offset_at i (f # rest) = invalid_utf8_offset_at (Suc i) rest"
    and "cbor_valid_utf8 (f # rest) = cbor_valid_utf8 rest"
  using assms by (simp_all add: invalid_utf8_offset_at.simps(2) cbor_valid_utf8.simps(2))

lemma cbor_seq2:
  assumes "0xc2 \<le> f" "f \<le> 0xdf"
  shows "cbor_valid_utf8 (f # rest) \<longleftrightarrow> (\<exists>c r. rest = c # r \<and> cont_byte c \<and> cbor_valid_utf8 r)"
  using assms by (auto simp: cbor_valid_utf8.simps(2) lead_exclusive cont_byte_def not_le not_less split: list.splits)

lemma cbor_seq3:
  assumes "0xe0 \<le> f" "f \<le> 0xef"
  shows "cbor_valid_utf8 (f # rest) \<longleftrightarrow> (\<exists>c d r. rest = c # d # r \<and> cont_byte c \<and> cont_byte d
    \<and> \<not> ((f = 0xe0 \<and> c < 0xa0) \<or> (f = 0xed \<and> 0x9f < c)) \<and> cbor_valid_utf8 r)"
proof -
  have lead: "\<not> f \<le> 0x7f" "\<not> (0xc2 \<le> f \<and> f \<le> 0xdf)" "0xe0 \<le> f \<and> f \<le> 0xef"
    using assms by (simp_all add: lead_exclusive)
  show ?thesis
    unfolding cbor_valid_utf8.simps(2) if_not_P [OF lead(1)] if_not_P [OF lead(2)] if_P [OF lead(3)]
    by (cases rest; cases "tl rest") (auto simp: cont_byte_def not_le not_less)
qed

lemma cbor_seq4:
  assumes "0xf0 \<le> f" "f \<le> 0xf4"
  shows "cbor_valid_utf8 (f # rest) \<longleftrightarrow> (\<exists>c d e r. rest = c # d # e # r \<and> cont_byte c \<and> cont_byte d
    \<and> cont_byte e \<and> \<not> ((f = 0xf0 \<and> c < 0x90) \<or> (f = 0xf4 \<and> 0x8f < c)) \<and> cbor_valid_utf8 r)"
proof -
  have lead: "\<not> f \<le> 0x7f" "\<not> (0xc2 \<le> f \<and> f \<le> 0xdf)" "\<not> (0xe0 \<le> f \<and> f \<le> 0xef)" "0xf0 \<le> f \<and> f \<le> 0xf4"
    using assms by (simp_all add: lead_exclusive)
  show ?thesis
    unfolding cbor_valid_utf8.simps(2) if_not_P [OF lead(1)] if_not_P [OF lead(2)] if_not_P [OF lead(3)]
      if_P [OF lead(4)]
    by (cases rest; cases "tl rest"; cases "tl (tl rest)") (auto simp: cont_byte_def not_le not_less)
qed

lemma sdk_seq2:
  assumes "0xc2 \<le> f" "f \<le> 0xdf"
  shows "invalid_utf8_offset_at i (f # rest) = None
    \<longleftrightarrow> (\<exists>c r. rest = c # r \<and> cont_byte c \<and> invalid_utf8_offset_at (i + 2) r = None)"
  using assms seq2_conditions [OF assms]
  by (cases rest)
    (auto simp: invalid_utf8_offset_at.simps(2) utf8_lead_def lead_exclusive cont_byte_def continuation_mask)

lemma continuation_1:
  "utf8_continuation (Suc 0) p cp (c # r)
    = (if cont_byte c then Inr (code_point_step cp c, r) else Inl p)"
  by (simp add: cont_byte_def continuation_mask)

lemma continuation_Suc:
  "utf8_continuation (Suc n) p cp (c # r)
    = (if cont_byte c then utf8_continuation n (Suc p) (code_point_step cp c) r else Inl p)"
  by (simp add: cont_byte_def continuation_mask)

declare utf8_continuation.simps(3) [simp del]

lemma sdk_seq3:
  assumes "0xe0 \<le> f" "f \<le> 0xef"
  shows "invalid_utf8_offset_at i (f # rest) = None
    \<longleftrightarrow> (\<exists>c d r. rest = c # d # r \<and> cont_byte c \<and> cont_byte d
      \<and> \<not> ((f = 0xe0 \<and> c < 0xa0) \<or> (f = 0xed \<and> 0x9f < c)) \<and> invalid_utf8_offset_at (i + 3) r = None)"
proof (cases "\<exists>c d r. rest = c # d # r")
  case True
  then obtain c d r where rest: "rest = c # d # r" by blast
  show ?thesis
  proof (cases "cont_byte c \<and> cont_byte d")
    case True
    have cond: "(let cp = code_point_step (code_point_step (ucast f AND 0x0f) c) d
      in cp < 0x800 \<or> 0x10ffff < cp \<or> (0xd800 \<le> cp \<and> cp \<le> 0xdfff))
      \<longleftrightarrow> (f = 0xe0 \<and> c < 0xa0) \<or> (f = 0xed \<and> 0x9f < c)"
      using True seq3_conditions [OF assms, of c d] by (simp add: cont_byte_def Let_def)
    show ?thesis
      using assms True cond unfolding rest invalid_utf8_offset_at.simps(2)
      by (simp add: utf8_lead_def lead_exclusive continuation_Suc numeral_2_eq_2 Let_def)
  next
    case False
    then show ?thesis
      using assms unfolding rest invalid_utf8_offset_at.simps(2)
      by (auto simp: utf8_lead_def lead_exclusive continuation_Suc numeral_2_eq_2)
  qed
next
  case False
  then have "length rest < 2" by (cases rest; cases "tl rest") auto
  with False show ?thesis
    using assms unfolding invalid_utf8_offset_at.simps(2)
    by (auto simp: utf8_lead_def lead_exclusive)
qed

lemma sdk_seq4:
  assumes "0xf0 \<le> f" "f \<le> 0xf4"
  shows "invalid_utf8_offset_at i (f # rest) = None
    \<longleftrightarrow> (\<exists>c d e r. rest = c # d # e # r \<and> cont_byte c \<and> cont_byte d \<and> cont_byte e
      \<and> \<not> ((f = 0xf0 \<and> c < 0x90) \<or> (f = 0xf4 \<and> 0x8f < c)) \<and> invalid_utf8_offset_at (i + 4) r = None)"
proof (cases "\<exists>c d e r. rest = c # d # e # r")
  case True
  then obtain c d e r where rest: "rest = c # d # e # r" by blast
  show ?thesis
  proof (cases "cont_byte c \<and> cont_byte d \<and> cont_byte e")
    case True
    have cond: "(let cp = code_point_step (code_point_step (code_point_step (ucast f AND 0x07) c) d) e
      in cp < 0x10000 \<or> 0x10ffff < cp \<or> (0xd800 \<le> cp \<and> cp \<le> 0xdfff))
      \<longleftrightarrow> (f = 0xf0 \<and> c < 0x90) \<or> (f = 0xf4 \<and> 0x8f < c)"
      using True seq4_conditions [OF assms, of c d e] by (simp add: cont_byte_def Let_def)
    show ?thesis
      using assms True cond unfolding rest invalid_utf8_offset_at.simps(2)
      by (simp add: utf8_lead_def lead_exclusive continuation_Suc numeral_3_eq_3 Let_def)
  next
    case False
    then show ?thesis
      using assms unfolding rest invalid_utf8_offset_at.simps(2)
      by (auto simp: utf8_lead_def lead_exclusive continuation_Suc numeral_3_eq_3)
  qed
next
  case False
  then have "length rest < 3" by (cases rest; cases "tl rest"; cases "tl (tl rest)") auto
  with False show ?thesis
    using assms unfolding invalid_utf8_offset_at.simps(2)
    by (auto simp: utf8_lead_def lead_exclusive)
qed

lemma no_lead_step:
  assumes "\<not> f \<le> 0x7f" "\<not> (0xc2 \<le> f \<and> f \<le> 0xdf)" "\<not> (0xe0 \<le> f \<and> f \<le> 0xef)" "\<not> (0xf0 \<le> f \<and> f \<le> 0xf4)"
  shows "invalid_utf8_offset_at i (f # rest) = Some i" and "\<not> cbor_valid_utf8 (f # rest)"
proof -
  have "utf8_lead f = None"
    using assms by (auto simp: utf8_lead_def)
  then show "invalid_utf8_offset_at i (f # rest) = Some i"
    using assms(1) by (simp add: invalid_utf8_offset_at.simps(2))
  show "\<not> cbor_valid_utf8 (f # rest)"
    using assms by (auto simp: cbor_valid_utf8.simps(2))
qed

lemma validators_agree: "invalid_utf8_offset_at i bs = None \<longleftrightarrow> cbor_valid_utf8 bs"
proof (induction bs arbitrary: i rule: length_induct)
  case (1 bs)
  show ?case
  proof (cases bs)
    case Nil
    then show ?thesis by simp
  next
    case (Cons f rest)
    have IH: "invalid_utf8_offset_at j r = None \<longleftrightarrow> cbor_valid_utf8 r" if "length r \<le> length rest" for j r
      using 1 that Cons by simp
    consider "f \<le> 0x7f" | "0xc2 \<le> f" "f \<le> 0xdf" | "0xe0 \<le> f" "f \<le> 0xef" | "0xf0 \<le> f" "f \<le> 0xf4"
      | "\<not> f \<le> 0x7f" "\<not> (0xc2 \<le> f \<and> f \<le> 0xdf)" "\<not> (0xe0 \<le> f \<and> f \<le> 0xef)" "\<not> (0xf0 \<le> f \<and> f \<le> 0xf4)"
      by blast
    then show ?thesis
    proof cases
      case 1
      then show ?thesis unfolding Cons by (simp add: ascii_step IH)
    next
      case 2
      then show ?thesis unfolding Cons sdk_seq2 [OF 2] cbor_seq2 [OF 2] by (auto simp: IH)
    next
      case 3
      then show ?thesis unfolding Cons sdk_seq3 [OF 3] cbor_seq3 [OF 3] by (auto simp: IH)
    next
      case 4
      then show ?thesis unfolding Cons sdk_seq4 [OF 4] cbor_seq4 [OF 4] by (auto simp: IH)
    next
      case 5
      then show ?thesis unfolding Cons by (simp add: no_lead_step)
    qed
  qed
qed

section \<open>Induction over the scalars of a valid string\<close>

definition continuation_count :: "byte \<Rightarrow> nat" where
  "continuation_count f = (if f \<le> 0x7f then 0 else if f \<le> 0xdf then 1 else if f \<le> 0xef then 2 else 3)"

lemma lower_hex_ascii: "lower_hex c \<Longrightarrow> byte_of_char c \<le> 0x7f"
  by (auto simp: lower_hex_def Let_def byte_le_unat)

text \<open>ASCII is valid.\<close>

lemma ascii_valid_utf8:
  assumes "list_all (\<lambda>b. b \<le> 0x7f) bs"
  shows "cbor_valid_utf8 bs" "sdk_valid_utf8 bs"
proof -
  show c: "cbor_valid_utf8 bs"
    using assms by (induction bs) (simp_all add: ascii_step)
  then show "sdk_valid_utf8 bs"
    by (simp add: sdk_valid_utf8_def validators_agree)
qed

lemma valid_utf8_ConsE:
  assumes "cbor_valid_utf8 (f # rest)"
  obtains cs r where "rest = cs @ r" "length cs = continuation_count f" "list_all cont_byte cs"
    "cbor_valid_utf8 r" "\<not> cont_byte f"
proof -
  consider "f \<le> 0x7f" | "0xc2 \<le> f" "f \<le> 0xdf" | "0xe0 \<le> f" "f \<le> 0xef" | "0xf0 \<le> f" "f \<le> 0xf4"
    using assms no_lead_step(2) [of f rest] by blast
  then show thesis
  proof cases
    case 1
    then have "\<not> cont_byte f" by (simp add: cont_byte_def byte_le_unat)
    with 1 show thesis
      using that [of "[]" rest] assms by (simp add: ascii_step continuation_count_def)
  next
    case 2
    then obtain c r where "rest = c # r" "cont_byte c" "cbor_valid_utf8 r"
      using assms by (auto simp: cbor_seq2)
    moreover have "\<not> cont_byte f" using 2 by (simp add: cont_byte_def byte_le_unat)
    ultimately show thesis
      using that [of "[c]" r] 2 by (simp add: continuation_count_def lead_exclusive)
  next
    case 3
    then obtain c d r where "rest = c # d # r" "cont_byte c" "cont_byte d" "cbor_valid_utf8 r"
      using assms by (auto simp: cbor_seq3)
    moreover have "\<not> cont_byte f" using 3 by (simp add: cont_byte_def byte_le_unat)
    ultimately show thesis
      using that [of "[c, d]" r] 3 by (simp add: continuation_count_def lead_exclusive)
  next
    case 4
    then obtain c d e r where "rest = c # d # e # r" "cont_byte c" "cont_byte d" "cont_byte e" "cbor_valid_utf8 r"
      using assms by (auto simp: cbor_seq4)
    moreover have "\<not> cont_byte f" using 4 by (simp add: cont_byte_def byte_le_unat)
    ultimately show thesis
      using that [of "[c, d, e]" r] 4 by (simp add: continuation_count_def lead_exclusive)
  qed
qed

lemma valid_utf8_induct [consumes 1, case_names Nil scalar]:
  assumes "cbor_valid_utf8 bs"
    and "P []"
    and "\<And>f cs r. length cs = continuation_count f \<Longrightarrow> list_all cont_byte cs \<Longrightarrow> \<not> cont_byte f \<Longrightarrow>
      cbor_valid_utf8 r \<Longrightarrow> P r \<Longrightarrow> P (f # cs @ r)"
  shows "P bs"
  using assms(1)
proof (induction bs rule: length_induct)
  case (1 bs)
  show ?case
  proof (cases bs)
    case Nil
    then show ?thesis using assms(2) by simp
  next
    case (Cons f rest)
    then obtain cs r where d: "rest = cs @ r" "length cs = continuation_count f" "list_all cont_byte cs"
      "cbor_valid_utf8 r" "\<not> cont_byte f"
      using "1.prems" valid_utf8_ConsE by blast
    then have "P r" using "1.IH" Cons by simp
    then show ?thesis using assms(3) [OF d(2,3,5,4)] by (simp add: Cons d(1))
  qed
qed

text \<open>
  C17: the byte-range validator of the CBOR codec and the code-point validator of the SDK accept
  exactly the same byte strings, so text that one layer admits is never rejected by the other.
\<close>

theorem utf8_validators_agree: "sdk_valid_utf8 bs = cbor_valid_utf8 bs"
  by (simp add: sdk_valid_utf8_def validators_agree)

end
