(* ===== verification/Sha256.thy ===== *)
theory Sha256
  imports Prelude
begin

text \<open>
  The two SHA-256 implementations of the repository: the one-shot \<open>sha256_words\<close> of
  \<open>src/sdk/common.cpp\<close>, behind every semantic and content digest, and the streaming
  \<open>sha256_workspace\<close> of \<open>src/protocol_v2/codec.cpp\<close>, which hashes wire frames in a fixed
  buffer. The lemmas lead to their equality on every input.
\<close>

section \<open>Shared constants\<close>

definition sha256_constants :: "u32 list" where
  "sha256_constants = concat [
    [0x428a2f98, 0x71374491, 0xb5c0fbcf, 0xe9b5dba5, 0x3956c25b, 0x59f111f1],
    [0x923f82a4, 0xab1c5ed5, 0xd807aa98, 0x12835b01, 0x243185be, 0x550c7dc3],
    [0x72be5d74, 0x80deb1fe, 0x9bdc06a7, 0xc19bf174, 0xe49b69c1, 0xefbe4786],
    [0x0fc19dc6, 0x240ca1cc, 0x2de92c6f, 0x4a7484aa, 0x5cb0a9dc, 0x76f988da],
    [0x983e5152, 0xa831c66d, 0xb00327c8, 0xbf597fc7, 0xc6e00bf3, 0xd5a79147],
    [0x06ca6351, 0x14292967, 0x27b70a85, 0x2e1b2138, 0x4d2c6dfc, 0x53380d13],
    [0x650a7354, 0x766a0abb, 0x81c2c92e, 0x92722c85, 0xa2bfe8a1, 0xa81a664b],
    [0xc24b8b70, 0xc76c51a3, 0xd192e819, 0xd6990624, 0xf40e3585, 0x106aa070],
    [0x19a4c116, 0x1e376c08, 0x2748774c, 0x34b0bcb5, 0x391c0cb3, 0x4ed8aa4a],
    [0x5b9cca4f, 0x682e6ff3, 0x748f82ee, 0x78a5636f, 0x84c87814, 0x8cc70208],
    [0x90befffa, 0xa4506ceb, 0xbef9a3f7, 0xc67178f2]]"

text \<open>\<open>round_constants\<close> of \<open>common.cpp\<close> is a second copy of the same table.\<close>

definition round_constants :: "u32 list" where
  "round_constants = concat [
    [0x428a2f98, 0x71374491, 0xb5c0fbcf, 0xe9b5dba5, 0x3956c25b, 0x59f111f1],
    [0x923f82a4, 0xab1c5ed5, 0xd807aa98, 0x12835b01, 0x243185be, 0x550c7dc3],
    [0x72be5d74, 0x80deb1fe, 0x9bdc06a7, 0xc19bf174, 0xe49b69c1, 0xefbe4786],
    [0x0fc19dc6, 0x240ca1cc, 0x2de92c6f, 0x4a7484aa, 0x5cb0a9dc, 0x76f988da],
    [0x983e5152, 0xa831c66d, 0xb00327c8, 0xbf597fc7, 0xc6e00bf3, 0xd5a79147],
    [0x06ca6351, 0x14292967, 0x27b70a85, 0x2e1b2138, 0x4d2c6dfc, 0x53380d13],
    [0x650a7354, 0x766a0abb, 0x81c2c92e, 0x92722c85, 0xa2bfe8a1, 0xa81a664b],
    [0xc24b8b70, 0xc76c51a3, 0xd192e819, 0xd6990624, 0xf40e3585, 0x106aa070],
    [0x19a4c116, 0x1e376c08, 0x2748774c, 0x34b0bcb5, 0x391c0cb3, 0x4ed8aa4a],
    [0x5b9cca4f, 0x682e6ff3, 0x748f82ee, 0x78a5636f, 0x84c87814, 0x8cc70208],
    [0x90befffa, 0xa4506ceb, 0xbef9a3f7, 0xc67178f2]]"

definition sha256_initial :: "u32 list" where
  "sha256_initial = [0x6a09e667, 0xbb67ae85, 0x3c6ef372, 0xa54ff53a,
    0x510e527f, 0x9b05688c, 0x1f83d9ab, 0x5be0cd19]"

text \<open>Four bytes of the message, most significant first.\<close>

definition word_at :: "bytes \<Rightarrow> nat \<Rightarrow> u32" where
  "word_at bs i = push_bit 24 (ucast (bs ! i)) OR push_bit 16 (ucast (bs ! (i + 1)))
    OR push_bit 8 (ucast (bs ! (i + 2))) OR ucast (bs ! (i + 3))"

section \<open>One-shot implementation\<close>

definition schedule_word :: "u32 list \<Rightarrow> nat \<Rightarrow> u32" where
  "schedule_word w i =
    (let s0 = word_rotr 7 (w ! (i - 15)) XOR word_rotr 18 (w ! (i - 15)) XOR drop_bit 3 (w ! (i - 15));
         s1 = word_rotr 17 (w ! (i - 2)) XOR word_rotr 19 (w ! (i - 2)) XOR drop_bit 10 (w ! (i - 2))
     in w ! (i - 16) + s0 + w ! (i - 7) + s1)"

definition block_words :: "bytes \<Rightarrow> nat \<Rightarrow> u32 list" where
  "block_words bs offset =
    fold (\<lambda>i w. w[i := schedule_word w i]) [16..<64]
      (fold (\<lambda>i w. w[i := word_at bs (offset + i * 4)]) [0..<16] (replicate 64 0))"

text \<open>One round on the structured binding \<open>auto [a, b, c, d, e, f, g, h] = state\<close>.\<close>

fun sha256_round :: "u32 list \<Rightarrow> nat \<Rightarrow> u32 list \<Rightarrow> u32 list" where
  "sha256_round w i [a, b, c, d, e, f, g, h] =
    (let chosen = (e AND f) XOR (NOT e AND g);
         majority = (a AND b) XOR (a AND c) XOR (b AND c);
         upper_a = word_rotr 2 a XOR word_rotr 13 a XOR word_rotr 22 a;
         upper_e = word_rotr 6 e XOR word_rotr 11 e XOR word_rotr 25 e;
         first = h + upper_e + chosen + round_constants ! i + w ! i;
         second = upper_a + majority
     in [first + second, a, b, c, d + first, e, f, g])"
| "sha256_round w i st = st"

definition sha256_block :: "bytes \<Rightarrow> nat \<Rightarrow> u32 list \<Rightarrow> u32 list" where
  "sha256_block bs offset st =
    (let w = block_words bs offset
     in map2 (+) st (fold (sha256_round w) [0..<64] st))"

function sha256_blocks :: "bytes \<Rightarrow> nat \<Rightarrow> u32 list \<Rightarrow> u32 list" where
  "sha256_blocks bs offset st =
    (if offset < length bs then sha256_blocks bs (offset + 64) (sha256_block bs offset st) else st)"
  by pat_completeness auto
termination
  by (relation "measure (\<lambda>(bs, offset, st). length bs - offset)") auto

declare sha256_blocks.simps [simp del]

text \<open>\<open>while (bytes.size() % 64U != 56U) bytes.push_back(0U);\<close>\<close>

function pad_zeros :: "bytes \<Rightarrow> bytes" where
  "pad_zeros bs = (if length bs mod 64 \<noteq> 56 then pad_zeros (bs @ [0]) else bs)"
  by pat_completeness auto
termination
proof (relation "measure (\<lambda>bs. let m = length bs mod 64 in if m \<le> 56 then 56 - m else 120 - m)")
  fix bs :: bytes
  assume "length bs mod 64 \<noteq> 56"
  moreover have "length bs mod 64 < 64" by simp
  ultimately show "(bs @ [0], bs) \<in> measure (\<lambda>bs. let m = length bs mod 64 in if m \<le> 56 then 56 - m else 120 - m)"
    by (auto simp: Let_def mod_Suc)
qed simp

declare pad_zeros.simps [simp del]

definition sha256_words :: "bytes \<Rightarrow> u32 list" where
  "sha256_words input =
    (let bit_length = word_of_nat (length input) * 8;
         padded = pad_zeros (input @ [0x80]) @ be_bytes 8 bit_length
     in sha256_blocks padded 0 sha256_initial)"

section \<open>Streaming implementation\<close>

record sha256_workspace =
  ws_state :: "u32 list"
  ws_buffer :: bytes
  ws_schedule :: "u32 list"
  ws_working :: "u32 list"
  ws_buffer_size :: nat
  ws_bit_length :: u64

definition sha256_workspace_new :: sha256_workspace where
  "sha256_workspace_new = \<lparr>ws_state = sha256_initial, ws_buffer = replicate 64 0,
    ws_schedule = replicate 64 0, ws_working = replicate 8 0, ws_buffer_size = 0, ws_bit_length = 0\<rparr>"

definition rotate_right :: "u32 \<Rightarrow> nat \<Rightarrow> u32" where
  "rotate_right value amount = drop_bit amount value OR push_bit (32 - amount) value"

definition schedule_step :: "nat \<Rightarrow> u32 list \<Rightarrow> u32 list" where
  "schedule_step i w =
    (let s0 = rotate_right (w ! (i - 15)) 7 XOR rotate_right (w ! (i - 15)) 18 XOR drop_bit 3 (w ! (i - 15));
         s1 = rotate_right (w ! (i - 2)) 17 XOR rotate_right (w ! (i - 2)) 19 XOR drop_bit 10 (w ! (i - 2))
     in w[i := w ! (i - 16) + s0 + w ! (i - 7) + s1])"

text \<open>The eight assignments of one round, in the order of the source.\<close>

definition working_step :: "u32 list \<Rightarrow> nat \<Rightarrow> u32 list \<Rightarrow> u32 list" where
  "working_step schedule i w0 =
    (let s1 = rotate_right (w0 ! 4) 6 XOR rotate_right (w0 ! 4) 11 XOR rotate_right (w0 ! 4) 25;
         chosen = (w0 ! 4 AND w0 ! 5) XOR (NOT (w0 ! 4) AND w0 ! 6);
         temp1 = w0 ! 7 + s1 + chosen + sha256_constants ! i + schedule ! i;
         s0 = rotate_right (w0 ! 0) 2 XOR rotate_right (w0 ! 0) 13 XOR rotate_right (w0 ! 0) 22;
         majority = (w0 ! 0 AND w0 ! 1) XOR (w0 ! 0 AND w0 ! 2) XOR (w0 ! 1 AND w0 ! 2);
         temp2 = s0 + majority;
         w1 = w0[7 := w0 ! 6];
         w2 = w1[6 := w1 ! 5];
         w3 = w2[5 := w2 ! 4];
         w4 = w3[4 := w3 ! 3 + temp1];
         w5 = w4[3 := w4 ! 2];
         w6 = w5[2 := w5 ! 1];
         w7 = w6[1 := w6 ! 0]
     in w7[0 := temp1 + temp2])"

definition sha256_transform :: "bytes \<Rightarrow> sha256_workspace \<Rightarrow> sha256_workspace" where
  "sha256_transform input ws =
    (let sched16 = fold (\<lambda>i w. w[i := word_at input (i * 4)]) [0..<16] (ws_schedule ws);
         sched = fold schedule_step [16..<64] sched16;
         working = fold (working_step sched) [0..<64] (ws_state ws);
         st = fold (\<lambda>i s. s[i := s ! i + working ! i]) [0..<8] (ws_state ws)
     in ws\<lparr>ws_schedule := sched, ws_working := working, ws_state := st\<rparr>)"

definition sha256_push :: "byte \<Rightarrow> sha256_workspace \<Rightarrow> sha256_workspace" where
  "sha256_push item ws =
    (let buffer = (ws_buffer ws)[ws_buffer_size ws := item];
         ws1 = ws\<lparr>ws_buffer := buffer, ws_buffer_size := ws_buffer_size ws + 1\<rparr>
     in if ws_buffer_size ws1 = length buffer
        then (sha256_transform buffer ws1)\<lparr>ws_buffer_size := 0\<rparr>
        else ws1)"

definition sha256_update :: "bytes \<Rightarrow> sha256_workspace \<Rightarrow> sha256_workspace" where
  "sha256_update input ws =
    (let ws1 = fold sha256_push input ws
     in ws1\<lparr>ws_bit_length := ws_bit_length ws1 + word_of_nat (length input) * 8\<rparr>)"

text \<open>\<open>std::fill(buffer_.begin() + from, buffer_.begin() + to, 0U)\<close>\<close>

definition fill_zero :: "nat \<Rightarrow> nat \<Rightarrow> bytes \<Rightarrow> bytes" where
  "fill_zero start stop buffer = fold (\<lambda>i b. b[i := 0]) [start..<stop] buffer"

definition state_bytes :: "u32 list \<Rightarrow> bytes" where
  "state_bytes st = concat (map (\<lambda>w. [ucast (drop_bit 24 w), ucast (drop_bit 16 w), ucast (drop_bit 8 w), ucast w]) st)"

definition sha256_finish :: "sha256_workspace \<Rightarrow> bytes" where
  "sha256_finish ws0 =
    (let ws1 = ws0\<lparr>ws_buffer := (ws_buffer ws0)[ws_buffer_size ws0 := 0x80],
           ws_buffer_size := ws_buffer_size ws0 + 1\<rparr>;
         ws2 = (if ws_buffer_size ws1 > 56
                then let b = fill_zero (ws_buffer_size ws1) (length (ws_buffer ws1)) (ws_buffer ws1)
                     in (sha256_transform b (ws1\<lparr>ws_buffer := b\<rparr>))\<lparr>ws_buffer_size := 0\<rparr>
                else ws1);
         b3 = fill_zero (ws_buffer_size ws2) 56 (ws_buffer ws2);
         b4 = fold (\<lambda>i b. b[56 + i := ucast (drop_bit (56 - i * 8) (ws_bit_length ws2))]) [0..<8] b3;
         ws4 = sha256_transform b4 (ws2\<lparr>ws_buffer := b4\<rparr>)
     in state_bytes (ws_state ws4))"

definition sha256 :: "bytes \<Rightarrow> bytes" where
  "sha256 input = sha256_finish (sha256_update input sha256_workspace_new)"

section \<open>Rounds and schedules agree\<close>

lemma round_constants_eq: "round_constants = sha256_constants"
  by (simp add: round_constants_def sha256_constants_def)

lemma word_rotr_rotate_right:
  assumes "0 < n" "n < 32"
  shows "word_rotr n w = rotate_right w n"
proof (rule bit_word_eqI)
  fix k assume k: "k < LENGTH(32)"
  show "bit (word_rotr n w) k = bit (rotate_right w n) k"
  proof (cases "k + n < 32")
    case True
    then have "\<not> 32 - n \<le> k" by linarith
    then show ?thesis
      using True assms k by (simp add: rotate_right_def bit_word_rotr_iff bit_or_iff bit_push_bit_iff bit_drop_bit_eq add.commute)
  next
    case False
    then have "(k + n) mod 32 = k - (32 - n)" and "32 - n \<le> k"
      using assms k by (simp_all add: mod_if)
    moreover have "\<not> bit w (k + n)"
      using False by (auto dest: bit_imp_le_length)
    ultimately show ?thesis
      using assms k False
      by (simp add: rotate_right_def bit_word_rotr_iff bit_or_iff bit_push_bit_iff bit_drop_bit_eq add.commute)
  qed
qed

lemma schedule_step_eq: "schedule_step = (\<lambda>i w. w[i := schedule_word w i])"
  by (simp add: fun_eq_iff schedule_step_def schedule_word_def word_rotr_rotate_right Let_def)

text \<open>
  A loop that fills an array from left to right, each entry from the entries before it, does not
  depend on what the array held: the persistent \<open>schedule_\<close> member is scratch space.
\<close>

lemma fold_update_take:
  fixes f :: "nat \<Rightarrow> 'a list \<Rightarrow> 'a"
  assumes "k \<le> m" "m \<le> length w" "length w = length w'" "take k w = take k w'"
    and dep: "\<And>i v v'. k \<le> i \<Longrightarrow> i < m \<Longrightarrow> length v = length w \<Longrightarrow> length v' = length w \<Longrightarrow>
      take i v = take i v' \<Longrightarrow> f i v = f i v'"
  shows "take m (fold (\<lambda>i v. v[i := f i v]) [k..<m] w) = take m (fold (\<lambda>i v. v[i := f i v]) [k..<m] w')"
  using assms
proof (induction "m - k" arbitrary: m)
  case 0
  show ?case using "0.hyps" "0.prems"(1-4) by simp
next
  case (Suc d)
  from Suc.hyps(2) obtain m' where m: "m = Suc m'" by (cases m) auto
  let ?F = "\<lambda>v. fold (\<lambda>i v. v[i := f i v]) [k..<m'] v"
  have len: "length (?F v) = length v" for v
    by (induction m') auto
  have eq: "take m' (?F w) = take m' (?F w')"
  proof (rule Suc.hyps(1))
    show "d = m' - k" "k \<le> m'" "m' \<le> length w" "length w = length w'" "take k w = take k w'"
      using Suc.hyps(2) Suc.prems(1-4) m by simp_all
  next
    fix i :: nat and v v' :: "'a list"
    assume "k \<le> i" "i < m'" "length v = length w" "length v' = length w" "take i v = take i v'"
    then show "f i v = f i v'"
      using m by (intro Suc.prems(5)) simp_all
  qed
  have "f m' (?F w) = f m' (?F w')"
    using Suc.prems(1-4) Suc.hyps(2) m eq by (intro Suc.prems(5)) (simp_all add: len)
  moreover have "k \<le> m'" "m' < length w" "m' < length w'"
    using Suc.prems(1-3) Suc.hyps(2) m by simp_all
  ultimately show ?case
    unfolding m using eq by (simp add: len take_Suc_conv_app_nth)
qed

lemma length_fold_update [simp]: "length (fold (\<lambda>i v. v[i := f i v]) is w) = length w"
  by (induction "is" arbitrary: w) auto

lemma nth_take_eq: "take i v = take i v' \<Longrightarrow> j < i \<Longrightarrow> v ! j = v' ! j"
  by (metis nth_take)

lemma schedule_word_cong:
  "16 \<le> i \<Longrightarrow> take i v = take i v' \<Longrightarrow> schedule_word v i = schedule_word v' i"
  by (simp add: schedule_word_def Let_def nth_take_eq [where i = i and v = v and v' = v'])

lemma block_words_scratch:
  assumes "length w = 64"
  shows "fold schedule_step [16..<64] (fold (\<lambda>i v. v[i := word_at bs (offset + i * 4)]) [0..<16] w)
    = block_words bs offset"
proof -
  let ?A = "\<lambda>w. fold (\<lambda>i v. v[i := word_at bs (offset + i * 4)]) [0..<16] w"
  have "take 16 (?A w) = take 16 (?A (replicate 64 0))"
    using assms by (intro fold_update_take) auto
  then have "take 64 (fold (\<lambda>i v. v[i := schedule_word v i]) [16..<64] (?A w))
      = take 64 (fold (\<lambda>i v. v[i := schedule_word v i]) [16..<64] (?A (replicate 64 0)))"
    using assms by (intro fold_update_take schedule_word_cong) simp_all
  then show ?thesis
    using assms by (simp add: block_words_def schedule_step_eq del: upt_rec_numeral)
qed

lemma length_8_cases:
  assumes "length xs = 8"
  obtains a b c d e f g h where "xs = [a, b, c, d, e, f, g, h]"
  using assms by (auto simp: numeral_eq_Suc length_Suc_conv)

lemma working_step_eq:
  assumes "length st = 8"
  shows "working_step w i st = sha256_round w i st"
  using assms
  by (rule length_8_cases)
    (simp add: working_step_def word_rotr_rotate_right round_constants_eq Let_def numeral_eq_Suc)

lemma length_sha256_round [simp]: "length (sha256_round w i st) = length st"
  by (induction w i st rule: sha256_round.induct) (auto simp: Let_def)

lemma length_fold_sha256_round [simp]: "length (fold (sha256_round w) is st) = length st"
  by (induction "is" arbitrary: st) auto

lemma fold_working_step_eq:
  "length st = 8 \<Longrightarrow> fold (working_step w) is st = fold (sha256_round w) is st"
  by (induction "is" arbitrary: st) (simp_all add: working_step_eq)

lemma add_state_eq:
  assumes "length st = 8" "length wk = 8"
  shows "fold (\<lambda>i s. s[i := s ! i + wk ! i]) [0..<8] st = map2 (+) st wk"
  using assms
  by (elim length_8_cases) (simp add: upt_rec numeral_eq_Suc)

lemma length_sha256_block [simp]: "length st = 8 \<Longrightarrow> length (sha256_block bs offset st) = 8"
  by (simp add: sha256_block_def Let_def)

text \<open>One \<open>transform\<close> is one block of the one-shot loop.\<close>

lemma sha256_transform_state:
  assumes "length (ws_state ws) = 8" "length (ws_schedule ws) = 64"
  shows "ws_state (sha256_transform bs ws) = sha256_block bs 0 (ws_state ws)"
    and "length (ws_schedule (sha256_transform bs ws)) = 64"
    and "ws_buffer (sha256_transform bs ws) = ws_buffer ws"
    and "ws_bit_length (sha256_transform bs ws) = ws_bit_length ws"
proof -
  have sched: "fold schedule_step [16..<64] (fold (\<lambda>i w. w[i := word_at bs (i * 4)]) [0..<16] (ws_schedule ws))
      = block_words bs 0"
    using block_words_scratch [OF assms(2), of bs 0] by (simp del: upt_rec_numeral)
  show "ws_state (sha256_transform bs ws) = sha256_block bs 0 (ws_state ws)"
    using assms(1) by (simp add: sha256_transform_def sha256_block_def Let_def sched fold_working_step_eq add_state_eq del: upt_rec_numeral)
  show "length (ws_schedule (sha256_transform bs ws)) = 64"
    by (simp add: sha256_transform_def Let_def sched block_words_def del: upt_rec_numeral)
qed (simp_all add: sha256_transform_def Let_def)

section \<open>Block-wise absorption\<close>

text \<open>The common shape of both loops: the state after the complete 64-byte blocks of a string.\<close>

function absorb :: "u32 list \<Rightarrow> bytes \<Rightarrow> u32 list" where
  "absorb st bs = (if length bs < 64 then st else absorb (sha256_block (take 64 bs) 0 st) (drop 64 bs))"
  by pat_completeness auto
termination
  by (relation "measure (\<lambda>(st, bs). length bs)") auto

declare absorb.simps [simp del]

lemma absorb_short [simp]: "length bs < 64 \<Longrightarrow> absorb st bs = st"
  by (subst absorb.simps) simp

lemma absorb_block:
  "length bs = 64 \<Longrightarrow> absorb st (bs @ cs) = absorb (sha256_block bs 0 st) cs"
  by (subst absorb.simps) simp

lemma absorb_append:
  "length xs = 64 * n \<Longrightarrow> absorb st (xs @ ys) = absorb (absorb st xs) ys"
proof (induction n arbitrary: st xs)
  case 0
  then show ?case by simp
next
  case (Suc n)
  have xs: "xs = take 64 xs @ drop 64 xs" by simp
  have len: "length (take 64 xs) = 64" "length (drop 64 xs) = 64 * n"
    using Suc.prems by simp_all
  have "absorb st (xs @ ys) = absorb (sha256_block (take 64 xs) 0 st) (drop 64 xs @ ys)"
    using absorb_block [OF len(1)] by (metis append.assoc xs)
  also have "\<dots> = absorb (absorb st xs) ys"
    using Suc.IH [OF len(2)] absorb_block [OF len(1)] by (metis xs)
  finally show ?case .
qed

lemma length_absorb: "length st = 8 \<Longrightarrow> length (absorb st bs) = 8"
proof (induction st bs rule: absorb.induct)
  case (1 st bs)
  show ?case
  proof (cases "length bs < 64")
    case False
    then have "length (absorb (sha256_block (take 64 bs) 0 st) (drop 64 bs)) = 8"
      using "1.IH" "1.prems" by simp
    with False show ?thesis by (subst absorb.simps) simp
  qed (use "1.prems" in simp)
qed

lemma word_at_window:
  "k + 3 < n \<Longrightarrow> n + offset \<le> length bs \<Longrightarrow> word_at (take n (drop offset bs)) k = word_at bs (offset + k)"
  by (simp add: word_at_def add.assoc)

lemma block_words_window:
  assumes "offset + 64 \<le> length bs"
  shows "block_words (take 64 (drop offset bs)) 0 = block_words bs offset"
proof -
  have "fold (\<lambda>i w. w[i := word_at (take 64 (drop offset bs)) (0 + i * 4)]) [0..<16] v
      = fold (\<lambda>i w. w[i := word_at bs (offset + i * 4)]) [0..<16] v" for v :: "u32 list"
    using assms by (intro fold_cong refl) (auto simp: word_at_window)
  then show ?thesis
    unfolding block_words_def by (simp only:)
qed

lemma sha256_block_window:
  "offset + 64 \<le> length bs \<Longrightarrow> sha256_block (take 64 (drop offset bs)) 0 st = sha256_block bs offset st"
  by (simp add: sha256_block_def block_words_window)

lemma sha256_blocks_absorb:
  assumes "length bs = 64 * n" "offset = 64 * k" "k \<le> n"
  shows "sha256_blocks bs offset st = absorb st (drop offset bs)"
  using assms
proof (induction "n - k" arbitrary: k offset st)
  case 0
  then show ?case by (subst sha256_blocks.simps) simp
next
  case (Suc d)
  then have lt: "offset + 64 \<le> length bs" by simp
  have "sha256_blocks bs offset st = sha256_blocks bs (offset + 64) (sha256_block bs offset st)"
    using lt by (subst sha256_blocks.simps) simp
  also have "\<dots> = absorb (sha256_block bs offset st) (drop (offset + 64) bs)"
    using Suc by (intro Suc.hyps(1) [of "Suc k"]) simp_all
  also have "\<dots> = absorb st (drop offset bs)"
  proof -
    have "\<not> length (drop offset bs) < 64" using lt by simp
    then show ?thesis
      using lt by (subst (2) absorb.simps) (simp add: sha256_block_window add.commute)
  qed
  finally show ?case .
qed

section \<open>The streaming buffer\<close>

text \<open>What the workspace holds after the bytes \<open>p\<close>.\<close>

definition ws_holds :: "bytes \<Rightarrow> sha256_workspace \<Rightarrow> bool" where
  "ws_holds p ws = (\<exists>q r. p = q @ r \<and> length q mod 64 = 0 \<and> length r < 64
    \<and> ws_state ws = absorb sha256_initial q \<and> ws_buffer_size ws = length r
    \<and> take (length r) (ws_buffer ws) = r \<and> length (ws_buffer ws) = 64
    \<and> length (ws_schedule ws) = 64)"

lemma ws_holdsE:
  assumes "ws_holds p ws"
  obtains q r where "p = q @ r" "length q mod 64 = 0" "length r < 64"
    "ws_state ws = absorb sha256_initial q" "ws_buffer_size ws = length r"
    "take (length r) (ws_buffer ws) = r" "length (ws_buffer ws) = 64" "length (ws_schedule ws) = 64"
  using assms unfolding ws_holds_def by (elim exE conjE) (rule that)

lemma length_sha256_initial [simp]: "length sha256_initial = 8"
  by (simp add: sha256_initial_def)

lemma ws_holds_new: "ws_holds [] sha256_workspace_new"
  by (auto simp: ws_holds_def sha256_workspace_new_def)

lemma take_Suc_update: "n < length xs \<Longrightarrow> take (Suc n) (xs[n := x]) = take n xs @ [x]"
  by (simp add: take_Suc_conv_app_nth)

lemma blocks_exact: "n mod 64 = 0 \<Longrightarrow> n = 64 * (n div (64 :: nat))"
  using mult_div_mod_eq [of 64 n] by simp

lemma absorb_full_block:
  assumes "length q mod 64 = 0" "length b = 64" "length (absorb sha256_initial q) = 8"
  shows "absorb sha256_initial (q @ b) = sha256_block b 0 (absorb sha256_initial q)"
proof -
  have "absorb (absorb sha256_initial q) (b @ []) = sha256_block b 0 (absorb sha256_initial q)"
    by (simp only: absorb_block [OF assms(2)]) simp
  moreover have "length q = 64 * (length q div 64)"
    by (rule blocks_exact [OF assms(1)])
  ultimately show ?thesis
    by (simp add: absorb_append)
qed

lemma ws_holds_push:
  assumes "ws_holds p ws"
  shows "ws_holds (p @ [x]) (sha256_push x ws)"
    and "ws_bit_length (sha256_push x ws) = ws_bit_length ws"
proof -
  obtain q r where h: "p = q @ r" "length q mod 64 = 0" "length r < 64"
    "ws_state ws = absorb sha256_initial q" "ws_buffer_size ws = length r"
    "take (length r) (ws_buffer ws) = r" "length (ws_buffer ws) = 64" "length (ws_schedule ws) = 64"
    using assms by (rule ws_holdsE)
  let ?b = "(ws_buffer ws)[length r := x]"
  let ?ws1 = "ws\<lparr>ws_buffer := ?b, ws_buffer_size := length r + 1\<rparr>"
  have b: "take (Suc (length r)) ?b = r @ [x]" "length ?b = 64"
    using h by (simp_all add: take_Suc_update)
  have st8: "length (ws_state ws) = 8"
    by (simp add: h(4) length_absorb)
  note tr = sha256_transform_state [of ?ws1 ?b]
  show "ws_bit_length (sha256_push x ws) = ws_bit_length ws"
    by (simp add: sha256_push_def Let_def sha256_transform_def)
  show "ws_holds (p @ [x]) (sha256_push x ws)"
  proof (cases "length r = 63")
    case True
    then have full: "?b = r @ [x]" using b by simp
    have "sha256_push x ws = (sha256_transform ?b ?ws1)\<lparr>ws_buffer_size := 0\<rparr>"
      using h True by (simp add: sha256_push_def Let_def)
    moreover have "absorb sha256_initial (q @ ?b) = sha256_block ?b 0 (absorb sha256_initial q)"
      using h(2) b(2) st8 h(4) by (intro absorb_full_block) simp_all
    ultimately show ?thesis
      using h st8 tr b full unfolding ws_holds_def
      by (intro exI [of _ "q @ ?b"] exI [of _ "[]"]) simp
  next
    case False
    then have "sha256_push x ws = ?ws1"
      using h by (simp add: sha256_push_def Let_def)
    then show ?thesis
      using h False b unfolding ws_holds_def
      by (intro exI [of _ q] exI [of _ "r @ [x]"]) simp
  qed
qed

lemma ws_holds_fold_push:
  "ws_holds p ws \<Longrightarrow> ws_holds (p @ input) (fold sha256_push input ws)
    \<and> ws_bit_length (fold sha256_push input ws) = ws_bit_length ws"
proof (induction input arbitrary: p ws)
  case Nil
  then show ?case by simp
next
  case (Cons x input)
  show ?case
    using Cons.IH [OF ws_holds_push(1) [OF Cons.prems, of x]] ws_holds_push(2) [OF Cons.prems, of x]
    by simp
qed

section \<open>Padding\<close>

definition zeros_needed :: "nat \<Rightarrow> nat" where
  "zeros_needed n = (let m = n mod 64 in if m \<le> 56 then 56 - m else 120 - m)"

lemma pad_zeros_eq: "pad_zeros bs = bs @ replicate (zeros_needed (length bs)) 0"
proof (induction bs rule: pad_zeros.induct)
  case (1 bs)
  show ?case
  proof (cases "length bs mod 64 = 56")
    case True
    then show ?thesis by (subst pad_zeros.simps) (simp add: zeros_needed_def)
  next
    case False
    have "length bs mod 64 < 64" by simp
    then have need: "zeros_needed (length bs) = Suc (zeros_needed (length (bs @ [0])))"
      using False by (auto simp: zeros_needed_def Let_def mod_Suc)
    have "pad_zeros bs = (bs @ [0]) @ replicate (zeros_needed (length (bs @ [0]))) 0"
      using False "1.IH" by (subst pad_zeros.simps) simp
    then show ?thesis
      by (simp add: need)
  qed
qed

lemma length_pad_zeros: "\<exists>n. length (pad_zeros bs) + 8 = 64 * n"
proof -
  have "(length bs + zeros_needed (length bs) + 8) mod 64 = 0"
  proof (cases "length bs mod 64 \<le> 56")
    case True
    then have "zeros_needed (length bs) = 56 - length bs mod 64"
      by (simp add: zeros_needed_def)
    then have "length bs + zeros_needed (length bs) + 8 = 64 * (length bs div 64) + 64"
      using True mult_div_mod_eq [of 64 "length bs"] by linarith
    then show ?thesis by simp
  next
    case False
    then have "zeros_needed (length bs) = 120 - length bs mod 64"
      by (simp add: zeros_needed_def)
    moreover have "length bs mod 64 < 64" by simp
    ultimately have "length bs + zeros_needed (length bs) + 8 = 64 * (length bs div 64) + 128"
      using mult_div_mod_eq [of 64 "length bs"] by linarith
    then show ?thesis by simp
  qed
  then show ?thesis
    using blocks_exact by (auto simp: pad_zeros_eq)
qed

lemma fill_zero_eq:
  assumes "start \<le> stop" "stop \<le> length b"
  shows "fill_zero start stop b = take start b @ replicate (stop - start) 0 @ drop stop b"
  using assms
proof (induction "stop - start" arbitrary: stop)
  case 0
  then show ?case by (simp add: fill_zero_def)
next
  case (Suc d)
  from Suc.hyps(2) obtain s where s: "stop = Suc s" by (cases stop) auto
  have IH: "fold (\<lambda>i b. b[i := 0]) [start..<s] b = take start b @ replicate (s - start) 0 @ drop s b"
    using Suc s unfolding fill_zero_def by simp
  have "drop s b = b ! s # drop (Suc s) b"
    using Suc.prems s by (simp add: Cons_nth_drop_Suc)
  then show ?case
    using Suc s IH by (simp add: fill_zero_def list_update_append replicate_append_same Suc_diff_le)
qed

lemma store_length_eq:
  assumes "length b = 64"
  shows "fold (\<lambda>i b. b[56 + i := ucast (drop_bit (56 - i * 8) v)]) [0..<8] b = take 56 b @ be_bytes 8 v"
proof -
  have split: "b = take 56 b @ drop 56 b" "length (drop 56 b) = 8" "length (take 56 b) = 56"
    using assms by simp_all
  then obtain c0 c1 c2 c3 c4 c5 c6 c7 where "drop 56 b = [c0, c1, c2, c3, c4, c5, c6, c7]"
    by (metis length_8_cases)
  with split obtain t where b: "b = t @ [c0, c1, c2, c3, c4, c5, c6, c7]" "length t = 56"
    by metis
  show ?thesis
    unfolding b(1) using b(2) by (simp add: upt_rec list_update_append numeral_eq_Suc)
qed

section \<open>Streaming equals one-shot\<close>

lemma sha256_finish_eq:
  assumes "ws_holds p ws"
  shows "sha256_finish ws
    = state_bytes (absorb sha256_initial (pad_zeros (p @ [0x80]) @ be_bytes 8 (ws_bit_length ws)))"
proof -
  obtain q r where h: "p = q @ r" "length q mod 64 = 0" "length r < 64"
    "ws_state ws = absorb sha256_initial q" "ws_buffer_size ws = length r"
    "take (length r) (ws_buffer ws) = r" "length (ws_buffer ws) = 64" "length (ws_schedule ws) = 64"
    using assms by (rule ws_holdsE)
  let ?L = "be_bytes 8 (ws_bit_length ws)"
  let ?b1 = "(ws_buffer ws)[length r := 0x80]"
  have b1: "take (Suc (length r)) ?b1 = r @ [0x80]" "length ?b1 = 64"
    using h by (simp_all add: take_Suc_update)
  have q: "length q = 64 * (length q div 64)"
    by (rule blocks_exact [OF h(2)])
  have mod: "length (p @ [0x80]) mod 64 = Suc (length r) mod 64"
    using mod_add_left_eq [of "length q" 64 "Suc (length r)"] h(1,2) by simp
  have st8: "length (absorb sha256_initial q) = 8"
    by (simp add: length_absorb)
  have final: "ws_state (sha256_transform b ws') = absorb (ws_state ws') b"
    if "length b = 64" "length (ws_state ws') = 8" "length (ws_schedule ws') = 64" for b ws'
    using sha256_transform_state(1) [OF that(2,3)] absorb_block [OF that(1), of "ws_state ws'" "[]"]
    by simp
  show ?thesis
  proof (cases "length r < 56")
    case True
    then have need: "zeros_needed (length (p @ [0x80])) = 56 - Suc (length r)"
      using mod by (simp add: zeros_needed_def)
    let ?b4 = "r @ [0x80] @ replicate (56 - Suc (length r)) 0 @ ?L"
    have "56 - length r = Suc (55 - length r)"
      using True by linarith
    then have fill: "take 56 (fill_zero (Suc (length r)) 56 ?b1) = r @ [0x80] @ replicate (56 - Suc (length r)) 0"
      using True b1 by (simp add: fill_zero_eq)
    have len: "length (fill_zero (Suc (length r)) 56 ?b1) = 64"
      using True b1 by (simp add: fill_zero_eq)
    have "sha256_finish ws = state_bytes (absorb (absorb sha256_initial q) ?b4)"
      unfolding sha256_finish_def Let_def
      using True h st8 fill len
      by (simp add: store_length_eq final)
    then show ?thesis
      by (simp add: h(1) pad_zeros_eq need [unfolded h(1), simplified] absorb_append [OF q])
  next
    case False
    then have need: "zeros_needed (length (p @ [0x80])) = (64 - Suc (length r)) + 56"
      using mod h(3) by (cases "length r = 63") (auto simp: zeros_needed_def mod_if)
    let ?c = "r @ [0x80] @ replicate (64 - Suc (length r)) 0"
    let ?d = "replicate 56 0 @ ?L"
    have fill: "fill_zero (Suc (length r)) 64 ?b1 = ?c"
      using False b1 h(3) by (simp add: fill_zero_eq)
    have clen: "length ?c = 64" using h(3) by simp
    have zero: "take 56 (fill_zero 0 56 ?c) = replicate 56 0" "length (fill_zero 0 56 ?c) = 64"
      using clen by (simp_all add: fill_zero_eq)
    let ?ws1 = "ws\<lparr>ws_buffer_size := Suc (length r), ws_buffer := ?c\<rparr>"
    have tr: "ws_state (sha256_transform ?c ?ws1) = absorb (absorb sha256_initial q) ?c"
      "length (ws_schedule (sha256_transform ?c ?ws1)) = 64"
      "ws_buffer (sha256_transform ?c ?ws1) = ?c"
      "ws_bit_length (sha256_transform ?c ?ws1) = ws_bit_length ws"
      using h st8 clen final [of ?c ?ws1] sha256_transform_state [of ?ws1 ?c] by simp_all
    have "sha256_finish ws = state_bytes (absorb (absorb (absorb sha256_initial q) ?c) ?d)"
      unfolding sha256_finish_def Let_def
      using False h st8 fill zero b1 tr clen length_absorb
      by (simp add: store_length_eq final)
    moreover have "replicate (64 - Suc (length r) + 56) (0 :: byte)
        = replicate (64 - Suc (length r)) 0 @ replicate 56 0"
      by (rule replicate_add)
    ultimately show ?thesis
      using absorb_append [of ?c 1 "absorb sha256_initial q" ?d] clen need
      by (simp only: h(1) pad_zeros_eq append_assoc absorb_append [OF q] mult_1_right)
  qed
qed

lemma sha256_eq_words: "sha256 input = state_bytes (sha256_words input)"
proof -
  let ?ws = "sha256_update input sha256_workspace_new"
  let ?padded = "pad_zeros (input @ [0x80]) @ be_bytes 8 (word_of_nat (length input) * 8)"
  have "ws_holds ([] @ input) (fold sha256_push input sha256_workspace_new)"
    and bl: "ws_bit_length (fold sha256_push input sha256_workspace_new) = 0"
    using ws_holds_fold_push [OF ws_holds_new, of input] by (simp_all add: sha256_workspace_new_def)
  then have "ws_holds input ?ws"
    by (simp add: sha256_update_def ws_holds_def Let_def)
  moreover have "ws_bit_length ?ws = word_of_nat (length input) * 8"
    using bl by (simp add: sha256_update_def Let_def)
  ultimately have "sha256 input = state_bytes (absorb sha256_initial ?padded)"
    by (simp add: sha256_def sha256_finish_eq)
  moreover obtain n where "length ?padded = 64 * n"
    using length_pad_zeros [of "input @ [0x80]"] by auto
  ultimately show ?thesis
    using sha256_blocks_absorb [of ?padded n 0 0] by (simp add: sha256_words_def Let_def)
qed

text \<open>
  C15: the allocation-free streaming digest of the frame codec (a fixed workspace, pushed byte by
  byte) and the SDK's one-shot digest over a padded copy compute the same 32 bytes on every input.
\<close>

theorem sha256_streaming_eq_one_shot: "sha256 input = state_bytes (sha256_words input)"
  by (rule sha256_eq_words)

lemma sha256_words_abc:
  "sha256_words [0x61, 0x62, 0x63]
    = [0xba7816bf, 0x8f01cfea, 0x414140de, 0x5dae2223, 0xb00361a3, 0x96177a9c, 0xb410ff61, 0xf20015ad]"
  by code_simp

end
