(* ===== verification/Sdk_Common.thy ===== *)
theory Sdk_Common
  imports Utf8 Sha256
begin

text \<open>
  \<open>src/sdk/common.cpp\<close>: the canonical tuple algebra and its binary form, the text validators,
  and the identities and digests the SDK derives from them. The binary form is shown to be
  canonical in both directions: the decoder inverts the encoder on every validated value, and
  accepts no byte string other than the encoding of the value it returns.
\<close>

section \<open>Decimal and hexadecimal output\<close>

text \<open>\<open>std::to_string\<close>, and \<open>std::hex\<close> with \<open>std::setw(8)\<close> and fill \<open>'0'\<close>.\<close>

definition hex_digit :: "nat \<Rightarrow> char" where
  "hex_digit n = char_of (if n < 10 then 48 + n else 87 + n)"

fun decimal :: "nat \<Rightarrow> string" where
  "decimal n = (if n < 10 then [hex_digit n] else decimal (n div 10) @ [hex_digit (n mod 10)])"

declare decimal.simps [simp del]

definition hex_word :: "u32 \<Rightarrow> string" where
  "hex_word w = map (\<lambda>i. hex_digit (unat (drop_bit (4 * (7 - i)) w AND 0xf))) [0..<8]"

section \<open>The canonical tuple algebra\<close>

text \<open>
  \<open>canonical_value::kind\<close> has an underlying type, so a value outside the enumerators is possible;
  \<open>is_valid\<close> tests for it.
\<close>

datatype value_kind = Null_Value | Boolean | Signed_Integer | Byte_String | Utf8_String
  | Ordered_Tuple | Unlisted byte

definition kind_is_valid :: "value_kind \<Rightarrow> bool" where
  "kind_is_valid k = (case k of Unlisted b \<Rightarrow> False | _ \<Rightarrow> True)"

text \<open>\<open>integer\<close> is a \<open>std::int64_t\<close>: a word read in two's complement by \<open>sint\<close>.\<close>

datatype canonical_value =
  Canonical_Value (cv_type: value_kind) (cv_boolean: bool) (cv_integer: u64)
    (cv_byte_string: bytes) (cv_text: string) (cv_tuple: "canonical_value list")

definition canonical_null :: canonical_value where
  "canonical_null = Canonical_Value Null_Value False 0 [] [] []"

definition from_boolean :: "bool \<Rightarrow> canonical_value" where
  "from_boolean b = Canonical_Value Boolean b 0 [] [] []"

definition from_integer :: "u64 \<Rightarrow> canonical_value" where
  "from_integer i = Canonical_Value Signed_Integer False i [] [] []"

definition from_bytes :: "bytes \<Rightarrow> canonical_value" where
  "from_bytes bs = Canonical_Value Byte_String False 0 bs [] []"

definition from_string :: "string \<Rightarrow> canonical_value" where
  "from_string s = Canonical_Value Utf8_String False 0 [] s []"

definition from_tuple :: "canonical_value list \<Rightarrow> canonical_value" where
  "from_tuple vs = Canonical_Value Ordered_Tuple False 0 [] [] vs"

abbreviation canonical_error :: "string \<Rightarrow> string \<Rightarrow> sdk_error" where
  "canonical_error field detail \<equiv> Err ''sdk.canonical-value-invalid'' field detail"

fun canonical_validate :: "canonical_value \<Rightarrow> unit result"
and canonical_validate_items :: "nat \<Rightarrow> canonical_value list \<Rightarrow> unit result" where
  "canonical_validate (Canonical_Value k boolean integer byte_string text tuple) =
    (if \<not> kind_is_valid k then Inl (canonical_error ''type'' ''closed-enum'')
     else
      (let common_inactive = (boolean \<or> integer \<noteq> 0 \<or> byte_string \<noteq> [] \<or> text \<noteq> [] \<or> tuple \<noteq> []);
           inactive = Inl (canonical_error ''payload'' ''inactive-field'')
       in case k of
          Null_Value \<Rightarrow> if common_inactive then inactive else Inr ()
        | Boolean \<Rightarrow>
            if integer \<noteq> 0 \<or> byte_string \<noteq> [] \<or> text \<noteq> [] \<or> tuple \<noteq> [] then inactive else Inr ()
        | Signed_Integer \<Rightarrow>
            if boolean \<or> byte_string \<noteq> [] \<or> text \<noteq> [] \<or> tuple \<noteq> [] then inactive else Inr ()
        | Byte_String \<Rightarrow>
            if boolean \<or> integer \<noteq> 0 \<or> text \<noteq> [] \<or> tuple \<noteq> [] then inactive else Inr ()
        | Utf8_String \<Rightarrow>
            if boolean \<or> integer \<noteq> 0 \<or> byte_string \<noteq> [] \<or> tuple \<noteq> [] then inactive
            else if \<not> sdk_valid_utf8 (bytes_of text) then Inl (canonical_error ''text'' ''invalid-utf8'')
            else Inr ()
        | Ordered_Tuple \<Rightarrow>
            if boolean \<or> integer \<noteq> 0 \<or> byte_string \<noteq> [] \<or> text \<noteq> [] then inactive
            else canonical_validate_items 0 tuple
        | Unlisted b \<Rightarrow> Inr ()))"
| "canonical_validate_items index [] = Inr ()"
| "canonical_validate_items index (item # items) =
    (case canonical_validate item of
       Inl e \<Rightarrow> Inl (canonical_error (''tuple['' @ decimal index @ '']'') (err_detail e))
     | Inr _ \<Rightarrow> canonical_validate_items (Suc index) items)"

section \<open>Encoding\<close>

definition append_length :: "u64 \<Rightarrow> bytes" where
  "append_length value = be_bytes 8 value"

text \<open>\<open>for (auto remaining = magnitude; remaining > 0xffU; remaining >>= 8U) ++width;\<close>\<close>

function magnitude_width :: "u64 \<Rightarrow> nat" where
  "magnitude_width remaining = (if remaining > 0xff then Suc (magnitude_width (drop_bit 8 remaining)) else 1)"
  by pat_completeness auto
termination
proof (relation "measure unat")
  fix w :: u64
  assume "w > 0xff"
  then have "unat w > 0" by (simp add: word_less_nat_alt)
  then show "(drop_bit 8 w, w) \<in> measure unat"
    by (simp add: drop_bit_eq_div unat_div)
qed simp

declare magnitude_width.simps [simp del]

definition integer_magnitude :: "u64 \<Rightarrow> u64" where
  "integer_magnitude integer = (if sint integer < 0 then - (integer + 1) + 1 else integer)"

text \<open>The bytes appended to \<open>output\<close>.\<close>

fun append_canonical :: "canonical_value \<Rightarrow> bytes" where
  "append_canonical (Canonical_Value k boolean integer byte_string text tuple) =
    (case k of
       Null_Value \<Rightarrow> [0x00]
     | Boolean \<Rightarrow> [0x01, if boolean then 0x01 else 0x00]
     | Signed_Integer \<Rightarrow>
         (let magnitude = integer_magnitude integer;
              width = magnitude_width magnitude
          in [0x02, if sint integer < 0 then 0x01 else 0x00]
             @ append_length (word_of_nat width) @ be_bytes width magnitude)
     | Byte_String \<Rightarrow> [0x03] @ append_length (word_of_nat (length byte_string)) @ byte_string
     | Utf8_String \<Rightarrow> [0x04] @ append_length (word_of_nat (length text)) @ bytes_of text
     | Ordered_Tuple \<Rightarrow> [0x05] @ append_length (word_of_nat (length tuple))
         @ concat (map (\<lambda>item. let encoded = append_canonical item
                                in append_length (word_of_nat (length encoded)) @ encoded) tuple)
     | Unlisted b \<Rightarrow> [])"

definition canonical_binary :: "canonical_value \<Rightarrow> bytes result" where
  "canonical_binary value =
    (case canonical_validate value of Inl e \<Rightarrow> Inl e | Inr _ \<Rightarrow> Inr (append_canonical value))"

section \<open>Decoding\<close>

text \<open>
  The functions that advance \<open>offset\<close> take the unread suffix \<open>bytes.subspan(offset)\<close> and return
  the suffix they leave.
\<close>

definition read_canonical_length :: "bytes \<Rightarrow> (u64 \<times> bytes) result" where
  "read_canonical_length rest =
    (if length rest < 8 then Inl (canonical_error ''binary'' ''truncated-length'')
     else Inr (be_value (take 8 rest), drop 8 rest))"

lemma read_canonical_length_Inr:
  "read_canonical_length rest = Inr (v, rest') \<longleftrightarrow> 8 \<le> length rest \<and> rest = be_bytes 8 v @ rest'"
proof
  assume r: "read_canonical_length rest = Inr (v, rest')"
  then have "8 \<le> length rest" "v = be_value (take 8 rest)" "rest' = drop 8 rest"
    by (auto simp: read_canonical_length_def split: if_splits)
  moreover from this have "be_bytes 8 v = take 8 rest"
    using be_bytes_be_value [of "take 8 rest"] by simp
  ultimately show "8 \<le> length rest \<and> rest = be_bytes 8 v @ rest'"
    by simp
next
  assume "8 \<le> length rest \<and> rest = be_bytes 8 v @ rest'"
  then show "read_canonical_length rest = Inr (v, rest')"
    by (simp add: read_canonical_length_def)
qed

lemma read_canonical_length_shorter:
  "read_canonical_length rest = Inr (v, rest') \<Longrightarrow> length rest' < length rest"
  by (auto simp: read_canonical_length_Inr)

definition int64_max :: u64 where
  "int64_max = 0x7fffffffffffffff"

definition decode_integer :: "bytes \<Rightarrow> (canonical_value \<times> bytes) result" where
  "decode_integer rest0 =
    (case rest0 of
       [] \<Rightarrow> Inl (canonical_error ''binary'' ''invalid-integer-sign'')
     | sign # rest1 \<Rightarrow>
         if sign > 1 then Inl (canonical_error ''binary'' ''invalid-integer-sign'')
         else and_then (read_canonical_length rest1) (\<lambda>(width, rest2).
           if width = 0 \<or> width > 8 \<or> unat width > length rest2
           then Inl (canonical_error ''binary'' ''invalid-integer-width'')
           else if width > 1 \<and> hd rest2 = 0
           then Inl (canonical_error ''binary'' ''noncanonical-integer'')
           else
            (let negative = (sign = 1);
                 magnitude = be_value (take (unat width) rest2)
             in if (\<not> negative \<and> magnitude > int64_max)
                   \<or> (negative \<and> (magnitude = 0 \<or> magnitude > int64_max + 1))
                then Inl (canonical_error ''binary'' ''integer-out-of-range'')
                else
                 (let value = (if negative
                               then (if magnitude = int64_max + 1 then 0x8000000000000000 else - magnitude)
                               else magnitude)
                  in Inr (from_integer value, drop (unat width) rest2)))))"

definition decode_payload :: "byte \<Rightarrow> bytes \<Rightarrow> (canonical_value \<times> bytes) result" where
  "decode_payload tag rest0 =
    and_then (read_canonical_length rest0) (\<lambda>(len, rest).
      if unat len > length rest then Inl (canonical_error ''binary'' ''truncated-payload'')
      else
       (let payload = take (unat len) rest
        in Inr (if tag = 0x03 then from_bytes payload else from_string (string_of payload),
                drop (unat len) rest)))"

text \<open>The two checks after the switch.\<close>

definition decode_finish :: "canonical_value \<times> bytes \<Rightarrow> canonical_value result" where
  "decode_finish = (\<lambda>(value, rest).
    if rest \<noteq> [] then Inl (canonical_error ''binary'' ''trailing-bytes'')
    else and_then (canonical_validate value) (\<lambda>_. Inr value))"

function (sequential) decode_canonical_value :: "bytes \<Rightarrow> canonical_value result"
and decode_items :: "nat \<Rightarrow> bytes \<Rightarrow> (canonical_value list \<times> bytes) result" where
  "decode_canonical_value [] = Inl (canonical_error ''binary'' ''missing-tag'')"
| "decode_canonical_value (tag # rest) =
    (if tag = 0x00 then decode_finish (canonical_null, rest)
     else if tag = 0x01 then
       (case rest of
          [] \<Rightarrow> Inl (canonical_error ''binary'' ''invalid-boolean'')
        | b # rest1 \<Rightarrow>
            if b > 1 then Inl (canonical_error ''binary'' ''invalid-boolean'')
            else decode_finish (from_boolean (b = 1), rest1))
     else if tag = 0x02 then and_then (decode_integer rest) decode_finish
     else if tag = 0x03 \<or> tag = 0x04 then and_then (decode_payload tag rest) decode_finish
     else if tag = 0x05 then
       (case read_canonical_length rest of
          Inl e \<Rightarrow> Inl e
        | Inr (count, rest1) \<Rightarrow>
            if unat count > length rest1 div 9
            then Inl (canonical_error ''binary'' ''invalid-tuple-count'')
            else and_then (decode_items (unat count) rest1) (\<lambda>(values, rest2).
              decode_finish (from_tuple values, rest2)))
     else Inl (canonical_error ''binary'' ''unknown-tag''))"
| "decode_items 0 rest = Inr ([], rest)"
| "decode_items (Suc n) rest =
    (case read_canonical_length rest of
       Inl e \<Rightarrow> Inl e
     | Inr (len, rest1) \<Rightarrow>
         if len = 0 \<or> unat len > length rest1
         then Inl (canonical_error ''binary'' ''invalid-tuple-item-length'')
         else and_then (decode_canonical_value (take (unat len) rest1)) (\<lambda>item.
           and_then (decode_items n (drop (unat len) rest1)) (\<lambda>(items, rest2).
             Inr (item # items, rest2))))"
  by pat_completeness auto
termination
  by (relation "measure (case_sum length (\<lambda>(n, rest). length rest))")
    (auto dest: read_canonical_length_shorter simp: min_def)

definition canonical_binary_decode :: "bytes \<Rightarrow> canonical_value result" where
  "canonical_binary_decode bs =
    (case decode_canonical_value bs of
       Inl e \<Rightarrow> Inl e
     | Inr decoded \<Rightarrow>
         (case canonical_binary decoded of
            Inl e \<Rightarrow> Inl e
          | Inr encoded \<Rightarrow>
              if encoded \<noteq> bs then Inl (canonical_error ''binary'' ''noncanonical-encoding'')
              else Inr decoded))"

section \<open>Arithmetic of the length and integer fields\<close>

lemma unat_be_value_snoc:
  assumes "length bs < 8"
  shows "unat (be_value (bs @ [b])) = unat (be_value bs) * 256 + unat b"
proof -
  have "unat (be_value bs) < 2 ^ (8 * length bs)"
    using assms by (intro unat_be_value_less) simp
  also have "\<dots> \<le> (2 :: nat) ^ 56"
    using assms by (intro power_increasing) simp_all
  finally have bound: "unat (be_value bs) < 2 ^ 56" .
  have "be_value (bs @ [b]) = push_bit 8 (be_value bs) + ucast b"
    unfolding be_value_snoc
    by (rule disjunctive_add [symmetric])
      (auto simp: bit_push_bit_iff bit_ucast_iff dest: bit_imp_le_length)
  moreover have "unat (push_bit 8 (be_value bs)) = unat (be_value bs) * 256"
    using bound by (simp add: push_bit_eq_mult unat_word_ariths mult.commute)
  moreover have "unat (ucast b :: u64) = unat b"
    using byte_unat_less [of b] by (simp add: unsigned_ucast_eq take_bit_eq_mod)
  ultimately show ?thesis
    using bound byte_unat_less [of b] by (simp add: unat_word_ariths)
qed

lemma unat_be_value_Cons:
  "length bs < 8 \<Longrightarrow> unat (be_value (b # bs)) = unat b * 256 ^ length bs + unat (be_value bs)"
proof (induction bs rule: rev_induct)
  case Nil
  have "unat (be_value [b]) = unat (be_value []) * 256 + unat b"
    using unat_be_value_snoc [of "[]" b] by simp
  then show ?case by (simp add: be_value_def)
next
  case (snoc c bs)
  then have "unat (be_value ((b # bs) @ [c])) = unat (be_value (b # bs)) * 256 + unat c"
    by (intro unat_be_value_snoc) simp
  moreover have "unat (be_value (bs @ [c])) = unat (be_value bs) * 256 + unat c"
    using snoc.prems by (intro unat_be_value_snoc) simp
  ultimately show ?case
    using snoc by (simp add: algebra_simps)
qed

lemma magnitude_width_step:
  "unat m < 256 \<Longrightarrow> magnitude_width m = 1"
  "256 \<le> unat m \<Longrightarrow> magnitude_width m = Suc (magnitude_width (drop_bit 8 m))"
  by (subst magnitude_width.simps, simp add: word_less_nat_alt)+

lemma magnitude_width_pos [simp]: "0 < magnitude_width m"
  by (subst magnitude_width.simps) simp

lemma magnitude_width_bounds:
  "unat m < 256 ^ magnitude_width m \<and> (magnitude_width m > 1 \<longrightarrow> 256 ^ (magnitude_width m - 1) \<le> unat m)"
proof (induction m rule: magnitude_width.induct)
  case (1 m)
  show ?case
  proof (cases "unat m < 256")
    case True
    then show ?thesis by (simp add: magnitude_width_step)
  next
    case False
    then have w: "magnitude_width m = Suc (magnitude_width (drop_bit 8 m))" (is "_ = Suc ?w")
      by (simp add: magnitude_width_step)
    have d: "unat (drop_bit 8 m) = unat m div 256"
      by (simp add: drop_bit_eq_div unat_div)
    have IH: "unat m div 256 < 256 ^ ?w" "?w > 1 \<Longrightarrow> 256 ^ (?w - 1) \<le> unat m div 256"
      using "1.IH" False by (simp_all add: word_less_nat_alt d)
    have "256 ^ ?w \<le> unat m"
    proof (cases "?w > 1")
      case True
      then have "256 ^ ?w = (256 :: nat) ^ (?w - 1) * 256"
        by (metis Suc_diff_1 magnitude_width_pos power_Suc2)
      then show ?thesis
        using IH(2) [OF True] by simp
    next
      case single: False
      then have "?w = 1" using magnitude_width_pos [of "drop_bit 8 m"] by linarith
      then show ?thesis using False by simp
    qed
    moreover have "unat m < 256 ^ Suc ?w"
      using IH(1) by (simp add: less_mult_imp_div_less div_less_iff_less_mult mult.commute)
    ultimately show ?thesis
      unfolding w by simp
  qed
qed

lemma magnitude_width_le_8: "magnitude_width m \<le> 8"
proof (rule ccontr)
  assume "\<not> ?thesis"
  then have "(256 :: nat) ^ 8 \<le> 256 ^ (magnitude_width m - 1)" and "magnitude_width m > 1"
    using power_increasing [of 8 "magnitude_width m - 1" "256 :: nat"] by auto
  then have "256 ^ 8 \<le> unat m"
    using magnitude_width_bounds [of m] by (auto dest: order_trans)
  moreover have "unat m < 2 ^ 64"
    by (rule order_less_le_trans [OF unsigned_less]) simp
  ultimately show False by simp
qed

lemma magnitude_width_unique:
  assumes "unat m < 256 ^ n" "n > 1 \<Longrightarrow> 256 ^ (n - 1) \<le> unat m" "0 < n"
  shows "magnitude_width m = n"
proof (rule ccontr)
  let ?w = "magnitude_width m"
  assume "?w \<noteq> n"
  then consider "?w < n" | "n < ?w" by linarith
  then show False
  proof cases
    case 1
    then have "(256 :: nat) ^ ?w \<le> 256 ^ (n - 1)" "n > 1"
      using magnitude_width_pos [of m] by (auto intro!: power_increasing simp del: magnitude_width_pos)
    then show False
      using assms(2) magnitude_width_bounds [of m] by linarith
  next
    case 2
    then have "(256 :: nat) ^ n \<le> 256 ^ (?w - 1)" "?w > 1"
      using assms(3) by (auto intro!: power_increasing)
    then show False
      using assms(1) magnitude_width_bounds [of m] by linarith
  qed
qed

lemma magnitude_width_be_value:
  assumes "bs \<noteq> []" "length bs \<le> 8" "length bs > 1 \<Longrightarrow> hd bs \<noteq> 0"
  shows "magnitude_width (be_value bs) = length bs"
proof (rule magnitude_width_unique)
  show "unat (be_value bs) < 256 ^ length bs"
    using unat_be_value_less [OF assms(2)] by (simp add: power_mult)
  show "0 < length bs" using assms(1) by simp
  assume l: "1 < length bs"
  from assms(1) obtain b cs where bs: "bs = b # cs" by (cases bs) auto
  then have "unat b \<noteq> 0" using assms(3) l by (simp add: unat_eq_zero)
  then have "1 * 256 ^ length cs \<le> unat b * 256 ^ length cs"
    by (intro mult_le_mono1) linarith
  moreover have "length bs - 1 = length cs" "length cs < 8"
    using assms(2) by (simp_all add: bs)
  ultimately show "256 ^ (length bs - 1) \<le> unat (be_value bs)"
    using unat_be_value_Cons [of cs b] by (simp only: bs)
qed

section \<open>Integers\<close>

lemma unat_word_of_nat_u64: "n < 2 ^ 64 \<Longrightarrow> unat (word_of_nat n :: u64) = n"
  by (simp add: unat_of_nat)

lemma unat_uminus_u64:
  assumes "w \<noteq> 0"
  shows "unat (- w :: u64) = 2 ^ 64 - unat w"
proof -
  have pos: "0 < unat w" "unat w < 2 ^ 64"
    using assms by (simp_all add: unat_gt_0) (rule order_less_le_trans [OF unsigned_less], simp)
  have "- w = word_of_nat (2 ^ 64 - unat w)"
    using pos by (simp add: of_nat_diff)
  then have "unat (- w) = unat (word_of_nat (2 ^ 64 - unat w) :: u64)"
    by (rule arg_cong)
  also have "\<dots> = 2 ^ 64 - unat w"
    using pos by (intro unat_word_of_nat_u64) simp
  finally show ?thesis .
qed

lemma take_bit_u64_self:
  assumes "unat (m :: u64) < 2 ^ k"
  shows "take_bit k m = m"
  using assms by (simp add: word_unat_eq_iff unsigned_take_bit_eq take_bit_nat_eq_self)

lemma sint_negative_iff: "sint (i :: u64) < 0 \<longleftrightarrow> int64_max < i"
proof -
  have "sint i < 0 \<longleftrightarrow> bit i 63"
    using bit_last_iff [of i] by simp
  also have "\<dots> \<longleftrightarrow> odd (unat i div 2 ^ 63)"
    using bit_iff_odd [of "unat i" 63] by (simp add: bit_unsigned_iff)
  also have "\<dots> \<longleftrightarrow> 2 ^ 63 \<le> unat i"
  proof -
    have "unat i < 2 ^ 64" by (rule order_less_le_trans [OF unsigned_less]) simp
    then have "unat i div 2 ^ 63 < 2" by (intro less_mult_imp_div_less) simp
    moreover have "unat i div 2 ^ 63 = 0 \<longleftrightarrow> unat i < 2 ^ 63" by (simp add: div_eq_0_iff)
    ultimately show ?thesis by (auto simp: less_2_cases_iff)
  qed
  also have "\<dots> \<longleftrightarrow> int64_max < i"
    by (simp add: int64_max_def word_less_nat_alt) arith
  finally show ?thesis .
qed

lemma integer_magnitude_range:
  "sint i < 0 \<Longrightarrow> integer_magnitude i \<noteq> 0 \<and> integer_magnitude i \<le> int64_max + 1"
  "\<not> sint i < 0 \<Longrightarrow> integer_magnitude i \<le> int64_max"
proof -
  assume "sint i < 0"
  then have i: "unat i > 2 ^ 63 - 1" "integer_magnitude i = - i"
    by (simp_all add: integer_magnitude_def sint_negative_iff int64_max_def word_less_nat_alt)
  then have "i \<noteq> 0" by auto
  then show "integer_magnitude i \<noteq> 0 \<and> integer_magnitude i \<le> int64_max + 1"
    using i by (simp add: int64_max_def word_le_nat_alt unat_uminus_u64)
qed (simp add: integer_magnitude_def sint_negative_iff)

lemma integer_of_magnitude:
  "sint i < 0 \<Longrightarrow>
    (if integer_magnitude i = int64_max + 1 then 0x8000000000000000 else - integer_magnitude i) = i"
proof -
  assume neg: "sint i < 0"
  have "i = 0x8000000000000000" if "- i = 0x8000000000000000"
    using arg_cong [OF that, of uminus] by simp
  then show ?thesis
    using neg by (auto simp: integer_magnitude_def int64_max_def)
qed

lemma magnitude_of_negative:
  assumes "m \<noteq> 0" "m \<le> int64_max + 1"
  defines "v \<equiv> (if m = int64_max + 1 then 0x8000000000000000 else - m)"
  shows "sint v < 0 \<and> integer_magnitude v = m"
proof (cases "m = int64_max + 1")
  case True
  then show ?thesis
    unfolding v_def integer_magnitude_def sint_negative_iff by (simp add: int64_max_def)
next
  case False
  have "unat m \<noteq> 0" "unat m \<le> 2 ^ 63"
    using assms(1,2) by (simp_all add: unat_eq_zero word_le_nat_alt int64_max_def)
  then have "int64_max < - m"
    using assms(1) by (simp add: word_less_nat_alt unat_uminus_u64 int64_max_def)
  then show ?thesis
    using False unfolding v_def integer_magnitude_def sint_negative_iff by simp
qed

lemma byte_le_1: "(b :: byte) \<le> 1 \<longleftrightarrow> b = 0 \<or> b = 1"
  by (auto simp: word_le_nat_alt word_unat_eq_iff)

lemma decode_integer_exact:
  assumes "decode_integer rest = Inr (v, rest')"
  shows "append_canonical v @ rest' = 0x02 # rest"
proof -
  obtain sign rest1 where rest: "rest = sign # rest1" and sign: "sign \<le> 1"
    using assms by (auto simp: decode_integer_def split: list.splits if_splits)
  obtain width rest2 where wd: "read_canonical_length rest1 = Inr (width, rest2)"
    using assms sign by (cases "read_canonical_length rest1") (auto simp: decode_integer_def rest not_less [symmetric])
  let ?bs = "take (unat width) rest2"
  let ?m = "be_value ?bs"
  have ok: "width \<noteq> 0" "width \<le> 8" "unat width \<le> length rest2" "width > 1 \<Longrightarrow> hd rest2 \<noteq> 0"
    using assms sign by (auto simp: decode_integer_def rest wd not_less split: if_splits)
  have len: "length ?bs = unat width" "0 < unat width" "unat width \<le> 8"
    using ok by (simp_all add: word_le_nat_alt unat_gt_0)
  then have "?bs \<noteq> []" by auto
  moreover have "length ?bs > 1 \<Longrightarrow> hd ?bs \<noteq> 0"
    using len ok(4) by (simp add: word_less_nat_alt)
  ultimately have mw: "magnitude_width ?m = unat width"
    using magnitude_width_be_value [of ?bs] len by simp
  have bytes: "be_bytes (unat width) ?m = ?bs"
    using be_bytes_be_value [of ?bs] len by simp
  have rest1: "rest1 = be_bytes 8 width @ rest2"
    using wd by (simp add: read_canonical_length_Inr)
  have out: "append_canonical (from_integer i) @ drop (unat width) rest2 = 0x02 # rest"
    if "integer_magnitude i = ?m" "sint i < 0 \<longleftrightarrow> sign = 1" for i
    using that sign mw bytes rest1
    by (auto simp: from_integer_def Let_def append_length_def rest byte_le_1
        append.assoc [symmetric] simp del: append.assoc)
  show ?thesis
  proof (cases "sign = 1")
    case True
    then have "?m \<noteq> 0" "?m \<le> int64_max + 1"
      and v: "v = from_integer (if ?m = int64_max + 1 then 0x8000000000000000 else - ?m)"
        "rest' = drop (unat width) rest2"
      using assms ok by (auto simp: decode_integer_def rest wd Let_def not_less split: if_splits)
    then show ?thesis
      unfolding v using out magnitude_of_negative True by blast
  next
    case False
    then have "?m \<le> int64_max" and v: "v = from_integer ?m" "rest' = drop (unat width) rest2"
      using assms ok sign by (auto simp: decode_integer_def rest wd Let_def not_less split: if_splits)
    then show ?thesis
      unfolding v using False by (intro out) (auto simp: sint_negative_iff integer_magnitude_def)
  qed
qed

lemma decode_integer_encoded:
  "decode_integer (tl (append_canonical (from_integer i)) @ rest) = Inr (from_integer i, rest)"
proof -
  let ?m = "integer_magnitude i" and ?w = "magnitude_width (integer_magnitude i)"
  have w: "unat (word_of_nat ?w :: u64) = ?w"
    using magnitude_width_le_8 [of ?m] by (intro unat_word_of_nat_u64) simp
  have wr: "(word_of_nat ?w :: u64) \<noteq> 0" "(word_of_nat ?w :: u64) \<le> 8"
    using w magnitude_width_le_8 [of ?m] magnitude_width_pos [of ?m]
    by (auto simp: word_le_nat_alt simp del: magnitude_width_pos)
  have val: "be_value (be_bytes ?w ?m) = ?m"
  proof -
    have "take_bit (8 * ?w) ?m = ?m"
      using magnitude_width_bounds [of ?m]
      by (intro take_bit_u64_self) (simp add: power_mult)
    then show ?thesis by (simp add: be_value_be_bytes)
  qed
  have lead: "hd (be_bytes ?w ?m) \<noteq> 0" if "?w > 1"
  proof -
    obtain k where k: "?w = Suc k" using magnitude_width_pos gr0_implies_Suc by blast
    have "unat ?m < 256 ^ k" if "ucast (drop_bit (8 * k) ?m) = (0 :: byte)"
    proof -
      have "be_value (be_bytes ?w ?m) = be_value (0 # be_bytes k ?m)"
        using that by (simp add: k)
      also have "\<dots> = be_value (be_bytes k ?m)"
        by (simp add: be_value_def be_step_def)
      finally show ?thesis
        using val unat_be_value_less [of "be_bytes k ?m"] magnitude_width_le_8 [of ?m] k
        by (simp add: power_mult)
    qed
    then show ?thesis
      using magnitude_width_bounds [of ?m] that k by (auto simp: not_less)
  qed
  have rd: "read_canonical_length (append_length (word_of_nat ?w) @ be_bytes ?w ?m @ rest)
      = Inr (word_of_nat ?w, be_bytes ?w ?m @ rest)"
    by (simp add: read_canonical_length_Inr append_length_def)
  have hd: "hd (be_bytes ?w ?m @ rest) = hd (be_bytes ?w ?m)"
    by (rule hd_append2) (metis length_be_bytes length_0_conv magnitude_width_pos less_irrefl)
  define m where "m = ?m"
  define w where "w = magnitude_width m"
  have enc: "tl (append_canonical (from_integer i)) @ rest
      = (if sint i < 0 then 1 else 0) # append_length (word_of_nat w) @ be_bytes w m @ rest"
    by (simp add: from_integer_def Let_def m_def w_def)
  have range: "sint i < 0 \<Longrightarrow> m \<noteq> 0 \<and> m \<le> int64_max + 1" "\<not> sint i < 0 \<Longrightarrow> m \<le> int64_max"
    "\<not> sint i < 0 \<Longrightarrow> m = i"
    using integer_magnitude_range [of i] by (auto simp: m_def integer_magnitude_def)
  moreover have "sint i < 0 \<Longrightarrow> (if m = int64_max + 1 then 0x8000000000000000 else - m) = i"
    unfolding m_def by (rule integer_of_magnitude)
  moreover have lead1: "1 < (word_of_nat w :: u64) \<Longrightarrow> hd (be_bytes w m @ rest) \<noteq> 0"
    using lead hd w by (simp add: m_def w_def word_less_nat_alt)
  moreover note wr w val rd
  ultimately show ?thesis
    unfolding enc m_def [symmetric] w_def [symmetric]
    by (cases "sint i < 0") (simp_all add: decode_integer_def Let_def not_less [symmetric])
qed

section \<open>The decoder is canonical\<close>

abbreviation item_bytes :: "canonical_value \<Rightarrow> bytes" where
  "item_bytes item \<equiv> (let encoded = append_canonical item
     in append_length (word_of_nat (length encoded)) @ encoded)"

lemma decode_finish_Inr_iff [result_simps]:
  "decode_finish (v, rest) = Inr w \<longleftrightarrow> rest = [] \<and> canonical_validate v = Inr () \<and> w = v"
  by (cases "canonical_validate v") (auto simp: decode_finish_def)

lemma decode_payload_exact:
  assumes "decode_payload tag rest = Inr (v, rest')" "tag = 0x03 \<or> tag = 0x04"
  shows "append_canonical v @ rest' = tag # rest"
proof -
  obtain len rest1 where rd: "read_canonical_length rest = Inr (len, rest1)"
    using assms(1) by (cases "read_canonical_length rest") (auto simp: decode_payload_def)
  have len: "unat len \<le> length rest1"
    using assms(1) by (auto simp: decode_payload_def rd not_less split: if_splits)
  then have "(word_of_nat (length (take (unat len) rest1)) :: u64) = len"
    by simp
  moreover have "v = (if tag = 0x03 then from_bytes (take (unat len) rest1)
      else from_string (string_of (take (unat len) rest1)))" "rest' = drop (unat len) rest1"
    using assms(1) len by (auto simp: decode_payload_def rd Let_def)
  moreover have "rest = be_bytes 8 len @ rest1"
    using rd by (simp add: read_canonical_length_Inr)
  ultimately show ?thesis
    using assms(2) len by (auto simp: from_bytes_def from_string_def append_length_def comp_def)
qed

lemma decode_canonical_exact:
  shows "decode_canonical_value bs = Inr v \<Longrightarrow> append_canonical v = bs"
    and "decode_items n rest = Inr (vs, rest') \<Longrightarrow>
      length vs = n \<and> rest = concat (map item_bytes vs) @ rest'"
proof (induction bs and n rest arbitrary: v and vs rest' rule: decode_canonical_value_decode_items.induct)
  case 1
  then show ?case by simp
next
  case (2 tag rest)
  consider "tag = 0" | "tag = 1" | "tag = 2" | "tag = 3 \<or> tag = 4" | "tag = 5"
    using "2.prems" by (auto split: if_splits)
  then show ?case
  proof cases
    case 1
    then show ?thesis using "2.prems" by (auto simp: decode_finish_Inr_iff canonical_null_def)
  next
    case b: 2
    then show ?thesis
      using "2.prems" by (auto simp: decode_finish_Inr_iff from_boolean_def not_less byte_le_1
          split: list.splits if_splits)
  next
    case i: 3
    then obtain w r where "decode_integer rest = Inr (w, r)" "decode_finish (w, r) = Inr v"
      using "2.prems" by (auto simp: and_then_Inr_iff)
    then show ?thesis
      using decode_integer_exact [of rest w r] i by (auto simp: decode_finish_Inr_iff)
  next
    case p: 4
    then obtain w r where "decode_payload tag rest = Inr (w, r)" "decode_finish (w, r) = Inr v"
      using "2.prems" by (auto simp: and_then_Inr_iff)
    then show ?thesis
      using decode_payload_exact [of tag rest w r] p by (auto simp: decode_finish_Inr_iff)
  next
    case t: 5
    obtain count rest1 where rd: "read_canonical_length rest = Inr (count, rest1)"
      using "2.prems" t by (cases "read_canonical_length rest") auto
    then obtain vals rest2 where it: "decode_items (unat count) rest1 = Inr (vals, rest2)"
      "decode_finish (from_tuple vals, rest2) = Inr v" "\<not> unat count > length rest1 div 9"
      using "2.prems" t by (auto simp: and_then_Inr_iff split: if_splits)
    have "length vals = unat count \<and> rest1 = concat (map item_bytes vals) @ rest2"
      using t rd it by (intro "2.IH") auto
    moreover have "rest = be_bytes 8 count @ rest1"
      using rd by (simp add: read_canonical_length_Inr)
    ultimately show ?thesis
      using t it(2) by (auto simp: decode_finish_Inr_iff from_tuple_def append_length_def)
  qed
next
  case (3 rest)
  then show ?case by simp
next
  case (4 n rest)
  obtain len rest1 where rd: "read_canonical_length rest = Inr (len, rest1)"
    using "4.prems" by (cases "read_canonical_length rest") auto
  then have ok: "\<not> (len = 0 \<or> unat len > length rest1)"
    using "4.prems" by (auto split: if_splits)
  obtain item items where it: "decode_canonical_value (take (unat len) rest1) = Inr item"
    "decode_items n (drop (unat len) rest1) = Inr (items, rest')" "vs = item # items"
    using "4.prems" rd ok by (auto simp: and_then_Inr_iff)
  have item: "append_canonical item = take (unat len) rest1"
    using "4.IH"(1) rd ok it(1) by blast
  have items: "length items = n \<and> drop (unat len) rest1 = concat (map item_bytes items) @ rest'"
    using "4.IH"(2) rd ok it(1,2) by blast
  have "(word_of_nat (length (append_canonical item)) :: u64) = len"
    using ok by (simp add: item)
  moreover have "rest = be_bytes 8 len @ take (unat len) rest1 @ drop (unat len) rest1"
    using rd by (simp add: read_canonical_length_Inr)
  ultimately show ?case
    using items by (simp add: it(3) item Let_def append_length_def)
qed

section \<open>The encoder is inverted\<close>

lemma canonical_validate_items_ok_iff [result_simps]:
  "canonical_validate_items i vs = Inr u \<longleftrightarrow> (\<forall>v \<in> set vs. canonical_validate v = Inr ())"
proof (induction vs arbitrary: i)
  case Nil
  then show ?case by simp
next
  case (Cons v vs)
  then show ?case by (cases "canonical_validate v") auto
qed

lemma canonical_validate_cases:
  assumes "canonical_validate v = Inr ()"
  obtains (null) "v = canonical_null"
  | (boolean) b where "v = from_boolean b"
  | (integer) i where "v = from_integer i"
  | (bytes) bs where "v = from_bytes bs"
  | (utf8) s where "v = from_string s" "sdk_valid_utf8 (bytes_of s)"
  | (tuple) vs where "v = from_tuple vs" "\<And>w. w \<in> set vs \<Longrightarrow> canonical_validate w = Inr ()"
proof (cases v)
  case (Canonical_Value k bo i bs t tup)
  show ?thesis
    using assms that unfolding Canonical_Value
    by (cases k) (auto simp: Let_def result_simps canonical_null_def from_boolean_def from_integer_def
        from_bytes_def from_string_def from_tuple_def kind_is_valid_def split: if_splits)
qed

lemma canonical_validate_simps [simp]:
  "canonical_validate canonical_null = Inr ()"
  "canonical_validate (from_boolean b) = Inr ()"
  "canonical_validate (from_integer i) = Inr ()"
  "canonical_validate (from_bytes bs) = Inr ()"
  by (simp_all add: canonical_null_def from_boolean_def from_integer_def from_bytes_def kind_is_valid_def)

lemma canonical_validate_text [simp]:
  "canonical_validate (from_string s) = Inr () \<longleftrightarrow> sdk_valid_utf8 (bytes_of s)"
  by (simp add: from_string_def kind_is_valid_def)

lemma canonical_validate_tuple [simp]:
  "canonical_validate (from_tuple vs) = Inr () \<longleftrightarrow> (\<forall>v \<in> set vs. canonical_validate v = Inr ())"
  by (simp add: from_tuple_def kind_is_valid_def result_simps)

lemma append_canonical_tuple:
  "append_canonical (from_tuple vs) =
    0x05 # append_length (word_of_nat (length vs)) @ concat (map item_bytes vs)"
  by (simp add: from_tuple_def)

lemma append_canonical_nonempty: "canonical_validate v = Inr () \<Longrightarrow> append_canonical v \<noteq> []"
  by (erule canonical_validate_cases)
    (simp_all add: canonical_null_def from_boolean_def from_integer_def from_bytes_def from_string_def
      from_tuple_def Let_def)

lemma length_append_length [simp]: "length (append_length v) = 8"
  by (simp add: append_length_def)

lemma read_append_length [simp]: "read_canonical_length (append_length v @ rest) = Inr (v, rest)"
  by (simp add: read_canonical_length_Inr append_length_def)

lemma length_item_le:
  "v \<in> set vs \<Longrightarrow> length (append_canonical v) < length (append_canonical (from_tuple vs))"
  by (induction vs) (auto simp: append_canonical_tuple Let_def)

lemma tuple_bytes_at_least:
  "\<forall>v \<in> set vs. canonical_validate v = Inr () \<Longrightarrow> 9 * length vs \<le> length (concat (map item_bytes vs))"
proof (induction vs)
  case Nil
  then show ?case by simp
next
  case (Cons v vs)
  then have "append_canonical v \<noteq> []" by (simp add: append_canonical_nonempty)
  then have "1 \<le> length (append_canonical v)" by (cases "append_canonical v") auto
  then show ?case using Cons by (simp add: Let_def)
qed

lemma decode_items_encoded:
  assumes "\<And>v. v \<in> set vs \<Longrightarrow> canonical_validate v = Inr ()
      \<and> length (append_canonical v) < 2 ^ 64 \<and> decode_canonical_value (append_canonical v) = Inr v"
  shows "decode_items (length vs) (concat (map item_bytes vs) @ rest) = Inr (vs, rest)"
  using assms
proof (induction vs)
  case Nil
  then show ?case by simp
next
  case (Cons v vs)
  have v: "canonical_validate v = Inr ()" "length (append_canonical v) < 2 ^ 64"
    "decode_canonical_value (append_canonical v) = Inr v"
    using Cons.prems [of v] by simp_all
  then have "unat (word_of_nat (length (append_canonical v)) :: u64) = length (append_canonical v)"
    by (intro unat_word_of_nat_u64)
  moreover have "(word_of_nat (length (append_canonical v)) :: u64) \<noteq> 0"
    using calculation append_canonical_nonempty [OF v(1)] by auto
  ultimately show ?case
    using Cons v(3) by (simp add: Let_def)
qed

lemma decode_payload_encoded:
  "length bs < 2 ^ 64 \<Longrightarrow> decode_payload tag (append_length (word_of_nat (length bs)) @ bs)
    = Inr (if tag = 0x03 then from_bytes bs else from_string (string_of bs), [])"
  by (simp add: decode_payload_def unat_word_of_nat_u64)

lemma size_tuple_item: "v \<in> set vs \<Longrightarrow> size v < size (from_tuple vs)"
  by (induction vs) (auto simp: from_tuple_def)

lemma decode_canonical_encoded:
  assumes "canonical_validate v = Inr ()" "length (append_canonical v) < 2 ^ 64"
  shows "decode_canonical_value (append_canonical v) = Inr v"
  using assms
proof (induction v rule: measure_induct_rule [of size])
  case (less v)
  from less.prems(1) show ?case
  proof (cases rule: canonical_validate_cases)
    case null
    then show ?thesis by (simp add: canonical_null_def decode_finish_Inr_iff kind_is_valid_def)
  next
    case (boolean b)
    then show ?thesis by (auto simp: from_boolean_def decode_finish_Inr_iff kind_is_valid_def)
  next
    case (integer i)
    obtain enc where "append_canonical (from_integer i) = 0x02 # enc"
      by (simp add: from_integer_def Let_def)
    then show ?thesis
      using decode_integer_encoded [of i "[]"] by (simp add: integer decode_finish_Inr_iff)
  next
    case (bytes bs)
    have "append_canonical v = 0x03 # append_length (word_of_nat (length bs)) @ bs"
      by (simp add: bytes from_bytes_def)
    then show ?thesis
      using less.prems(2) by (simp add: bytes decode_payload_encoded decode_finish_Inr_iff)
  next
    case (utf8 s)
    have "append_canonical v = 0x04 # append_length (word_of_nat (length (bytes_of s))) @ bytes_of s"
      by (simp add: utf8 from_string_def)
    then show ?thesis
      using less.prems(2) utf8 decode_payload_encoded [of "bytes_of s" "0x04"]
      by (simp add: decode_finish_Inr_iff comp_def)
  next
    case (tuple vs)
    have items: "decode_items (length vs) (concat (map item_bytes vs) @ []) = Inr (vs, [])"
    proof (rule decode_items_encoded)
      fix w assume w: "w \<in> set vs"
      then have "length (append_canonical w) < 2 ^ 64"
        using less.prems(2) length_item_le [OF w] unfolding tuple(1) by linarith
      then show "canonical_validate w = Inr () \<and> length (append_canonical w) < 2 ^ 64
          \<and> decode_canonical_value (append_canonical w) = Inr w"
        using less.IH [of w] size_tuple_item [OF w] w tuple by simp
    qed
    have least: "9 * length vs \<le> length (concat (map item_bytes vs))"
      using tuple by (intro tuple_bytes_at_least) simp
    then have "length vs < 2 ^ 64"
      using less.prems(2) unfolding tuple(1) append_canonical_tuple by simp
    then have "unat (word_of_nat (length vs) :: u64) = length vs"
      by (rule unat_word_of_nat_u64)
    moreover have "\<not> length vs > length (concat (map item_bytes vs)) div 9"
      using least by (simp add: not_less less_eq_div_iff_mult_less_eq mult.commute)
    ultimately show ?thesis
      using items less.prems(1) unfolding tuple(1) append_canonical_tuple
      by (simp add: decode_finish_Inr_iff)
  qed
qed

section \<open>Properties of the binary form\<close>

lemma decode_canonical_validated: "decode_canonical_value bs = Inr v \<Longrightarrow> canonical_validate v = Inr ()"
  by (cases bs) (auto simp: and_then_Inr_iff decode_finish_Inr_iff split: if_splits list.splits sum.splits)

interpretation tuple_codec: canonical_codec canonical_binary canonical_binary_decode
  by unfold_locales (auto simp: canonical_binary_decode_def split: sum.splits if_splits)

text \<open>
  C16: every value that validates, and whose encoding is shorter than $2^{64}$ bytes so that the
  64-bit length fields hold, is recovered exactly by the strict decoder from its encoding.
\<close>

theorem canonical_binary_round_trip:
  assumes "canonical_binary v = Inr bs" "length bs < 2 ^ 64"
  shows "canonical_binary_decode bs = Inr v"
  using assms decode_canonical_encoded [of v]
  by (auto simp: canonical_binary_def canonical_binary_decode_def split: sum.splits)

lemma canonical_binary_round_trip_witness:
  "canonical_binary_decode [0x05, 0, 0, 0, 0, 0, 0, 0, 1, 0, 0, 0, 0, 0, 0, 0, 11,
      0x02, 1, 0, 0, 0, 0, 0, 0, 0, 1, 7] = Inr (from_tuple [from_integer (- 7)])"
proof (rule canonical_binary_round_trip)
  show "canonical_binary (from_tuple [from_integer (- 7)]) = Inr [0x05, 0, 0, 0, 0, 0, 0, 0, 1,
      0, 0, 0, 0, 0, 0, 0, 11, 0x02, 1, 0, 0, 0, 0, 0, 0, 0, 1, 7]"
    by code_simp
qed simp

text \<open>
  The decoder proper already accepts only canonical encodings: whatever
  \<open>decode_canonical_value\<close> returns re-encodes to the very bytes it read. So the re-encoding check of
  \<open>canonical_binary_decode\<close> never fires, and its error \<open>noncanonical-encoding\<close> is unreachable.
\<close>

theorem canonical_decoder_is_strict: "canonical_binary_decode bs = decode_canonical_value bs"
proof (cases "decode_canonical_value bs")
  case (Inl e)
  then show ?thesis by (simp add: canonical_binary_decode_def)
next
  case (Inr v)
  moreover have "canonical_validate v = Inr ()"
    by (rule decode_canonical_validated [OF Inr])
  ultimately show ?thesis
    using decode_canonical_exact(1) [OF Inr] by (simp add: canonical_binary_decode_def canonical_binary_def)
qed

text \<open>
  Two different validated values never share an encoding, so a digest of the canonical binary
  form identifies the value up to collisions of the hash.
\<close>

theorem canonical_binary_injective:
  assumes "v \<noteq> w" "canonical_binary v = Inr bs" "length bs < 2 ^ 64"
  shows "canonical_binary w \<noteq> Inr bs"
  using assms decode_canonical_encoded [of v] decode_canonical_encoded [of w]
  by (auto simp: canonical_binary_def split: sum.splits)

lemma canonical_binary_injective_witness:
  "canonical_binary (from_tuple [from_string ''a'', from_string ''b'']) \<noteq>
    Inr [0x05, 0, 0, 0, 0, 0, 0, 0, 1, 0, 0, 0, 0, 0, 0, 0, 11,
      0x04, 0, 0, 0, 0, 0, 0, 0, 2, 97, 98]"
proof (rule canonical_binary_injective)
  show "from_tuple [from_string ''ab''] \<noteq> from_tuple [from_string ''a'', from_string ''b'']"
    by (simp add: from_tuple_def)
  show "canonical_binary (from_tuple [from_string ''ab'']) =
    Inr [0x05, 0, 0, 0, 0, 0, 0, 0, 1, 0, 0, 0, 0, 0, 0, 0, 11,
      0x04, 0, 0, 0, 0, 0, 0, 0, 2, 97, 98]"
    by code_simp
qed simp

section \<open>Text validators\<close>

definition validate_utf8_text :: "string \<Rightarrow> unit result" where
  "validate_utf8_text value =
    (if \<not> sdk_valid_utf8 (bytes_of value) then Inl (Err ''sdk.text-invalid'' ''value'' ''invalid-utf8'')
     else Inr ())"

text \<open>
  The loop over the scalars of a validated string: it looks at the leading byte of each and skips
  the bytes its range announces; the result is the number of scalars.
\<close>

definition scalar_width :: "byte \<Rightarrow> nat" where
  "scalar_width first = (if first \<le> 0x7f then 1 else if first \<le> 0xdf then 2 else if first \<le> 0xef then 3 else 4)"

function count_scalars :: "bytes \<Rightarrow> nat \<Rightarrow> nat result" where
  "count_scalars [] scalar_count = Inr scalar_count"
| "count_scalars (first # rest) scalar_count =
    (if first < 0x20 \<or> first = 0x7f then Inl (Err ''sdk.text-invalid'' ''value'' ''control-character'')
     else count_scalars (drop (scalar_width first) (first # rest)) (scalar_count + 1))"
  by pat_completeness auto
termination
  by (relation "measure (\<lambda>(bs, n). length bs)") (auto simp: scalar_width_def)

definition validate_strong_id :: "string \<Rightarrow> unit result" where
  "validate_strong_id value =
    (if value = [] then Inl (Err ''sdk.text-invalid'' ''value'' ''empty'')
     else and_then (validate_utf8_text value) (\<lambda>_.
       and_then (count_scalars (bytes_of value) 0) (\<lambda>scalar_count.
         if scalar_count > 512 then Inl (Err ''sdk.text-invalid'' ''value'' ''max-length'')
         else Inr ())))"

definition symbol_byte :: "char \<Rightarrow> bool" where
  "symbol_byte c = (let b = byte_of_char c in (0x61 \<le> b \<and> b \<le> 0x7a) \<or> (0x30 \<le> b \<and> b \<le> 0x39)
    \<or> c = CHR ''_'' \<or> c = CHR ''.'' \<or> c = CHR ''-'')"

definition lower_letter :: "char \<Rightarrow> bool" where
  "lower_letter c = (0x61 \<le> byte_of_char c \<and> byte_of_char c \<le> 0x7a)"

definition validate_registered_symbol :: "string \<Rightarrow> unit result" where
  "validate_registered_symbol value =
    and_then (validate_strong_id value) (\<lambda>_.
      if length value < 2 \<or> \<not> lower_letter (hd value) \<or> \<not> list_all symbol_byte (drop 1 value)
      then Inl (Err ''sdk.text-invalid'' ''value'' ''registered-symbol'')
      else Inr ())"

definition canonical_utf8_string :: "string \<Rightarrow> canonical_value result" where
  "canonical_utf8_string value =
    and_then (validate_utf8_text value) (\<lambda>_. Inr (from_string value))"

section \<open>Versions and JSON text\<close>

record semantic_version =
  version_major :: u32
  version_minor :: u32
  version_patch :: u32

definition version_string :: "semantic_version \<Rightarrow> string" where
  "version_string v = decimal (unat (version_major v)) @ ''.'' @ decimal (unat (version_minor v))
    @ ''.'' @ decimal (unat (version_patch v))"

text \<open>\<open>\u\<close> and four hexadecimal digits, zero filled.\<close>

definition json_hex_escape :: "byte \<Rightarrow> string" where
  "json_hex_escape b = [CHR 0x5c, CHR ''u'', CHR ''0'', CHR ''0'',
    hex_digit (unat (drop_bit 4 b)), hex_digit (unat (b AND 0xf))]"

definition json_escape_char :: "char \<Rightarrow> string" where
  "json_escape_char c =
    (if c = CHR 0x5c then [CHR 0x5c, CHR 0x5c]
     else if c = CHR 0x22 then [CHR 0x5c, CHR 0x22]
     else if c = CHR 0x08 then [CHR 0x5c, CHR ''b'']
     else if c = CHR 0x0c then [CHR 0x5c, CHR ''f'']
     else if c = CHR 0x0a then [CHR 0x5c, CHR ''n'']
     else if c = CHR 0x0d then [CHR 0x5c, CHR ''r'']
     else if c = CHR 0x09 then [CHR 0x5c, CHR ''t'']
     else if byte_of_char c < 0x20 then json_hex_escape (byte_of_char c)
     else [c])"

definition canonical_json_escape :: "string \<Rightarrow> string" where
  "canonical_json_escape input =
    (if \<not> sdk_valid_utf8 (bytes_of input) then [] else concat (map json_escape_char input))"

definition canonical_json_string :: "string \<Rightarrow> string" where
  "canonical_json_string value = [CHR 0x22] @ canonical_json_escape value @ [CHR 0x22]"

definition canonical_json_text :: "string \<Rightarrow> string result" where
  "canonical_json_text value =
    and_then (validate_utf8_text value) (\<lambda>_. Inr (canonical_json_string value))"

section \<open>Digests and identities\<close>

definition content_digest :: "bytes \<Rightarrow> string" where
  "content_digest bs = ''sha256:'' @ concat (map hex_word (sha256_words bs))"

definition semantic_domain_char :: "char \<Rightarrow> bool" where
  "semantic_domain_char c = (let b = byte_of_char c in (0x61 \<le> b \<and> b \<le> 0x7a) \<or> (0x30 \<le> b \<and> b \<le> 0x39)
    \<or> c = CHR ''.'' \<or> c = CHR ''_'' \<or> c = CHR ''-'')"

definition semantic_digest :: "string \<Rightarrow> string \<Rightarrow> string result" where
  "semantic_digest domain bs =
    (if domain = [] \<or> \<not> lower_letter (hd domain)
     then Inl (Err ''sdk.semantic-domain-invalid'' ''domain'' domain)
     else if \<not> list_all semantic_domain_char domain
     then Inl (Err ''sdk.semantic-domain-invalid'' ''domain'' domain)
     else and_then (canonical_binary (from_tuple [from_string ''cxxlens-semantic-digest-v2'',
         from_string domain, from_bytes (bytes_of bs)])) (\<lambda>framed.
       Inr (''semantic-v2:sha256:'' @ concat (map hex_word (sha256_words framed)))))"

definition identity_domain :: "string \<Rightarrow> string" where
  "identity_domain identity_kind =
    ''cxxlens'' @ [CHR 0x00] @ identity_kind @ [CHR 0x00, CHR ''v'', CHR ''1'', CHR 0x00]"

definition canonical_identity_digest :: "string \<Rightarrow> canonical_value list \<Rightarrow> string result" where
  "canonical_identity_digest identity_kind parts =
    (if identity_kind = [] \<or> \<not> sdk_valid_utf8 (bytes_of identity_kind)
     then Inl (canonical_error ''identity_kind'' ''invalid-utf8-or-empty'')
     else and_then (canonical_binary (from_tuple parts)) (\<lambda>encoded.
       Inr (identity_kind @ '':'' @ content_digest (bytes_of (identity_domain identity_kind) @ encoded))))"

definition source_span_identity :: "string \<Rightarrow> string \<Rightarrow> u64 \<Rightarrow> u64 \<Rightarrow> string \<Rightarrow> string result" where
  "source_span_identity source_snapshot file start stop role =
    (if isl (validate_strong_id source_snapshot) \<or> isl (validate_strong_id file)
        \<or> isl (validate_strong_id role) \<or> stop < start \<or> start > int64_max \<or> stop > int64_max
     then Inl (Err ''sdk.source-span-identity-invalid'' ''projection'' [])
     else canonical_identity_digest ''source-span''
       [from_string source_snapshot, from_string file, from_integer start, from_integer stop,
        from_string role])"

section \<open>What the text validators accept\<close>

definition control_byte :: "byte \<Rightarrow> bool" where
  "control_byte b = (b < 0x20 \<or> b = 0x7f)"

lemma cont_not_control: "cont_byte c \<Longrightarrow> \<not> control_byte c"
  by (auto simp: cont_byte_def control_byte_def byte_le_unat)

lemma scalar_width_count: "scalar_width f = Suc (continuation_count f)"
  by (simp add: scalar_width_def continuation_count_def)

lemma count_scalars_valid:
  "cbor_valid_utf8 bs \<Longrightarrow> count_scalars bs n =
    (if list_ex control_byte bs then Inl (Err ''sdk.text-invalid'' ''value'' ''control-character'')
     else Inr (n + length (filter (\<lambda>b. \<not> cont_byte b) bs)))"
proof (induction bs arbitrary: n rule: valid_utf8_induct)
  case Nil
  then show ?case by auto
next
  case (scalar f cs r)
  have "\<not> list_ex control_byte cs" "filter (\<lambda>b. \<not> cont_byte b) cs = []"
    using scalar(2) by (auto simp: list_ex_iff list_all_iff cont_not_control filter_empty_conv)
  then show ?case
    using scalar(1,3,5) by (simp add: scalar_width_count control_byte_def [of f])
qed

lemma validate_strong_id_iff:
  "validate_strong_id value = Inr () \<longleftrightarrow> value \<noteq> [] \<and> sdk_valid_utf8 (bytes_of value)
    \<and> \<not> list_ex control_byte (bytes_of value)
    \<and> length (filter (\<lambda>b. \<not> cont_byte b) (bytes_of value)) \<le> 512"
proof (cases "sdk_valid_utf8 (bytes_of value)")
  case True
  then have "cbor_valid_utf8 (bytes_of value)"
    by (simp add: sdk_valid_utf8_def validators_agree)
  note count = count_scalars_valid [OF this, of 0]
  show ?thesis
    using True by (auto simp: validate_strong_id_def validate_utf8_text_def count)
next
  case False
  then show ?thesis by (simp add: validate_strong_id_def validate_utf8_text_def)
qed

text \<open>
  A strong identifier is accepted exactly when it is a non-empty valid UTF-8 string without
  C0 controls or DEL anywhere, of at most 512 scalars, although the loop inspects only the bytes its
  scalar widths point at.
\<close>

theorem strong_id_accepted_iff:
  "validate_strong_id value = Inr () \<longleftrightarrow> value \<noteq> [] \<and> sdk_valid_utf8 (bytes_of value)
    \<and> \<not> list_ex (\<lambda>b. b < 0x20 \<or> b = 0x7f) (bytes_of value)
    \<and> length (filter (\<lambda>b. \<not> (0x80 \<le> b \<and> b \<le> 0xbf)) (bytes_of value)) \<le> 512"
  using validate_strong_id_iff [of "value"] unfolding control_byte_def cont_byte_def .

section \<open>The shape of digests\<close>

lemma lower_hex_hex_digit: "n < 16 \<Longrightarrow> lower_hex (hex_digit n)"
proof -
  have "list_all (\<lambda>n. lower_hex (hex_digit n)) [0..<16]"
    by code_simp
  then show "n < 16 \<Longrightarrow> lower_hex (hex_digit n)"
    by (simp add: list_all_iff del: upt_rec_numeral)
qed

lemma length_hex_word [simp]: "length (hex_word w) = 8"
  by (simp add: hex_word_def)

lemma lower_hex_hex_word: "list_all lower_hex (hex_word w)"
proof -
  have "unat (v AND 0xf :: u32) < 16" for v
    using take_bit_nat_less_exp [of 4 "unat v"] take_bit_eq_mask [of 4 v]
    by (simp add: mask_eq_exp_minus_1 flip: unsigned_take_bit_eq)
  then show ?thesis
    by (simp add: hex_word_def list_all_iff lower_hex_hex_digit)
qed

lemma length_sha256_blocks [simp]: "length st = 8 \<Longrightarrow> length (sha256_blocks bs off st) = 8"
proof (induction bs off st rule: sha256_blocks.induct)
  case (1 bs off st)
  then show ?case by (subst sha256_blocks.simps) simp
qed

lemma length_sha256_words [simp]: "length (sha256_words bs) = 8"
  by (simp add: sha256_words_def Let_def)

lemma length_concat_hex_words: "length (concat (map hex_word ws)) = 8 * length ws"
  by (induction ws) simp_all

lemma lower_hex_concat_hex_words: "list_all lower_hex (concat (map hex_word ws))"
  by (induction ws) (simp_all add: lower_hex_hex_word)

lemma content_digest_shape:
  "starts_with (content_digest bs) ''sha256:'' \<and> length (content_digest bs) = 71
    \<and> list_all lower_hex (drop 7 (content_digest bs))"
  by (simp add: content_digest_def starts_with_def length_concat_hex_words lower_hex_concat_hex_words)

lemma semantic_digest_shape:
  assumes "semantic_digest domain bs = Inr s"
  shows "\<exists>hex. s = ''semantic-v2:sha256:'' @ hex \<and> length hex = 64 \<and> list_all lower_hex hex"
proof -
  obtain framed where s: "s = ''semantic-v2:sha256:'' @ concat (map hex_word (sha256_words framed))"
    using assms by (auto simp: semantic_digest_def and_then_Inr_iff split: if_splits)
  have "length (concat (map hex_word (sha256_words framed))) = 64"
    by (simp add: length_concat_hex_words)
  with s show ?thesis
    using lower_hex_concat_hex_words by (intro exI conjI)
qed

section \<open>JSON text\<close>

lemma hex_digit_inject: "m < 16 \<Longrightarrow> n < 16 \<Longrightarrow> hex_digit m = hex_digit n \<longleftrightarrow> m = n"
proof -
  have "distinct (map hex_digit [0..<16])"
    by code_simp
  then show "m < 16 \<Longrightarrow> n < 16 \<Longrightarrow> hex_digit m = hex_digit n \<longleftrightarrow> m = n"
    by (auto simp: distinct_map inj_on_def simp del: upt_rec_numeral)
qed

lemma byte_nibbles:
  fixes v :: byte
  shows "unat (v AND 0xf) = unat v mod 16" and "unat (drop_bit 4 v) = unat v div 16"
proof -
  have "unat (take_bit 4 v) = take_bit 4 (unat v)"
    by (rule unsigned_take_bit_eq)
  then show "unat (v AND 0xf) = unat v mod 16"
    using take_bit_eq_mask [of 4 v] by (simp add: mask_eq_exp_minus_1 take_bit_eq_mod [of 4 "unat v"])
qed (simp add: drop_bit_eq_div unat_div)

lemma json_hex_escape_inject:
  assumes "json_hex_escape b = json_hex_escape c"
  shows "b = c"
proof -
  have hi: "unat v div 16 < 16" for v :: byte
    using byte_unat_less [of v] by (simp add: div_less_iff_less_mult)
  have "unat b div 16 = unat c div 16" "unat b mod 16 = unat c mod 16"
    using assms by (auto simp: json_hex_escape_def byte_nibbles hex_digit_inject hi)
  then show ?thesis
    by (metis div_mult_mod_eq word_unat_eq_iff)
qed

text \<open>The two-byte escapes: the letter after the backslash determines the escaped character.\<close>

definition short_escapes :: "(char \<times> char) list" where
  "short_escapes = [(CHR 0x5c, CHR 0x5c), (CHR 0x22, CHR 0x22), (CHR ''b'', CHR 0x08), (CHR ''f'', CHR 0x0c),
    (CHR ''n'', CHR 0x0a), (CHR ''r'', CHR 0x0d), (CHR ''t'', CHR 0x09)]"

lemma short_escapes_functional:
  "(x, c) \<in> set short_escapes \<Longrightarrow> (x, d) \<in> set short_escapes \<Longrightarrow> c = d"
  "(CHR ''u'', c) \<notin> set short_escapes"
  by (auto simp: short_escapes_def)

lemma json_escape_short:
  assumes "c \<in> set (map snd short_escapes)"
  shows "\<exists>x. json_escape_char c = [CHR 0x5c, x] \<and> (x, c) \<in> set short_escapes"
proof -
  have "c = CHR 0x5c \<or> c = CHR 0x22 \<or> c = CHR 0x08 \<or> c = CHR 0x0c \<or> c = CHR 0x0a \<or> c = CHR 0x0d \<or> c = CHR 0x09"
    using assms by (simp add: short_escapes_def)
  then show ?thesis
    by (elim disjE) (simp_all add: json_escape_char_def short_escapes_def)
qed

lemma json_escape_other:
  assumes "c \<notin> set (map snd short_escapes)"
  shows "json_escape_char c = (if byte_of_char c < 0x20 then json_hex_escape (byte_of_char c) else [c])"
    and "c \<noteq> CHR 0x5c"
  using assms by (simp_all add: json_escape_char_def short_escapes_def)

lemma json_escape_char_cases:
  obtains (plain) "json_escape_char c = [c]" "c \<noteq> CHR 0x5c"
  | (short) x where "json_escape_char c = [CHR 0x5c, x]" "(x, c) \<in> set short_escapes"
  | (hex) "json_escape_char c = json_hex_escape (byte_of_char c)"
proof (cases "c \<in> set (map snd short_escapes)")
  case True
  then show thesis using json_escape_short short by blast
next
  case False
  then show thesis using json_escape_other [OF False] plain hex by (cases "byte_of_char c < 0x20") simp_all
qed

lemma json_escape_char_prefix_free:
  assumes "json_escape_char c @ x = json_escape_char d @ y"
  shows "c = d \<and> x = y"
proof -
  have hex: "json_hex_escape (byte_of_char c) = json_hex_escape (byte_of_char d) \<Longrightarrow> c = d"
    by (metis char_of_byte_of_char json_hex_escape_inject)
  show ?thesis
    by (rule json_escape_char_cases [of c]; rule json_escape_char_cases [of d])
      (use assms hex in \<open>auto simp: json_hex_escape_def short_escapes_functional dest: short_escapes_functional(1)\<close>)
qed

lemma json_escape_char_nonempty [simp]: "json_escape_char c \<noteq> []"
  by (rule json_escape_char_cases [of c]) (auto simp: json_hex_escape_def)

lemma concat_escape_inject: "concat (map json_escape_char s) = concat (map json_escape_char t) \<Longrightarrow> s = t"
proof (induction s arbitrary: t)
  case Nil
  then show ?case by (cases t) auto
next
  case (Cons c s)
  then obtain d u where t: "t = d # u" by (cases t) auto
  then show ?case
    using json_escape_char_prefix_free [of c _ d] Cons by auto
qed

lemma escape_constants_printable:
  "list_all (\<lambda>c. \<not> byte_of_char c < 0x20) [CHR 0x5c, CHR 0x22, CHR ''b'', CHR ''f'', CHR ''n'', CHR ''r'',
    CHR ''t'', CHR ''u'', CHR ''0'']"
  by code_simp

lemma escape_printable: "d \<in> set (json_escape_char c) \<Longrightarrow> \<not> byte_of_char d < 0x20"
proof -
  have hex: "n < 16 \<Longrightarrow> \<not> byte_of_char (hex_digit n) < 0x20" for n
    using lower_hex_hex_digit [of n] by (auto simp: lower_hex_def byte_le_unat)
  have "unat (drop_bit 4 b) < 16" "unat (b AND 0xf) < 16" for b :: byte
    using byte_unat_less [of b] byte_nibbles [of b] by (simp_all add: div_less_iff_less_mult)
  then show "d \<in> set (json_escape_char c) \<Longrightarrow> \<not> byte_of_char d < 0x20"
    using escape_constants_printable
    by (auto simp: json_escape_char_def json_hex_escape_def hex split: if_splits)
qed

text \<open>
  Two different valid strings have different canonical JSON texts, and the text between the
  enclosing quotes holds no control byte.
\<close>

theorem canonical_json_text_injective:
  assumes "s \<noteq> t" "canonical_json_text s = Inr j" "canonical_json_text t = Inr k"
  shows "j \<noteq> k \<and> \<not> list_ex (\<lambda>c. byte_of_char c < 0x20) j"
proof
  have ok: "sdk_valid_utf8 (bytes_of s)" "sdk_valid_utf8 (bytes_of t)"
    and j: "j = canonical_json_string s" and k: "k = canonical_json_string t"
    using assms(2,3) by (auto simp: canonical_json_text_def validate_utf8_text_def split: if_splits)
  show "j \<noteq> k"
    using assms(1) concat_escape_inject ok
    by (auto simp: j k canonical_json_string_def canonical_json_escape_def)
  show "\<not> list_ex (\<lambda>c. byte_of_char c < 0x20) j"
    using ok escape_constants_printable
    by (auto simp: j canonical_json_string_def canonical_json_escape_def list_ex_iff escape_printable)
qed

lemma canonical_json_text_injective_witness:
  "canonical_json_text ''a'' = Inr [CHR 0x22, CHR ''a'', CHR 0x22] \<and>
   [CHR 0x22, CHR ''a'', CHR 0x22] \<noteq> [CHR 0x22, CHR 0x5c, CHR ''n'', CHR 0x22]"
proof -
  have a: "canonical_json_text ''a'' = Inr [CHR 0x22, CHR ''a'', CHR 0x22]"
    and n: "canonical_json_text [CHR 0x0a] = Inr [CHR 0x22, CHR 0x5c, CHR ''n'', CHR 0x22]"
    by code_simp+
  show ?thesis
    using canonical_json_text_injective [OF _ a n] a by simp
qed

section \<open>Numbers and versions as text\<close>

text \<open>Reading a decimal numeral back.\<close>

definition digit_value :: "char \<Rightarrow> nat" where
  "digit_value c = of_char c - 48"

lemma digit_of_less_10:
  assumes "n < 10"
  shows "digit_value (hex_digit n) = n" "hex_digit n \<noteq> CHR ''.''"
proof -
  have o: "(of_char (hex_digit n) :: nat) = 48 + n"
    using assms by (simp add: hex_digit_def)
  then show "digit_value (hex_digit n) = n"
    by (simp add: digit_value_def)
  show "hex_digit n \<noteq> CHR ''.''"
  proof
    assume "hex_digit n = CHR ''.''"
    then have "(of_char (hex_digit n) :: nat) = of_char (CHR ''.'')"
      by (rule arg_cong)
    then show False
      unfolding o by simp
  qed
qed

lemma decimal_value: "foldl (\<lambda>acc c. 10 * acc + digit_value c) 0 (decimal n) = n"
proof (induction n rule: decimal.induct)
  case (1 n)
  show ?case
    by (cases "n < 10") (simp_all add: decimal.simps [of n] digit_of_less_10 1)
qed

lemma decimal_inject: "decimal m = decimal n \<Longrightarrow> m = n"
  by (metis decimal_value)

lemma decimal_no_dot: "CHR ''.'' \<notin> set (decimal n)"
proof (induction n rule: decimal.induct)
  case (1 n)
  have "hex_digit (n mod 10) \<noteq> CHR ''.''" "n < 10 \<Longrightarrow> hex_digit n \<noteq> CHR ''.''"
    by (simp_all add: digit_of_less_10)
  then show ?case
    using 1 by (cases "n < 10") (auto simp: decimal.simps [of n])
qed

lemma split_at_delimiter:
  "d \<notin> set s \<Longrightarrow> d \<notin> set t \<Longrightarrow> s @ d # x = t @ d # y \<Longrightarrow> s = t \<and> x = y"
  by (induction s arbitrary: t; case_tac t) auto

lemma version_string_inject:
  assumes "version_string v = version_string w"
  shows "v = w"
proof -
  let ?d = "\<lambda>x. decimal (unat (x :: u32))"
  have "?d (version_major v) @ CHR ''.'' # ?d (version_minor v) @ CHR ''.'' # ?d (version_patch v)
      = ?d (version_major w) @ CHR ''.'' # ?d (version_minor w) @ CHR ''.'' # ?d (version_patch w)"
    using assms by (simp add: version_string_def)
  then have "?d (version_major v) = ?d (version_major w) \<and> ?d (version_minor v) = ?d (version_minor w)
      \<and> ?d (version_patch v) = ?d (version_patch w)"
    using split_at_delimiter [OF decimal_no_dot decimal_no_dot] by blast
  then have "version_major v = version_major w" "version_minor v = version_minor w" "version_patch v = version_patch w"
    by (auto dest!: decimal_inject simp: unat_word_inject)
  then show ?thesis by simp
qed

section \<open>Digests that cannot fail\<close>

lemma canonical_binary_ok: "canonical_validate v = Inr () \<Longrightarrow> canonical_binary v = Inr (append_canonical v)"
  by (simp add: canonical_binary_def)

lemma canonical_binary_total: "canonical_validate v = Inr () \<Longrightarrow> \<exists>x. canonical_binary v = Inr x"
  by (simp add: canonical_binary_ok)

lemma semantic_digest_total:
  assumes "domain \<noteq> []" "lower_letter (hd domain)" "list_all semantic_domain_char domain"
  shows "\<exists>d. semantic_digest domain bs = Inr d"
proof -
  have "byte_of_char c \<le> 0x7f" if "semantic_domain_char c" for c
    using that by (auto simp: semantic_domain_char_def Let_def byte_le_unat) (code_simp+)
  then have "sdk_valid_utf8 (bytes_of domain)"
    using assms(3) by (intro ascii_valid_utf8) (auto simp: list_all_iff)
  moreover have "sdk_valid_utf8 (bytes_of ''cxxlens-semantic-digest-v2'')"
    by code_simp
  ultimately have "\<exists>x. canonical_binary (from_tuple [from_string ''cxxlens-semantic-digest-v2'',
         from_string domain, from_bytes (bytes_of bs)]) = Inr x"
    by (intro canonical_binary_total) simp
  then obtain x where "canonical_binary (from_tuple [from_string ''cxxlens-semantic-digest-v2'',
         from_string domain, from_bytes (bytes_of bs)]) = Inr x" ..
  then show ?thesis
    using assms(1-3) by (simp add: semantic_digest_def)
qed

end
