(* ===== verification/Cbor.thy ===== *)
theory Cbor
  imports Sdk_Common "HOL-Library.List_Lexorder" "HOL-Library.Product_Lexorder"
begin

text \<open>
  \<open>src/protocol_v2/cbor.cpp\<close>: the bounded deterministic-CBOR codec that carries every protocol-2
  control. The encoder's and decoder's \<open>visit\<close> thread their item counters and output or cursor
  as explicit state. The lemmas show that a value decodes to exactly one byte string and back,
  under the limits of both directions.
\<close>

section \<open>Data\<close>

text \<open>
  \<open>value::storage\<close>, alternative by alternative; \<open>Cbor_Signed\<close> holds a \<open>std::int64_t\<close>, which the
  encoder accepts only when it is negative.
\<close>

datatype cbor_value =
    Cbor_Null
  | Cbor_Bool bool
  | Cbor_Unsigned u64
  | Cbor_Signed u64
  | Cbor_Bytes bytes
  | Cbor_Text string
  | Cbor_Array "cbor_value list"
  | Cbor_Map "(string \<times> cbor_value) list"

record cbor_limits =
  max_bytes :: nat
  max_depth :: nat
  max_items :: nat
  max_text_bytes :: nat
  max_byte_string_bytes :: nat

definition default_cbor_limits :: cbor_limits where
  "default_cbor_limits = \<lparr>max_bytes = 65536, max_depth = 32, max_items = 4096,
    max_text_bytes = 4096, max_byte_string_bytes = 1048576\<rparr>"

text \<open>The casted major type of an initial byte; 6 (tags) is not an enumerator.\<close>

datatype major = Unsigned_Integer | Negative_Integer | Byte_Str | Text_Str | Array_Items
  | Map_Fields | Simple | Not_A_Major

definition major_code :: "major \<Rightarrow> byte" where
  "major_code k = (case k of Unsigned_Integer \<Rightarrow> 0 | Negative_Integer \<Rightarrow> 1 | Byte_Str \<Rightarrow> 2 | Text_Str \<Rightarrow> 3
    | Array_Items \<Rightarrow> 4 | Map_Fields \<Rightarrow> 5 | Not_A_Major \<Rightarrow> 6 | Simple \<Rightarrow> 7)"

definition major_of :: "byte \<Rightarrow> major" where
  "major_of b = (if b = 0 then Unsigned_Integer else if b = 1 then Negative_Integer
    else if b = 2 then Byte_Str else if b = 3 then Text_Str else if b = 4 then Array_Items
    else if b = 5 then Map_Fields else if b = 7 then Simple else Not_A_Major)"

abbreviation cbor_failure :: "string \<Rightarrow> string \<Rightarrow> sdk_error" where
  "cbor_failure field detail \<equiv> Err ''protocol-v2.cbor-invalid'' field detail"

section \<open>Encoding\<close>

definition append_head :: "major \<Rightarrow> u64 \<Rightarrow> bytes" where
  "append_head kind argument =
    (let prefix = push_bit 5 (major_code kind)
     in if argument < 24 then [prefix OR ucast argument]
        else if argument \<le> 0xff then (prefix OR 24) # be_bytes 1 argument
        else if argument \<le> 0xffff then (prefix OR 25) # be_bytes 2 argument
        else if argument \<le> 0xffffffff then (prefix OR 26) # be_bytes 4 argument
        else (prefix OR 27) # be_bytes 8 argument)"

definition encoded_text :: "string \<Rightarrow> bytes" where
  "encoded_text text = append_head Text_Str (word_of_nat (length text)) @ bytes_of text"

definition check_size :: "cbor_limits \<Rightarrow> bytes \<times> nat \<Rightarrow> (bytes \<times> nat) result" where
  "check_size bound = (\<lambda>(out, n).
    if length out > max_bytes bound then Inl (cbor_failure ''bytes'' ''limit-exceeded'') else Inr (out, n))"

text \<open>
  The first loop of the map branch: \<open>unique_keys\<close> and \<open>ordered\<close> grow field by field.
\<close>

definition collect_field :: "cbor_limits \<Rightarrow> string \<times> 'v \<Rightarrow> string set \<times> (bytes \<times> 'v) list
    \<Rightarrow> (string set \<times> (bytes \<times> 'v) list) result" where
  "collect_field bound field = (\<lambda>(unique_keys, ordered).
    if fst field \<in> unique_keys then Inl (cbor_failure ''map'' ''duplicate-key'')
    else if length (fst field) > max_text_bytes bound \<or> \<not> cbor_valid_utf8 (bytes_of (fst field))
    then Inl (cbor_failure ''map-key'' ''invalid-or-too-large'')
    else Inr (insert (fst field) unique_keys, ordered @ [(encoded_text (fst field), snd field)]))"

text \<open>\<open>std::ranges::sort(ordered, ...)\<close>: by size, then lexicographically.\<close>

definition sort_entries :: "(bytes \<times> 'v) list \<Rightarrow> (bytes \<times> 'v) list" where
  "sort_entries ordered = sort_key (\<lambda>entry. (length (fst entry), fst entry)) ordered"

lemma collect_field_Inr_iff [result_simps]:
  "collect_field b f (ks, acc) = Inr (ks', acc') \<longleftrightarrow>
    fst f \<notin> ks \<and> length (fst f) \<le> max_text_bytes b \<and> cbor_valid_utf8 (bytes_of (fst f))
    \<and> ks' = insert (fst f) ks \<and> acc' = acc @ [(encoded_text (fst f), snd f)]"
  by (auto simp: collect_field_def)

lemma collect_fields_snd:
  "try_fold (collect_field b) fs (ks, acc) = Inr (ks', ordered) \<Longrightarrow>
    ordered = acc @ map (\<lambda>f. (encoded_text (fst f), snd f)) fs"
proof (induction fs arbitrary: ks acc)
  case Nil
  then show ?case by simp
next
  case (Cons f fs)
  then show ?case
    by (auto simp: and_then_Inr_iff collect_field_Inr_iff dest!: Cons.IH)
qed

lemma sort_entries_set [simp]: "set (sort_entries ordered) = set ordered"
  by (simp add: sort_entries_def)

lemma collect_fields_size:
  assumes "try_fold (collect_field b) fs ({}, []) = Inr (ks, ordered)"
    "entry \<in> set (sort_entries ordered)"
  shows "size (snd entry) < Suc (size_list (size_prod (\<lambda>k. 0) size) fs)"
proof -
  obtain f where f: "f \<in> set fs" "entry = (encoded_text (fst f), snd f)"
    using assms collect_fields_snd [OF assms(1)] by auto
  then have "size_prod (\<lambda>k. 0) size f \<le> size_list (size_prod (\<lambda>k. 0) size) fs"
    by (simp add: size_list_estimation')
  moreover have "size (snd f) \<le> size_prod (\<lambda>k. 0) size f"
    by (cases f) simp
  ultimately show ?thesis
    using f(2) by simp
qed

text \<open>One round of the second loop of the map branch, over the recursive \<open>visit\<close>.\<close>

fun encode_field :: "(cbor_value \<Rightarrow> bytes \<times> nat \<Rightarrow> (bytes \<times> nat) result) \<Rightarrow> bytes \<times> cbor_value \<Rightarrow>
    bytes \<times> nat \<Rightarrow> (bytes \<times> nat) result" where
  "encode_field visit (key, item) (out, n) = visit item (out @ key, n)"

lemma encode_field_cong [fundef_cong]:
  assumes "x = y" "s = t" "\<And>r. f (snd y) r = g (snd y) r"
  shows "encode_field f x s = encode_field g y t"
  using assms by (cases y; cases t) auto

function encode_visit :: "cbor_limits \<Rightarrow> cbor_value \<Rightarrow> nat \<Rightarrow> bytes \<times> nat \<Rightarrow> (bytes \<times> nat) result" where
  "encode_visit bound item depth (out, item_count) =
    (if depth > max_depth bound then Inl (cbor_failure ''depth'' ''limit-exceeded'')
     else if item_count \<ge> max_items bound then Inl (cbor_failure ''items'' ''limit-exceeded'')
     else
      (let n = item_count + 1
       in and_then
         (case item of
            Cbor_Null \<Rightarrow> Inr (out @ [0xf6], n)
          | Cbor_Bool boolean \<Rightarrow> Inr (out @ [if boolean then 0xf5 else 0xf4], n)
          | Cbor_Unsigned unsigned_integer \<Rightarrow> Inr (out @ append_head Unsigned_Integer unsigned_integer, n)
          | Cbor_Signed negative_integer \<Rightarrow>
              if sint negative_integer \<ge> 0 then Inl (cbor_failure ''integer'' ''negative-kind-mismatch'')
              else
               (let magnitude = - (negative_integer + 1) + 1
                in Inr (out @ append_head Negative_Integer (magnitude - 1), n))
          | Cbor_Bytes byte_string \<Rightarrow>
              if length byte_string > max_byte_string_bytes bound
              then Inl (cbor_failure ''bytes'' ''limit-exceeded'')
              else Inr (out @ append_head Byte_Str (word_of_nat (length byte_string)) @ byte_string, n)
          | Cbor_Text txt \<Rightarrow>
              if length txt > max_text_bytes bound \<or> \<not> cbor_valid_utf8 (bytes_of txt)
              then Inl (cbor_failure ''text'' ''invalid-or-too-large'')
              else Inr (out @ append_head Text_Str (word_of_nat (length txt)) @ bytes_of txt, n)
          | Cbor_Array items \<Rightarrow>
              if length items > max_items bound then Inl (cbor_failure ''array'' ''limit-exceeded'')
              else try_fold (\<lambda>child. encode_visit bound child (depth + 1)) items
                (out @ append_head Array_Items (word_of_nat (length items)), n)
          | Cbor_Map fs \<Rightarrow>
              if length fs > max_items bound then Inl (cbor_failure ''map'' ''limit-exceeded'')
              else
               (case try_fold (collect_field bound) fs ({}, []) of
                  Inl e \<Rightarrow> Inl e
                | Inr (unique_keys, ordered) \<Rightarrow>
                    try_fold (encode_field (\<lambda>child. encode_visit bound child (depth + 1)))
                      (sort_entries ordered)
                      (out @ append_head Map_Fields (word_of_nat (length ordered)), n)))
         (check_size bound)))"
  by pat_completeness auto
termination
  by (relation "measure (\<lambda>(b, item, d, s). size item)")
    (auto simp: size_list_estimation' less_Suc_eq_le dest!: collect_fields_size)

declare encode_visit.simps [simp del]

section \<open>Validation\<close>

fun validate_value :: "cbor_limits \<Rightarrow> cbor_value \<Rightarrow> nat \<Rightarrow> nat \<Rightarrow> nat result"
and validate_fields :: "cbor_limits \<Rightarrow> (string \<times> cbor_value) list \<Rightarrow> nat \<Rightarrow> string set \<Rightarrow> nat \<Rightarrow> nat result" where
  "validate_value bound item depth count =
    (if depth > max_depth bound \<or> count \<ge> max_items bound
     then Inl (cbor_failure ''value'' ''limit-exceeded'')
     else
      (let n = count + 1
       in case item of
          Cbor_Text txt \<Rightarrow>
            if length txt > max_text_bytes bound \<or> \<not> cbor_valid_utf8 (bytes_of txt)
            then Inl (cbor_failure ''text'' ''invalid-or-too-large'') else Inr n
        | Cbor_Bytes byte_string \<Rightarrow>
            if length byte_string > max_byte_string_bytes bound
            then Inl (cbor_failure ''bytes'' ''limit-exceeded'') else Inr n
        | Cbor_Signed integer \<Rightarrow>
            if sint integer \<ge> 0 then Inl (cbor_failure ''integer'' ''negative-kind-mismatch'') else Inr n
        | Cbor_Array items \<Rightarrow>
            if length items > max_items bound then Inl (cbor_failure ''array'' ''limit-exceeded'')
            else try_fold (\<lambda>child. validate_value bound child (depth + 1)) items n
        | Cbor_Map fs \<Rightarrow>
            if length fs > max_items bound then Inl (cbor_failure ''map'' ''limit-exceeded'')
            else validate_fields bound fs (depth + 1) {} n
        | _ \<Rightarrow> Inr n))"
| "validate_fields bound [] depth keys n = Inr n"
| "validate_fields bound (field # fs) depth keys n =
    (if fst field \<in> keys then Inl (cbor_failure ''map'' ''duplicate-key'')
     else if length (fst field) > max_text_bytes bound \<or> \<not> cbor_valid_utf8 (bytes_of (fst field))
     then Inl (cbor_failure ''map-key'' ''invalid-or-too-large'')
     else case validate_value bound (snd field) depth n of
       Inl e \<Rightarrow> Inl e
     | Inr n' \<Rightarrow> validate_fields bound fs depth (insert (fst field) keys) n')"

declare validate_value.simps [simp del]

definition cbor_validate :: "cbor_value \<Rightarrow> cbor_limits \<Rightarrow> unit result" where
  "cbor_validate item bound = and_then (validate_value bound item 0 0) (\<lambda>_. Inr ())"

definition cbor_encode :: "cbor_value \<Rightarrow> cbor_limits \<Rightarrow> bytes result" where
  "cbor_encode item bound =
    (case cbor_validate item bound of
       Inl e \<Rightarrow> Inl e
     | Inr _ \<Rightarrow> and_then (encode_visit bound item 0 ([], 0)) (\<lambda>(out, n). Inr out))"

section \<open>Decoding\<close>

definition cbor_find :: "(string \<times> 'v) list \<Rightarrow> string \<Rightarrow> 'v option" where
  "cbor_find fs key = map_of fs key"

text \<open>
  Offsets into \<open>input\<close> are represented by the unread suffix they leave: \<open>head::next\<close> by the bytes
  after the head.
\<close>

definition head_width :: "byte \<Rightarrow> nat" where
  "head_width additional = (if additional = 24 then 1 else if additional = 25 then 2
    else if additional = 26 then 4 else 8)"

definition shortest_for :: "nat \<Rightarrow> u64" where
  "shortest_for width = (if width = 1 then 24 else if width = 2 then 256
    else if width = 4 then 65536 else 0x100000000)"

definition read_head :: "bytes \<Rightarrow> (major \<times> u64 \<times> bytes) result" where
  "read_head rest =
    (case rest of
       [] \<Rightarrow> Inl (cbor_failure ''cbor'' ''truncated-head'')
     | initial # rest1 \<Rightarrow>
        (let kind = major_of (drop_bit 5 initial);
             additional = initial AND 0x1f
         in if additional \<ge> 28 then Inl (cbor_failure ''cbor'' ''indefinite-or-reserved'')
            else if additional < 24 then Inr (kind, ucast additional, rest1)
            else
             (let width = head_width additional
              in if width > length rest1 then Inl (cbor_failure ''cbor'' ''truncated-argument'')
                 else
                  (let argument = be_value (take width rest1)
                   in if argument < shortest_for width then Inl (cbor_failure ''cbor'' ''non-shortest'')
                      else Inr (kind, argument, drop width rest1)))))"

type_synonym cursor = "bytes \<times> nat"

text \<open>One round of the array loop and one of the map loop, over the recursive \<open>visit\<close>.\<close>

fun decode_child :: "(bytes \<Rightarrow> nat \<Rightarrow> (cbor_value \<times> cursor) result) \<Rightarrow>
    cbor_value list \<times> cursor \<Rightarrow> (cbor_value list \<times> cursor) result" where
  "decode_child visit (item, rest, n) =
    and_then (visit rest n) (\<lambda>(child, rest', n'). Inr (item @ [child], rest', n'))"

definition key_out_of_order :: "bytes \<Rightarrow> bytes \<Rightarrow> bool" where
  "key_out_of_order previous_key encoded_key =
    (previous_key \<noteq> [] \<and> length previous_key \<ge> length encoded_key
      \<and> (length previous_key \<noteq> length encoded_key \<or> \<not> lex_less previous_key encoded_key))"

fun decode_field :: "(bytes \<Rightarrow> nat \<Rightarrow> (cbor_value \<times> cursor) result) \<Rightarrow>
    (string \<times> cbor_value) list \<times> bytes \<times> cursor \<Rightarrow> ((string \<times> cbor_value) list \<times> bytes \<times> cursor) result" where
  "decode_field visit (item, previous_key, rest, n) =
    (case visit rest n of
       Inl e \<Rightarrow> Inl (cbor_failure ''map-key'' ''text-required'')
     | Inr (key, rest1, n1) \<Rightarrow>
        (case key of
           Cbor_Text key_text \<Rightarrow>
            (let encoded_key = take (length rest - length rest1) rest
             in if key_out_of_order previous_key encoded_key
                then Inl (cbor_failure ''map'' ''order-or-duplicate'')
                else if cbor_find item key_text \<noteq> None
                then Inl (cbor_failure ''map'' ''duplicate-key'')
                else and_then (visit rest1 n1) (\<lambda>(child, rest2, n2).
                  Inr (item @ [(key_text, child)], encoded_key, rest2, n2)))
         | _ \<Rightarrow> Inl (cbor_failure ''map-key'' ''text-required'')))"

lemma decode_child_cong [fundef_cong]:
  assumes "s = t" "\<And>r n. f r n = g r n"
  shows "decode_child f s = decode_child g t"
proof -
  have "f = g" using assms(2) by auto
  then show ?thesis using assms(1) by simp
qed

lemma decode_field_cong [fundef_cong]:
  assumes "s = t" "\<And>r n. f r n = g r n"
  shows "decode_field f s = decode_field g t"
proof -
  have "f = g" using assms(2) by auto
  then show ?thesis using assms(1) by simp
qed

function decode_visit :: "cbor_limits \<Rightarrow> nat \<Rightarrow> bytes \<Rightarrow> nat \<Rightarrow> (cbor_value \<times> cursor) result" where
  "decode_visit bound depth input item_count =
    (if depth > max_depth bound then Inl (cbor_failure ''depth'' ''limit-exceeded'')
     else if item_count \<ge> max_items bound then Inl (cbor_failure ''items'' ''limit-exceeded'')
     else
      (let n = item_count + 1
       in case read_head input of
            Inl e \<Rightarrow> Inl e
          | Inr (kind, count, rest) \<Rightarrow>
             (case kind of
                Unsigned_Integer \<Rightarrow> Inr (Cbor_Unsigned count, rest, n)
              | Negative_Integer \<Rightarrow>
                  if count > int64_max then Inl (cbor_failure ''integer'' ''negative-overflow'')
                  else Inr (Cbor_Signed (- 1 - count), rest, n)
              | Byte_Str \<Rightarrow>
                  if unat count > max_byte_string_bytes bound \<or> unat count > length rest
                  then Inl (cbor_failure ''bytes'' ''limit-or-truncation'')
                  else Inr (Cbor_Bytes (take (unat count) rest), drop (unat count) rest, n)
              | Text_Str \<Rightarrow>
                  if unat count > max_text_bytes bound \<or> unat count > length rest
                  then Inl (cbor_failure ''text'' ''limit-or-truncation'')
                  else if \<not> cbor_valid_utf8 (take (unat count) rest)
                  then Inl (cbor_failure ''text'' ''invalid-utf8'')
                  else Inr (Cbor_Text (string_of (take (unat count) rest)), drop (unat count) rest, n)
              | Array_Items \<Rightarrow>
                  if unat count > max_items bound then Inl (cbor_failure ''array'' ''limit-exceeded'')
                  else and_then
                    (repeat_result (unat count) (decode_child (decode_visit bound (depth + 1))) ([], rest, n))
                    (\<lambda>(item, cur). Inr (Cbor_Array item, cur))
              | Map_Fields \<Rightarrow>
                  if unat count > max_items bound then Inl (cbor_failure ''map'' ''limit-exceeded'')
                  else and_then
                    (repeat_result (unat count) (decode_field (decode_visit bound (depth + 1))) ([], [], rest, n))
                    (\<lambda>(item, previous_key, cur). Inr (Cbor_Map item, cur))
              | Simple \<Rightarrow>
                  if count = 20 then Inr (Cbor_Bool False, rest, n)
                  else if count = 21 then Inr (Cbor_Bool True, rest, n)
                  else if count = 22 then Inr (Cbor_Null, rest, n)
                  else Inl (cbor_failure ''simple'' ''unsupported'')
              | Not_A_Major \<Rightarrow> Inl (cbor_failure ''cbor'' ''unsupported-major''))))"
  by pat_completeness auto
termination
  by (relation "measure (\<lambda>(bound, depth, input, n). Suc (max_depth bound) - depth)") auto

declare decode_visit.simps [simp del]

definition cbor_decode :: "bytes \<Rightarrow> cbor_limits \<Rightarrow> cbor_value result" where
  "cbor_decode input bound =
    (if input = [] \<or> length input > max_bytes bound
     then Inl (cbor_failure ''bytes'' ''empty-or-limit-exceeded'')
     else and_then (decode_visit bound 0 input 0) (\<lambda>(output, rest, n).
       if rest \<noteq> [] then Inl (cbor_failure ''cbor'' ''trailing-bytes'') else Inr output))"

definition require_keys :: "(string \<times> cbor_value) list \<Rightarrow> string list \<Rightarrow> unit result" where
  "require_keys fs keys =
    (if length fs \<noteq> length keys then Inl (cbor_failure ''map'' ''field-count'')
     else if \<not> list_all (\<lambda>key. cbor_find fs key \<noteq> None) keys
     then Inl (cbor_failure ''map'' ''missing-or-unknown-field'')
     else Inr ())"

section \<open>Heads\<close>

lemma low5_mask: "b AND 0x1f = take_bit 5 (b :: byte)"
  by (simp add: take_bit_eq_mask mask_eq_exp_minus_1)

lemma initial_byte_split: "push_bit 5 (drop_bit 5 b) OR (b AND 0x1f) = (b :: byte)"
  by (rule bit_word_eqI)
    (auto simp: low5_mask bit_or_iff bit_push_bit_iff bit_drop_bit_eq bit_take_bit_iff)

lemma major_code_of [simp]: "major_code (major_of (drop_bit 5 b)) = drop_bit 5 b"
proof -
  have "unat (drop_bit 5 b) < 8"
    using byte_unat_less [of b] by (simp add: drop_bit_eq_div unat_div div_less_iff_less_mult)
  then have "drop_bit 5 b \<le> 7" by (simp add: byte_le_unat)
  then show ?thesis
    by (auto simp: major_of_def major_code_def word_le_nat_alt word_unat_eq_iff)
qed

lemma major_of_code [simp]: "major_of (major_code k) = k"
  by (cases k) (simp_all add: major_code_def major_of_def)

lemma head_byte:
  assumes "a < 32"
  shows "drop_bit 5 (push_bit 5 (major_code k) OR a) = major_code k"
    and "(push_bit 5 (major_code k) OR a) AND 0x1f = a"
proof -
  have a: "take_bit 5 a = a"
    using assms by (simp add: word_unat_eq_iff unsigned_take_bit_eq take_bit_nat_eq_self word_less_nat_alt)
  have hi: "\<not> bit a n" if "5 \<le> n" for n
    using that by (subst a [symmetric]) (simp add: bit_take_bit_iff)
  have c: "\<not> bit (major_code k) n" if "3 \<le> n" for n
  proof -
    have "take_bit 3 (major_code k) = major_code k"
      by (cases k) (simp_all add: major_code_def)
    then show ?thesis
      using that by (metis bit_take_bit_iff leD)
  qed
  show "drop_bit 5 (push_bit 5 (major_code k) OR a) = major_code k"
    by (rule bit_word_eqI) (auto simp: bit_or_iff bit_push_bit_iff bit_drop_bit_eq hi c intro: ccontr)
  show "(push_bit 5 (major_code k) OR a) AND 0x1f = a"
    unfolding low5_mask
    by (rule bit_word_eqI) (auto simp: bit_or_iff bit_push_bit_iff bit_take_bit_iff hi intro: ccontr)
qed

lemma unat_ucast_byte_u64: "unat (ucast b :: u64) = unat (b :: byte)"
  using byte_unat_less [of b] by (simp add: unsigned_ucast_eq take_bit_eq_mod)

lemma small_argument:
  fixes v :: u64
  assumes "v < 24"
  shows "(ucast v :: byte) < 24" and "(ucast v :: byte) < 32" and "ucast (ucast v :: byte) = v"
proof -
  have v: "unat v < 24" using assms by (simp add: word_less_nat_alt)
  then have u: "unat (ucast v :: byte) = unat v"
    by (simp add: unsigned_ucast_eq unsigned_take_bit_eq take_bit_nat_eq_self)
  then show "(ucast v :: byte) < 24" "(ucast v :: byte) < 32"
    using v by (simp_all add: word_less_nat_alt)
  have "unat (ucast (ucast v :: byte) :: u64) = unat (ucast v :: byte)"
    by (rule unat_ucast_byte_u64)
  then show "ucast (ucast v :: byte) = v"
    using u by (simp add: word_unat_eq_iff)
qed

lemma small_additional:
  fixes a :: byte
  assumes "a < 24"
  shows "(ucast a :: u64) < 24" and "ucast (ucast a :: u64) = a"
proof -
  have u: "unat (ucast a :: u64) = unat a" by (rule unat_ucast_byte_u64)
  then show "(ucast a :: u64) < 24"
    using assms by (simp add: word_less_nat_alt)
  show "ucast (ucast a :: u64) = a"
    by (rule bit_word_eqI) (simp add: bit_ucast_iff)
qed

lemma read_head_wide:
  assumes "\<not> a < 24" "a < 28" "length argument = head_width a" "\<not> be_value argument < shortest_for (head_width a)"
  shows "read_head ((push_bit 5 (major_code k) OR a) # argument @ rest) = Inr (k, be_value argument, rest)"
proof -
  have "a < 32" "\<not> 28 \<le> a" using assms(2) by (simp_all add: word_less_nat_alt word_le_nat_alt)
  then show ?thesis
    using assms by (simp add: read_head_def Let_def head_byte del: drop_bit_or)
qed

lemma read_head_append_head: "read_head (append_head k v @ rest) = Inr (k, v, rest)"
proof -
  consider "v < 24" | "24 \<le> v" "v \<le> 0xff" | "0xff < v" "v \<le> 0xffff" | "0xffff < v" "v \<le> 0xffffffff"
    | "0xffffffff < v" by (meson leI)
  then show ?thesis
  proof cases
    case 1
    then show ?thesis
      using 1 small_argument [of v]
      by (simp add: append_head_def read_head_def Let_def head_byte word_le_nat_alt word_less_nat_alt
          del: drop_bit_or)
  next
    case 2
    then have v: "take_bit 8 v = v" by (intro take_bit_u64_self) (simp add: word_le_nat_alt)
    show ?thesis
      using 2 read_head_wide [of 24 "be_bytes 1 v" k rest]
      by (simp add: append_head_def Let_def head_width_def shortest_for_def be_value_be_bytes v not_less
          leD del: be_bytes.simps One_nat_def)
  next
    case 3
    then have v: "take_bit 16 v = v" by (intro take_bit_u64_self) (simp add: word_le_nat_alt)
    show ?thesis
      using 3 read_head_wide [of 25 "be_bytes 2 v" k rest]
      by (simp add: append_head_def Let_def head_width_def shortest_for_def be_value_be_bytes v
          word_le_nat_alt word_less_nat_alt)
  next
    case 4
    then have v: "take_bit 32 v = v" by (intro take_bit_u64_self) (simp add: word_le_nat_alt)
    show ?thesis
      using 4 read_head_wide [of 26 "be_bytes 4 v" k rest]
      by (simp add: append_head_def Let_def head_width_def shortest_for_def be_value_be_bytes v
          word_le_nat_alt word_less_nat_alt)
  next
    case 5
    show ?thesis
      using 5 read_head_wide [of 27 "be_bytes 8 v" k rest]
      by (simp add: append_head_def Let_def head_width_def shortest_for_def word_le_nat_alt word_less_nat_alt)
  qed
qed

lemma read_head_exact:
  assumes "read_head bs = Inr (k, v, rest)"
  shows "bs = append_head k v @ rest"
proof -
  obtain b rest1 where bs: "bs = b # rest1"
    using assms by (auto simp: read_head_def split: list.splits)
  let ?a = "b AND 0x1f"
  have b: "b = push_bit 5 (major_code (major_of (drop_bit 5 b))) OR ?a"
    by (simp add: initial_byte_split)
  show ?thesis
  proof (cases "?a < 24")
    case True
    then have r: "k = major_of (drop_bit 5 b)" "v = ucast ?a" "rest = rest1"
      using assms by (auto simp: read_head_def bs Let_def word_le_nat_alt word_less_nat_alt)
    have "ucast v = ?a" "v < 24"
      using small_additional [OF True] by (simp_all only: r(2))
    then show ?thesis
      using b by (simp add: bs r(1,3) append_head_def)
  next
    case False
    let ?w = "head_width ?a"
    have ok: "\<not> ?a \<ge> 28" "\<not> ?w > length rest1" "\<not> be_value (take ?w rest1) < shortest_for ?w"
      using assms False by (auto simp: read_head_def bs Let_def split: if_splits)
    then have r: "k = major_of (drop_bit 5 b)" "v = be_value (take ?w rest1)" "rest = drop ?w rest1"
      using assms False by (auto simp: read_head_def bs Let_def)
    have a: "?a = 24 \<or> ?a = 25 \<or> ?a = 26 \<or> ?a = 27"
      using ok(1) False by (auto simp: word_le_nat_alt word_less_nat_alt word_unat_eq_iff)
    then have w: "?w \<le> 8" by (auto simp: head_width_def)
    have bytes: "be_bytes ?w v = take ?w rest1"
      using be_bytes_be_value [of "take ?w rest1"] w ok(2) by (simp add: r(2))
    have upper: "unat v < 2 ^ (8 * ?w)"
      using unat_be_value_less [of "take ?w rest1"] w ok(2) by (simp add: r(2))
    have lower: "\<not> v < shortest_for ?w"
      using ok(3) by (simp add: r(2))
    have "append_head k v = b # be_bytes ?w v"
      using a b upper lower
      by (elim disjE) (simp_all add: append_head_def Let_def r(1) head_width_def shortest_for_def
          word_less_nat_alt word_le_nat_alt)
    then show ?thesis
      by (simp add: bytes bs r(3))
  qed
qed

section \<open>The wire format as a specification\<close>

text \<open>
  \<open>cbor_bytes\<close> is the encoding of a value in the field order it has; \<open>cbor_items\<close> counts the items
  the decoder counts (map keys included), \<open>cbor_nodes\<close> those the encoder counts (values only).
\<close>

lemma size_field [termination_simp]:
  assumes "f \<in> set fs"
  shows "size (snd f) < Suc (size_list (size_prod (\<lambda>k. 0) size) fs)"
proof -
  have "size (snd f) \<le> size_prod (\<lambda>k. 0) size f" by (cases f) simp
  also have "\<dots> \<le> size_list (size_prod (\<lambda>k. 0) size) fs"
    using assms by (simp add: size_list_estimation')
  finally show ?thesis by simp
qed

fun cbor_bytes :: "cbor_value \<Rightarrow> bytes" where
  "cbor_bytes Cbor_Null = append_head Simple 22"
| "cbor_bytes (Cbor_Bool b) = append_head Simple (if b then 21 else 20)"
| "cbor_bytes (Cbor_Unsigned u) = append_head Unsigned_Integer u"
| "cbor_bytes (Cbor_Signed i) = append_head Negative_Integer (- 1 - i)"
| "cbor_bytes (Cbor_Bytes bs) = append_head Byte_Str (word_of_nat (length bs)) @ bs"
| "cbor_bytes (Cbor_Text t) = encoded_text t"
| "cbor_bytes (Cbor_Array vs) = append_head Array_Items (word_of_nat (length vs)) @ concat (map cbor_bytes vs)"
| "cbor_bytes (Cbor_Map fs) = append_head Map_Fields (word_of_nat (length fs))
    @ concat (map (\<lambda>f. encoded_text (fst f) @ cbor_bytes (snd f)) fs)"

fun cbor_items :: "cbor_value \<Rightarrow> nat" where
  "cbor_items (Cbor_Array vs) = 1 + sum_list (map cbor_items vs)"
| "cbor_items (Cbor_Map fs) = 1 + sum_list (map (\<lambda>f. 1 + cbor_items (snd f)) fs)"
| "cbor_items v = 1"

fun cbor_nodes :: "cbor_value \<Rightarrow> nat" where
  "cbor_nodes (Cbor_Array vs) = 1 + sum_list (map cbor_nodes vs)"
| "cbor_nodes (Cbor_Map fs) = 1 + sum_list (map (\<lambda>f. cbor_nodes (snd f)) fs)"
| "cbor_nodes v = 1"

text \<open>The canonical order of the keys of a map: by encoded size, then byte by byte.\<close>

definition key_before :: "string \<Rightarrow> string \<Rightarrow> bool" where
  "key_before k l = (length (encoded_text k) < length (encoded_text l)
    \<or> (length (encoded_text k) = length (encoded_text l) \<and> lex_less (encoded_text k) (encoded_text l)))"

definition text_ok :: "cbor_limits \<Rightarrow> string \<Rightarrow> bool" where
  "text_ok b t = (length t \<le> max_text_bytes b \<and> length t < 2 ^ 64 \<and> cbor_valid_utf8 (bytes_of t))"

fun cbor_ok :: "cbor_limits \<Rightarrow> nat \<Rightarrow> cbor_value \<Rightarrow> bool" where
  "cbor_ok b d (Cbor_Signed i) = (d \<le> max_depth b \<and> sint i < 0)"
| "cbor_ok b d (Cbor_Bytes bs) = (d \<le> max_depth b \<and> length bs \<le> max_byte_string_bytes b \<and> length bs < 2 ^ 64)"
| "cbor_ok b d (Cbor_Text t) = (d \<le> max_depth b \<and> text_ok b t)"
| "cbor_ok b d (Cbor_Array vs) = (d \<le> max_depth b \<and> length vs \<le> max_items b \<and> length vs < 2 ^ 64
    \<and> list_all (cbor_ok b (Suc d)) vs)"
| "cbor_ok b d (Cbor_Map fs) = (d \<le> max_depth b \<and> length fs \<le> max_items b \<and> length fs < 2 ^ 64
    \<and> sorted_wrt key_before (map fst fs)
    \<and> list_all (\<lambda>f. Suc d \<le> max_depth b \<and> text_ok b (fst f) \<and> cbor_ok b (Suc d) (snd f)) fs)"
| "cbor_ok b d v = (d \<le> max_depth b)"

lemma key_before_trans: "key_before j k \<Longrightarrow> key_before k l \<Longrightarrow> key_before j l"
  by (auto simp: key_before_def intro: lex_less_trans)

lemma key_before_irrefl [simp]: "\<not> key_before k k"
  by (simp add: key_before_def)

lemma append_head_nonempty [simp]: "append_head k v \<noteq> []"
  by (simp add: append_head_def Let_def)

lemma encoded_text_nonempty [simp]: "encoded_text t \<noteq> []"
  by (simp add: encoded_text_def)

lemma key_out_of_order_iff:
  "key_out_of_order (encoded_text k) (encoded_text l) \<longleftrightarrow> \<not> key_before k l"
  by (auto simp: key_out_of_order_def key_before_def)

lemma key_out_of_order_Nil [simp]: "\<not> key_out_of_order [] l"
  by (simp add: key_out_of_order_def)

lemma sorted_keys_distinct: "sorted_wrt key_before ks \<Longrightarrow> distinct ks"
  by (induction ks) auto

lemma sorted_wrt_snoc_last:
  assumes "sorted_wrt key_before ks" "ks \<noteq> [] \<Longrightarrow> key_before (last ks) k"
  shows "sorted_wrt key_before (ks @ [k])"
  using assms
proof (induction ks)
  case Nil
  then show ?case by simp
next
  case (Cons j ks)
  show ?case
  proof (cases "ks = []")
    case True
    then show ?thesis using Cons.prems by simp
  next
    case False
    then have "key_before j (last ks)" "key_before (last ks) k"
      using Cons.prems by (simp_all add: last_in_set)
    then have "key_before j k" by (rule key_before_trans)
    then show ?thesis
      using Cons False by simp
  qed
qed

lemma cbor_find_None_iff: "cbor_find fs k = None \<longleftrightarrow> k \<notin> set (map fst fs)"
  by (auto simp: cbor_find_def map_of_eq_None_iff)

section \<open>What the decoder accepts\<close>

text \<open>The induction hypothesis for the recursive calls of the loops.\<close>

definition decodes_exactly :: "cbor_limits \<Rightarrow> nat \<Rightarrow> (bytes \<Rightarrow> nat \<Rightarrow> (cbor_value \<times> cursor) result) \<Rightarrow> bool" where
  "decodes_exactly b d visit = (\<forall>r n v r' n'. visit r n = Inr (v, r', n') \<longrightarrow>
    r = cbor_bytes v @ r' \<and> cbor_ok b d v \<and> n' = n + cbor_items v \<and> n' \<le> max_items b)"

lemma decodes_exactlyD:
  assumes "decodes_exactly b d visit" "visit r n = Inr (v, r', n')"
  shows "r = cbor_bytes v @ r'" "cbor_ok b d v" "n' = n + cbor_items v" "n' \<le> max_items b"
  using assms unfolding decodes_exactly_def by blast+

lemma decode_children_exact:
  assumes ih: "decodes_exactly b d visit"
  shows "repeat_result k (decode_child visit) (acc, r, n) = Inr (item, r', n') \<Longrightarrow>
    \<exists>new. item = acc @ new \<and> length new = k \<and> r = concat (map cbor_bytes new) @ r'
      \<and> list_all (cbor_ok b d) new \<and> n' = n + sum_list (map cbor_items new)
      \<and> (n \<le> max_items b \<longrightarrow> n' \<le> max_items b)"
proof (induction k arbitrary: acc r n)
  case 0
  then show ?case by simp
next
  case (Suc k)
  then obtain child r1 n1 where c: "visit r n = Inr (child, r1, n1)"
    and rec: "repeat_result k (decode_child visit) (acc @ [child], r1, n1) = Inr (item, r', n')"
    by (auto simp: decode_child.simps and_then_Inr_iff)
  note child = decodes_exactlyD [OF ih c]
  obtain new where "item = (acc @ [child]) @ new" "length new = k" "r1 = concat (map cbor_bytes new) @ r'"
    "list_all (cbor_ok b d) new" "n' = n1 + sum_list (map cbor_items new)" "n1 \<le> max_items b \<longrightarrow> n' \<le> max_items b"
    using Suc.IH [OF rec] by blast
  then show ?case
    using child by (intro exI [of _ "child # new"]) simp
qed

definition last_key :: "(string \<times> cbor_value) list \<Rightarrow> bytes" where
  "last_key fs = (if fs = [] then [] else encoded_text (fst (last fs)))"

lemma decode_fields_exact:
  assumes ih: "decodes_exactly b d visit"
  shows "repeat_result k (decode_field visit) (acc, last_key acc, r, n) = Inr (item, pk, r', n') \<Longrightarrow>
    sorted_wrt key_before (map fst acc) \<Longrightarrow>
    \<exists>new. item = acc @ new \<and> length new = k
      \<and> r = concat (map (\<lambda>f. encoded_text (fst f) @ cbor_bytes (snd f)) new) @ r'
      \<and> list_all (\<lambda>f. d \<le> max_depth b \<and> text_ok b (fst f) \<and> cbor_ok b d (snd f)) new
      \<and> sorted_wrt key_before (map fst item)
      \<and> n' = n + sum_list (map (\<lambda>f. 1 + cbor_items (snd f)) new)
      \<and> (n \<le> max_items b \<longrightarrow> n' \<le> max_items b)"
proof (induction k arbitrary: acc r n)
  case 0
  then show ?case by simp
next
  case (Suc k)
  let ?loop = "repeat_result k (decode_field visit)"
  obtain st where st: "decode_field visit (acc, last_key acc, r, n) = Inr st" "?loop st = Inr (item, pk, r', n')"
    using Suc.prems(1) by (auto simp: and_then_Inr_iff)
  obtain key r1 n1 where key: "visit r n = Inr (Cbor_Text key, r1, n1)"
    using st(1) by (auto simp: decode_field.simps split: sum.splits cbor_value.splits)
  note k = decodes_exactlyD [OF ih key]
  have r: "r = encoded_text key @ r1" "text_ok b key" "d \<le> max_depth b" "n1 = n + 1"
    using k by simp_all
  then have enc: "take (length r - length r1) r = encoded_text key" by simp
  obtain child r2 n2 where child: "visit r1 n1 = Inr (child, r2, n2)"
    and ord: "\<not> key_out_of_order (last_key acc) (encoded_text key)"
    and st': "st = (acc @ [(key, child)], encoded_text key, r2, n2)"
    using st(1) by (auto simp: decode_field.simps key enc Let_def and_then_Inr_iff split: if_splits)
  note c = decodes_exactlyD [OF ih child]
  have sorted: "sorted_wrt key_before (map fst (acc @ [(key, child)]))"
    using sorted_wrt_snoc_last [OF Suc.prems(2), of key] ord
    by (cases "acc = []") (simp_all add: last_key_def key_out_of_order_iff last_map)
  have "?loop (acc @ [(key, child)], last_key (acc @ [(key, child)]), r2, n2) = Inr (item, pk, r', n')"
    using st(2) by (simp add: st' last_key_def)
  from Suc.IH [OF this sorted] obtain new where "item = (acc @ [(key, child)]) @ new" "length new = k"
    "r2 = concat (map (\<lambda>f. encoded_text (fst f) @ cbor_bytes (snd f)) new) @ r'"
    "list_all (\<lambda>f. d \<le> max_depth b \<and> text_ok b (fst f) \<and> cbor_ok b d (snd f)) new"
    "sorted_wrt key_before (map fst item)"
    "n' = n2 + sum_list (map (\<lambda>f. 1 + cbor_items (snd f)) new)" "n2 \<le> max_items b \<longrightarrow> n' \<le> max_items b"
    by (elim exE conjE) (rule that)
  then show ?case
    using r c by (intro exI [of _ "(key, child) # new"]) simp
qed

lemma decode_payload_facts:
  assumes "unat count \<le> length rest"
  shows "word_of_nat (length (take (unat count) rest)) = (count :: u64)" "unat count < 2 ^ 64"
  using assms by simp_all (rule order_less_le_trans [OF unsigned_less], simp)

lemma decode_signed_facts:
  assumes "\<not> count > int64_max"
  shows "sint (- 1 - count) < 0" "- 1 - (- 1 - count) = count"
proof -
  have c: "unat count < 2 ^ 63"
    using assms by (simp add: int64_max_def word_less_nat_alt)
  have "unat (- 1 - count) = 2 ^ 64 - 1 - unat count"
  proof -
    have "- 1 - count = word_of_nat (2 ^ 64 - 1 - unat count)"
      using c by (simp add: of_nat_diff)
    then have "unat (- 1 - count) = unat (word_of_nat (2 ^ 64 - 1 - unat count) :: u64)" by (rule arg_cong)
    also have "\<dots> = 2 ^ 64 - 1 - unat count" by (rule unat_word_of_nat_u64) simp
    finally show ?thesis .
  qed
  then show "sint (- 1 - count) < 0"
    using c by (simp add: sint_negative_iff int64_max_def word_less_nat_alt)
qed simp

lemma decode_visit_exact: "decodes_exactly b d (decode_visit b d)"
proof (induction "Suc (max_depth b) - d" arbitrary: d rule: less_induct)
  case less
  show ?case
    unfolding decodes_exactly_def
  proof (intro allI impI)
    fix input n v r' n'
    assume res: "decode_visit b d input n = Inr (v, r', n')"
    have d: "d \<le> max_depth b" and n: "n < max_items b"
      using res by (auto simp: decode_visit.simps [of b d input n] split: if_splits)
    obtain kind count rest where h: "read_head input = Inr (kind, count, rest)"
      using res d n by (cases "read_head input") (auto simp: decode_visit.simps [of b d input n])
    have input: "input = append_head kind count @ rest"
      by (rule read_head_exact [OF h])
    note res' = res [unfolded decode_visit.simps [of b d input n]]
    have ih: "decodes_exactly b (Suc d) (decode_visit b (Suc d))"
      using d by (intro less) simp
    show "input = cbor_bytes v @ r' \<and> cbor_ok b d v \<and> n' = n + cbor_items v \<and> n' \<le> max_items b"
    proof (cases kind)
      case Unsigned_Integer
      then show ?thesis using res' d n input by (auto simp: read_head_append_head)
    next
      case Negative_Integer
      then show ?thesis
        using res' d n input decode_signed_facts [of count]
        by (auto simp: read_head_append_head split: if_splits)
    next
      case Byte_Str
      then show ?thesis
        using res' d n input decode_payload_facts [of count rest]
        by (auto simp: read_head_append_head not_less split: if_splits)
    next
      case Text_Str
      then show ?thesis
        using res' d n input decode_payload_facts [of count rest]
        by (auto simp: read_head_append_head encoded_text_def text_ok_def not_less comp_def
            split: if_splits)
    next
      case Array_Items
      then obtain item where loop: "v = Cbor_Array item" "unat count \<le> max_items b"
        "repeat_result (unat count) (decode_child (decode_visit b (Suc d))) ([], rest, n + 1) = Inr (item, r', n')"
        using res' d n h by (auto simp: read_head_append_head and_then_Inr_iff split: if_splits)
      from decode_children_exact [OF ih loop(3)] obtain new where new: "item = new" "length new = unat count"
        "rest = concat (map cbor_bytes new) @ r'" "list_all (cbor_ok b (Suc d)) new"
        "n' = n + 1 + sum_list (map cbor_items new)" "n + 1 \<le> max_items b \<longrightarrow> n' \<le> max_items b"
        by auto
      have "word_of_nat (length new) = count" "length new < 2 ^ 64"
        using new(2) by simp_all (rule order_less_le_trans [OF unsigned_less], simp)
      then show ?thesis
        using new d n loop(1,2) input Array_Items by (simp add: new(1))
    next
      case Map_Fields
      then obtain item pk where loop: "v = Cbor_Map item" "unat count \<le> max_items b"
        "repeat_result (unat count) (decode_field (decode_visit b (Suc d))) ([], last_key [], rest, n + 1)
          = Inr (item, pk, r', n')"
        using res' d n h
        by (auto simp: read_head_append_head and_then_Inr_iff last_key_def split: if_splits)
      have "sorted_wrt key_before (map fst ([] :: (string \<times> cbor_value) list))" by simp
      from decode_fields_exact [OF ih loop(3) this] obtain new where new: "item = new" "length new = unat count"
        "rest = concat (map (\<lambda>f. encoded_text (fst f) @ cbor_bytes (snd f)) new) @ r'"
        "list_all (\<lambda>f. Suc d \<le> max_depth b \<and> text_ok b (fst f) \<and> cbor_ok b (Suc d) (snd f)) new"
        "sorted_wrt key_before (map fst item)"
        "n' = n + 1 + sum_list (map (\<lambda>f. 1 + cbor_items (snd f)) new)" "n + 1 \<le> max_items b \<longrightarrow> n' \<le> max_items b"
        by auto
      have "word_of_nat (length new) = count" "length new < 2 ^ 64"
        using new(2) by simp_all (rule order_less_le_trans [OF unsigned_less], simp)
      then show ?thesis
        using new d n loop(1,2) input Map_Fields by (simp add: new(1))
    next
      case Simple
      then show ?thesis using res' d n input
        by (auto simp: read_head_append_head split: if_splits)
    next
      case Not_A_Major
      then show ?thesis using res' d n h by (auto simp: read_head_append_head)
    qed
  qed
qed

section \<open>The decoder accepts every well-formed encoding\<close>

definition decodes_all :: "cbor_limits \<Rightarrow> nat \<Rightarrow> (bytes \<Rightarrow> nat \<Rightarrow> (cbor_value \<times> cursor) result) \<Rightarrow> bool" where
  "decodes_all b d visit = (\<forall>v r n. cbor_ok b d v \<longrightarrow> n + cbor_items v \<le> max_items b \<longrightarrow>
    visit (cbor_bytes v @ r) n = Inr (v, r, n + cbor_items v))"

lemma decodes_allD:
  assumes "decodes_all b d visit" "cbor_ok b d v" "n + cbor_items v \<le> max_items b"
  shows "visit (cbor_bytes v @ r) n = Inr (v, r, n + cbor_items v)"
  using assms unfolding decodes_all_def by blast

lemma decode_children_all:
  assumes ih: "decodes_all b d visit"
  shows "list_all (cbor_ok b d) new \<Longrightarrow> n + sum_list (map cbor_items new) \<le> max_items b \<Longrightarrow>
    repeat_result (length new) (decode_child visit) (acc, concat (map cbor_bytes new) @ r, n)
      = Inr (acc @ new, r, n + sum_list (map cbor_items new))"
proof (induction new arbitrary: acc n)
  case Nil
  then show ?case by simp
next
  case (Cons v new)
  have "visit (cbor_bytes v @ concat (map cbor_bytes new) @ r) n
      = Inr (v, concat (map cbor_bytes new) @ r, n + cbor_items v)"
    using Cons.prems by (intro decodes_allD [OF ih]) simp_all
  then show ?case
    using Cons.IH [of "n + cbor_items v" "acc @ [v]"] Cons.prems by (simp add: decode_child.simps add.assoc)
qed

lemma decode_fields_all:
  assumes ih: "decodes_all b d visit"
  shows "list_all (\<lambda>f. d \<le> max_depth b \<and> text_ok b (fst f) \<and> cbor_ok b d (snd f)) new \<Longrightarrow>
    sorted_wrt key_before (map fst (acc @ new)) \<Longrightarrow>
    n + sum_list (map (\<lambda>f. 1 + cbor_items (snd f)) new) \<le> max_items b \<Longrightarrow>
    repeat_result (length new) (decode_field visit)
      (acc, last_key acc, concat (map (\<lambda>f. encoded_text (fst f) @ cbor_bytes (snd f)) new) @ r, n)
      = Inr (acc @ new, last_key (acc @ new), r, n + sum_list (map (\<lambda>f. 1 + cbor_items (snd f)) new))"
proof (induction new arbitrary: acc n)
  case Nil
  then show ?case by simp
next
  case (Cons f new)
  obtain k v where f: "f = (k, v)" by (cases f)
  let ?r2 = "concat (map (\<lambda>f. encoded_text (fst f) @ cbor_bytes (snd f)) new) @ r"
  have key: "visit (encoded_text k @ cbor_bytes v @ ?r2) n = Inr (Cbor_Text k, cbor_bytes v @ ?r2, n + 1)"
    using decodes_allD [OF ih, of "Cbor_Text k" n "cbor_bytes v @ ?r2"] Cons.prems by (simp add: f)
  have val: "visit (cbor_bytes v @ ?r2) (n + 1) = Inr (v, ?r2, n + 1 + cbor_items v)"
    using Cons.prems by (intro decodes_allD [OF ih]) (simp_all add: f)
  have "\<not> key_out_of_order (last_key acc) (encoded_text k)"
    using Cons.prems(2) by (cases "acc = []")
      (simp_all add: f last_key_def key_out_of_order_iff sorted_wrt_append last_in_set)
  moreover have "cbor_find acc k = None"
    using sorted_keys_distinct [OF Cons.prems(2)] by (auto simp: f cbor_find_None_iff)
  ultimately have "decode_field visit (acc, last_key acc, encoded_text k @ cbor_bytes v @ ?r2, n)
      = Inr (acc @ [f], last_key (acc @ [f]), ?r2, n + 1 + cbor_items v)"
    using key val by (simp add: decode_field.simps last_key_def f)
  moreover have "repeat_result (length new) (decode_field visit)
      (acc @ [f], last_key (acc @ [f]), ?r2, n + 1 + cbor_items v)
      = Inr ((acc @ [f]) @ new, last_key ((acc @ [f]) @ new), r,
          n + 1 + cbor_items v + sum_list (map (\<lambda>f. 1 + cbor_items (snd f)) new))"
  proof (rule Cons.IH)
    show "list_all (\<lambda>f. d \<le> max_depth b \<and> text_ok b (fst f) \<and> cbor_ok b d (snd f)) new"
      using Cons.prems(1) unfolding list.pred_inject by blast
  qed (use Cons.prems(2,3) in \<open>simp_all add: f\<close>)
  ultimately show ?case
    by (simp add: f add.assoc)
qed

lemma decode_visit_all: "decodes_all b d (decode_visit b d)"
proof (induction "Suc (max_depth b) - d" arbitrary: d rule: less_induct)
  case less
  show ?case
    unfolding decodes_all_def
  proof (intro allI impI)
    fix v r n
    assume ok: "cbor_ok b d v" and items: "n + cbor_items v \<le> max_items b"
    have d: "\<not> d > max_depth b"
      using ok by (cases v) auto
    have n: "\<not> n \<ge> max_items b"
      using items by (cases v) auto
    have ih: "decodes_all b (Suc d) (decode_visit b (Suc d))"
      using d by (intro less) simp
    show "decode_visit b d (cbor_bytes v @ r) n = Inr (v, r, n + cbor_items v)"
    proof (cases v)
      case (Cbor_Signed i)
      have "\<not> - 1 - i > int64_max"
      proof -
        have "int64_max < i" using ok by (simp add: Cbor_Signed sint_negative_iff)
        then have i: "unat i > 2 ^ 63 - 1" by (simp add: int64_max_def word_less_nat_alt)
        have "unat i < 2 ^ 64" by (rule order_less_le_trans [OF unsigned_less]) simp
        then have "- 1 - i = word_of_nat (2 ^ 64 - 1 - unat i)" by (simp add: of_nat_diff)
        then have "unat (- 1 - i) = unat (word_of_nat (2 ^ 64 - 1 - unat i) :: u64)" by (rule arg_cong)
        also have "\<dots> = 2 ^ 64 - 1 - unat i" by (rule unat_word_of_nat_u64) simp
        finally show ?thesis using i by (simp add: int64_max_def word_less_nat_alt)
      qed
      then show ?thesis
        using d n by (subst decode_visit.simps) (simp add: Cbor_Signed read_head_append_head)
    next
      case (Cbor_Bytes bs)
      then show ?thesis
        using d n ok by (subst decode_visit.simps)
          (simp add: read_head_append_head unat_word_of_nat_u64 not_less)
    next
      case (Cbor_Text t)
      then show ?thesis
        using d n ok by (subst decode_visit.simps)
          (simp add: encoded_text_def text_ok_def read_head_append_head unat_word_of_nat_u64 not_less comp_def)
    next
      case (Cbor_Array vs)
      have "repeat_result (length vs) (decode_child (decode_visit b (Suc d)))
          ([], concat (map cbor_bytes vs) @ r, n + 1) = Inr ([] @ vs, r, n + 1 + sum_list (map cbor_items vs))"
        using ok items by (intro decode_children_all [OF ih]) (simp_all add: Cbor_Array)
      then show ?thesis
        using d n ok by (subst decode_visit.simps)
          (simp add: Cbor_Array read_head_append_head unat_word_of_nat_u64 not_less)
    next
      case (Cbor_Map fs)
      have "repeat_result (length fs) (decode_field (decode_visit b (Suc d)))
          ([], last_key [], concat (map (\<lambda>f. encoded_text (fst f) @ cbor_bytes (snd f)) fs) @ r, n + 1)
          = Inr ([] @ fs, last_key ([] @ fs), r, n + 1 + sum_list (map (\<lambda>f. 1 + cbor_items (snd f)) fs))"
        using ok items by (intro decode_fields_all [OF ih]) (simp_all add: Cbor_Map)
      then show ?thesis
        using d n ok by (subst decode_visit.simps)
          (simp add: Cbor_Map read_head_append_head unat_word_of_nat_u64 not_less last_key_def)
    qed (use d n in \<open>simp_all add: decode_visit.simps [of b d] read_head_append_head\<close>)
  qed
qed

section \<open>The encoder\<close>

definition key_rank :: "string \<times> 'v \<Rightarrow> nat \<times> bytes" where
  "key_rank f = (length (encoded_text (fst f)), encoded_text (fst f))"

text \<open>The value with the fields of every map in canonical order, which is what the encoder writes.\<close>

fun ordered_value :: "cbor_value \<Rightarrow> cbor_value" where
  "ordered_value (Cbor_Array vs) = Cbor_Array (map ordered_value vs)"
| "ordered_value (Cbor_Map fs) = Cbor_Map (sort_key key_rank (map (\<lambda>f. (fst f, ordered_value (snd f))) fs))"
| "ordered_value v = v"

lemma lex_less_iff_less: "lex_less xs ys \<longleftrightarrow> xs < ys"
  by (induction xs ys rule: lex_less.induct) auto

lemma key_before_iff_rank: "key_before (fst f) (fst g) \<longleftrightarrow> key_rank f < key_rank g"
  by (auto simp: key_before_def key_rank_def lex_less_iff_less)

lemma encoded_text_inject: "encoded_text k = encoded_text l \<Longrightarrow> k = l"
proof -
  assume eq: "encoded_text k = encoded_text l"
  have "read_head (encoded_text t) = Inr (Text_Str, word_of_nat (length t), bytes_of t)" for t
    using read_head_append_head [of Text_Str "word_of_nat (length t)" "bytes_of t"]
    by (simp add: encoded_text_def)
  from this [of l] this [of k] have "bytes_of k = bytes_of l"
    unfolding eq by (auto simp del: bytes_of_inject)
  then show "k = l" by simp
qed

lemma key_rank_inject: "key_rank f = key_rank g \<Longrightarrow> fst f = fst g"
  by (simp add: key_rank_def encoded_text_inject)

lemma key_rank_map [simp]: "key_rank (fst f, x) = key_rank f"
  by (simp add: key_rank_def)

lemma ordered_fields:
  "sort_key key_rank (map (\<lambda>f. (fst f, g (snd f))) fs) = map (\<lambda>f. (fst f, g (snd f))) (sort_key key_rank fs)"
  by (simp add: sort_key_map)

lemma sort_entries_fields:
  "sort_entries (map (\<lambda>f. (encoded_text (fst f), snd f)) fs)
    = map (\<lambda>f. (encoded_text (fst f), snd f)) (sort_key key_rank fs)"
proof -
  have "key_rank = (\<lambda>f :: string \<times> 'a. (length (encoded_text (fst f)), encoded_text (fst f)))"
    by (simp add: fun_eq_iff key_rank_def)
  then show ?thesis by (simp add: sort_entries_def sort_key_map)
qed

lemma map_rank_sorted: "sorted_wrt key_before (map fst fs) \<longleftrightarrow> sorted_wrt (<) (map key_rank fs)"
  by (simp add: sorted_wrt_map key_before_iff_rank)

lemma sort_key_strict:
  assumes "distinct (map fst fs)"
  shows "sorted_wrt key_before (map fst (sort_key key_rank fs))"
proof -
  have "distinct (map key_rank (sort_key key_rank fs))"
  proof -
    have "distinct (map fst (sort_key key_rank fs))"
      using assms by (metis distinct_map distinct_sort set_sort)
    then show ?thesis
      by (auto simp: distinct_map inj_on_def dest: key_rank_inject)
  qed
  then show ?thesis
    by (simp add: map_rank_sorted strict_sorted_iff)
qed

lemma sort_key_sorted_id: "sorted_wrt key_before (map fst fs) \<Longrightarrow> sort_key key_rank fs = fs"
  by (simp add: map_rank_sorted strict_sorted_iff sort_key_id_if_sorted)

lemma ordered_value_ok: "cbor_ok b d v \<Longrightarrow> ordered_value v = v"
proof (induction v arbitrary: d rule: ordered_value.induct)
  case (1 vs)
  then show ?case by (auto simp: list_all_iff intro!: map_idI)
next
  case (2 fs)
  then have "map (\<lambda>f. (fst f, ordered_value (snd f))) fs = fs"
    by (intro map_idI) (auto simp: list_all_iff prod_eq_iff)
  then show ?case
    using 2 by (simp add: sort_key_sorted_id)
qed simp_all

lemma collect_fields_Inr_iff:
  "try_fold (collect_field b) fs (ks, acc) = Inr (ks', ord) \<longleftrightarrow>
    distinct (map fst fs) \<and> set (map fst fs) \<inter> ks = {}
    \<and> list_all (\<lambda>f. length (fst f) \<le> max_text_bytes b \<and> cbor_valid_utf8 (bytes_of (fst f))) fs
    \<and> ks' = ks \<union> set (map fst fs) \<and> ord = acc @ map (\<lambda>f. (encoded_text (fst f), snd f)) fs"
proof (induction fs arbitrary: ks acc)
  case Nil
  then show ?case by auto
next
  case (Cons f fs)
  have "try_fold (collect_field b) (f # fs) (ks, acc) = Inr (ks', ord) \<longleftrightarrow>
    fst f \<notin> ks \<and> length (fst f) \<le> max_text_bytes b \<and> cbor_valid_utf8 (bytes_of (fst f))
    \<and> try_fold (collect_field b) fs (insert (fst f) ks, acc @ [(encoded_text (fst f), snd f)]) = Inr (ks', ord)"
    by (auto simp: and_then_Inr_iff result_simps)
  then show ?case
    unfolding Cons.IH by auto
qed

text \<open>Limits that a \<open>std::size_t\<close> holds.\<close>

definition limits_64 :: "cbor_limits \<Rightarrow> bool" where
  "limits_64 b = (max_bytes b < 2 ^ 64 \<and> max_items b < 2 ^ 64 \<and> max_text_bytes b < 2 ^ 64
    \<and> max_byte_string_bytes b < 2 ^ 64)"

definition encodes_exactly :: "cbor_limits \<Rightarrow> cbor_value \<Rightarrow> bool" where
  "encodes_exactly b v = (\<forall>d out n out' n'. encode_visit b v d (out, n) = Inr (out', n') \<longrightarrow>
    out' = out @ cbor_bytes (ordered_value v) \<and> n' = n + cbor_nodes v \<and> n' \<le> max_items b
    \<and> length out' \<le> max_bytes b \<and> cbor_ok b d (ordered_value v))"

lemma encodes_exactlyD:
  assumes "encodes_exactly b v" "encode_visit b v d (out, n) = Inr (out', n')"
  shows "out' = out @ cbor_bytes (ordered_value v)" "n' = n + cbor_nodes v" "n' \<le> max_items b"
    "length out' \<le> max_bytes b" "cbor_ok b d (ordered_value v)"
  using assms unfolding encodes_exactly_def by blast+

lemma encode_children_exact:
  assumes "\<And>v. v \<in> set vs \<Longrightarrow> encodes_exactly b v"
  shows "try_fold (\<lambda>child. encode_visit b child d) vs (out, n) = Inr (out', n') \<Longrightarrow>
    out' = out @ concat (map (\<lambda>v. cbor_bytes (ordered_value v)) vs) \<and> n' = n + sum_list (map cbor_nodes vs)
    \<and> (n \<le> max_items b \<longrightarrow> n' \<le> max_items b) \<and> list_all (\<lambda>v. cbor_ok b d (ordered_value v)) vs"
  using assms
proof (induction vs arbitrary: out n)
  case Nil
  then show ?case by simp
next
  case (Cons v vs)
  obtain o1 n1 where one: "encode_visit b v d (out, n) = Inr (o1, n1)"
    and rest: "try_fold (\<lambda>child. encode_visit b child d) vs (o1, n1) = Inr (out', n')"
    using Cons.prems(1) by (auto simp: and_then_Inr_iff)
  have "encodes_exactly b v" using Cons.prems(2) by simp
  note v = encodes_exactlyD [OF this one]
  have "out' = o1 @ concat (map (\<lambda>v. cbor_bytes (ordered_value v)) vs) \<and> n' = n1 + sum_list (map cbor_nodes vs)
    \<and> (n1 \<le> max_items b \<longrightarrow> n' \<le> max_items b) \<and> list_all (\<lambda>v. cbor_ok b d (ordered_value v)) vs"
    using Cons.prems(2) by (intro Cons.IH rest) simp
  then show ?case using v by simp
qed

lemma encode_fields_exact:
  assumes "\<And>f. f \<in> set fs \<Longrightarrow> encodes_exactly b (snd f)"
  shows "try_fold (encode_field (\<lambda>child. encode_visit b child d))
      (map (\<lambda>f. (encoded_text (fst f), snd f)) fs) (out, n) = Inr (out', n') \<Longrightarrow>
    out' = out @ concat (map (\<lambda>f. encoded_text (fst f) @ cbor_bytes (ordered_value (snd f))) fs)
    \<and> n' = n + sum_list (map (\<lambda>f. cbor_nodes (snd f)) fs)
    \<and> (n \<le> max_items b \<longrightarrow> n' \<le> max_items b) \<and> list_all (\<lambda>f. cbor_ok b d (ordered_value (snd f))) fs"
  using assms
proof (induction fs arbitrary: out n)
  case Nil
  then show ?case by simp
next
  case (Cons f fs)
  let ?loop = "try_fold (encode_field (\<lambda>child. encode_visit b child d))
      (map (\<lambda>f. (encoded_text (fst f), snd f)) fs)"
  obtain o1 n1 where one: "encode_visit b (snd f) d (out @ encoded_text (fst f), n) = Inr (o1, n1)"
    and rest: "?loop (o1, n1) = Inr (out', n')"
    using Cons.prems(1) by (auto simp: and_then_Inr_iff)
  have "encodes_exactly b (snd f)" using Cons.prems(2) by simp
  note v = encodes_exactlyD [OF this one]
  have "out' = o1 @ concat (map (\<lambda>f. encoded_text (fst f) @ cbor_bytes (ordered_value (snd f))) fs)
    \<and> n' = n1 + sum_list (map (\<lambda>f. cbor_nodes (snd f)) fs)
    \<and> (n1 \<le> max_items b \<longrightarrow> n' \<le> max_items b) \<and> list_all (\<lambda>f. cbor_ok b d (ordered_value (snd f))) fs"
    using Cons.prems(2) by (intro Cons.IH rest) simp
  then show ?case using v by simp
qed

lemma cbor_ok_depth: "cbor_ok b d v \<Longrightarrow> d \<le> max_depth b"
  by (cases v) auto

lemma sum_list_sort_key: "sum_list (map g (sort_key k xs)) = sum_list (map (g :: 'a \<Rightarrow> nat) xs)"
proof -
  have "sum_list (map g (insort_key k x ys)) = g x + sum_list (map g ys)" for x ys
    by (induction ys) auto
  then show ?thesis by (induction xs) simp_all
qed

lemma ordered_value_items [simp]: "cbor_items (ordered_value v) = cbor_items v"
proof (induction v rule: ordered_value.induct)
  case (1 vs)
  then show ?case by (simp add: comp_def cong: map_cong)
next
  case (2 fs)
  have "sum_list (map (\<lambda>f. Suc (cbor_items (ordered_value (snd f)))) (sort_key key_rank fs))
      = sum_list (map (\<lambda>f. Suc (cbor_items (snd f))) (sort_key key_rank fs))"
    using 2 by (intro arg_cong [of _ _ sum_list] map_cong) auto
  also have "\<dots> = sum_list (map (\<lambda>f. Suc (cbor_items (snd f))) fs)"
    by (rule sum_list_sort_key)
  finally show ?case by (simp add: ordered_fields comp_def)
qed simp_all

lemma simple_heads:
  "append_head Simple 22 = [0xf6]" "append_head Simple 21 = [0xf5]" "append_head Simple 20 = [0xf4]"
  by (simp_all add: append_head_def major_code_def)

lemma check_size_Inr_iff [result_simps]:
  "check_size b s = Inr t \<longleftrightarrow> t = s \<and> length (fst s) \<le> max_bytes b"
  by (cases s) (auto simp: check_size_def)

lemma uminus_minus_1: "- i - 1 = - 1 - (i :: u64)"
  by simp

lemma encode_visit_exact:
  assumes lim: "limits_64 b"
  shows "encodes_exactly b v"
proof (induction v rule: measure_induct_rule [of size])
  case (less v)
  show ?case
    unfolding encodes_exactly_def
  proof (intro allI impI)
    fix d out n out' n'
    assume res: "encode_visit b v d (out, n) = Inr (out', n')"
    have d: "d \<le> max_depth b" and n: "n < max_items b"
      using res by (auto simp: encode_visit.simps [of b v d out n] split: if_splits)
    note res' = res [unfolded encode_visit.simps [of b v d out n]]
    show "out' = out @ cbor_bytes (ordered_value v) \<and> n' = n + cbor_nodes v \<and> n' \<le> max_items b
      \<and> length out' \<le> max_bytes b \<and> cbor_ok b d (ordered_value v)"
    proof (cases v)
      case Cbor_Null
      then show ?thesis using res' d n by (auto simp: result_simps simple_heads)
    next
      case (Cbor_Bool x)
      then show ?thesis using res' d n by (cases x) (auto simp: result_simps simple_heads)
    next
      case (Cbor_Unsigned u)
      then show ?thesis using res' d n by (auto simp: result_simps)
    next
      case (Cbor_Signed i)
      then show ?thesis using res' d n by (auto simp: result_simps uminus_minus_1)
    next
      case (Cbor_Bytes bs)
      then show ?thesis using res' d n lim by (auto simp: result_simps limits_64_def)
    next
      case (Cbor_Text t)
      then show ?thesis
        using res' d n lim by (auto simp: result_simps limits_64_def text_ok_def encoded_text_def)
    next
      case (Cbor_Array vs)
      have len: "length vs \<le> max_items b" and size: "length out' \<le> max_bytes b"
        and loop: "try_fold (\<lambda>child. encode_visit b child (Suc d)) vs
          (out @ append_head Array_Items (word_of_nat (length vs)), Suc n) = Inr (out', n')"
        using res' d n by (auto simp: Cbor_Array result_simps split: if_splits)
      have "encodes_exactly b w" if "w \<in> set vs" for w
        using that by (intro less) (auto simp: Cbor_Array less_Suc_eq_le size_list_estimation')
      note ex = encode_children_exact [OF this loop]
      show ?thesis
        using ex len size d n lim by (simp add: Cbor_Array list_all_length limits_64_def comp_def)
    next
      case (Cbor_Map fs)
      let ?sorted = "sort_key key_rank fs"
      obtain ks ordd where len: "length fs \<le> max_items b" and size: "length out' \<le> max_bytes b"
        and collect: "try_fold (collect_field b) fs ({}, []) = Inr (ks, ordd)"
        and loop: "try_fold (encode_field (\<lambda>child. encode_visit b child (Suc d)))
          (sort_entries ordd) (out @ append_head Map_Fields (word_of_nat (length ordd)), Suc n) = Inr (out', n')"
        using res' d n by (auto simp: Cbor_Map result_simps split: if_splits sum.splits)
      have keys: "distinct (map fst fs)"
        "list_all (\<lambda>f. length (fst f) \<le> max_text_bytes b \<and> cbor_valid_utf8 (bytes_of (fst f))) fs"
        and ordd: "ordd = map (\<lambda>f. (encoded_text (fst f), snd f)) fs"
        using collect by (auto simp: collect_fields_Inr_iff)
      have "encodes_exactly b (snd f)" if "f \<in> set ?sorted" for f
        using that size_field [of f fs] by (intro less) (simp add: Cbor_Map)
      note ex = encode_fields_exact [OF this loop [unfolded ordd sort_entries_fields]]
      have nodes: "sum_list (map (\<lambda>f. cbor_nodes (snd f)) ?sorted) = sum_list (map (\<lambda>f. cbor_nodes (snd f)) fs)"
        by (rule sum_list_sort_key)
      have ok: "list_all (\<lambda>f. Suc d \<le> max_depth b \<and> text_ok b (fst f) \<and> cbor_ok b (Suc d) (ordered_value (snd f))) ?sorted"
        using ex keys(2) lim by (auto simp: list_all_iff text_ok_def limits_64_def dest: cbor_ok_depth)
      show ?thesis
        using ex len size d n lim nodes ok sort_key_strict [OF keys(1)]
        by (simp add: Cbor_Map ordered_fields limits_64_def comp_def list.pred_map)
    qed
  qed
qed

section \<open>The encoder accepts every value it can order\<close>

definition encodes_all :: "cbor_limits \<Rightarrow> cbor_value \<Rightarrow> bool" where
  "encodes_all b v = (\<forall>d out n. cbor_ok b d (ordered_value v) \<longrightarrow> n + cbor_nodes v \<le> max_items b \<longrightarrow>
    length out + length (cbor_bytes (ordered_value v)) \<le> max_bytes b \<longrightarrow>
    encode_visit b v d (out, n) = Inr (out @ cbor_bytes (ordered_value v), n + cbor_nodes v)
    \<and> validate_value b v d n = Inr (n + cbor_nodes v))"

lemma encodes_allD:
  assumes "encodes_all b v" "cbor_ok b d (ordered_value v)" "n + cbor_nodes v \<le> max_items b"
    "length out + length (cbor_bytes (ordered_value v)) \<le> max_bytes b"
  shows "encode_visit b v d (out, n) = Inr (out @ cbor_bytes (ordered_value v), n + cbor_nodes v)"
    and "validate_value b v d n = Inr (n + cbor_nodes v)"
  using assms unfolding encodes_all_def by blast+

lemma encode_children_all:
  assumes "\<And>v. v \<in> set vs \<Longrightarrow> encodes_all b v" "list_all (\<lambda>v. cbor_ok b d (ordered_value v)) vs"
    "n + sum_list (map cbor_nodes vs) \<le> max_items b"
    "length out + length (concat (map (\<lambda>v. cbor_bytes (ordered_value v)) vs)) \<le> max_bytes b"
  shows "try_fold (\<lambda>child. encode_visit b child d) vs (out, n)
      = Inr (out @ concat (map (\<lambda>v. cbor_bytes (ordered_value v)) vs), n + sum_list (map cbor_nodes vs))
    \<and> try_fold (\<lambda>child. validate_value b child d) vs n = Inr (n + sum_list (map cbor_nodes vs))"
  using assms
proof (induction vs arbitrary: out n)
  case Nil
  then show ?case by simp
next
  case (Cons v vs)
  have "encodes_all b v" "cbor_ok b d (ordered_value v)" "n + cbor_nodes v \<le> max_items b"
    "length out + length (cbor_bytes (ordered_value v)) \<le> max_bytes b"
    using Cons.prems by simp_all
  note v = encodes_allD [OF this]
  show ?case
    using v Cons.IH [of "n + cbor_nodes v" "out @ cbor_bytes (ordered_value v)"] Cons.prems by (simp add: add.assoc)
qed

text \<open>The bytes of the fields of a map in the order given.\<close>

abbreviation ordered_bytes :: "(string \<times> cbor_value) list \<Rightarrow> bytes" where
  "ordered_bytes fs \<equiv> concat (map (\<lambda>f. encoded_text (fst f) @ cbor_bytes (ordered_value (snd f))) fs)"

lemma encode_fields_all:
  assumes "\<And>f. f \<in> set fs \<Longrightarrow> encodes_all b (snd f)"
    "\<And>f. f \<in> set fs \<Longrightarrow> text_ok b (fst f) \<and> cbor_ok b d (ordered_value (snd f))"
    "n + sum_list (map (\<lambda>f. cbor_nodes (snd f)) fs) \<le> max_items b"
    "length out + length (ordered_bytes fs) \<le> max_bytes b"
    "distinct (map fst fs)" "set (map fst fs) \<inter> keys = {}"
  shows "try_fold (encode_field (\<lambda>child. encode_visit b child d))
      (map (\<lambda>f. (encoded_text (fst f), snd f)) fs) (out, n)
      = Inr (out @ ordered_bytes fs, n + sum_list (map (\<lambda>f. cbor_nodes (snd f)) fs))
    \<and> validate_fields b fs d keys n = Inr (n + sum_list (map (\<lambda>f. cbor_nodes (snd f)) fs))"
  using assms
proof (induction fs arbitrary: out n keys)
  case Nil
  then show ?case by simp
next
  case (Cons f fs)
  let ?o1 = "out @ encoded_text (fst f)" and ?v = "cbor_bytes (ordered_value (snd f))"
  have "encodes_all b (snd f)" "cbor_ok b d (ordered_value (snd f))" "n + cbor_nodes (snd f) \<le> max_items b"
    "length ?o1 + length ?v \<le> max_bytes b"
    using Cons.prems by simp_all
  note v = encodes_allD [OF this]
  have rest: "try_fold (encode_field (\<lambda>child. encode_visit b child d))
      (map (\<lambda>f. (encoded_text (fst f), snd f)) fs) (?o1 @ ?v, n + cbor_nodes (snd f))
      = Inr ((?o1 @ ?v) @ ordered_bytes fs, n + cbor_nodes (snd f) + sum_list (map (\<lambda>f. cbor_nodes (snd f)) fs))
    \<and> validate_fields b fs d (insert (fst f) keys) (n + cbor_nodes (snd f))
      = Inr (n + cbor_nodes (snd f) + sum_list (map (\<lambda>f. cbor_nodes (snd f)) fs))"
    using Cons.prems by (intro Cons.IH) auto
  have "fst f \<notin> keys" "length (fst f) \<le> max_text_bytes b" "cbor_valid_utf8 (bytes_of (fst f))"
    using Cons.prems by (auto simp: text_ok_def)
  then show ?case
    using v rest by (simp add: add.assoc)
qed

lemma ordered_fields_length: "length (ordered_bytes (sort_key k fs)) = length (ordered_bytes fs)"
  by (simp add: length_concat comp_def sum_list_sort_key)

lemma sort_key_distinct: "distinct (map fst (sort_key k fs)) \<longleftrightarrow> distinct (map fst fs)"
  by (metis card_distinct distinct_card length_map length_sort set_map set_sort)

lemma encode_visit_all: "encodes_all b v"
proof (induction v rule: measure_induct_rule [of size])
  case (less v)
  show ?case
    unfolding encodes_all_def
  proof (intro allI impI)
    fix d :: nat and out :: bytes and n :: nat
    assume ok: "cbor_ok b d (ordered_value v)" and nodes: "n + cbor_nodes v \<le> max_items b"
      and size: "length out + length (cbor_bytes (ordered_value v)) \<le> max_bytes b"
    have d: "\<not> d > max_depth b" using cbor_ok_depth [OF ok] by simp
    have n: "\<not> n \<ge> max_items b" using nodes by (cases v) auto
    note step = encode_visit.simps [of b v d out n] validate_value.simps [of b v d n]
    show "encode_visit b v d (out, n) = Inr (out @ cbor_bytes (ordered_value v), n + cbor_nodes v)
      \<and> validate_value b v d n = Inr (n + cbor_nodes v)"
    proof (cases v)
      case Cbor_Null
      then show ?thesis using step d n size by (simp add: check_size_def simple_heads)
    next
      case (Cbor_Bool x)
      then show ?thesis using step d n size by (cases x) (simp_all add: check_size_def simple_heads)
    next
      case (Cbor_Unsigned u)
      then show ?thesis using step d n size by (simp add: check_size_def)
    next
      case (Cbor_Signed i)
      then show ?thesis using step d n size ok by (simp add: check_size_def uminus_minus_1)
    next
      case (Cbor_Bytes bs)
      then show ?thesis using step d n size ok by (simp add: check_size_def)
    next
      case (Cbor_Text t)
      then show ?thesis using step d n size ok by (simp add: check_size_def text_ok_def encoded_text_def)
    next
      case (Cbor_Array vs)
      let ?o = "out @ append_head Array_Items (word_of_nat (length vs))"
      have "encodes_all b w" if "w \<in> set vs" for w
        using that by (intro less) (auto simp: Cbor_Array less_Suc_eq_le size_list_estimation')
      then have "try_fold (\<lambda>child. encode_visit b child (Suc d)) vs (?o, Suc n)
          = Inr (?o @ concat (map (\<lambda>v. cbor_bytes (ordered_value v)) vs), Suc n + sum_list (map cbor_nodes vs))
        \<and> try_fold (\<lambda>child. validate_value b child (Suc d)) vs (Suc n) = Inr (Suc n + sum_list (map cbor_nodes vs))"
        using ok nodes size by (intro encode_children_all) (simp_all add: Cbor_Array list.pred_map comp_def)
      then show ?thesis
        using step d n size ok by (simp add: Cbor_Array check_size_def comp_def)
    next
      case (Cbor_Map fs)
      let ?fs = "sort_key key_rank fs"
      let ?o = "out @ append_head Map_Fields (word_of_nat (length fs))"
      have sorted: "sorted_wrt key_before (map fst ?fs)" and
        fok: "\<And>f. f \<in> set fs \<Longrightarrow> text_ok b (fst f) \<and> cbor_ok b (Suc d) (ordered_value (snd f))"
        using ok by (auto simp: Cbor_Map ordered_fields list_all_iff comp_def)
      have dist: "distinct (map fst ?fs)" "distinct (map fst fs)"
        using sorted_keys_distinct [OF sorted] by (simp_all only: sort_key_distinct)
      have children: "encodes_all b (snd f)" if "f \<in> set fs" for f
        using that size_field [of f fs] by (intro less) (simp add: Cbor_Map)
      have room: "length ?o + length (ordered_bytes ?fs) \<le> max_bytes b"
        using size by (simp add: Cbor_Map ordered_fields comp_def)
      then have room': "length ?o + length (ordered_bytes fs) \<le> max_bytes b"
        unfolding ordered_fields_length .
      have nodes': "Suc n + sum_list (map (\<lambda>f. cbor_nodes (snd f)) ?fs) \<le> max_items b"
        "Suc n + sum_list (map (\<lambda>f. cbor_nodes (snd f)) fs) \<le> max_items b"
        using nodes by (simp_all add: Cbor_Map sum_list_sort_key)
      have loop: "try_fold (encode_field (\<lambda>child. encode_visit b child (Suc d)))
          (map (\<lambda>f. (encoded_text (fst f), snd f)) ?fs) (?o, Suc n)
          = Inr (?o @ ordered_bytes ?fs, Suc n + sum_list (map (\<lambda>f. cbor_nodes (snd f)) ?fs))"
        using encode_fields_all [of ?fs b "Suc d" "Suc n" ?o "{}"] fok children nodes'(1) room dist(1) by simp
      have valid: "validate_fields b fs (Suc d) {} (Suc n) = Inr (Suc n + sum_list (map (\<lambda>f. cbor_nodes (snd f)) fs))"
        using encode_fields_all [of fs b "Suc d" "Suc n" ?o "{}"] fok children nodes'(2) room' dist(2) by simp
      have collect: "try_fold (collect_field b) fs ({}, [])
          = Inr (set (map fst fs), map (\<lambda>f. (encoded_text (fst f), snd f)) fs)"
        using fok dist by (auto simp: collect_fields_Inr_iff list_all_iff text_ok_def)
      show ?thesis
        using step d n size ok loop valid
        by (simp add: Cbor_Map check_size_def collect sort_entries_fields ordered_fields sum_list_sort_key comp_def)
    qed
  qed
qed

lemma cbor_nodes_le_items: "cbor_nodes v \<le> cbor_items v"
proof (induction v rule: cbor_nodes.induct)
  case (1 vs)
  then show ?case by (auto intro: sum_list_mono)
next
  case (2 fs)
  then show ?case by (auto intro!: sum_list_mono le_SucI)
qed simp_all

section \<open>Properties of the codec\<close>

text \<open>Limits small enough for the concrete instances below to evaluate quickly.\<close>

definition small_cbor_limits :: cbor_limits where
  "small_cbor_limits = \<lparr>max_bytes = 64, max_depth = 4, max_items = 16, max_text_bytes = 16,
    max_byte_string_bytes = 16\<rparr>"

lemma cbor_decode_Inr:
  assumes "cbor_decode bs b = Inr v"
  shows "bs = cbor_bytes v" "cbor_ok b 0 v" "cbor_items v \<le> max_items b" "length bs \<le> max_bytes b"
  using assms decodes_exactlyD [OF decode_visit_exact [of b 0], of bs 0 v]
  by (auto simp: cbor_decode_def and_then_Inr_iff split: if_splits)

lemma cbor_encode_decoded:
  assumes "cbor_decode bs b = Inr v"
  shows "cbor_encode v b = Inr bs"
proof -
  note d = cbor_decode_Inr [OF assms]
  have "cbor_nodes v \<le> max_items b"
    using d(3) cbor_nodes_le_items [of v] by linarith
  then show ?thesis
    using encodes_allD [OF encode_visit_all, of b 0 v 0 "[]"] ordered_value_ok [OF d(2)] d(1,2,4)
    by (simp add: cbor_encode_def cbor_validate_def)
qed

interpretation cbor_codec: canonical_codec "\<lambda>v. cbor_encode v b" "\<lambda>bs. cbor_decode bs b" for b
  by unfold_locales (rule cbor_encode_decoded)

lemma cbor_bytes_nonempty: "cbor_bytes v \<noteq> []"
  by (cases v) simp_all

lemma cbor_decode_iff:
  "cbor_decode bs b = Inr v \<longleftrightarrow>
    bs = cbor_bytes v \<and> cbor_ok b 0 v \<and> cbor_items v \<le> max_items b \<and> length bs \<le> max_bytes b"
proof
  assume "cbor_decode bs b = Inr v"
  from cbor_decode_Inr [OF this]
  show "bs = cbor_bytes v \<and> cbor_ok b 0 v \<and> cbor_items v \<le> max_items b \<and> length bs \<le> max_bytes b"
    by blast
next
  assume *: "bs = cbor_bytes v \<and> cbor_ok b 0 v \<and> cbor_items v \<le> max_items b \<and> length bs \<le> max_bytes b"
  then have "decode_visit b 0 (cbor_bytes v @ []) 0 = Inr (v, [], 0 + cbor_items v)"
    by (intro decodes_allD [OF decode_visit_all]) simp_all
  then show "cbor_decode bs b = Inr v"
    using * cbor_bytes_nonempty [of v] by (auto simp: cbor_decode_def)
qed

lemma cbor_encode_exact:
  assumes "cbor_encode v b = Inr bs" "limits_64 b"
  shows "bs = cbor_bytes (ordered_value v)" "length bs \<le> max_bytes b" "cbor_ok b 0 (ordered_value v)"
    "cbor_nodes v \<le> max_items b"
proof -
  obtain n where "encode_visit b v 0 ([], 0) = Inr (bs, n)"
    using assms(1) by (auto simp: cbor_encode_def result_simps split: sum.splits)
  from encodes_exactlyD [OF encode_visit_exact [OF assms(2)] this]
  show "bs = cbor_bytes (ordered_value v)" "length bs \<le> max_bytes b" "cbor_ok b 0 (ordered_value v)"
    "cbor_nodes v \<le> max_items b"
    by simp_all
qed

text \<open>The encoder takes the fields of a map in any order.\<close>

lemma cbor_encode_ordered:
  assumes "cbor_ok b 0 (ordered_value v)" "cbor_nodes v \<le> max_items b"
    "length (cbor_bytes (ordered_value v)) \<le> max_bytes b"
  shows "cbor_encode v b = Inr (cbor_bytes (ordered_value v))"
  using encodes_allD [OF encode_visit_all assms(1), of 0 "[]"] assms(2,3)
  by (simp add: cbor_encode_def cbor_validate_def)

lemma key_before_short:
  assumes "length j < 24" "length k < 24"
  shows "key_before j k \<longleftrightarrow> length j < length k \<or> length j = length k \<and> lex_less (bytes_of j) (bytes_of k)"
proof -
  have "encoded_text t = (push_bit 5 (major_code Text_Str) OR ucast (word_of_nat (length t) :: u64)) # bytes_of t"
    if "length t < 24" for t
    using that by (simp add: encoded_text_def append_head_def Let_def word_less_nat_alt unat_of_nat)
  then show ?thesis
    using assms by (auto simp: key_before_def)
qed

lemma sorted_keys_unique:
  assumes "sorted_wrt key_before ks" "sorted_wrt key_before ls" "set ks = set ls"
  shows "ks = ls"
proof -
  let ?rank = "\<lambda>k. (length (encoded_text k), encoded_text k)"
  have before: "key_before j k \<longleftrightarrow> ?rank j < ?rank k" for j k
    by (auto simp: key_before_def lex_less_iff_less)
  have "map ?rank ks = map ?rank ls"
    using assms by (intro strict_sorted_equal) (simp_all add: sorted_wrt_map before [abs_def])
  then show ?thesis
    by (rule map_injective) (auto simp: inj_def dest: encoded_text_inject)
qed

text \<open>
  C13: under any limits, a byte string that the decoder accepts is exactly what the encoder produces
  from the decoded value: there is no second spelling of a value (no long heads, no reordered or
  repeated keys, no trailing bytes).
\<close>

theorem cbor_decode_canonical:
  assumes "cbor_decode bs b = Inr v"
  shows "cbor_encode v b = Inr bs \<and> (\<forall>cs. cbor_decode cs b = Inr v \<longrightarrow> cs = bs)"
  using cbor_encode_decoded [OF assms] cbor_codec.decode_inject [OF assms] by auto

lemma cbor_decode_canonical_witness:
  "cbor_encode (Cbor_Map [(''a'', Cbor_Unsigned 300), (''b'', Cbor_Array [Cbor_Null])]) small_cbor_limits
    = Inr [0xa2, 0x61, 0x61, 0x19, 0x01, 0x2c, 0x61, 0x62, 0x81, 0xf6]"
  by (rule cbor_decode_canonical [THEN conjunct1]) code_simp

lemma encoding_exact:
  assumes "cbor_encode v b = Inr bs" "limits_64 b"
  shows "bs = cbor_bytes (ordered_value v)" "cbor_nodes v \<le> max_items b" "length bs \<le> max_bytes b"
    "cbor_ok b 0 (ordered_value v)"
proof -
  obtain n where "encode_visit b v 0 ([], 0) = Inr (bs, n)"
    using assms(1) by (auto simp: cbor_encode_def result_simps split: sum.splits)
  from encodes_exactlyD [OF encode_visit_exact [OF assms(2)] this]
  show "bs = cbor_bytes (ordered_value v)" "cbor_nodes v \<le> max_items b" "length bs \<le> max_bytes b"
    "cbor_ok b 0 (ordered_value v)" by simp_all
qed

lemma decode_of_encoding:
  assumes "cbor_encode v b = Inr bs" "limits_64 b" "cbor_items v \<le> max_items b"
  shows "cbor_decode bs b = Inr (ordered_value v)"
proof -
  note e = encoding_exact [OF assms(1,2)]
  have "decode_visit b 0 (cbor_bytes (ordered_value v) @ []) 0 = Inr (ordered_value v, [], 0 + cbor_items (ordered_value v))"
    using e(4) assms(3) by (intro decodes_allD [OF decode_visit_all]) simp_all
  then show ?thesis
    using e(1,3) cbor_bytes_nonempty [of "ordered_value v"] by (simp add: cbor_decode_def)
qed

text \<open>
  C14: what is encoded decodes back to the same value with the fields of every map in canonical
  order, provided the map keys also fit the item budget (the encoder does not count them).
\<close>

theorem cbor_encode_round_trip:
  assumes "cbor_encode v b = Inr bs" "limits_64 b" "cbor_items v \<le> max_items b"
  shows "cbor_decode bs b = Inr (ordered_value v)"
  by (rule decode_of_encoding [OF assms])

lemma cbor_encode_round_trip_witness:
  "cbor_decode [0xa2, 0x61, 0x61, 0xf5, 0x62, 0x62, 0x62, 0x20] small_cbor_limits
    = Inr (ordered_value (Cbor_Map [(''bb'', Cbor_Signed (- 1)), (''a'', Cbor_Bool True)]))"
proof (rule cbor_encode_round_trip)
  show "cbor_encode (Cbor_Map [(''bb'', Cbor_Signed (- 1)), (''a'', Cbor_Bool True)]) small_cbor_limits
    = Inr [0xa2, 0x61, 0x61, 0xf5, 0x62, 0x62, 0x62, 0x20]"
    by code_simp
qed (simp_all add: limits_64_def small_cbor_limits_def)

text \<open>
  A decoded value respects every limit it was decoded under (depth, items, text and byte-string
  sizes), its text is valid UTF-8, its signed integers are negative, and the keys of each of its maps
  are strictly increasing in the canonical order, hence distinct.
\<close>

theorem cbor_decode_within_limits:
  assumes "cbor_decode bs b = Inr v"
  shows "cbor_ok b 0 v \<and> cbor_items v \<le> max_items b \<and> length bs \<le> max_bytes b
    \<and> (\<forall>fs. v = Cbor_Map fs \<longrightarrow> distinct (map fst fs) \<and> sorted_wrt key_before (map fst fs))"
  using cbor_decode_Inr [OF assms] sorted_keys_distinct by auto

lemma cbor_decode_within_limits_witness:
  "distinct [''a'', ''bb''] \<and> sorted_wrt key_before [''a'', ''bb'']"
proof -
  have "cbor_decode [0xa2, 0x61, 0x61, 0xf5, 0x62, 0x62, 0x62, 0x20] small_cbor_limits
    = Inr (Cbor_Map [(''a'', Cbor_Bool True), (''bb'', Cbor_Signed (- 1))])"
    by code_simp
  from cbor_decode_within_limits [OF this] show ?thesis by simp
qed

section \<open>Encodings beyond the decoder's item budget\<close>

text \<open>
  The two ways the decoder reports an exhausted item budget: directly at a value, and as a missing text
  key when the budget runs out at a map key.
\<close>

definition budget_errors :: "cbor_value result set" where
  "budget_errors = {Inl (cbor_failure ''items'' ''limit-exceeded''), Inl (cbor_failure ''map-key'' ''text-required'')}"

definition refuses_over :: "cbor_limits \<Rightarrow> nat \<Rightarrow> (bytes \<Rightarrow> nat \<Rightarrow> (cbor_value \<times> cursor) result) \<Rightarrow> bool" where
  "refuses_over b d visit = (\<forall>v r n. cbor_ok b d v \<longrightarrow> n \<le> max_items b \<longrightarrow> max_items b < n + cbor_items v \<longrightarrow>
    (\<exists>e. Inl e \<in> budget_errors \<and> visit (cbor_bytes v @ r) n = Inl e))"

lemma refuses_overE:
  assumes "refuses_over b d visit" "cbor_ok b d v" "n \<le> max_items b" "max_items b < n + cbor_items v"
  obtains e where "Inl e \<in> budget_errors" "visit (cbor_bytes v @ r) n = Inl e"
  using assms unfolding refuses_over_def by blast

lemma decode_children_over:
  assumes ih: "decodes_all b d visit" "refuses_over b d visit"
  shows "list_all (cbor_ok b d) new \<Longrightarrow> n \<le> max_items b \<Longrightarrow> max_items b < n + sum_list (map cbor_items new) \<Longrightarrow>
    \<exists>e. Inl e \<in> budget_errors
      \<and> repeat_result (length new) (decode_child visit) (acc, concat (map cbor_bytes new) @ r, n) = Inl e"
proof (induction new arbitrary: acc n)
  case Nil
  then show ?case by simp
next
  case (Cons v new)
  let ?r = "concat (map cbor_bytes new) @ r"
  show ?case
  proof (cases "n + cbor_items v \<le> max_items b")
    case True
    then have "visit (cbor_bytes v @ ?r) n = Inr (v, ?r, n + cbor_items v)"
      using Cons.prems by (intro decodes_allD [OF ih(1)]) simp_all
    then show ?thesis
      using Cons.IH [of "n + cbor_items v" "acc @ [v]"] Cons.prems True by (simp add: decode_child.simps add.assoc)
  next
    case False
    have "cbor_ok b d v" "max_items b < n + cbor_items v"
      using Cons.prems(1) False by simp_all
    then obtain e where "Inl e \<in> budget_errors" "visit (cbor_bytes v @ ?r) n = Inl e"
      using refuses_overE [OF ih(2) _ Cons.prems(2)] by metis
    then show ?thesis by (auto simp: decode_child.simps)
  qed
qed

lemma decode_fields_over:
  assumes ih: "decodes_all b d visit" "refuses_over b d visit"
  shows "list_all (\<lambda>f. d \<le> max_depth b \<and> text_ok b (fst f) \<and> cbor_ok b d (snd f)) new \<Longrightarrow>
    sorted_wrt key_before (map fst (acc @ new)) \<Longrightarrow> n \<le> max_items b \<Longrightarrow>
    max_items b < n + sum_list (map (\<lambda>f. 1 + cbor_items (snd f)) new) \<Longrightarrow>
    \<exists>e. Inl e \<in> budget_errors \<and> repeat_result (length new) (decode_field visit)
      (acc, last_key acc, concat (map (\<lambda>f. encoded_text (fst f) @ cbor_bytes (snd f)) new) @ r, n) = Inl e"
proof (induction new arbitrary: acc n)
  case Nil
  then show ?case by simp
next
  case (Cons f new)
  obtain k v where f: "f = (k, v)" by (cases f)
  let ?r2 = "concat (map (\<lambda>f. encoded_text (fst f) @ cbor_bytes (snd f)) new) @ r"
  have kv: "cbor_ok b d (Cbor_Text k)" "cbor_ok b d v"
    using Cons.prems(1) by (simp_all add: f)
  have key: "visit (encoded_text k @ cbor_bytes v @ ?r2) n = Inr (Cbor_Text k, cbor_bytes v @ ?r2, n + 1)"
    if "n < max_items b"
    using decodes_allD [OF ih(1) kv(1), of n "cbor_bytes v @ ?r2"] that by simp
  have no_key: "\<exists>e. visit (encoded_text k @ cbor_bytes v @ ?r2) n = Inl e" if "\<not> n < max_items b"
  proof -
    have "max_items b < n + cbor_items (Cbor_Text k)" using that by simp
    then show ?thesis by (rule refuses_overE [OF ih(2) kv(1) Cons.prems(3)]) auto
  qed
  have order: "\<not> key_out_of_order (last_key acc) (encoded_text k)"
    using Cons.prems(2) by (cases "acc = []")
      (simp_all add: f last_key_def key_out_of_order_iff sorted_wrt_append last_in_set)
  have fresh: "cbor_find acc k = None"
    using sorted_keys_distinct [OF Cons.prems(2)] by (auto simp: f cbor_find_None_iff)
  consider "\<not> n < max_items b" | "n < max_items b" "max_items b < n + 1 + cbor_items v"
    | "n + 1 + cbor_items v \<le> max_items b" by linarith
  then show ?case
  proof cases
    case 1
    then obtain e where "visit (encoded_text k @ cbor_bytes v @ ?r2) n = Inl e"
      using no_key by blast
    then have "decode_field visit (acc, last_key acc, encoded_text k @ cbor_bytes v @ ?r2, n)
        = Inl (cbor_failure ''map-key'' ''text-required'')"
      by (simp add: decode_field.simps)
    then show ?thesis by (simp add: f budget_errors_def)
  next
    case 2
    then have "n + 1 \<le> max_items b" by simp
    then obtain e where "Inl e \<in> budget_errors" "visit (cbor_bytes v @ ?r2) (n + 1) = Inl e"
      using 2(2) by (rule refuses_overE [OF ih(2) kv(2)])
    then have "decode_field visit (acc, last_key acc, encoded_text k @ cbor_bytes v @ ?r2, n) = Inl e"
      using key [OF 2(1)] order fresh by (simp add: decode_field.simps)
    then show ?thesis using \<open>Inl e \<in> budget_errors\<close> by (simp add: f)
  next
    case 3
    then have val: "visit (cbor_bytes v @ ?r2) (n + 1) = Inr (v, ?r2, n + 1 + cbor_items v)"
      by (intro decodes_allD [OF ih(1) kv(2)])
    have step: "decode_field visit (acc, last_key acc, encoded_text k @ cbor_bytes v @ ?r2, n)
        = Inr (acc @ [f], last_key (acc @ [f]), ?r2, n + 1 + cbor_items v)"
      using key val order fresh 3 by (simp add: decode_field.simps last_key_def f)
    have "\<exists>e. Inl e \<in> budget_errors \<and> repeat_result (length new) (decode_field visit)
        (acc @ [f], last_key (acc @ [f]), ?r2, n + 1 + cbor_items v) = Inl e"
    proof (rule Cons.IH)
      show "list_all (\<lambda>f. d \<le> max_depth b \<and> text_ok b (fst f) \<and> cbor_ok b d (snd f)) new"
        using Cons.prems(1) unfolding list.pred_inject by blast
    qed (use Cons.prems(2,4) 3 in \<open>simp_all add: f\<close>)
    then show ?thesis using step by (simp add: f)
  qed
qed

lemma decode_visit_over: "refuses_over b d (decode_visit b d)"
proof (induction "Suc (max_depth b) - d" arbitrary: d rule: less_induct)
  case less
  show ?case
    unfolding refuses_over_def
  proof (intro allI impI)
    fix v r n
    assume ok: "cbor_ok b d v" and items: "n \<le> max_items b" "max_items b < n + cbor_items v"
    have d: "\<not> d > max_depth b"
      using ok by (cases v) auto
    note ih = decode_visit_all [of b "Suc d"] less [of "Suc d"]
    let ?refused = "\<exists>e. Inl e \<in> budget_errors \<and> decode_visit b d (cbor_bytes v @ r) n = Inl e"
    show ?refused
    proof (cases "n < max_items b")
      case False
      then show ?thesis using d by (simp add: decode_visit.simps [of b d] budget_errors_def)
    next
      case n: True
      show ?thesis
      proof (cases v)
        case (Cbor_Array vs)
        have "\<exists>e. Inl e \<in> budget_errors \<and> repeat_result (length vs) (decode_child (decode_visit b (Suc d)))
            ([], concat (map cbor_bytes vs) @ r, n + 1) = Inl e"
          using ok items n d by (intro decode_children_over [OF ih]) (simp_all add: Cbor_Array)
        then show ?thesis
          using d n ok by (subst decode_visit.simps)
            (auto simp: Cbor_Array read_head_append_head unat_word_of_nat_u64 not_less)
      next
        case (Cbor_Map fs)
        have "\<exists>e. Inl e \<in> budget_errors \<and> repeat_result (length fs) (decode_field (decode_visit b (Suc d)))
            ([], last_key [], concat (map (\<lambda>f. encoded_text (fst f) @ cbor_bytes (snd f)) fs) @ r, n + 1) = Inl e"
          using ok items n d by (intro decode_fields_over [OF ih]) (simp_all add: Cbor_Map)
        then show ?thesis
          using d n ok by (subst decode_visit.simps)
            (auto simp: Cbor_Map read_head_append_head unat_word_of_nat_u64 not_less last_key_def)
      qed (use n items in simp_all)
    qed
  qed
qed

text \<open>
  Encoder and decoder count items differently: the encoder (and \<open>validate\<close>) spends one item per
  value, the decoder one per value and one per map key. Under one and the same set of limits the bytes of
  every encoding are read back as the ordered value exactly when values and map keys together fit the
  item budget; otherwise the decoder refuses what the encoder has just produced, with
  \<open>items/limit-exceeded\<close> or, when the budget runs out at a map key, \<open>map-key/text-required\<close>.
\<close>

theorem cbor_item_budget_exact:
  assumes "cbor_encode v b = Inr bs" "limits_64 b"
  shows "cbor_nodes v \<le> max_items b
    \<and> (if cbor_items v \<le> max_items b then cbor_decode bs b = Inr (ordered_value v)
       else cbor_decode bs b \<in> budget_errors)"
proof -
  note e = encoding_exact [OF assms]
  have "cbor_decode bs b \<in> budget_errors" if over: "max_items b < cbor_items v"
  proof -
    obtain f where "Inl f \<in> budget_errors" "decode_visit b 0 (cbor_bytes (ordered_value v) @ []) 0 = Inl f"
      using over by (auto intro: refuses_overE [OF decode_visit_over e(4), of 0 "[]"])
    then show ?thesis
      using e(1,3) cbor_bytes_nonempty [of "ordered_value v"] by (auto simp: cbor_decode_def budget_errors_def)
  qed
  then show ?thesis
    using e(2) decode_of_encoding [OF assms] by simp
qed

definition key_heavy :: "nat \<Rightarrow> cbor_limits" where
  "key_heavy n = \<lparr>max_bytes = 64, max_depth = 4, max_items = n, max_text_bytes = 16, max_byte_string_bytes = 16\<rparr>"

lemma cbor_item_budget_exact_witness:
  "cbor_decode [0xa1, 0x61, 0x61, 0xf6] (key_heavy 3) = Inr (ordered_value (Cbor_Map [(''a'', Cbor_Null)]))
    \<and> cbor_decode [0xa1, 0x61, 0x61, 0xf6] (key_heavy 2) \<in> budget_errors"
proof -
  have "limits_64 (key_heavy n)" if "n \<le> 3" for n
    using that by (simp add: limits_64_def key_heavy_def)
  moreover have "cbor_encode (Cbor_Map [(''a'', Cbor_Null)]) (key_heavy 3) = Inr [0xa1, 0x61, 0x61, 0xf6]"
    "cbor_encode (Cbor_Map [(''a'', Cbor_Null)]) (key_heavy 2) = Inr [0xa1, 0x61, 0x61, 0xf6]"
    by code_simp+
  ultimately show ?thesis
    using cbor_item_budget_exact [of "Cbor_Map [(''a'', Cbor_Null)]" "key_heavy 3"]
      cbor_item_budget_exact [of "Cbor_Map [(''a'', Cbor_Null)]" "key_heavy 2"]
    by (auto simp: key_heavy_def)
qed

end
