(* ===== verification/Cbor_Scan.thy ===== *)
theory Cbor_Scan
  imports Cbor
begin

text \<open>
  The allocation-free scanner of \<open>src/protocol_v2/cbor.cpp\<close> (\<open>scan_canonical\<close>): an explicit stack
  of open containers replaces the decoder's recursion. The lemmas relate it to the decoder: it
  accepts exactly the byte strings that decode.
\<close>

section \<open>State\<close>

record scan_limits =
  sl_max_bytes :: nat
  sl_max_depth :: nat
  sl_max_items :: nat
  sl_max_array_items :: nat
  sl_max_map_items :: nat
  sl_max_text_bytes :: nat
  sl_max_byte_string_bytes :: nat
  sl_require_root_map :: bool

datatype scan_error = Scan_None | Empty_Or_Limit | Truncated | Non_Shortest | Indefinite_Or_Reserved
  | Depth_Limit | Item_Limit | Array_Shape_Limit | Map_Shape_Limit | Text_Limit_Or_Utf8
  | Byte_String_Limit | Map_Key_Not_Text | Map_Order_Or_Duplicate | Unsupported | Trailing_Bytes

record scan_result =
  sr_error :: scan_error
  sr_item_count :: nat
  sr_maximum_depth :: nat

definition maximum_scan_depth :: nat where
  "maximum_scan_depth = 32"

text \<open>Offsets into the input are natural numbers here, as the stack entries keep them.\<close>

record scan_stack_entry =
  se_remaining :: nat
  se_item_begin :: nat
  se_previous_key_offset :: nat
  se_previous_key_size :: nat
  se_container_kind :: major
  se_expecting_key :: bool

text \<open>The used part of the \<open>stack\<close> array, innermost container first; \<open>stack_size\<close> is its length.\<close>

record scan_workspace =
  sw_stack :: "scan_stack_entry list"
  sw_item_count :: nat
  sw_maximum_depth :: nat

text \<open>\<open>std::numeric_limits<std::size_t>::max()\<close>\<close>

definition size_max :: u64 where
  "size_max = 0xffffffffffffffff"

section \<open>Steps\<close>

definition scan_head :: "bytes \<Rightarrow> nat \<Rightarrow> scan_error + major \<times> u64 \<times> nat" where
  "scan_head input offset =
    (if offset \<ge> length input then Inl Truncated
     else
      (let initial = input ! offset;
           kind = major_of (drop_bit 5 initial);
           additional = initial AND 0x1f
       in if additional \<ge> 28 then Inl Indefinite_Or_Reserved
          else if additional < 24 then Inr (kind, ucast additional, offset + 1)
          else
           (let width = head_width additional
            in if width > length input - offset - 1 then Inl Truncated
               else
                (let argument = be_value (subspan input (offset + 1) width)
                 in if argument < shortest_for width then Inl Non_Shortest
                    else Inr (kind, argument, offset + 1 + width)))))"

text \<open>
  The switch on the kind of the item: a scalar, a string or an empty container ends at an offset; a
  non-empty container is pushed and scanning continues after its head.
\<close>

datatype scanned_item = Item_End nat | Open_Container scan_stack_entry nat

definition scan_item :: "scan_limits \<Rightarrow> bytes \<Rightarrow> scan_workspace \<Rightarrow> nat \<Rightarrow> major \<Rightarrow> u64 \<Rightarrow> nat
    \<Rightarrow> scan_error + scanned_item" where
  "scan_item bound input ws item_begin item_kind count item_end =
    (case item_kind of
       Unsigned_Integer \<Rightarrow> Inr (Item_End item_end)
     | Negative_Integer \<Rightarrow> if count > int64_max then Inl Unsupported else Inr (Item_End item_end)
     | Byte_Str \<Rightarrow>
         if unat count > sl_max_byte_string_bytes bound \<or> unat count > length input - item_end
         then Inl Byte_String_Limit
         else Inr (Item_End (item_end + unat count))
     | Text_Str \<Rightarrow>
         if unat count > sl_max_text_bytes bound \<or> unat count > length input - item_end
         then Inl Text_Limit_Or_Utf8
         else if \<not> cbor_valid_utf8 (subspan input item_end (unat count)) then Inl Text_Limit_Or_Utf8
         else Inr (Item_End (item_end + unat count))
     | Simple \<Rightarrow>
         if count \<noteq> 20 \<and> count \<noteq> 21 \<and> count \<noteq> 22 then Inl Unsupported else Inr (Item_End item_end)
     | Not_A_Major \<Rightarrow> Inl Unsupported
     | _ \<Rightarrow>
        (let map_item = (item_kind = Map_Fields);
             shape_limit = (if map_item then sl_max_map_items bound else sl_max_array_items bound);
             size = unat count;
             children = (if map_item then size * 2 else size)
         in if size > shape_limit then Inl (if map_item then Map_Shape_Limit else Array_Shape_Limit)
            else if count > size_max then Inl Item_Limit
            else if map_item \<and> count > size_max div 2 then Inl Item_Limit
            else if children > sl_max_items bound - sw_item_count ws then Inl Item_Limit
            else if children \<noteq> 0 then
              (if length (sw_stack ws) \<ge> maximum_scan_depth + 1 then Inl Depth_Limit
               else Inr (Open_Container \<lparr>se_remaining = children, se_item_begin = item_begin,
                 se_previous_key_offset = 0, se_previous_key_size = 0,
                 se_container_kind = item_kind, se_expecting_key = map_item\<rparr> item_end))
            else Inr (Item_End item_end)))"

text \<open>The part of the completion loop that notes a finished child in its parent.\<close>

definition note_child :: "bytes \<Rightarrow> nat \<Rightarrow> major \<Rightarrow> nat \<Rightarrow> scan_stack_entry \<Rightarrow> scan_error + scan_stack_entry" where
  "note_child input completed_begin item_kind item_end parent =
    (if se_container_kind parent = Map_Fields \<and> se_expecting_key parent then
       (if item_kind \<noteq> Text_Str then Inl Map_Key_Not_Text
        else
         (let key_size = item_end - completed_begin;
              previous = subspan input (se_previous_key_offset parent) (se_previous_key_size parent);
              current = subspan input completed_begin key_size
          in if se_previous_key_size parent \<noteq> 0 \<and> length previous \<ge> length current
                \<and> (length previous \<noteq> length current \<or> \<not> lex_less previous current)
             then Inl Map_Order_Or_Duplicate
             else Inr (parent\<lparr>se_previous_key_offset := completed_begin,
                    se_previous_key_size := key_size, se_expecting_key := False\<rparr>)))
     else if se_container_kind parent = Map_Fields then Inr (parent\<lparr>se_expecting_key := True\<rparr>)
     else Inr parent)"

text \<open>
  The completion loop. \<open>Inr (Inl kind)\<close>: the root item, of that kind, is complete;
  \<open>Inr (Inr stack)\<close>: a container still expects children.
\<close>

fun complete_item :: "bytes \<Rightarrow> nat \<Rightarrow> major \<Rightarrow> nat \<Rightarrow> scan_stack_entry list
    \<Rightarrow> scan_error + (major + scan_stack_entry list)" where
  "complete_item input completed_begin item_kind item_end [] = Inr (Inl item_kind)"
| "complete_item input completed_begin item_kind item_end (parent # stack) =
    and_then (note_child input completed_begin item_kind item_end parent) (\<lambda>parent1.
      let parent2 = parent1\<lparr>se_remaining := se_remaining parent1 - 1\<rparr>
      in if se_remaining parent2 \<noteq> 0 then Inr (Inr (parent2 # stack))
         else complete_item input (se_item_begin parent2) (se_container_kind parent2) item_end stack)"

definition scan_stop :: "scan_error \<Rightarrow> scan_workspace \<Rightarrow> scan_result" where
  "scan_stop e ws = \<lparr>sr_error = e, sr_item_count = sw_item_count ws, sr_maximum_depth = sw_maximum_depth ws\<rparr>"

text \<open>The three checks after the main loop.\<close>

definition scan_finish :: "scan_limits \<Rightarrow> bytes \<Rightarrow> major \<Rightarrow> nat \<Rightarrow> scan_workspace \<Rightarrow> scan_result" where
  "scan_finish bound input root_kind cursor ws =
    (if sl_require_root_map bound \<and> root_kind \<noteq> Map_Fields then scan_stop Map_Shape_Limit ws
     else if cursor \<noteq> length input then scan_stop Trailing_Bytes ws
     else scan_stop Scan_None ws)"

function scan_loop :: "scan_limits \<Rightarrow> bytes \<Rightarrow> scan_workspace \<Rightarrow> nat \<Rightarrow> scan_result" where
  "scan_loop bound input ws cursor =
    (let depth = length (sw_stack ws)
     in if depth > sl_max_depth bound \<or> depth > maximum_scan_depth then scan_stop Depth_Limit ws
        else if sw_item_count ws \<ge> sl_max_items bound then scan_stop Item_Limit ws
        else
         (let ws1 = ws\<lparr>sw_item_count := sw_item_count ws + 1,
                sw_maximum_depth := max (sw_maximum_depth ws) depth\<rparr>
          in case scan_head input cursor of
               Inl e \<Rightarrow> scan_stop e ws1
             | Inr (kind, count, next) \<Rightarrow>
                (case scan_item bound input ws1 cursor kind count next of
                   Inl e \<Rightarrow> scan_stop e ws1
                 | Inr (Open_Container entry item_end) \<Rightarrow>
                     scan_loop bound input (ws1\<lparr>sw_stack := entry # sw_stack ws1\<rparr>) item_end
                 | Inr (Item_End item_end) \<Rightarrow>
                    (case complete_item input cursor kind item_end (sw_stack ws1) of
                       Inl e \<Rightarrow> scan_stop e ws1
                     | Inr (Inl root_kind) \<Rightarrow> scan_finish bound input root_kind item_end ws1
                     | Inr (Inr stack) \<Rightarrow> scan_loop bound input (ws1\<lparr>sw_stack := stack\<rparr>) item_end))))"
  by pat_completeness auto
termination
  by (relation "measure (\<lambda>(bound, input, ws, cursor). sl_max_items bound - sw_item_count ws)") auto

declare scan_loop.simps [simp del]

definition scan_canonical_impl :: "bytes \<Rightarrow> scan_limits \<Rightarrow> scan_result" where
  "scan_canonical_impl input bound =
    scan_loop bound input \<lparr>sw_stack = [], sw_item_count = 0, sw_maximum_depth = 0\<rparr> 0"

definition scan_canonical :: "bytes \<Rightarrow> scan_limits \<Rightarrow> scan_result" where
  "scan_canonical input bound =
    (if input = [] \<or> length input > sl_max_bytes bound \<or> sl_max_items bound = 0
     then \<lparr>sr_error = Empty_Or_Limit, sr_item_count = 0, sr_maximum_depth = 0\<rparr>
     else scan_canonical_impl input bound)"

section \<open>Heads\<close>

lemma scan_head_truncated: "length input \<le> cur \<Longrightarrow> scan_head input cur = Inl Truncated"
  by (simp add: scan_head_def)

lemma scan_head_read_head:
  assumes "cur \<le> length input"
  shows "case read_head (drop cur input) of
      Inl e \<Rightarrow> \<exists>f. scan_head input cur = Inl f \<and> f \<noteq> Scan_None
    | Inr (k, c, r) \<Rightarrow> scan_head input cur = Inr (k, c, length input - length r)
        \<and> r = drop (length input - length r) input \<and> length r < length input - cur"
proof (cases "cur = length input")
  case True
  then show ?thesis by (simp add: scan_head_def read_head_def)
next
  case False
  then have lt: "cur < length input" using assms by simp
  have d: "drop cur input = input ! cur # drop (Suc cur) input"
    using lt by (rule Cons_nth_drop_Suc [symmetric])
  let ?a = "input ! cur AND 0x1f"
  let ?w = "head_width ?a"
  show ?thesis
  proof (cases "\<not> ?a \<ge> 28 \<and> \<not> ?a < 24 \<and> \<not> ?w > length (drop (Suc cur) input)")
    case True
    then have w: "?w \<le> length input - Suc cur" by simp
    show ?thesis
      using True lt w by (auto simp: scan_head_def read_head_def d Let_def subspan_def add.commute)
  next
    case False
    then show ?thesis
      using lt by (auto simp: scan_head_def read_head_def d Let_def)
  qed
qed

section \<open>The scanner against the decoder\<close>

definition kind_of :: "cbor_value \<Rightarrow> major" where
  "kind_of v = (case v of Cbor_Unsigned u \<Rightarrow> Unsigned_Integer | Cbor_Signed i \<Rightarrow> Negative_Integer
    | Cbor_Bytes bs \<Rightarrow> Byte_Str | Cbor_Text t \<Rightarrow> Text_Str | Cbor_Array vs \<Rightarrow> Array_Items
    | Cbor_Map fs \<Rightarrow> Map_Fields | _ \<Rightarrow> Simple)"

text \<open>The scanner's extra limits on the shape of containers.\<close>

fun scan_shape :: "scan_limits \<Rightarrow> cbor_value \<Rightarrow> bool" where
  "scan_shape s (Cbor_Array vs) = (length vs \<le> sl_max_array_items s \<and> list_all (scan_shape s) vs)"
| "scan_shape s (Cbor_Map fs) = (length fs \<le> sl_max_map_items s \<and> list_all (\<lambda>f. scan_shape s (snd f)) fs)"
| "scan_shape s v = True"

text \<open>The decoder limits a scan enforces.\<close>

definition decoder_limits :: "scan_limits \<Rightarrow> cbor_limits" where
  "decoder_limits s = \<lparr>max_bytes = sl_max_bytes s, max_depth = min (sl_max_depth s) maximum_scan_depth,
    max_items = sl_max_items s, max_text_bytes = sl_max_text_bytes s,
    max_byte_string_bytes = sl_max_byte_string_bytes s\<rparr>"

definition rejects :: "scan_result \<Rightarrow> bool" where
  "rejects res = (sr_error res \<noteq> Scan_None)"

lemma rejects_scan_stop [simp]: "rejects (scan_stop e ws) \<longleftrightarrow> e \<noteq> Scan_None"
  by (simp add: rejects_def scan_stop_def)

text \<open>What the main loop does once the item that began at \<open>start\<close> is complete.\<close>

definition scan_resume :: "scan_limits \<Rightarrow> bytes \<Rightarrow> nat \<Rightarrow> major \<Rightarrow> nat \<Rightarrow> scan_workspace \<Rightarrow> scan_result" where
  "scan_resume s input start kind stop ws =
    (case complete_item input start kind stop (sw_stack ws) of
       Inl e \<Rightarrow> scan_stop e ws
     | Inr (Inl root_kind) \<Rightarrow> scan_finish s input root_kind stop ws
     | Inr (Inr stack) \<Rightarrow> scan_loop s input (ws\<lparr>sw_stack := stack\<rparr>) stop)"

abbreviation at_stack :: "scan_stack_entry list \<Rightarrow> nat \<Rightarrow> nat \<Rightarrow> scan_workspace" where
  "at_stack st n md \<equiv> \<lparr>sw_stack = st, sw_item_count = n, sw_maximum_depth = md\<rparr>"

text \<open>
  One item scanned from \<open>cur\<close> under the open containers \<open>st\<close>, against the decoder's visit of the
  same bytes.
\<close>

definition item_agrees :: "scan_limits \<Rightarrow> bytes \<Rightarrow> scan_stack_entry list \<Rightarrow> bool" where
  "item_agrees s input st = (\<forall>n md cur. cur \<le> length input \<longrightarrow>
    (case decode_visit (decoder_limits s) (length st) (drop cur input) n of
       Inl e \<Rightarrow> rejects (scan_loop s input (at_stack st n md) cur)
     | Inr (v, r, n') \<Rightarrow>
         (if scan_shape s v
          then \<exists>md'. scan_loop s input (at_stack st n md) cur
            = scan_resume s input cur (kind_of v) (length input - length r) (at_stack st n' md')
          else rejects (scan_loop s input (at_stack st n md) cur))))"

lemma item_agreesD:
  assumes "item_agrees s input st" "cur \<le> length input"
  shows "decode_visit (decoder_limits s) (length st) (drop cur input) n = Inl e \<Longrightarrow>
      rejects (scan_loop s input (at_stack st n md) cur)"
    and "decode_visit (decoder_limits s) (length st) (drop cur input) n = Inr (v, r, n') \<Longrightarrow> scan_shape s v \<Longrightarrow>
      \<exists>md'. scan_loop s input (at_stack st n md) cur
        = scan_resume s input cur (kind_of v) (length input - length r) (at_stack st n' md')"
    and "decode_visit (decoder_limits s) (length st) (drop cur input) n = Inr (v, r, n') \<Longrightarrow> \<not> scan_shape s v \<Longrightarrow>
      rejects (scan_loop s input (at_stack st n md) cur)"
  using assms unfolding item_agrees_def by (fastforce split: sum.splits)+

lemma visit_suffix:
  assumes "decode_visit b d (drop cur input) n = Inr (v, r, n')" "cur \<le> length input"
  shows "r = drop (length input - length r) input" "length r < length input - cur"
    "drop cur input = cbor_bytes v @ r"
proof -
  show e: "drop cur input = cbor_bytes v @ r"
    by (rule decodes_exactlyD(1) [OF decode_visit_exact assms(1)])
  then have len: "length input - cur = length (cbor_bytes v) + length r"
    by (metis length_append length_drop)
  then have "r = drop (length (cbor_bytes v)) (drop cur input)"
    using e by simp
  moreover have "length (cbor_bytes v) + cur = length input - length r"
    using len assms(2) by linarith
  ultimately show "r = drop (length input - length r) input"
    by (metis drop_drop)
  show "length r < length input - cur"
    using len cbor_bytes_nonempty [of v] by simp
qed

lemma scan_resume_array:
  assumes "se_container_kind e = Array_Items"
  shows "scan_resume s input start kind stop (at_stack (e\<lparr>se_remaining := Suc k\<rparr> # st) n md) =
    (if k = 0 then scan_resume s input (se_item_begin e) Array_Items stop (at_stack st n md)
     else scan_loop s input (at_stack (e\<lparr>se_remaining := k\<rparr> # st) n md) stop)"
  using assms by (auto simp: scan_resume_def note_child_def scan_stop_def scan_finish_def split: sum.splits)

lemma scan_children:
  assumes agree: "\<And>e. item_agrees s input (e # st)" and e: "se_container_kind e = Array_Items"
  defines "visit \<equiv> decode_visit (decoder_limits s) (Suc (length st))"
  shows "cur \<le> length input \<Longrightarrow>
    (case repeat_result (Suc k) (decode_child visit) (acc, drop cur input, n) of
       Inl err \<Rightarrow> rejects (scan_loop s input (at_stack (e\<lparr>se_remaining := Suc k\<rparr> # st) n md) cur)
     | Inr (items, r, n') \<Rightarrow>
         (if list_all (scan_shape s) (drop (length acc) items)
          then \<exists>md'. scan_loop s input (at_stack (e\<lparr>se_remaining := Suc k\<rparr> # st) n md) cur
            = scan_resume s input (se_item_begin e) Array_Items (length input - length r) (at_stack st n' md')
          else rejects (scan_loop s input (at_stack (e\<lparr>se_remaining := Suc k\<rparr> # st) n md) cur)))"
proof (induction k arbitrary: acc cur n md)
  case 0
  let ?e = "e\<lparr>se_remaining := Suc 0\<rparr>"
  note ag = item_agreesD [OF agree [of ?e] "0", where n = n and md = md]
  show ?case
  proof (cases "visit (drop cur input) n")
    case (Inl err)
    then show ?thesis using ag(1) by (simp add: visit_def)
  next
    case (Inr t)
    obtain v r n' where t: "t = (v, r, n')" by (cases t)
    then show ?thesis
      using Inr ag(2,3) [of v r n'] scan_resume_array [OF e, of s input cur _ _ 0]
      by (auto simp: visit_def)
  qed
next
  case (Suc k)
  let ?st = "e\<lparr>se_remaining := Suc (Suc k)\<rparr> # st"
  note ag = item_agreesD [OF agree [of "e\<lparr>se_remaining := Suc (Suc k)\<rparr>"] Suc.prems, where n = n and md = md]
  show ?case
  proof (cases "visit (drop cur input) n")
    case (Inl err)
    then show ?thesis using ag(1) by (simp add: visit_def)
  next
    case (Inr t)
    obtain v r n1 where t: "t = (v, r, n1)" by (cases t)
    let ?cur1 = "length input - length r"
    have vis: "decode_visit (decoder_limits s) (Suc (length st)) (drop cur input) n = Inr (v, r, n1)"
      using Inr t by (simp add: visit_def)
    note suf = visit_suffix [OF vis Suc.prems]
    let ?rest = "repeat_result (Suc k) (decode_child visit) (acc @ [v], drop ?cur1 input, n1)"
    have loop: "repeat_result (Suc (Suc k)) (decode_child visit) (acc, drop cur input, n) = ?rest"
      using Inr t suf(1) by simp
    have prefix: "drop (length acc) items = v # drop (length (acc @ [v])) items"
      if "?rest = Inr (items, r', n')" for items r' n'
      using decode_children_exact [OF decode_visit_exact that [unfolded visit_def]] by auto
    show ?thesis
    proof (cases "scan_shape s v")
      case True
      then obtain md1 where md1: "scan_loop s input (at_stack ?st n md) cur
          = scan_loop s input (at_stack (e\<lparr>se_remaining := Suc k\<rparr> # st) n1 md1) ?cur1"
        using ag(2) [of v r n1] vis
          scan_resume_array [OF e, of s input cur _ _ "Suc k"] by auto
      show ?thesis
        using Suc.IH [where acc = "acc @ [v]" and cur = ?cur1 and n = n1 and md = md1] prefix True unfolding md1 loop
        by (auto split: sum.splits prod.splits)
    next
      case False
      then have "rejects (scan_loop s input (at_stack ?st n md) cur)"
        using ag(3) [of v r n1] vis by simp
      then show ?thesis
        using prefix False unfolding loop by (auto split: sum.splits prod.splits)
    qed
  qed
qed

abbreviation map_entry :: "nat \<Rightarrow> nat \<Rightarrow> nat \<Rightarrow> nat \<Rightarrow> bool \<Rightarrow> scan_stack_entry" where
  "map_entry rem start off len expecting \<equiv> \<lparr>se_remaining = rem, se_item_begin = start,
    se_previous_key_offset = off, se_previous_key_size = len, se_container_kind = Map_Fields,
    se_expecting_key = expecting\<rparr>"

lemma scan_resume_key:
  assumes prev: "subspan input off len = prev" "len = length prev"
    and current: "subspan input cur (stop - cur) = key"
  shows "scan_resume s input cur kind stop (at_stack (map_entry (Suc (Suc m)) start off len True # st) n md) =
    (if kind \<noteq> Text_Str then scan_stop Map_Key_Not_Text (at_stack (map_entry (Suc (Suc m)) start off len True # st) n md)
     else if key_out_of_order prev key
     then scan_stop Map_Order_Or_Duplicate (at_stack (map_entry (Suc (Suc m)) start off len True # st) n md)
     else scan_loop s input (at_stack (map_entry (Suc m) start cur (stop - cur) False # st) n md) stop)"
  using prev current by (auto simp: scan_resume_def note_child_def key_out_of_order_def Let_def)

lemma scan_resume_value:
  "scan_resume s input cur kind stop (at_stack (map_entry (Suc m) start off len False # st) n md) =
    (if m = 0 then scan_resume s input start Map_Fields stop (at_stack st n md)
     else scan_loop s input (at_stack (map_entry m start off len True # st) n md) stop)"
  by (auto simp: scan_resume_def note_child_def scan_stop_def scan_finish_def split: sum.splits)

lemma kind_of_text: "kind_of v = Text_Str \<longleftrightarrow> (\<exists>t. v = Cbor_Text t)"
  by (cases v) (simp_all add: kind_of_def)

text \<open>The two halves of a round of the map loop: the key, then its value.\<close>

lemma decode_field_key:
  assumes vis: "visit rest n = Inr (v, r1, n1)"
  shows "(\<And>t. v \<noteq> Cbor_Text t) \<Longrightarrow>
      decode_field visit (item, pk, rest, n) = Inl (cbor_failure ''map-key'' ''text-required'')"
    and "v = Cbor_Text t \<Longrightarrow> take (length rest - length r1) rest = key \<Longrightarrow> key_out_of_order pk key \<Longrightarrow>
      decode_field visit (item, pk, rest, n) = Inl (cbor_failure ''map'' ''order-or-duplicate'')"
    and "v = Cbor_Text t \<Longrightarrow> take (length rest - length r1) rest = key \<Longrightarrow> \<not> key_out_of_order pk key \<Longrightarrow>
      cbor_find item t = None \<Longrightarrow>
      decode_field visit (item, pk, rest, n) =
        and_then (visit r1 n1) (\<lambda>(child, r2, n2). Inr (item @ [(t, child)], key, r2, n2))"
  using vis by (auto simp: decode_field.simps split: cbor_value.splits)

lemma new_key_unknown:
  assumes "sorted_wrt key_before (map fst acc)" "\<not> key_out_of_order (last_key acc) (encoded_text t)"
  shows "cbor_find acc t = None" "sorted_wrt key_before (map fst acc @ [t])"
proof -
  show s: "sorted_wrt key_before (map fst acc @ [t])"
    using assms by (intro sorted_wrt_snoc_last)
      (auto simp: last_key_def key_out_of_order_iff last_map split: if_splits)
  show "cbor_find acc t = None"
    using sorted_keys_distinct [OF s] by (auto simp: cbor_find_None_iff)
qed

lemma scan_field_round:
  fixes m n md start off len cur :: nat
  assumes agree: "\<And>e. item_agrees s input (e # st)"
  defines "visit \<equiv> decode_visit (decoder_limits s) (Suc (length st))"
  assumes cur: "cur \<le> length input" and sorted: "sorted_wrt key_before (map fst acc)"
    and prev: "subspan input off len = last_key acc" "len = length (last_key acc)"
  defines "scan \<equiv> scan_loop s input (at_stack (map_entry (Suc (Suc m)) start off len True # st) n md) cur"
  shows "case decode_field visit (acc, last_key acc, drop cur input, n) of
      Inl err \<Rightarrow> rejects scan
    | Inr (items, pk, r, n') \<Rightarrow> \<exists>t child. items = acc @ [(t, child)] \<and> pk = last_key items
        \<and> sorted_wrt key_before (map fst items) \<and> r = drop (length input - length r) input
        \<and> (if scan_shape s child
           then \<exists>md' off' len'. subspan input off' len' = last_key items \<and> len' = length (last_key items)
             \<and> scan = (if m = 0 then scan_resume s input start Map_Fields (length input - length r) (at_stack st n' md')
                  else scan_loop s input (at_stack (map_entry m start off' len' True # st) n' md') (length input - length r))
           else rejects scan)"
proof -
  note ag = item_agreesD [OF agree [of "map_entry (Suc (Suc m)) start off len True"] cur, where n = n and md = md,
      folded scan_def]
  let ?df = "decode_field visit (acc, last_key acc, drop cur input, n)"
  have reject: ?thesis if "?df = Inl err" "rejects scan" for err
    using that by simp
  show ?thesis
  proof (cases "visit (drop cur input) n")
    case (Inl err)
    then show ?thesis
      using ag(1) by (intro reject) (simp_all add: visit_def decode_field.simps)
  next
    case (Inr x)
    obtain v r1 n1 where x: "x = (v, r1, n1)" by (cases x)
    have vis: "visit (drop cur input) n = Inr (v, r1, n1)" using Inr x by simp
    let ?cur1 = "length input - length r1"
    note suf = visit_suffix [OF vis [unfolded visit_def] cur]
    show ?thesis
    proof (cases "\<exists>t. v = Cbor_Text t")
      case False
      then have "rejects scan"
        using ag(2,3) [of v r1 n1] vis scan_resume_key [OF prev refl, of s cur "kind_of v" ?cur1 m start st n1]
        by (cases "scan_shape s v") (auto simp: visit_def kind_of_text)
      then show ?thesis
        using decode_field_key(1) [of visit "drop cur input" n v r1 n1, OF vis] False by (intro reject) auto
    next
      case True
      then obtain t where t: "v = Cbor_Text t" ..
      have r1: "drop cur input = encoded_text t @ r1"
        using suf(3) by (simp add: t)
      have key: "take (length (drop cur input) - length r1) (drop cur input) = encoded_text t"
        unfolding r1 by simp
      have len1: "?cur1 - cur = length (encoded_text t)"
        using arg_cong [OF r1, of length] cur by simp
      have sub: "subspan input cur (?cur1 - cur) = encoded_text t"
        unfolding subspan_drop r1 len1 by simp
      obtain md1 where md1: "scan = scan_resume s input cur Text_Str ?cur1
          (at_stack (map_entry (Suc (Suc m)) start off len True # st) n1 md1)"
        using ag(2) [of v r1 n1] vis by (auto simp: visit_def t kind_of_def)
      note md1' = md1 [unfolded scan_resume_key [OF prev sub], simplified]
      show ?thesis
      proof (cases "key_out_of_order (last_key acc) (encoded_text t)")
        case True
        then show ?thesis
          using decode_field_key(2) [of visit "drop cur input" n v r1 n1, OF vis t key] md1' by (intro reject) auto
      next
        case False
        note new = new_key_unknown [OF sorted False]
        let ?e1 = "map_entry (Suc m) start cur (?cur1 - cur) False"
        have scan1: "scan = scan_loop s input (at_stack (?e1 # st) n1 md1) ?cur1"
          using md1' False by simp
        have df: "?df = and_then (visit r1 n1) (\<lambda>(child, r2, n2).
            Inr (acc @ [(t, child)], encoded_text t, r2, n2))"
          by (rule decode_field_key(3) [of visit "drop cur input" n v r1 n1, OF vis t key False new(1)])
        have cur1: "?cur1 \<le> length input" by simp
        note ag1 = item_agreesD [OF agree [of ?e1] cur1, where n = n1 and md = md1, folded scan1, folded suf(1)]
        show ?thesis
        proof (cases "visit r1 n1")
          case (Inl err)
          then show ?thesis
            using ag1(1) df by (intro reject) (simp_all add: visit_def)
        next
          case (Inr y)
          obtain child r2 n2 where y: "y = (child, r2, n2)" by (cases y)
          have vis2: "visit r1 n1 = Inr (child, r2, n2)" using Inr y by simp
          let ?cur2 = "length input - length r2"
          have "decode_visit (decoder_limits s) (Suc (length st)) (drop ?cur1 input) n1 = Inr (child, r2, n2)"
            using vis2 suf(1) by (simp add: visit_def)
          note suf2 = visit_suffix [OF this cur1]
          have last: "encoded_text t = last_key (acc @ [(t, child)])"
            by (simp add: last_key_def)
          have body: "if scan_shape s child
              then \<exists>md' off' len'. subspan input off' len' = encoded_text t \<and> len' = length (encoded_text t)
                \<and> scan = (if m = 0 then scan_resume s input start Map_Fields ?cur2 (at_stack st n2 md')
                  else scan_loop s input (at_stack (map_entry m start off' len' True # st) n2 md') ?cur2)
              else rejects scan"
          proof (cases "scan_shape s child")
            case True
            then obtain md2 where "scan = scan_resume s input ?cur1 (kind_of child) ?cur2 (at_stack (?e1 # st) n2 md2)"
              using ag1(2) [of child r2 n2] vis2 by (auto simp: visit_def)
            then show ?thesis
              using sub len1 unfolding scan_resume_value if_P [OF True]
              by - (rule exI [of _ md2], rule exI [of _ cur], rule exI [of _ "?cur1 - cur"], simp)
          next
            case False
            then show ?thesis
              using ag1(3) [of child r2 n2] vis2 by (simp add: visit_def)
          qed
          show ?thesis
            using body new(2) suf2(1) unfolding df vis2 last
            by simp
        qed
      qed
    qed
  qed
qed

lemma scan_fields:
  fixes start md n off len cur :: nat
  assumes agree: "\<And>e. item_agrees s input (e # st)"
  defines "visit \<equiv> decode_visit (decoder_limits s) (Suc (length st))"
  shows "cur \<le> length input \<Longrightarrow> sorted_wrt key_before (map fst acc) \<Longrightarrow>
    subspan input off len = last_key acc \<Longrightarrow> len = length (last_key acc) \<Longrightarrow>
    (case repeat_result (Suc k) (decode_field visit) (acc, last_key acc, drop cur input, n) of
       Inl err \<Rightarrow> rejects (scan_loop s input (at_stack (map_entry (2 * Suc k) start off len True # st) n md) cur)
     | Inr (items, pk, r, n') \<Rightarrow>
         (if list_all (\<lambda>f. scan_shape s (snd f)) (drop (length acc) items)
          then \<exists>md'. scan_loop s input (at_stack (map_entry (2 * Suc k) start off len True # st) n md) cur
            = scan_resume s input start Map_Fields (length input - length r) (at_stack st n' md')
          else rejects (scan_loop s input (at_stack (map_entry (2 * Suc k) start off len True # st) n md) cur)))"
proof (induction k arbitrary: acc cur n md off len)
  case (0 acc cur n md off len)
  show ?case
    using scan_field_round [OF agree "0.prems", where n = n and md = md and m = 0 and start = start, folded visit_def]
    by (cases "decode_field visit (acc, last_key acc, drop cur input, n)")
      (auto simp: numeral_2_eq_2 simp del: decode_field.simps split: if_splits)
next
  case (Suc k acc cur n md off len)
  let ?scan = "scan_loop s input (at_stack (map_entry (2 * Suc (Suc k)) start off len True # st) n md) cur"
  note round = scan_field_round [OF agree Suc.prems, where n = n and md = md and m = "2 * Suc k" and start = start,
      folded visit_def]
  show ?case
  proof (cases "decode_field visit (acc, last_key acc, drop cur input, n)")
    case (Inl err)
    then show ?thesis using round by (simp del: decode_field.simps)
  next
    case (Inr x)
    obtain acc1 pk r1 n1 where x: "x = (acc1, pk, r1, n1)" by (cases x)
    let ?cur1 = "length input - length r1"
    let ?rest = "repeat_result (Suc k) (decode_field visit) (acc1, last_key acc1, drop ?cur1 input, n1)"
    have eq: "Suc (Suc (2 * Suc k)) = 2 * Suc (Suc k)" and ne: "(2 * Suc k = 0) = False" by simp_all
    have "\<exists>t child. acc1 = acc @ [(t, child)] \<and> pk = last_key acc1 \<and> sorted_wrt key_before (map fst acc1)
      \<and> r1 = drop ?cur1 input
      \<and> (if scan_shape s child
        then \<exists>md' off' len'. subspan input off' len' = last_key acc1 \<and> len' = length (last_key acc1)
          \<and> ?scan = scan_loop s input (at_stack (map_entry (2 * Suc k) start off' len' True # st) n1 md') ?cur1
        else rejects ?scan)"
      using round unfolding Inr x eq by (simp only: sum.case prod.case ne if_False)
    then obtain t child where acc1: "acc1 = acc @ [(t, child)]" "pk = last_key acc1" "sorted_wrt key_before (map fst acc1)"
      and r1: "r1 = drop ?cur1 input"
      and body: "if scan_shape s child
        then \<exists>md' off' len'. subspan input off' len' = last_key acc1 \<and> len' = length (last_key acc1)
          \<and> ?scan = scan_loop s input (at_stack (map_entry (2 * Suc k) start off' len' True # st) n1 md') ?cur1
        else rejects ?scan"
      by (elim exE conjE) (rule that)
    have loop: "repeat_result (Suc (Suc k)) (decode_field visit) (acc, last_key acc, drop cur input, n) = ?rest"
      using Inr r1 acc1(2) by (simp add: x del: decode_field.simps)
    have prefix: "drop (length acc) items = (t, child) # drop (length acc1) items"
      if "?rest = Inr (items, pk', r', n')" for items pk' r' n'
      using decode_fields_exact [OF decode_visit_exact that [unfolded visit_def] acc1(3)] by (auto simp: acc1(1))
    show ?thesis
    proof (cases "scan_shape s child")
      case True
      then obtain md1 off1 len1 where m1: "subspan input off1 len1 = last_key acc1" "len1 = length (last_key acc1)"
        "?scan = scan_loop s input (at_stack (map_entry (2 * Suc k) start off1 len1 True # st) n1 md1) ?cur1"
        using body by auto
      have "?cur1 \<le> length input" by simp
      from Suc.IH [OF this acc1(3) m1(1,2), of n1 md1] show ?thesis
        using prefix True unfolding loop m1(3) by (auto split: sum.splits prod.splits)
    next
      case False
      then have "rejects ?scan" using body by simp
      then show ?thesis
        using prefix False unfolding loop by (auto split: sum.splits prod.splits)
    qed
  qed
qed

section \<open>One item\<close>

lemma decoder_limits_fields [simp]:
  "max_bytes (decoder_limits s) = sl_max_bytes s"
  "max_depth (decoder_limits s) = min (sl_max_depth s) maximum_scan_depth"
  "max_items (decoder_limits s) = sl_max_items s"
  "max_text_bytes (decoder_limits s) = sl_max_text_bytes s"
  "max_byte_string_bytes (decoder_limits s) = sl_max_byte_string_bytes s"
  by (simp_all add: decoder_limits_def)

lemma scan_loop_step:
  assumes "length st \<le> max_depth (decoder_limits s)" "n < sl_max_items s"
    "scan_head input cur = Inr (k, c, nxt)"
  shows "scan_loop s input (at_stack st n md) cur =
    (let ws = at_stack st (n + 1) (max md (length st))
     in case scan_item s input ws cur k c nxt of
          Inl e \<Rightarrow> scan_stop e ws
        | Inr (Open_Container entry stop) \<Rightarrow> scan_loop s input (ws\<lparr>sw_stack := entry # st\<rparr>) stop
        | Inr (Item_End stop) \<Rightarrow> scan_resume s input cur k stop ws)"
  using assms
  by (simp add: scan_loop.simps [of s input "at_stack st n md" cur] not_less not_le Let_def
      scan_resume_def split: sum.split scanned_item.split)

lemma cbor_items_pos: "1 \<le> cbor_items v"
  by (cases v) simp_all

lemma sum_items_ge: "length vs \<le> sum_list (map cbor_items vs)"
proof (induction vs)
  case (Cons v vs)
  then show ?case using cbor_items_pos [of v] by simp
qed simp

lemma sum_field_items_ge: "2 * length fs \<le> sum_list (map (\<lambda>f. 1 + cbor_items (snd f)) fs)"
proof (induction fs)
  case (Cons f fs)
  then show ?case using cbor_items_pos [of "snd f"] by simp
qed simp

lemma not_size_max_less: "\<not> size_max < c"
proof -
  have "unat c < 2 ^ 64" by (rule order_less_le_trans [OF unsigned_less]) simp
  then show ?thesis by (simp add: size_max_def word_less_nat_alt)
qed

text \<open>Arrays and maps, given the agreement one level deeper.\<close>

lemma scan_array_agrees:
  assumes agree: "\<And>e. item_agrees s input (e # st)"
    and d: "length st \<le> max_depth (decoder_limits s)" and n: "n < sl_max_items s"
    and h: "scan_head input cur = Inr (Array_Items, c, nxt)" and nxt: "nxt \<le> length input"
    and dec: "read_head (drop cur input) = Inr (Array_Items, c, drop nxt input)"
  shows "case decode_visit (decoder_limits s) (length st) (drop cur input) n of
      Inl e \<Rightarrow> rejects (scan_loop s input (at_stack st n md) cur)
    | Inr (v, r, n') \<Rightarrow>
        (if scan_shape s v
         then \<exists>md'. scan_loop s input (at_stack st n md) cur
           = scan_resume s input cur (kind_of v) (length input - length r) (at_stack st n' md')
         else rejects (scan_loop s input (at_stack st n md) cur))"
proof -
  let ?visit = "decode_visit (decoder_limits s) (Suc (length st))"
  let ?loop = "repeat_result (unat c) (decode_child ?visit) ([], drop nxt input, Suc n)"
  have visit: "decode_visit (decoder_limits s) (length st) (drop cur input) n =
    (if unat c > sl_max_items s then Inl (cbor_failure ''array'' ''limit-exceeded'')
     else and_then ?loop (\<lambda>(item, cur). Inr (Cbor_Array item, cur)))"
    using d n dec by (simp add: decode_visit.simps [of "decoder_limits s" "length st"] min_less_iff_disj not_less not_le)
  have fit: "length items = unat c \<and> unat c \<le> sl_max_items s - Suc n" if "?loop = Inr (items, r, n')" for items r n'
    using decode_children_exact [OF decode_visit_exact that] n sum_items_ge [of items] by auto
  note step = scan_loop_step [OF d n h, of md]
  have depth: "length st < maximum_scan_depth + 1"
    using d by simp
  show ?thesis
  proof (cases "unat c > sl_max_array_items s \<or> unat c > sl_max_items s - Suc n")
    case True
    then have "rejects (scan_loop s input (at_stack st n md) cur)"
      using not_size_max_less [of c] depth
      by (auto simp: step scan_item_def Let_def)
    then show ?thesis
      using fit True unfolding visit by (cases ?loop) auto
  next
    case False
    show ?thesis
    proof (cases "unat c")
      case 0
      then show ?thesis
        unfolding visit using nxt
        by (auto simp: step scan_item_def Let_def kind_of_def size_max_def word_less_nat_alt)
    next
      case (Suc k)
      let ?e = "\<lparr>se_remaining = Suc k, se_item_begin = cur, se_previous_key_offset = 0,
        se_previous_key_size = 0, se_container_kind = Array_Items, se_expecting_key = False\<rparr>"
      have opened: "scan_loop s input (at_stack st n md) cur
          = scan_loop s input (at_stack (?e # st) (Suc n) (max md (length st))) nxt"
        using False Suc not_size_max_less [of c] depth by (simp add: step scan_item_def Let_def not_less)
      have "se_container_kind ?e = Array_Items" by simp
      from scan_children [OF agree this nxt, where k = k and acc = "[]" and n = "Suc n" and md = "max md (length st)"] show ?thesis
        using False fit unfolding visit opened Suc
        by (cases "repeat_result (Suc k) (decode_child ?visit) ([], drop nxt input, Suc n)")
          (auto simp: kind_of_def Suc simp del: repeat_result.simps split: if_splits)
    qed
  qed
qed

lemma scan_map_agrees:
  assumes agree: "\<And>e. item_agrees s input (e # st)"
    and d: "length st \<le> max_depth (decoder_limits s)" and n: "n < sl_max_items s"
    and h: "scan_head input cur = Inr (Map_Fields, c, nxt)" and nxt: "nxt \<le> length input"
    and dec: "read_head (drop cur input) = Inr (Map_Fields, c, drop nxt input)"
    and size: "sl_max_items s < 2 ^ 64"
  shows "case decode_visit (decoder_limits s) (length st) (drop cur input) n of
      Inl e \<Rightarrow> rejects (scan_loop s input (at_stack st n md) cur)
    | Inr (v, r, n') \<Rightarrow>
        (if scan_shape s v
         then \<exists>md'. scan_loop s input (at_stack st n md) cur
           = scan_resume s input cur (kind_of v) (length input - length r) (at_stack st n' md')
         else rejects (scan_loop s input (at_stack st n md) cur))"
proof -
  let ?visit = "decode_visit (decoder_limits s) (Suc (length st))"
  let ?loop = "repeat_result (unat c) (decode_field ?visit) ([], last_key [], drop nxt input, Suc n)"
  have visit: "decode_visit (decoder_limits s) (length st) (drop cur input) n =
    (if unat c > sl_max_items s then Inl (cbor_failure ''map'' ''limit-exceeded'')
     else and_then ?loop (\<lambda>(item, pk, cur). Inr (Cbor_Map item, cur)))"
    using d n dec by (simp add: decode_visit.simps [of "decoder_limits s" "length st"] min_less_iff_disj last_key_def
        not_less not_le)
  have empty: "sorted_wrt key_before (map fst ([] :: (string \<times> cbor_value) list))" by simp
  have fit: "length items = unat c \<and> unat c * 2 \<le> sl_max_items s - Suc n" if "?loop = Inr (items, pk, r, n')" for items pk r n'
    using decode_fields_exact [OF decode_visit_exact that empty] n sum_field_items_ge [of items] by auto
  note step = scan_loop_step [OF d n h, of md]
  have depth: "length st < maximum_scan_depth + 1"
    using d by simp
  show ?thesis
  proof (cases "unat c > sl_max_map_items s \<or> unat c * 2 > sl_max_items s - Suc n")
    case True
    then have "rejects (scan_loop s input (at_stack st n md) cur)"
      using not_size_max_less [of c] depth by (auto simp: step scan_item_def Let_def)
    then show ?thesis
      using fit True unfolding visit by (cases ?loop) auto
  next
    case False
    then have "unat c * 2 \<le> sl_max_items s - Suc n" by simp
    then have "unat c * 2 < 2 ^ 64" using size by linarith
    then have half: "\<not> c > size_max div 2"
      by (simp add: size_max_def word_less_nat_alt unat_div)
    show ?thesis
    proof (cases "unat c")
      case 0
      then show ?thesis
        unfolding visit using nxt
        by (auto simp: step scan_item_def Let_def kind_of_def size_max_def word_less_nat_alt)
    next
      case (Suc k)
      have opened: "scan_loop s input (at_stack st n md) cur
          = scan_loop s input (at_stack (map_entry (2 * Suc k) cur 0 0 True # st) (Suc n) (max md (length st))) nxt"
        using False Suc not_size_max_less [of c] depth half
        by (simp add: step scan_item_def Let_def not_less mult.commute)
      have prev: "subspan input 0 0 = last_key []" "0 = length (last_key [])"
        by (simp_all add: subspan_def last_key_def)
      from scan_fields [OF agree nxt empty prev, where k = k and n = "Suc n" and md = "max md (length st)" and start = cur]
      show ?thesis
        using False fit unfolding visit opened Suc
        by (cases "repeat_result (Suc k) (decode_field ?visit) ([], last_key [], drop nxt input, Suc n)")
          (auto simp: kind_of_def Suc simp del: repeat_result.simps split: if_splits)
    qed
  qed
qed

lemma item_agrees:
  assumes size: "sl_max_items s < 2 ^ 64"
  shows "item_agrees s input st"
proof (induction "Suc (max_depth (decoder_limits s)) - length st" arbitrary: st rule: less_induct)
  case less
  let ?b = "decoder_limits s"
  show ?case
    unfolding item_agrees_def
  proof (intro allI impI)
    fix n md cur :: nat
    assume cur: "cur \<le> length input"
    let ?goal = "case decode_visit ?b (length st) (drop cur input) n of
      Inl e \<Rightarrow> rejects (scan_loop s input (at_stack st n md) cur)
    | Inr (v, r, n') \<Rightarrow>
        (if scan_shape s v
         then \<exists>md'. scan_loop s input (at_stack st n md) cur
           = scan_resume s input cur (kind_of v) (length input - length r) (at_stack st n' md')
         else rejects (scan_loop s input (at_stack st n md) cur))"
    show ?goal
    proof (cases "length st \<le> max_depth ?b \<and> n < sl_max_items s")
      case False
      then show ?thesis
        by (auto simp: decode_visit.simps [of ?b "length st"] scan_loop.simps [of s input "at_stack st n md"]
            not_le not_less min_less_iff_disj Let_def)
    next
      case True
      then have d: "length st \<le> max_depth ?b" and n: "n < sl_max_items s" by simp_all
      have agree: "item_agrees s input (e # st)" for e
        by (rule less, rule diff_less_mono2) (use d in \<open>simp_all add: less_Suc_eq_le\<close>)
      show ?thesis
      proof (cases "read_head (drop cur input)")
        case (Inl e)
        then obtain f where "scan_head input cur = Inl f" "f \<noteq> Scan_None"
          using scan_head_read_head [OF cur] by auto
        then show ?thesis
          using d n Inl
          by (auto simp: decode_visit.simps [of ?b "length st"] scan_loop.simps [of s input "at_stack st n md"]
              not_le not_less min_less_iff_disj Let_def)
      next
        case (Inr x)
        obtain k c r where x: "x = (k, c, r)" by (cases x)
        let ?nxt = "length input - length r"
        have h: "scan_head input cur = Inr (k, c, ?nxt)" and r: "r = drop ?nxt input"
          using scan_head_read_head [OF cur] Inr by (simp_all add: x)
        have dec: "read_head (drop cur input) = Inr (k, c, drop ?nxt input)"
          using Inr x r by simp
        have nxt: "?nxt \<le> length input" by simp
        note step = scan_loop_step [OF d n h, of md]
        note vis = decode_visit.simps [of ?b "length st" "drop cur input" n, unfolded dec]
        have "length r \<le> length input" by (subst r) simp
        then have lr: "length input - ?nxt = length r" by simp
        show ?thesis
        proof (cases k)
          case Array_Items
          then show ?thesis using scan_array_agrees [OF agree d n _ nxt] h dec by simp
        next
          case Map_Fields
          then show ?thesis using scan_map_agrees [OF agree d n _ nxt _ size] h dec by simp
        qed (use d n lr in \<open>auto simp: step vis scan_item_def Let_def kind_of_def subspan_drop min_less_iff_disj
            not_le not_less add.commute\<close>)
      qed
    qed
  qed
qed

section \<open>Properties of the scanner\<close>

lemma scan_canonical_accepts:
  assumes "sl_max_items s < 2 ^ 64"
  shows "sr_error (scan_canonical input s) = Scan_None \<longleftrightarrow>
    (\<exists>v. cbor_decode input (decoder_limits s) = Inr v \<and> scan_shape s v
      \<and> (sl_require_root_map s \<longrightarrow> kind_of v = Map_Fields))"
proof (cases "input = [] \<or> length input > sl_max_bytes s \<or> sl_max_items s = 0")
  case True
  then show ?thesis
    by (auto simp: scan_canonical_def cbor_decode_def decode_visit.simps [of _ 0])
next
  case False
  let ?b = "decoder_limits s"
  let ?scan = "scan_loop s input (at_stack [] 0 0) 0"
  have agree: "item_agrees s input []" by (rule item_agrees [OF assms])
  note ag = item_agreesD [OF agree, of 0 0, where md = 0]
  have resume: "scan_resume s input 0 k stop (at_stack [] n' md') = scan_finish s input k stop (at_stack [] n' md')"
    for k stop n' md' by (simp add: scan_resume_def)
  have scan: "scan_canonical input s = ?scan"
    using False by (simp add: scan_canonical_def scan_canonical_impl_def)
  have dec: "cbor_decode input ?b = and_then (decode_visit ?b 0 input 0) (\<lambda>(output, rest, n).
       if rest \<noteq> [] then Inl (cbor_failure ''cbor'' ''trailing-bytes'') else Inr output)"
    using False by (simp add: cbor_decode_def)
  show ?thesis
  proof (cases "decode_visit ?b 0 input 0")
    case (Inl e)
    then have "rejects ?scan" using ag(1) by simp
    then show ?thesis using Inl by (simp add: scan dec rejects_def)
  next
    case (Inr x)
    obtain v r n' where x: "x = (v, r, n')" by (cases x)
    have vis: "decode_visit ?b (length ([] :: scan_stack_entry list)) (drop 0 input) 0 = Inr (v, r, n')"
      using Inr x by simp
    note suf = visit_suffix [of ?b 0 0 input 0 v r n']
    have rest: "length input - length r \<noteq> length input \<longleftrightarrow> r \<noteq> []"
      using suf(2) vis by (cases r) auto
    show ?thesis
    proof (cases "scan_shape s v")
      case True
      then obtain md' where "?scan = scan_finish s input (kind_of v) (length input - length r) (at_stack [] n' md')"
        using ag(2) [OF _ vis] resume by auto
      then show ?thesis
        using True rest Inr x by (auto simp: scan dec scan_finish_def scan_stop_def)
    next
      case False
      then have "rejects ?scan" using ag(3) [OF _ vis] by simp
      then show ?thesis using False Inr x by (auto simp: scan dec rejects_def split: if_splits)
    qed
  qed
qed

definition within_scan_bounds :: "scan_limits \<Rightarrow> nat \<Rightarrow> nat \<Rightarrow> bool" where
  "within_scan_bounds s n md = (md \<le> min (sl_max_depth s) maximum_scan_depth \<and> n \<le> sl_max_items s)"

abbreviation result_in_bounds :: "scan_limits \<Rightarrow> scan_result \<Rightarrow> bool" where
  "result_in_bounds s r \<equiv> within_scan_bounds s (sr_item_count r) (sr_maximum_depth r)"

lemma scan_stop_bounds [simp]:
  "result_in_bounds s (scan_stop e (at_stack st n md)) = within_scan_bounds s n md"
  "result_in_bounds s (scan_finish s input k stop (at_stack st n md)) = within_scan_bounds s n md"
  by (simp_all add: scan_stop_def scan_finish_def)

lemma scan_loop_bounds:
  "within_scan_bounds s n md \<Longrightarrow> result_in_bounds s (scan_loop s input (at_stack st n md) cur)"
proof (induction "sl_max_items s - n" arbitrary: st n md cur rule: less_induct)
  case less
  show ?case
  proof (cases "length st \<le> max_depth (decoder_limits s) \<and> n < sl_max_items s")
    case False
    then show ?thesis
      using less.prems by (auto simp: scan_loop.simps [of s input "at_stack st n md"] not_le not_less min_less_iff_disj Let_def)
  next
    case True
    let ?md = "max md (length st)"
    have b: "within_scan_bounds s (n + 1) ?md"
      using less.prems True by (simp add: within_scan_bounds_def)
    have rec: "result_in_bounds s (scan_loop s input (at_stack st' (n + 1) ?md) stop)" for st' stop
      using True by (intro less.hyps b) linarith
    have resume: "result_in_bounds s (scan_resume s input cur k stop (at_stack st (n + 1) ?md))" for k stop
      using b rec by (auto simp: scan_resume_def split: sum.split)
    show ?thesis
    proof (cases "scan_head input cur")
      case (Inl e)
      then show ?thesis
        using True b by (simp add: scan_loop.simps [of s input "at_stack st n md"] not_le not_less Let_def)
    next
      case (Inr h)
      obtain k c nxt where h: "h = (k, c, nxt)" by (cases h)
      show ?thesis
        using scan_loop_step [of st s n input cur k c nxt md] True Inr h b rec resume
        by (auto simp: Let_def split: sum.split scanned_item.split)
    qed
  qed
qed

text \<open>
  C6: the scanner agrees with the decoder. Under the same limits (and for any item limit a 64-bit
  counter holds), the stack machine accepts an input exactly when the recursive decoder returns a
  value for it whose arrays and maps respect the scanner's own shape limits.
\<close>

theorem scan_accepts_iff_decodes:
  assumes "sl_max_items s < 2 ^ 64"
  shows "sr_error (scan_canonical input s) = Scan_None \<longleftrightarrow>
    (\<exists>v. cbor_decode input (decoder_limits s) = Inr v \<and> scan_shape s v
      \<and> (sl_require_root_map s \<longrightarrow> kind_of v = Map_Fields))"
  by (rule scan_canonical_accepts [OF assms])

definition small_scan_limits :: scan_limits where
  "small_scan_limits = \<lparr>sl_max_bytes = 64, sl_max_depth = 2, sl_max_items = 16, sl_max_array_items = 0,
    sl_max_map_items = 4, sl_max_text_bytes = 16, sl_max_byte_string_bytes = 0, sl_require_root_map = True\<rparr>"

lemma scan_accepts_iff_decodes_witness:
  "\<exists>v. cbor_decode [0xa2, 0x61, 0x61, 0xf5, 0x62, 0x62, 0x62, 0x20] (decoder_limits small_scan_limits) = Inr v"
proof -
  have "sr_error (scan_canonical [0xa2, 0x61, 0x61, 0xf5, 0x62, 0x62, 0x62, 0x20] small_scan_limits) = Scan_None"
    by code_simp
  moreover have "sl_max_items small_scan_limits < 2 ^ 64"
    by (simp add: small_scan_limits_def)
  ultimately show ?thesis
    using scan_accepts_iff_decodes by blast
qed

text \<open>
  On every input, accepted or not, the scanner reports a depth within the configured one and
  within its fixed stack, and an item count within the configured one: it never visits an item with
  more open containers than the 33 entries of its workspace hold.
\<close>

theorem scan_stays_in_workspace:
  "sr_maximum_depth (scan_canonical input s) \<le> min (sl_max_depth s) maximum_scan_depth
    \<and> sr_item_count (scan_canonical input s) \<le> sl_max_items s"
  using scan_loop_bounds [of s 0 0 input "[]" 0]
  by (auto simp: scan_canonical_def scan_canonical_impl_def within_scan_bounds_def)

end
