(* ===== verification/Codec.thy ===== *)
theory Codec
  imports Cbor_Scan
begin

text \<open>
  \<open>src/protocol_v2/codec.cpp\<close> and \<open>codec.hpp\<close>: the protocol-2 frame (a 104-byte big-endian header,
  a canonical-CBOR control, a payload, and a SHA-256 digest of each), the transcript decoder, and
  the guards of a transcript: contiguous sequence numbers and byte/frame credit. The lemmas show
  that frames and transcripts have one encoding each and that the guards admit exactly the
  contiguous, funded transcripts.
\<close>

section \<open>Registry and limits\<close>

text \<open>
  \<open>message_type\<close> has an underlying \<open>std::uint16_t\<close> and carries identifiers outside the registry too
  (optional extensions), so a message type is its identifier here.
\<close>

type_synonym message_type = u16

definition protocol_major_2 :: u16 where "protocol_major_2 = 2"
definition fixed_header_bytes :: nat where "fixed_header_bytes = 104"
definition max_control_bytes :: nat where "max_control_bytes = 65536"
definition max_payload_bytes :: nat where "max_payload_bytes = 16777216"
definition max_closure_payload_bytes :: nat where "max_closure_payload_bytes = 1048576"
definition max_frame_bytes :: nat where
  "max_frame_bytes = fixed_header_bytes + max_control_bytes + max_payload_bytes"

definition task_complete_id :: u16 where "task_complete_id = 20"
definition task_failed_id :: u16 where "task_failed_id = 21"
definition heartbeat_message_id :: u16 where "heartbeat_message_id = 23"
definition closure_first_message_id :: u16 where "closure_first_message_id = 24"
definition closure_last_message_id :: u16 where "closure_last_message_id = 29"

definition is_closure_message :: "message_type \<Rightarrow> bool" where
  "is_closure_message type_id =
    (type_id \<ge> closure_first_message_id \<and> type_id \<le> closure_last_message_id)"

definition is_known_message_id :: "u16 \<Rightarrow> bool" where
  "is_known_message_id type_id = (type_id \<ge> 1 \<and> type_id \<le> closure_last_message_id)"

definition flag_required_extension :: u16 where "flag_required_extension = 1"
definition flag_optional_extension :: u16 where "flag_optional_extension = 2"
definition flag_compressed_payload :: u16 where "flag_compressed_payload = 4"
definition flag_end_of_stream :: u16 where "flag_end_of_stream = 8"
definition known_flags :: u16 where
  "known_flags = flag_required_extension OR flag_optional_extension OR flag_compressed_payload
    OR flag_end_of_stream"

record frame_limits =
  minimum_minor :: u16
  maximum_minor :: u16
  supported_flags :: u16
  fl_max_control_bytes :: nat
  fl_max_payload_bytes :: nat
  fl_max_frame_bytes :: nat

definition default_frame_limits :: frame_limits where
  "default_frame_limits = \<lparr>minimum_minor = 0, maximum_minor = 0, supported_flags = flag_end_of_stream,
    fl_max_control_bytes = max_control_bytes, fl_max_payload_bytes = max_payload_bytes,
    fl_max_frame_bytes = max_frame_bytes\<rparr>"

record frame =
  fr_type :: message_type
  fr_major :: u16
  fr_minor :: u16
  fr_flags :: u16
  fr_stream_id :: u64
  fr_sequence :: u64
  fr_control :: bytes
  fr_payload :: bytes
  fr_control_digest :: bytes
  fr_payload_digest :: bytes

abbreviation frame_failure :: "string \<Rightarrow> string \<Rightarrow> string \<Rightarrow> sdk_error" where
  "frame_failure field detail code \<equiv> Err code field detail"

abbreviation header_invalid :: string where "header_invalid \<equiv> ''protocol-v2.header-invalid''"
abbreviation resource_limit :: string where "resource_limit \<equiv> ''protocol-v2.resource-limit''"
abbreviation downgrade_rejected :: string where "downgrade_rejected \<equiv> ''protocol-v2.downgrade-rejected''"
abbreviation unknown_extension :: string where "unknown_extension \<equiv> ''protocol-v2.unknown-extension''"
abbreviation digest_mismatch :: string where "digest_mismatch \<equiv> ''protocol-v2.digest-mismatch''"

section \<open>Header validation\<close>

definition append_be :: "u64 \<Rightarrow> nat \<Rightarrow> bytes" where
  "append_be value width = be_bytes width value"

definition read_be :: "bytes \<Rightarrow> nat \<Rightarrow> nat \<Rightarrow> u64" where
  "read_be input offset width = be_value (subspan input offset width)"

definition all_zero :: "bytes \<Rightarrow> bool" where
  "all_zero digest = list_all (\<lambda>item. item = 0) digest"

definition validate_limits :: "frame_limits \<Rightarrow> unit result" where
  "validate_limits bound =
    (if minimum_minor bound \<noteq> 0 \<or> maximum_minor bound \<noteq> 0
     then Inl (frame_failure ''protocol_minor'' ''protocol-2.0-only'' downgrade_rejected)
     else if fl_max_control_bytes bound = 0 \<or> fl_max_payload_bytes bound = 0
       \<or> fl_max_frame_bytes bound < fixed_header_bytes
       \<or> fl_max_control_bytes bound > max_control_bytes
       \<or> fl_max_payload_bytes bound > max_payload_bytes
       \<or> fl_max_frame_bytes bound > max_frame_bytes
     then Inl (frame_failure ''limits'' ''outside-protocol-2-bounds'' resource_limit)
     else if supported_flags bound AND NOT flag_end_of_stream \<noteq> 0
     then Inl (frame_failure ''flags'' ''unsupported-negotiation'' unknown_extension)
     else Inr ())"

text \<open>The largest \<open>std::size_t\<close>.\<close>

definition size_t_max :: nat where
  "size_t_max = 2 ^ 64 - 1"

definition validate_header_values :: "u16 \<Rightarrow> u16 \<Rightarrow> u16 \<Rightarrow> u16 \<Rightarrow> nat \<Rightarrow> nat \<Rightarrow> frame_limits \<Rightarrow> unit result" where
  "validate_header_values major minor type_id flags control_size payload_size bound =
    and_then (validate_limits bound) (\<lambda>_.
      if major \<noteq> protocol_major_2
      then Inl (frame_failure ''protocol_major'' ''downgrade-or-unsupported'' downgrade_rejected)
      else if minor \<noteq> 0
      then Inl (frame_failure ''protocol_minor'' ''downgrade-or-unnegotiated'' downgrade_rejected)
      else
       (let known_type = is_known_message_id type_id;
            required_extension = (flags AND flag_required_extension \<noteq> 0);
            optional_extension = (flags AND flag_optional_extension \<noteq> 0);
            compressed_payload = (flags AND flag_compressed_payload \<noteq> 0);
            end_of_stream = (flags AND flag_end_of_stream \<noteq> 0)
        in if type_id = heartbeat_message_id \<and> (flags \<noteq> 0 \<or> payload_size \<noteq> 0)
           then Inl (frame_failure ''payload'' ''heartbeat-flags-or-payload'' header_invalid)
           else if required_extension
           then Inl (frame_failure ''flags'' ''required-extension'' ''protocol-v2.unknown-required-extension'')
           else if flags AND NOT known_flags \<noteq> 0
           then Inl (frame_failure ''flags'' ''reserved-bit'' unknown_extension)
           else if compressed_payload
           then Inl (frame_failure ''flags'' ''compression-unimplemented'' ''protocol-v2.unsupported-compression'')
           else if optional_extension \<and> (known_type \<or> end_of_stream)
           then Inl (frame_failure ''flags''
             (if known_type then ''optional-known-type'' else ''optional-end-of-stream'') header_invalid)
           else if type_id = 0 \<or> (\<not> known_type \<and> \<not> optional_extension)
           then Inl (frame_failure ''message_type'' ''unknown'' ''protocol-v2.unknown-message'')
           else if end_of_stream \<and> supported_flags bound AND flag_end_of_stream = 0
           then Inl (frame_failure ''flags'' ''end-of-stream-not-negotiated'' unknown_extension)
           else if end_of_stream \<and> type_id \<noteq> task_complete_id \<and> type_id \<noteq> task_failed_id
           then Inl (frame_failure ''flags'' ''end-of-stream-message'' header_invalid)
           else if control_size = 0
           then Inl (frame_failure ''control'' ''empty'' ''protocol-v2.cbor-invalid'')
           else if control_size > fl_max_control_bytes bound
           then Inl (frame_failure ''control'' ''limit-exceeded'' resource_limit)
           else if payload_size > fl_max_payload_bytes bound
           then Inl (frame_failure ''payload'' ''limit-exceeded'' resource_limit)
           else if type_id \<ge> closure_first_message_id \<and> type_id \<le> closure_last_message_id
             \<and> payload_size > max_closure_payload_bytes
           then Inl (frame_failure ''payload'' ''closure-limit-exceeded'' resource_limit)
           else if control_size > 2 ^ 32 - 1
           then Inl (frame_failure ''control'' ''wire-length-overflow'' resource_limit)
           else if payload_size > size_t_max - fixed_header_bytes
             \<or> control_size > size_t_max - fixed_header_bytes - payload_size
           then Inl (frame_failure ''length'' ''overflow'' resource_limit)
           else if fixed_header_bytes + control_size + payload_size > fl_max_frame_bytes bound
           then Inl (frame_failure ''frame'' ''limit-exceeded'' resource_limit)
           else Inr ()))"

section \<open>Canonical controls\<close>

definition scan_error_detail :: "scan_error \<Rightarrow> string" where
  "scan_error_detail e = (case e of
     Scan_None \<Rightarrow> ''none''
   | Empty_Or_Limit \<Rightarrow> ''empty-or-limit-exceeded''
   | Truncated \<Rightarrow> ''truncated''
   | Non_Shortest \<Rightarrow> ''non-shortest''
   | Indefinite_Or_Reserved \<Rightarrow> ''indefinite-or-reserved''
   | Depth_Limit \<Rightarrow> ''depth-limit''
   | Item_Limit \<Rightarrow> ''item-limit''
   | Array_Shape_Limit \<Rightarrow> ''array-shape-limit''
   | Map_Shape_Limit \<Rightarrow> ''map-shape-limit''
   | Text_Limit_Or_Utf8 \<Rightarrow> ''text-limit-or-utf8''
   | Byte_String_Limit \<Rightarrow> ''byte-string-limit''
   | Map_Key_Not_Text \<Rightarrow> ''map-key-not-text''
   | Map_Order_Or_Duplicate \<Rightarrow> ''map-order-or-duplicate''
   | Unsupported \<Rightarrow> ''unsupported''
   | Trailing_Bytes \<Rightarrow> ''trailing-bytes'')"

definition closure_scan_limits :: "frame_limits \<Rightarrow> scan_limits" where
  "closure_scan_limits bound = \<lparr>sl_max_bytes = fl_max_control_bytes bound, sl_max_depth = 2,
    sl_max_items = 96, sl_max_array_items = 0, sl_max_map_items = 32, sl_max_text_bytes = 4096,
    sl_max_byte_string_bytes = 0, sl_require_root_map = True\<rparr>"

definition control_cbor_limits :: "frame_limits \<Rightarrow> cbor_limits" where
  "control_cbor_limits bound = default_cbor_limits\<lparr>max_bytes := fl_max_control_bytes bound,
    max_text_bytes := fl_max_control_bytes bound, max_byte_string_bytes := fl_max_control_bytes bound,
    max_items := 65536\<rparr>"

definition validate_canonical_control :: "message_type \<Rightarrow> bytes \<Rightarrow> frame_limits \<Rightarrow> unit result" where
  "validate_canonical_control type_id control bound =
    (if is_closure_message type_id then
      (let scanned = scan_canonical control (closure_scan_limits bound)
       in if sr_error scanned \<noteq> Scan_None
          then Inl (frame_failure ''control'' (scan_error_detail (sr_error scanned)) ''protocol-v2.cbor-invalid'')
          else Inr ())
     else
      (case cbor_decode control (control_cbor_limits bound) of
         Inl e \<Rightarrow> Inl (frame_failure ''control'' (err_detail e) ''protocol-v2.cbor-invalid'')
       | Inr decoded \<Rightarrow>
          (case cbor_encode decoded (control_cbor_limits bound) of
             Inl e \<Rightarrow> Inl (frame_failure ''control'' ''non-canonical'' ''protocol-v2.cbor-invalid'')
           | Inr encoded \<Rightarrow>
               if length encoded \<noteq> length control \<or> encoded \<noteq> control
               then Inl (frame_failure ''control'' ''non-canonical'' ''protocol-v2.cbor-invalid'')
               else Inr ())))"

definition check_digest :: "bytes \<Rightarrow> bytes \<Rightarrow> string \<Rightarrow> unit result" where
  "check_digest actual expected field =
    (let digest = sha256 actual
     in if length expected \<noteq> length digest \<or> digest \<noteq> expected
        then Inl (frame_failure field ''mismatch'' digest_mismatch) else Inr ())"

section \<open>Frame headers and single-use decoding\<close>

record decoded_header =
  dh_major :: u16
  dh_minor :: u16
  dh_type_id :: u16
  dh_flags :: u16
  dh_stream_id :: u64
  dh_sequence :: u64
  dh_control_size :: nat
  dh_payload_size :: nat
  dh_total_size :: nat

definition inspect_header :: "bytes \<Rightarrow> frame_limits \<Rightarrow> decoded_header result" where
  "inspect_header input bound =
    (if length input < fixed_header_bytes
     then Inl (frame_failure ''header'' ''truncated'' header_invalid)
     else if take 4 input \<noteq> bytes_of ''CXXP''
     then Inl (frame_failure ''magic'' ''mismatch'' header_invalid)
     else
      (let control_length = unat (read_be input 28 4);
           payload_length = unat (read_be input 32 8)
       in if control_length > size_t_max - fixed_header_bytes
            \<or> payload_length > size_t_max - fixed_header_bytes - control_length
          then Inl (frame_failure ''length'' ''overflow'' resource_limit)
          else
           (let output = \<lparr>dh_major = ucast (read_be input 4 2), dh_minor = ucast (read_be input 6 2),
                  dh_type_id = ucast (read_be input 8 2), dh_flags = ucast (read_be input 10 2),
                  dh_stream_id = read_be input 12 8, dh_sequence = read_be input 20 8,
                  dh_control_size = control_length, dh_payload_size = payload_length,
                  dh_total_size = fixed_header_bytes + control_length + payload_length\<rparr>
            in and_then (validate_header_values (dh_major output) (dh_minor output) (dh_type_id output)
                 (dh_flags output) (dh_control_size output) (dh_payload_size output) bound)
                 (\<lambda>_. Inr output))))"

record prepared_frame_decode =
  pf_header :: frame
  pf_control_bytes :: nat
  pf_payload_bytes :: nat
  pf_bound :: frame_limits
  pf_consumed :: bool

definition body_resident_bytes :: "prepared_frame_decode \<Rightarrow> nat" where
  "body_resident_bytes p = pf_control_bytes p + pf_payload_bytes p"

definition encoded_bytes :: "prepared_frame_decode \<Rightarrow> nat" where
  "encoded_bytes p = fixed_header_bytes + body_resident_bytes p"

text \<open>
  The move constructor: the first component is the new object, the second what is left of the
  moved-from one.
\<close>

definition prepared_move :: "prepared_frame_decode \<Rightarrow> prepared_frame_decode \<times> prepared_frame_decode" where
  "prepared_move other =
    (other, other\<lparr>pf_consumed := True, pf_control_bytes := 0, pf_payload_bytes := 0\<rparr>)"

definition prepare_frame_header :: "bytes \<Rightarrow> frame_limits \<Rightarrow> prepared_frame_decode result" where
  "prepare_frame_header header bound =
    and_then (inspect_header header bound) (\<lambda>inspected.
      Inr \<lparr>pf_header = \<lparr>fr_type = dh_type_id inspected, fr_major = dh_major inspected,
              fr_minor = dh_minor inspected, fr_flags = dh_flags inspected,
              fr_stream_id = dh_stream_id inspected, fr_sequence = dh_sequence inspected,
              fr_control = [], fr_payload = [],
              fr_control_digest = subspan header 40 32, fr_payload_digest = subspan header 72 32\<rparr>,
           pf_control_bytes = dh_control_size inspected,
           pf_payload_bytes = dh_payload_size inspected, pf_bound = bound, pf_consumed = False\<rparr>)"

text \<open>
  \<open>finalize\<close> returns the frame and leaves the prepared object consumed, whatever the outcome.
\<close>

definition finalize :: "prepared_frame_decode \<Rightarrow> bytes \<Rightarrow> bytes \<Rightarrow> frame result \<times> prepared_frame_decode" where
  "finalize p control payload =
    (if pf_consumed p
     then (Inl (frame_failure ''prepared-frame'' ''already-consumed'' header_invalid), p)
     else
      (let q = p\<lparr>pf_consumed := True\<rparr>; header = pf_header p; bound = pf_bound p
       in if length control \<noteq> pf_control_bytes p \<or> length payload \<noteq> pf_payload_bytes p
          then (Inl (frame_failure ''frame'' ''body-length-mismatch'' header_invalid), q)
          else
           (case first_error
              [validate_header_values (fr_major header) (fr_minor header) (fr_type header)
                 (fr_flags header) (length control) (length payload) bound,
               check_digest control (fr_control_digest header) ''control'',
               check_digest payload (fr_payload_digest header) ''payload'',
               validate_canonical_control (fr_type header) control bound] of
              Inl e \<Rightarrow> (Inl e, q)
            | Inr _ \<Rightarrow> (Inr (header\<lparr>fr_control := control, fr_payload := payload\<rparr>), q))))"

section \<open>Frames and transcripts\<close>

definition digest_is_zero :: "bytes \<Rightarrow> bool" where
  "digest_is_zero digest = all_zero digest"

definition digest_equal :: "bytes \<Rightarrow> bytes \<Rightarrow> bool" where
  "digest_equal left right = (left = right)"

definition set_digest :: "bytes \<Rightarrow> bytes \<Rightarrow> bytes" where
  "set_digest output digest = output @ digest"

definition encode_frame :: "frame \<Rightarrow> frame_limits \<Rightarrow> bytes result" where
  "encode_frame f bound =
    and_then (validate_header_values (fr_major f) (fr_minor f) (fr_type f) (fr_flags f)
      (length (fr_control f)) (length (fr_payload f)) bound) (\<lambda>_.
    and_then (validate_canonical_control (fr_type f) (fr_control f) bound) (\<lambda>_.
      let control_digest = sha256 (fr_control f); payload_digest = sha256 (fr_payload f)
      in if (\<not> digest_is_zero (fr_control_digest f) \<and> \<not> digest_equal (fr_control_digest f) control_digest)
           \<or> (\<not> digest_is_zero (fr_payload_digest f) \<and> \<not> digest_equal (fr_payload_digest f) payload_digest)
         then Inl (frame_failure ''digest'' ''caller-supplied-mismatch'' digest_mismatch)
         else
          (let output = bytes_of ''CXXP'' @ append_be (ucast (fr_major f)) 2
                 @ append_be (ucast (fr_minor f)) 2 @ append_be (ucast (fr_type f)) 2
                 @ append_be (ucast (fr_flags f)) 2 @ append_be (fr_stream_id f) 8
                 @ append_be (fr_sequence f) 8
                 @ append_be (word_of_nat (length (fr_control f))) 4
                 @ append_be (word_of_nat (length (fr_payload f))) 8
           in Inr (set_digest (set_digest output control_digest) payload_digest
                @ fr_control f @ fr_payload f))))"

definition decode_frame :: "bytes \<Rightarrow> frame_limits \<Rightarrow> frame result" where
  "decode_frame input bound =
    (if length input < fixed_header_bytes
     then Inl (frame_failure ''header'' ''truncated'' header_invalid)
     else and_then (prepare_frame_header (take fixed_header_bytes input) bound) (\<lambda>prepared.
       if encoded_bytes prepared \<noteq> length input
       then Inl (frame_failure ''frame'' ''length-mismatch'' header_invalid)
       else fst (finalize prepared
              (subspan input fixed_header_bytes (pf_control_bytes prepared))
              (drop (fixed_header_bytes + pf_control_bytes prepared) input))))"

text \<open>
  The loop of \<open>decode_frame_stream\<close>: the span from \<open>offset\<close> on is the argument \<open>rest\<close>.
\<close>

function decode_frames :: "frame_limits \<Rightarrow> u64 \<Rightarrow> bytes \<Rightarrow> frame list \<Rightarrow> frame list result" where
  "decode_frames bound maximum_frames rest output =
    (if rest = [] then Inr output
     else if length output \<ge> unat maximum_frames
     then Inl (frame_failure ''transcript'' ''frame-count'' resource_limit)
     else if length rest < fixed_header_bytes
     then Inl (frame_failure ''header'' ''truncated'' header_invalid)
     else and_then (prepare_frame_header (take fixed_header_bytes rest) bound) (\<lambda>prepared.
       if encoded_bytes prepared > length rest
       then Inl (frame_failure ''frame'' ''length-mismatch'' header_invalid)
       else and_then (fst (finalize prepared
              (subspan rest fixed_header_bytes (pf_control_bytes prepared))
              (subspan rest (fixed_header_bytes + pf_control_bytes prepared) (pf_payload_bytes prepared))))
            (\<lambda>decoded. decode_frames bound maximum_frames (drop (encoded_bytes prepared) rest)
              (output @ [decoded]))))"
  by pat_completeness auto
termination
  by (relation "measure (\<lambda>(_, _, rest, _). length rest)") (auto simp: encoded_bytes_def fixed_header_bytes_def)

declare decode_frames.simps [simp del]

definition decode_frame_stream :: "bytes \<Rightarrow> frame_limits \<Rightarrow> u64 \<Rightarrow> frame list result" where
  "decode_frame_stream input bound maximum_frames =
    and_then (validate_limits bound) (\<lambda>_.
      if maximum_frames = 0 then Inl (frame_failure ''maximum_frames'' ''zero'' resource_limit)
      else if input = [] then Inl (frame_failure ''transcript'' ''empty'' header_invalid)
      else decode_frames bound maximum_frames input [])"

section \<open>Transcript guards\<close>

record sequence_guard =
  sg_stream_id :: u64
  sg_next_sequence :: u64
  sg_exhausted :: bool

definition sequence_guard_new :: "u64 \<Rightarrow> u64 \<Rightarrow> sequence_guard" where
  "sequence_guard_new stream_id first_sequence =
    \<lparr>sg_stream_id = stream_id, sg_next_sequence = first_sequence, sg_exhausted = False\<rparr>"

definition sequence_accept :: "frame \<Rightarrow> sequence_guard \<Rightarrow> sequence_guard result" where
  "sequence_accept f g =
    (if fr_stream_id f \<noteq> sg_stream_id g
     then Inl (frame_failure ''stream_id'' ''mismatch'' ''protocol-v2.sequence-invalid'')
     else if sg_exhausted g \<or> fr_sequence f < sg_next_sequence g
     then Inl (frame_failure ''sequence'' ''replay'' ''protocol-v2.replay-rejected'')
     else if fr_sequence f \<noteq> sg_next_sequence g
     then Inl (frame_failure ''sequence'' ''gap-or-reorder'' ''protocol-v2.sequence-invalid'')
     else if sg_next_sequence g = - 1 then Inr (g\<lparr>sg_exhausted := True\<rparr>)
     else Inr (g\<lparr>sg_next_sequence := sg_next_sequence g + 1\<rparr>))"

record credit =
  cr_bytes :: u64
  cr_frames :: u64

definition credit_grant :: "credit \<Rightarrow> credit \<Rightarrow> credit result" where
  "credit_grant increment available =
    (if cr_bytes increment = 0 \<or> cr_frames increment = 0
     then Inl (frame_failure ''credit'' ''zero'' ''protocol-v2.credit-invalid'')
     else if cr_bytes increment > - 1 - cr_bytes available
       \<or> cr_frames increment > - 1 - cr_frames available
     then Inl (frame_failure ''credit'' ''overflow'' ''protocol-v2.credit-invalid'')
     else Inr \<lparr>cr_bytes = cr_bytes available + cr_bytes increment,
       cr_frames = cr_frames available + cr_frames increment\<rparr>)"

definition consume_encoded :: "nat \<Rightarrow> nat \<Rightarrow> credit \<Rightarrow> credit result" where
  "consume_encoded control_size payload_size available =
    (if cr_frames available = 0
     then Inl (frame_failure ''credit.frames'' ''exceeded'' ''protocol-v2.credit-exceeded'')
     else if payload_size > size_t_max - fixed_header_bytes
       \<or> control_size > size_t_max - fixed_header_bytes - payload_size
     then Inl (frame_failure ''credit.bytes'' ''overflow'' ''protocol-v2.credit-exceeded'')
     else
      (let bytes_used = word_of_nat fixed_header_bytes + word_of_nat control_size + word_of_nat payload_size
       in if bytes_used > cr_bytes available
          then Inl (frame_failure ''credit.bytes'' ''exceeded'' ''protocol-v2.credit-exceeded'')
          else Inr \<lparr>cr_bytes = cr_bytes available - bytes_used, cr_frames = cr_frames available - 1\<rparr>))"

definition credit_consume :: "frame \<Rightarrow> credit \<Rightarrow> credit result" where
  "credit_consume f = consume_encoded (length (fr_control f)) (length (fr_payload f))"

record transcript_guard =
  tg_sequence :: sequence_guard
  tg_credit :: credit

definition transcript_accept :: "frame \<Rightarrow> bool \<Rightarrow> transcript_guard \<Rightarrow> transcript_guard result" where
  "transcript_accept f consume_credit g =
    and_then (sequence_accept f (tg_sequence g)) (\<lambda>sequence_copy.
    and_then (if consume_credit then credit_consume f (tg_credit g) else Inr (tg_credit g)) (\<lambda>credit_copy.
      Inr \<lparr>tg_sequence = sequence_copy, tg_credit = credit_copy\<rparr>))"

section \<open>The frame layout\<close>

lemma validate_limits_iff:
  "validate_limits b = Inr u \<longleftrightarrow> minimum_minor b = 0 \<and> maximum_minor b = 0
    \<and> 0 < fl_max_control_bytes b \<and> fl_max_control_bytes b \<le> max_control_bytes
    \<and> 0 < fl_max_payload_bytes b \<and> fl_max_payload_bytes b \<le> max_payload_bytes
    \<and> fixed_header_bytes \<le> fl_max_frame_bytes b \<and> fl_max_frame_bytes b \<le> max_frame_bytes
    \<and> supported_flags b AND NOT flag_end_of_stream = 0"
  by (auto simp: validate_limits_def)

lemma validate_header_facts:
  assumes "validate_header_values ma mi ty fl c p b = Inr u"
  shows "validate_limits b = Inr ()" "ma = 2" "mi = 0" "0 < c" "c \<le> fl_max_control_bytes b"
    "p \<le> fl_max_payload_bytes b" "fixed_header_bytes + c + p \<le> fl_max_frame_bytes b"
    "c \<le> 65536" "p \<le> 16777216"
proof -
  have *: "validate_limits b = Inr () \<and> ma = 2 \<and> mi = 0 \<and> 0 < c \<and> c \<le> fl_max_control_bytes b
    \<and> p \<le> fl_max_payload_bytes b \<and> fixed_header_bytes + c + p \<le> fl_max_frame_bytes b"
    using assms unfolding validate_header_values_def Let_def and_then_Inr_iff
    by (auto simp: result_simps protocol_major_2_def split: if_splits)
  then show "validate_limits b = Inr ()" "ma = 2" "mi = 0" "0 < c" "c \<le> fl_max_control_bytes b"
    "p \<le> fl_max_payload_bytes b" "fixed_header_bytes + c + p \<le> fl_max_frame_bytes b"
    by blast+
  then show "c \<le> 65536" "p \<le> 16777216"
    by (auto simp: validate_limits_iff max_control_bytes_def max_payload_bytes_def)
qed

lemma check_digest_iff [result_simps]: "check_digest actual expected field = Inr u \<longleftrightarrow> expected = sha256 actual"
  by (auto simp: check_digest_def Let_def)

lemma length_sha256 [simp]: "length (sha256 bs) = 32"
  by (simp add: sha256_eq_words state_bytes_def length_concat comp_def sum_list_triv)

text \<open>The header of a frame with a control of \<open>c\<close> bytes, a payload of \<open>p\<close> bytes and their digests.\<close>

definition wire_header :: "frame \<Rightarrow> nat \<Rightarrow> nat \<Rightarrow> bytes \<Rightarrow> bytes \<Rightarrow> bytes" where
  "wire_header f c p cd pd = bytes_of ''CXXP'' @ be_bytes 2 (ucast (fr_major f))
     @ be_bytes 2 (ucast (fr_minor f)) @ be_bytes 2 (ucast (fr_type f)) @ be_bytes 2 (ucast (fr_flags f))
     @ be_bytes 8 (fr_stream_id f) @ be_bytes 8 (fr_sequence f)
     @ be_bytes 4 (word_of_nat c) @ be_bytes 8 (word_of_nat p) @ cd @ pd"

lemma length_wire_header: "length cd = 32 \<Longrightarrow> length pd = 32 \<Longrightarrow> length (wire_header f c p cd pd) = 104"
  by (simp add: wire_header_def)

lemma u16_round_trip: "ucast (be_value (be_bytes 2 (ucast (w :: u16)))) = w"
proof -
  have "be_value (be_bytes 2 (ucast w)) = ucast w"
    by (rule bit_word_eqI) (auto simp: be_value_be_bytes bit_take_bit_iff bit_ucast_iff dest: bit_imp_le_length)
  then show ?thesis
    by (auto intro!: bit_word_eqI simp: bit_ucast_iff dest: bit_imp_le_length)
qed

lemma u32_length_round_trip: "n \<le> 65536 \<Longrightarrow> unat (be_value (be_bytes 4 (word_of_nat n))) = n"
  by (simp add: be_value_be_bytes unsigned_take_bit_eq unat_of_nat take_bit_nat_eq_self)

lemma u64_length_round_trip: "n \<le> 16777216 \<Longrightarrow> unat (word_of_nat n :: u64) = n"
  by (simp add: unat_of_nat take_bit_nat_eq_self)

lemma inspect_wire_header:
  assumes "length cd = 32" "length pd = 32" "c \<le> 65536" "p \<le> 16777216"
  shows "inspect_header (wire_header f c p cd pd) b =
    and_then (validate_header_values (fr_major f) (fr_minor f) (fr_type f) (fr_flags f) c p b)
      (\<lambda>_. Inr \<lparr>dh_major = fr_major f, dh_minor = fr_minor f, dh_type_id = fr_type f, dh_flags = fr_flags f,
        dh_stream_id = fr_stream_id f, dh_sequence = fr_sequence f, dh_control_size = c,
        dh_payload_size = p, dh_total_size = fixed_header_bytes + c + p\<rparr>)"
proof -
  let ?h = "wire_header f c p cd pd"
  have fs: "take 4 ?h = bytes_of ''CXXP''"
    "read_be ?h 4 2 = be_value (be_bytes 2 (ucast (fr_major f)))"
    "read_be ?h 6 2 = be_value (be_bytes 2 (ucast (fr_minor f)))"
    "read_be ?h 8 2 = be_value (be_bytes 2 (ucast (fr_type f)))"
    "read_be ?h 10 2 = be_value (be_bytes 2 (ucast (fr_flags f)))"
    "read_be ?h 12 8 = fr_stream_id f" "read_be ?h 20 8 = fr_sequence f"
    "read_be ?h 28 4 = be_value (be_bytes 4 (word_of_nat c))"
    "read_be ?h 32 8 = word_of_nat p"
    by (simp_all add: wire_header_def read_be_def subspan_def del: be_bytes.simps)
  have "\<not> 18446744073709551511 - c < p"
    using assms(3,4) by linarith
  then show ?thesis
    using assms
    unfolding inspect_header_def Let_def fs u16_round_trip
    by (simp add: length_wire_header fixed_header_bytes_def size_t_max_def u32_length_round_trip
        u64_length_round_trip)
qed

lemma prepare_wire_header:
  assumes "length cd = 32" "length pd = 32" "c \<le> 65536" "p \<le> 16777216"
  shows "prepare_frame_header (wire_header f c p cd pd) b =
    and_then (validate_header_values (fr_major f) (fr_minor f) (fr_type f) (fr_flags f) c p b)
      (\<lambda>_. Inr \<lparr>pf_header = f\<lparr>fr_control := [], fr_payload := [], fr_control_digest := cd, fr_payload_digest := pd\<rparr>,
        pf_control_bytes = c, pf_payload_bytes = p, pf_bound = b, pf_consumed = False\<rparr>)"
proof -
  let ?h = "wire_header f c p cd pd"
  have "subspan ?h 40 32 = cd" "subspan ?h 72 32 = pd"
    using assms(1,2) by (simp_all add: wire_header_def subspan_def del: be_bytes.simps)
  then show ?thesis
    by (cases f; cases "validate_header_values (fr_major f) (fr_minor f) (fr_type f) (fr_flags f) c p b")
      (simp_all add: prepare_frame_header_def inspect_wire_header [OF assms])
qed

lemma encode_frame_iff:
  "encode_frame f b = Inr bs \<longleftrightarrow>
    validate_header_values (fr_major f) (fr_minor f) (fr_type f) (fr_flags f)
      (length (fr_control f)) (length (fr_payload f)) b = Inr ()
    \<and> validate_canonical_control (fr_type f) (fr_control f) b = Inr ()
    \<and> (digest_is_zero (fr_control_digest f) \<or> fr_control_digest f = sha256 (fr_control f))
    \<and> (digest_is_zero (fr_payload_digest f) \<or> fr_payload_digest f = sha256 (fr_payload f))
    \<and> bs = wire_header f (length (fr_control f)) (length (fr_payload f))
        (sha256 (fr_control f)) (sha256 (fr_payload f)) @ fr_control f @ fr_payload f"
  by (auto simp: encode_frame_def and_then_Inr_iff Let_def result_simps digest_equal_def wire_header_def
      append_be_def set_digest_def simp del: be_bytes.simps)

text \<open>The frame as the decoder returns it: the caller's digests replaced by the computed ones.\<close>

definition with_digests :: "frame \<Rightarrow> frame" where
  "with_digests f = f\<lparr>fr_control_digest := sha256 (fr_control f), fr_payload_digest := sha256 (fr_payload f)\<rparr>"

text \<open>
  Reading one frame from the front of a transcript, which \<open>decode_frame\<close> and the loop of
  \<open>decode_frame_stream\<close> both do once the header has been prepared.
\<close>

lemma finalize_wire:
  assumes "validate_header_values (fr_major f) (fr_minor f) (fr_type f) (fr_flags f)
      (length (fr_control f)) (length (fr_payload f)) b = Inr ()"
    "validate_canonical_control (fr_type f) (fr_control f) b = Inr ()"
  shows "fst (finalize \<lparr>pf_header = f\<lparr>fr_control := [], fr_payload := [],
        fr_control_digest := sha256 (fr_control f), fr_payload_digest := sha256 (fr_payload f)\<rparr>,
      pf_control_bytes = length (fr_control f), pf_payload_bytes = length (fr_payload f),
      pf_bound = b, pf_consumed = False\<rparr> (fr_control f) (fr_payload f)) = Inr (with_digests f)"
proof -
  have "check_digest (fr_control f) (sha256 (fr_control f)) x = Inr ()"
    "check_digest (fr_payload f) (sha256 (fr_payload f)) x = Inr ()" for x
    by (simp_all add: check_digest_iff)
  then show ?thesis
    using assms by (cases f) (simp add: finalize_def Let_def with_digests_def)
qed

lemma prepare_encoded:
  assumes "encode_frame f b = Inr bs"
  shows "prepare_frame_header (take fixed_header_bytes (bs @ rest)) b =
    Inr \<lparr>pf_header = f\<lparr>fr_control := [], fr_payload := [],
        fr_control_digest := sha256 (fr_control f), fr_payload_digest := sha256 (fr_payload f)\<rparr>,
      pf_control_bytes = length (fr_control f), pf_payload_bytes = length (fr_payload f),
      pf_bound = b, pf_consumed = False\<rparr>"
    "length bs = fixed_header_bytes + length (fr_control f) + length (fr_payload f)"
    "take (length (fr_control f)) (drop fixed_header_bytes (bs @ rest)) = fr_control f"
    "drop (fixed_header_bytes + length (fr_control f)) (bs @ rest) = fr_payload f @ rest"
proof -
  note e = assms [unfolded encode_frame_iff]
  let ?h = "wire_header f (length (fr_control f)) (length (fr_payload f))
        (sha256 (fr_control f)) (sha256 (fr_payload f))"
  have h: "length ?h = 104"
    by (simp add: length_wire_header)
  have bs: "bs = ?h @ fr_control f @ fr_payload f"
    using e by blast
  have v: "validate_header_values (fr_major f) (fr_minor f) (fr_type f) (fr_flags f)
      (length (fr_control f)) (length (fr_payload f)) b = Inr ()"
    using e by blast
  have "take fixed_header_bytes (bs @ rest) = ?h"
    by (simp add: bs h fixed_header_bytes_def)
  then show "prepare_frame_header (take fixed_header_bytes (bs @ rest)) b =
    Inr \<lparr>pf_header = f\<lparr>fr_control := [], fr_payload := [],
        fr_control_digest := sha256 (fr_control f), fr_payload_digest := sha256 (fr_payload f)\<rparr>,
      pf_control_bytes = length (fr_control f), pf_payload_bytes = length (fr_payload f),
      pf_bound = b, pf_consumed = False\<rparr>"
    using validate_header_facts(8,9) [OF v] by (simp add: prepare_wire_header v)
  show "length bs = fixed_header_bytes + length (fr_control f) + length (fr_payload f)"
    "take (length (fr_control f)) (drop fixed_header_bytes (bs @ rest)) = fr_control f"
    "drop (fixed_header_bytes + length (fr_control f)) (bs @ rest) = fr_payload f @ rest"
    by (simp_all add: bs h fixed_header_bytes_def)
qed

lemma decode_encoded_frame:
  assumes "encode_frame f b = Inr bs"
  shows "decode_frame bs b = Inr (with_digests f)"
proof -
  note p = prepare_encoded(1,3,4) [OF assms, of "[]", simplified] prepare_encoded(2) [OF assms]
  have e: "validate_header_values (fr_major f) (fr_minor f) (fr_type f) (fr_flags f)
      (length (fr_control f)) (length (fr_payload f)) b = Inr ()"
    "validate_canonical_control (fr_type f) (fr_control f) b = Inr ()"
    using assms [unfolded encode_frame_iff] by blast+
  show ?thesis
    using p(4) by (simp add: decode_frame_def p(1) encoded_bytes_def body_resident_bytes_def subspan_def
        p(2,3) finalize_wire e)
qed

text \<open>Conversely, a header that is accepted is the layout of what was read from it.\<close>

lemma u16_bytes: "length bs = 2 \<Longrightarrow> be_bytes 2 (ucast (ucast (be_value bs) :: u16)) = bs"
proof -
  assume l: "length bs = 2"
  have "ucast (ucast (be_value bs) :: u16) = take_bit 16 (be_value bs)"
    by (rule bit_word_eqI) (auto simp: bit_take_bit_iff bit_ucast_iff dest: bit_imp_le_length)
  also have "\<dots> = be_value bs"
    using take_bit_be_value [of bs] l by simp
  finally have "ucast (ucast (be_value bs) :: u16) = be_value bs" .
  then show ?thesis
    using be_bytes_be_value [of bs] l by simp
qed

lemma length_bytes:
  assumes "length bs = n" "n \<le> 8"
  shows "be_bytes n (word_of_nat (unat (be_value bs))) = bs"
  using be_bytes_be_value [of bs] assms by simp

lemma prepare_accepted:
  assumes "prepare_frame_header h b = Inr p" "length h = 104"
  shows "h = wire_header (pf_header p) (pf_control_bytes p) (pf_payload_bytes p)
      (fr_control_digest (pf_header p)) (fr_payload_digest (pf_header p))"
    "length (fr_control_digest (pf_header p)) = 32" "length (fr_payload_digest (pf_header p)) = 32"
    "validate_header_values (fr_major (pf_header p)) (fr_minor (pf_header p)) (fr_type (pf_header p))
      (fr_flags (pf_header p)) (pf_control_bytes p) (pf_payload_bytes p) b = Inr ()"
    "pf_bound p = b" "\<not> pf_consumed p"
proof -
  obtain d where d: "inspect_header h b = Inr d"
    and p: "p = \<lparr>pf_header = \<lparr>fr_type = dh_type_id d, fr_major = dh_major d,
              fr_minor = dh_minor d, fr_flags = dh_flags d,
              fr_stream_id = dh_stream_id d, fr_sequence = dh_sequence d,
              fr_control = [], fr_payload = [],
              fr_control_digest = subspan h 40 32, fr_payload_digest = subspan h 72 32\<rparr>,
           pf_control_bytes = dh_control_size d,
           pf_payload_bytes = dh_payload_size d, pf_bound = b, pf_consumed = False\<rparr>"
    using assms(1) by (auto simp: prepare_frame_header_def and_then_Inr_iff)
  have magic: "take 4 h = bytes_of ''CXXP''"
    and dv: "d = \<lparr>dh_major = ucast (read_be h 4 2), dh_minor = ucast (read_be h 6 2),
                  dh_type_id = ucast (read_be h 8 2), dh_flags = ucast (read_be h 10 2),
                  dh_stream_id = read_be h 12 8, dh_sequence = read_be h 20 8,
                  dh_control_size = unat (read_be h 28 4), dh_payload_size = unat (read_be h 32 8),
                  dh_total_size = fixed_header_bytes + unat (read_be h 28 4) + unat (read_be h 32 8)\<rparr>"
    and v: "validate_header_values (dh_major d) (dh_minor d) (dh_type_id d) (dh_flags d)
      (dh_control_size d) (dh_payload_size d) b = Inr ()"
    using d by (auto simp: inspect_header_def Let_def and_then_Inr_iff split: if_splits)
  have "h = take 4 h @ subspan h 4 2 @ subspan h 6 2 @ subspan h 8 2 @ subspan h 10 2
      @ subspan h 12 8 @ subspan h 20 8 @ subspan h 28 4 @ subspan h 32 8 @ subspan h 40 32 @ subspan h 72 32"
    using assms(2) subspan_chain [of h 4 2] subspan_chain [of h 6 2] subspan_chain [of h 8 2]
      subspan_chain [of h 10 2] subspan_chain [of h 12 8] subspan_chain [of h 20 8]
      subspan_chain [of h 28 4] subspan_chain [of h 32 8] subspan_chain [of h 40 32]
      subspan_chain [of h 72 32] append_take_drop_id [of 4 h]
    by simp
  then show "h = wire_header (pf_header p) (pf_control_bytes p) (pf_payload_bytes p)
      (fr_control_digest (pf_header p)) (fr_payload_digest (pf_header p))"
    using magic assms(2)
    by (simp add: wire_header_def p dv read_be_def u16_bytes length_bytes length_subspan be_bytes_subspan
        del: be_bytes.simps)
  show "length (fr_control_digest (pf_header p)) = 32" "length (fr_payload_digest (pf_header p)) = 32"
    "validate_header_values (fr_major (pf_header p)) (fr_minor (pf_header p)) (fr_type (pf_header p))
      (fr_flags (pf_header p)) (pf_control_bytes p) (pf_payload_bytes p) b = Inr ()"
    "pf_bound p = b" "\<not> pf_consumed p"
    using assms(2) v by (simp_all add: p length_subspan)
qed

lemma finalize_accepted:
  assumes "fst (finalize p control payload) = Inr f" "\<not> pf_consumed p"
  shows "length control = pf_control_bytes p" "length payload = pf_payload_bytes p"
    "f = (pf_header p)\<lparr>fr_control := control, fr_payload := payload\<rparr>"
    "fr_control_digest (pf_header p) = sha256 control" "fr_payload_digest (pf_header p) = sha256 payload"
    "validate_canonical_control (fr_type (pf_header p)) control (pf_bound p) = Inr ()"
  using assms
  by (auto simp: finalize_def Let_def and_then_Inr_iff result_simps split: if_splits sum.splits)

text \<open>What one accepted frame at the front of \<open>input\<close> says about it.\<close>

lemma read_frame_accepted:
  assumes "prepare_frame_header (take fixed_header_bytes input) b = Inr p"
    "fixed_header_bytes \<le> length input"
    "fst (finalize p (subspan input fixed_header_bytes (pf_control_bytes p)) payload) = Inr f"
    "take (length payload) (drop (fixed_header_bytes + pf_control_bytes p) input) = payload"
  shows "encode_frame f b = Inr (take (encoded_bytes p) input)"
    "fr_control_digest f = sha256 (fr_control f)" "fr_payload_digest f = sha256 (fr_payload f)"
proof -
  let ?control = "subspan input fixed_header_bytes (pf_control_bytes p)"
  have l: "length (take fixed_header_bytes input) = 104"
    using assms(2) by (simp add: fixed_header_bytes_def)
  note p = prepare_accepted [OF assms(1) l]
  note fin = finalize_accepted [OF assms(3) p(6)]
  have "take (encoded_bytes p) input = take fixed_header_bytes input @ ?control @ payload"
    using assms(4) fin(2)
    by (simp add: encoded_bytes_def body_resident_bytes_def subspan_def take_add add.assoc flip: drop_drop)
      (simp add: add.commute)
  also have "take fixed_header_bytes input
      = wire_header f (pf_control_bytes p) (pf_payload_bytes p) (sha256 ?control) (sha256 payload)"
    using p(1) fin(4,5) by (simp add: fin(3) wire_header_def)
  finally have bs: "take (encoded_bytes p) input
      = wire_header f (pf_control_bytes p) (pf_payload_bytes p) (sha256 ?control) (sha256 payload)
        @ ?control @ payload" .
  show "encode_frame f b = Inr (take (encoded_bytes p) input)"
    unfolding encode_frame_iff bs using p(4,5) fin(1,2,4,5,6) by (simp add: fin(3))
  show "fr_control_digest f = sha256 (fr_control f)" "fr_payload_digest f = sha256 (fr_payload f)"
    using fin(4,5) by (simp_all add: fin(3))
qed

lemma encode_decoded_frame:
  assumes "decode_frame bs b = Inr f"
  shows "encode_frame f b = Inr bs" "with_digests f = f"
proof -
  obtain p where len: "fixed_header_bytes \<le> length bs" "encoded_bytes p = length bs"
    and p: "prepare_frame_header (take fixed_header_bytes bs) b = Inr p"
    and fin: "fst (finalize p (subspan bs fixed_header_bytes (pf_control_bytes p))
      (drop (fixed_header_bytes + pf_control_bytes p) bs)) = Inr f"
    using assms by (auto simp: decode_frame_def and_then_Inr_iff split: if_splits)
  note r = read_frame_accepted [OF p len(1) fin]
  show "encode_frame f b = Inr bs"
    using r(1) len(2) by simp
  show "with_digests f = f"
    using r(2,3) by (simp add: with_digests_def)
qed

interpretation frame_codec: canonical_codec "\<lambda>f. encode_frame f b" "\<lambda>bs. decode_frame bs b" for b
  by unfold_locales (rule encode_decoded_frame(1))

section \<open>Transcripts\<close>

lemma decode_frame_facts:
  assumes "decode_frame bs b = Inr f"
  shows "fixed_header_bytes \<le> length bs" "validate_limits b = Inr ()" "length bs \<le> fl_max_frame_bytes b"
proof -
  have e: "encode_frame f b = Inr bs"
    by (rule encode_decoded_frame(1) [OF assms])
  then have v: "validate_header_values (fr_major f) (fr_minor f) (fr_type f) (fr_flags f)
      (length (fr_control f)) (length (fr_payload f)) b = Inr ()"
    unfolding encode_frame_iff by blast
  show "fixed_header_bytes \<le> length bs" "validate_limits b = Inr ()" "length bs \<le> fl_max_frame_bytes b"
    using prepare_encoded(2) [OF e] validate_header_facts(1,7) [OF v] by simp_all
qed

text \<open>The loop on a transcript that starts with an accepted frame.\<close>

lemma decode_frames_step:
  assumes "decode_frame bs b = Inr f" "length acc < unat m"
  shows "decode_frames b m (bs @ rest) acc = decode_frames b m rest (acc @ [f])"
proof -
  have e: "encode_frame f b = Inr bs" and wd: "with_digests f = f"
    using encode_decoded_frame [OF assms(1)] .
  then have v: "validate_header_values (fr_major f) (fr_minor f) (fr_type f) (fr_flags f)
      (length (fr_control f)) (length (fr_payload f)) b = Inr ()"
    "validate_canonical_control (fr_type f) (fr_control f) b = Inr ()"
    unfolding encode_frame_iff by blast+
  note p = prepare_encoded(1,3,4) [OF e, where rest = rest] prepare_encoded(2) [OF e]
  have "take (length (fr_payload f)) (fr_payload f @ rest) = fr_payload f" "bs \<noteq> []"
    "fixed_header_bytes \<le> length (bs @ rest)"
    using decode_frame_facts(1) [OF assms(1)] by (auto simp: fixed_header_bytes_def)
  moreover have "drop (fixed_header_bytes + (length (fr_control f) + length (fr_payload f))) (bs @ rest) = rest"
    using p(4) by simp
  ultimately show ?thesis
    using assms(2) p(4)
    by (subst decode_frames.simps)
      (simp add: p(1,2,3) encoded_bytes_def body_resident_bytes_def subspan_def finalize_wire [OF v] wd
        del: take_append drop_append)
qed

text \<open>Reference: a transcript is the concatenation of byte strings, each of which decodes to a frame.\<close>

definition transcript_of :: "frame_limits \<Rightarrow> bytes \<Rightarrow> frame list \<Rightarrow> bool" where
  "transcript_of b input fs =
    (\<exists>parts. input = concat parts \<and> list_all2 (\<lambda>part f. decode_frame part b = Inr f) parts fs)"

lemma decode_frames_complete:
  assumes "list_all2 (\<lambda>part f. decode_frame part b = Inr f) parts fs" "length acc + length fs \<le> unat m"
  shows "decode_frames b m (concat parts) acc = Inr (acc @ fs)"
  using assms
proof (induction parts fs arbitrary: acc rule: list_all2_induct)
  case Nil
  then show ?case by (simp add: decode_frames.simps)
next
  case (Cons part parts f fs)
  then show ?case by (simp add: decode_frames_step)
qed

lemma decode_frames_sound:
  assumes "decode_frames b m rest acc = Inr fs"
  shows "\<exists>new. fs = acc @ new \<and> transcript_of b rest new \<and> (new \<noteq> [] \<longrightarrow> length fs \<le> unat m)"
  using assms
proof (induction b m rest acc rule: decode_frames.induct)
  case (1 b m rest acc)
  show ?case
  proof (cases "rest = []")
    case True
    then have "fs = acc @ [] \<and> transcript_of b rest []"
      using "1.prems" by (simp add: decode_frames.simps transcript_of_def)
    then show ?thesis by blast
  next
    case False
    then have len: "length acc < unat m" "fixed_header_bytes \<le> length rest"
      using "1.prems" by (subst (asm) decode_frames.simps; simp add: result_simps)+
    obtain p f where p: "prepare_frame_header (take fixed_header_bytes rest) b = Inr p"
      "encoded_bytes p \<le> length rest"
      and f: "fst (finalize p (subspan rest fixed_header_bytes (pf_control_bytes p))
        (subspan rest (fixed_header_bytes + pf_control_bytes p) (pf_payload_bytes p))) = Inr f"
      and next_: "decode_frames b m (drop (encoded_bytes p) rest) (acc @ [f]) = Inr fs"
      using "1.prems" False by (subst (asm) decode_frames.simps) (auto simp: result_simps)
    obtain new where new: "fs = (acc @ [f]) @ new" "transcript_of b (drop (encoded_bytes p) rest) new"
      "new \<noteq> [] \<longrightarrow> length fs \<le> unat m"
      using "1.IH" [OF False _ _ p(1) _ f next_] len p(2) by force
    have pay: "take (length (subspan rest (fixed_header_bytes + pf_control_bytes p) (pf_payload_bytes p)))
        (drop (fixed_header_bytes + pf_control_bytes p) rest)
      = subspan rest (fixed_header_bytes + pf_control_bytes p) (pf_payload_bytes p)"
      by (auto simp: subspan_def min_def)
    note r = read_frame_accepted [OF p(1) len(2) f pay]
    have "decode_frame (take (encoded_bytes p) rest) b = Inr f"
      using decode_encoded_frame [OF r(1)] r(2,3) by (simp add: with_digests_def)
    moreover obtain parts where parts: "drop (encoded_bytes p) rest = concat parts"
      "list_all2 (\<lambda>part f. decode_frame part b = Inr f) parts new"
      using new(2) by (auto simp: transcript_of_def)
    ultimately have "rest = concat (take (encoded_bytes p) rest # parts)
        \<and> list_all2 (\<lambda>part f. decode_frame part b = Inr f) (take (encoded_bytes p) rest # parts) (f # new)"
      by (simp flip: parts(1))
    then have "transcript_of b rest (f # new)"
      unfolding transcript_of_def by blast
    moreover have "length fs \<le> unat m"
      using new(1,3) len(1) by (cases new) auto
    ultimately show ?thesis
      using new(1) by auto
  qed
qed

lemma decode_frame_stream_iff:
  "decode_frame_stream input b m = Inr fs \<longleftrightarrow> transcript_of b input fs \<and> fs \<noteq> [] \<and> length fs \<le> unat m"
  (is "?l \<longleftrightarrow> ?r")
proof
  assume ?l
  then have d: "decode_frames b m input [] = Inr fs" "input \<noteq> []"
    by (auto simp: decode_frame_stream_def and_then_Inr_iff split: if_splits)
  then show ?r
    using decode_frames_sound [OF d(1)] by (auto simp: transcript_of_def)
next
  assume r: ?r
  then obtain parts where parts: "input = concat parts"
    "list_all2 (\<lambda>part f. decode_frame part b = Inr f) parts fs"
    by (auto simp: transcript_of_def)
  then obtain part rest f where "parts = part # rest" "decode_frame part b = Inr f"
    using r by (cases parts; cases fs) auto
  then have "validate_limits b = Inr ()" "input \<noteq> []"
    using decode_frame_facts [of part b f] parts(1) by (auto simp: fixed_header_bytes_def)
  moreover have "m \<noteq> 0"
    using r by auto
  ultimately show ?l
    using decode_frames_complete [OF parts(2), of "[]" m] r
    by (simp add: decode_frame_stream_def parts(1))
qed

section \<open>Sequence numbers\<close>

text \<open>The position of a guard: one past the largest sequence number when it is exhausted.\<close>

definition sequence_position :: "sequence_guard \<Rightarrow> nat" where
  "sequence_position g = (if sg_exhausted g then 2 ^ 64 else unat (sg_next_sequence g))"

definition sequence_wf :: "sequence_guard \<Rightarrow> bool" where
  "sequence_wf g = (sg_exhausted g \<longrightarrow> sg_next_sequence g = - 1)"

lemma sequence_accept_iff:
  assumes "sequence_wf g"
  shows "sequence_accept f g = Inr g' \<longleftrightarrow>
    fr_stream_id f = sg_stream_id g \<and> unat (fr_sequence f) = sequence_position g
    \<and> g' = (if sg_next_sequence g = - 1 then g\<lparr>sg_exhausted := True\<rparr>
            else g\<lparr>sg_next_sequence := sg_next_sequence g + 1\<rparr>)"
proof -
  have "unat (fr_sequence f) < 2 ^ 64"
    by (rule unat_u64_less)
  moreover have "unat (fr_sequence f) = 18446744073709551615 \<longleftrightarrow> fr_sequence f = - 1"
    by (simp flip: unat_u64_max add: unat_word_inject)
  ultimately show ?thesis
    using assms unfolding sequence_wf_def
    by (auto simp: unat_word_inject sequence_accept_def sequence_position_def split: if_splits)
qed

lemma sequence_accept_step:
  assumes "sequence_wf g" "sequence_accept f g = Inr g'"
  shows "sequence_wf g'" "sequence_position g' = sequence_position g + 1"
    "sg_stream_id g' = sg_stream_id g" "unat (fr_sequence f) = sequence_position g"
    "fr_stream_id f = sg_stream_id g"
proof -
  have acc: "fr_stream_id f = sg_stream_id g" "unat (fr_sequence f) = sequence_position g"
    "g' = (if sg_next_sequence g = - 1 then g\<lparr>sg_exhausted := True\<rparr>
            else g\<lparr>sg_next_sequence := sg_next_sequence g + 1\<rparr>)"
    using assms(2) by (simp_all add: sequence_accept_iff [OF assms(1)])
  have "\<not> sg_exhausted g"
    using assms(2) by (auto simp: sequence_accept_def split: if_splits)
  then show "sequence_wf g'" "sequence_position g' = sequence_position g + 1"
    "sg_stream_id g' = sg_stream_id g" "unat (fr_sequence f) = sequence_position g"
    "fr_stream_id f = sg_stream_id g"
    using acc unat_u64_plus_1 [of "sg_next_sequence g"]
    by (auto simp: sequence_wf_def sequence_position_def)
qed

lemma sequence_position_le: "sequence_position g \<le> 2 ^ 64"
  using unat_u64_less [of "sg_next_sequence g"] by (auto simp: sequence_position_def)

interpretation sequence: monotone_machine sequence_accept sequence_wf sequence_position
  by unfold_locales (simp_all add: sequence_accept_step)

lemma sequence_accept_possible:
  assumes "sequence_wf g" "fr_stream_id f = sg_stream_id g" "unat (fr_sequence f) = sequence_position g"
  obtains g' where "sequence_accept f g = Inr g'"
  using assms sequence_accept_iff [OF assms(1)] by blast

lemma sequence_run_iff:
  assumes "sequence_wf g"
  shows "(\<exists>g'. try_fold sequence_accept fs g = Inr g') \<longleftrightarrow>
    list_all (\<lambda>f. fr_stream_id f = sg_stream_id g) fs
    \<and> map (\<lambda>f. unat (fr_sequence f)) fs = [sequence_position g..<sequence_position g + length fs]"
  using assms
proof (induction fs arbitrary: g)
  case Nil
  then show ?case by simp
next
  case (Cons f fs)
  have upt: "[sequence_position g..<sequence_position g + length (f # fs)]
      = sequence_position g # [sequence_position g + 1..<sequence_position g + 1 + length fs]"
    by (subst upt_rec) simp
  show ?case
  proof (cases "sequence_accept f g")
    case (Inl e)
    then have "\<not> (fr_stream_id f = sg_stream_id g \<and> unat (fr_sequence f) = sequence_position g)"
      using sequence_accept_possible [OF Cons.prems] by fastforce
    then show ?thesis using Inl unfolding upt by auto
  next
    case (Inr g')
    note s = sequence_accept_step [OF Cons.prems Inr]
    show ?thesis
      using Inr s Cons.IH [OF s(1)] unfolding upt by simp
  qed
qed

lemma sequence_new [simp]:
  "sequence_wf (sequence_guard_new s n)" "sequence_position (sequence_guard_new s n) = unat n"
  "sg_stream_id (sequence_guard_new s n) = s"
  by (simp_all add: sequence_guard_new_def sequence_wf_def sequence_position_def)

section \<open>Credit\<close>

text \<open>The wire size \<open>consume_encoded\<close> charges for a frame.\<close>

definition wire_size :: "frame \<Rightarrow> nat" where
  "wire_size f = fixed_header_bytes + length (fr_control f) + length (fr_payload f)"

lemma length_encoded_frame: "decode_frame bs b = Inr f \<Longrightarrow> length bs = wire_size f"
  using prepare_encoded(2) [OF encode_decoded_frame(1)] by (simp add: wire_size_def)

lemma credit_consume_step:
  assumes "credit_consume f c = Inr c'"
  shows "unat (cr_bytes c) = unat (cr_bytes c') + wire_size f" "unat (cr_frames c) = unat (cr_frames c') + 1"
proof -
  let ?used = "word_of_nat fixed_header_bytes + word_of_nat (length (fr_control f))
    + word_of_nat (length (fr_payload f)) :: u64"
  have r: "wire_size f < 2 ^ 64" "\<not> ?used > cr_bytes c" "cr_frames c \<noteq> 0"
    "c' = \<lparr>cr_bytes = cr_bytes c - ?used, cr_frames = cr_frames c - 1\<rparr>"
    using assms
    by (auto simp: credit_consume_def consume_encoded_def Let_def wire_size_def size_t_max_def
        fixed_header_bytes_def split: if_splits)
  have "?used = word_of_nat (wire_size f)"
    by (simp add: wire_size_def)
  then have used: "unat ?used = wire_size f"
    using r(1) by (simp only: unat_of_nat) simp
  have "unat ?used \<le> unat (cr_bytes c)"
    using r(2) by (simp add: word_le_nat_alt not_less)
  then show "unat (cr_bytes c) = unat (cr_bytes c') + wire_size f"
    using r(2) used by (simp add: r(4) unat_sub not_less)
  have "1 \<le> cr_frames c"
    using r(3) by (metis word_less_1 not_less)
  then show "unat (cr_frames c) = unat (cr_frames c') + 1"
    using r(3) by (simp add: r(4) unat_sub word_le_nat_alt)
qed

lemma credit_grant_step:
  assumes "credit_grant i c = Inr c'"
  shows "unat (cr_bytes c') = unat (cr_bytes c) + unat (cr_bytes i)"
    "unat (cr_frames c') = unat (cr_frames c) + unat (cr_frames i)"
  using assms
  by (auto simp: credit_grant_def u64_no_overflow unat_u64_plus simp flip: not_less split: if_splits)

section \<open>Runs of the guards\<close>

text \<open>The frames a host that drops rejected frames ends up delivering.\<close>

definition accepted_frames :: "frame list \<Rightarrow> sequence_guard \<Rightarrow> frame list" where
  "accepted_frames = accepted_inputs sequence_accept"

lemma accepted_frames_contiguous:
  assumes "sequence_wf g"
  shows "map (\<lambda>f. unat (fr_sequence f)) (accepted_frames fs g)
      = [sequence_position g..<sequence_position (run_machine sequence_accept fs g)]
    \<and> list_all (\<lambda>f. fr_stream_id f = sg_stream_id g) (accepted_frames fs g)"
  using assms
proof (induction fs arbitrary: g)
  case Nil
  then show ?case by (simp add: accepted_frames_def)
next
  case (Cons f fs)
  show ?case
  proof (cases "sequence_accept f g")
    case (Inl e)
    then show ?thesis using Cons by (simp add: accepted_frames_def)
  next
    case (Inr g')
    note s = sequence_accept_step [OF Cons.prems Inr]
    have "sequence_position g' \<le> sequence_position (run_machine sequence_accept fs g')"
      by (rule sequence.run_rank [OF s(1)])
    then show ?thesis
      using Inr s Cons.IH [OF s(1)] by (simp add: upt_conv_Cons accepted_frames_def)
  qed
qed

text \<open>A credit window under any interleaving of grants and frames.\<close>

datatype credit_event = Grant credit | Consume frame

fun credit_event_step :: "credit_event \<Rightarrow> credit \<Rightarrow> credit result" where
  "credit_event_step (Grant i) c = credit_grant i c"
| "credit_event_step (Consume f) c = credit_consume f c"

fun event_bytes :: "credit_event \<Rightarrow> int" where
  "event_bytes (Grant i) = uint (cr_bytes i)"
| "event_bytes (Consume f) = - int (wire_size f)"

fun event_frames :: "credit_event \<Rightarrow> int" where
  "event_frames (Grant i) = uint (cr_frames i)"
| "event_frames (Consume f) = - 1"

fun net_credit :: "(credit_event \<Rightarrow> int) \<Rightarrow> credit_event list \<Rightarrow> credit \<Rightarrow> int" where
  "net_credit amount [] c = 0"
| "net_credit amount (e # es) c = (case credit_event_step e c of
      Inl x \<Rightarrow> net_credit amount es c | Inr c' \<Rightarrow> amount e + net_credit amount es c')"

lemma credit_event_step_amount:
  assumes "credit_event_step e c = Inr c'"
  shows "uint (cr_bytes c') = uint (cr_bytes c) + event_bytes e"
    "uint (cr_frames c') = uint (cr_frames c) + event_frames e"
proof -
  have "int (unat (cr_bytes c')) = int (unat (cr_bytes c)) + event_bytes e
    \<and> int (unat (cr_frames c')) = int (unat (cr_frames c)) + event_frames e"
  proof (cases e)
    case (Grant i)
    with assms have "credit_grant i c = Inr c'" by simp
    from credit_grant_step [OF this, THEN arg_cong [where f = int]] show ?thesis
      by (simp add: Grant)
  next
    case (Consume f)
    with assms have "credit_consume f c = Inr c'" by simp
    from credit_consume_step [OF this, THEN arg_cong [where f = int]] show ?thesis
      by (simp add: Consume)
  qed
  then show "uint (cr_bytes c') = uint (cr_bytes c) + event_bytes e"
    "uint (cr_frames c') = uint (cr_frames c) + event_frames e"
    by simp_all
qed

lemma credit_run:
  "uint (cr_bytes (run_machine credit_event_step es c)) = uint (cr_bytes c) + net_credit event_bytes es c
   \<and> uint (cr_frames (run_machine credit_event_step es c)) = uint (cr_frames c) + net_credit event_frames es c"
proof (induction es arbitrary: c)
  case Nil
  then show ?case by simp
next
  case (Cons e es)
  then show ?case
    by (cases "credit_event_step e c") (simp_all add: credit_event_step_amount)
qed

lemma credit_consume_possible:
  "(\<exists>c'. credit_consume f c = Inr c') \<longleftrightarrow> 1 \<le> unat (cr_frames c) \<and> wire_size f \<le> unat (cr_bytes c)"
  (is "?l \<longleftrightarrow> ?r")
proof
  assume ?l
  then show ?r using credit_consume_step [of f c] by fastforce
next
  assume r: ?r
  have w: "wire_size f < 2 ^ 64"
    using r unat_u64_less [of "cr_bytes c"] by linarith
  have eq: "word_of_nat fixed_header_bytes + word_of_nat (length (fr_control f))
      + word_of_nat (length (fr_payload f)) = (word_of_nat (wire_size f) :: u64)"
    by (simp add: wire_size_def)
  have "unat (word_of_nat (wire_size f) :: u64) = wire_size f"
    using w by (simp add: unat_of_nat)
  then have "\<not> word_of_nat (wire_size f) > cr_bytes c"
    using r by (simp add: word_less_nat_alt)
  moreover have "cr_frames c \<noteq> 0"
    using r by auto
  ultimately show ?l
    using w unfolding credit_consume_def consume_encoded_def Let_def eq
    by (simp add: wire_size_def size_t_max_def fixed_header_bytes_def)
qed

lemma credit_run_iff:
  "(\<exists>c'. try_fold credit_consume fs c = Inr c') \<longleftrightarrow>
    length fs \<le> unat (cr_frames c) \<and> sum_list (map wire_size fs) \<le> unat (cr_bytes c)"
proof (induction fs arbitrary: c)
  case Nil
  then show ?case by simp
next
  case (Cons f fs)
  show ?case
  proof (cases "credit_consume f c")
    case (Inl e)
    then have "\<not> (1 \<le> unat (cr_frames c) \<and> wire_size f \<le> unat (cr_bytes c))"
      using credit_consume_possible [of f c] by simp
    then show ?thesis using Inl by auto
  next
    case (Inr c')
    then show ?thesis
      using Cons.IH [of c'] credit_consume_step [OF Inr] by simp
  qed
qed

lemma transcript_run_iff:
  "(\<exists>g'. try_fold (\<lambda>f. transcript_accept f True) fs g = Inr g') \<longleftrightarrow>
    (\<exists>s. try_fold sequence_accept fs (tg_sequence g) = Inr s)
    \<and> (\<exists>c. try_fold credit_consume fs (tg_credit g) = Inr c)"
proof (induction fs arbitrary: g)
  case Nil
  then show ?case by simp
next
  case (Cons f fs)
  show ?case
    by (cases "sequence_accept f (tg_sequence g)"; cases "credit_consume f (tg_credit g)")
      (simp_all add: Cons.IH transcript_accept_def [of f])
qed

lemma transcript_bytes:
  assumes "transcript_of b input fs"
  shows "sum_list (map wire_size fs) = length input"
proof -
  obtain parts where "input = concat parts" "list_all2 (\<lambda>part f. decode_frame part b = Inr f) parts fs"
    using assms by (auto simp: transcript_of_def)
  moreover from this(2) have "sum_list (map wire_size fs) = sum_list (map length parts)"
    by (induction parts fs rule: list_all2_induct) (simp_all add: length_encoded_frame)
  ultimately show ?thesis by (simp add: length_concat)
qed

text \<open>A frame (a \<open>hello\<close> with an empty control map) for the examples.\<close>

definition example_frame :: "u64 \<Rightarrow> frame" where
  "example_frame seq = \<lparr>fr_type = 1, fr_major = 2, fr_minor = 0, fr_flags = 0, fr_stream_id = 1,
    fr_sequence = seq, fr_control = [0xa0], fr_payload = [],
    fr_control_digest = replicate 32 0, fr_payload_digest = replicate 32 0\<rparr>"

lemma example_control: "validate_canonical_control 1 [0xa0] default_frame_limits = Inr ()"
proof -
  have d: "cbor_decode [0xa0] (control_cbor_limits default_frame_limits) = Inr (Cbor_Map [])"
    by (simp add: cbor_decode_def decode_visit.simps read_head_def Let_def major_of_def control_cbor_limits_def
        default_frame_limits_def default_cbor_limits_def max_control_bytes_def)
  show ?thesis
    using cbor_encode_decoded [OF d]
    by (simp add: validate_canonical_control_def d is_closure_message_def closure_first_message_id_def
        word_le_nat_alt)
qed

lemma example_encodes: "\<exists>bs. encode_frame (example_frame seq) default_frame_limits = Inr bs"
proof -
  have "validate_header_values 2 0 1 0 1 0 default_frame_limits = Inr ()"
    by (simp add: validate_header_values_def validate_limits_def default_frame_limits_def Let_def
        protocol_major_2_def max_control_bytes_def max_payload_bytes_def max_frame_bytes_def
        fixed_header_bytes_def size_t_max_def is_known_message_id_def closure_last_message_id_def
        closure_first_message_id_def heartbeat_message_id_def flag_end_of_stream_def)
  then show ?thesis
    unfolding encode_frame_iff using example_control
    by (simp add: example_frame_def digest_is_zero_def all_zero_def list_all_iff)
qed

section \<open>Properties\<close>

text \<open>
  C2: under any limits, the decoder of one frame returns \<open>f\<close> exactly when the encoder of \<open>f\<close> produces
  the input and \<open>f\<close> carries the SHA-256 digests of its control and payload. So there is one spelling of a
  frame: no other header, length, digest or control encoding is accepted.
\<close>

theorem frame_decode_iff_encode:
  "decode_frame bs b = Inr f \<longleftrightarrow> encode_frame f b = Inr bs \<and> with_digests f = f"
  using decode_encoded_frame [of f b bs] encode_decoded_frame [of bs b f] by auto

text \<open>
  What the encoder produces is a header of 104 bytes followed by control and payload, and decodes to the
  frame with its digests filled in (a caller may leave them zero).
\<close>

theorem frame_round_trip:
  assumes "encode_frame f b = Inr bs"
  shows "decode_frame bs b = Inr (with_digests f) \<and> length bs = wire_size f"
  using decode_encoded_frame [OF assms] prepare_encoded(2) [OF assms] by (simp add: wire_size_def)

lemma frame_round_trip_witness:
  "\<exists>bs. decode_frame bs default_frame_limits = Inr (with_digests (example_frame 7)) \<and> length bs = 105"
proof -
  obtain bs where "encode_frame (example_frame 7) default_frame_limits = Inr bs"
    using example_encodes by blast
  from frame_round_trip [OF this] show ?thesis
    by (auto simp: wire_size_def example_frame_def fixed_header_bytes_def)
qed

text \<open>
  C3: the transcript decoder returns \<open>fs\<close> exactly when \<open>fs\<close> is not empty, has at most the permitted number
  of frames, and the input splits into byte strings that decode, one by one, to the frames of \<open>fs\<close>; a
  fragment, trailing bytes or one bad frame reject the whole transcript.
\<close>

theorem transcript_decoder_exact:
  "decode_frame_stream input b m = Inr fs \<longleftrightarrow> transcript_of b input fs \<and> fs \<noteq> [] \<and> length fs \<le> unat m"
  by (rule decode_frame_stream_iff)

text \<open>
  A prepared header can be finalized once: after a first \<open>finalize\<close>, successful or not, and after a
  move, the object refuses every body.
\<close>

theorem prepared_decode_single_use:
  "fst (finalize (snd (finalize p control payload)) control' payload')
      = Inl (frame_failure ''prepared-frame'' ''already-consumed'' header_invalid)
    \<and> fst (finalize (snd (prepared_move p)) control' payload')
      = Inl (frame_failure ''prepared-frame'' ''already-consumed'' header_invalid)"
proof -
  have "pf_consumed (snd (finalize p control payload))"
    by (simp add: finalize_def Let_def split: sum.splits)
  then show ?thesis
    by (simp add: finalize_def [of "snd (finalize p control payload)"] prepared_move_def
        finalize_def [of "p\<lparr>pf_consumed := True, pf_control_bytes := 0, pf_payload_bytes := 0\<rparr>"])
qed

text \<open>
  C4: whatever frames a host offers to a fresh sequence guard, skipping the ones it rejects, the accepted
  frames carry consecutive sequence numbers from the first one on, on the guard's own stream: no replay, no
  gap, no reordering, and no number after the largest one.
\<close>

theorem sequence_guard_contiguous:
  "map (\<lambda>f. unat (fr_sequence f)) (accepted_frames fs (sequence_guard_new s n))
      = [unat n..<sequence_position (run_machine sequence_accept fs (sequence_guard_new s n))]
    \<and> list_all (\<lambda>f. fr_stream_id f = s) (accepted_frames fs (sequence_guard_new s n))
    \<and> sequence_wf (run_machine sequence_accept fs (sequence_guard_new s n))"
  using accepted_frames_contiguous [of "sequence_guard_new s n" fs]
    sequence.run_inv [of "sequence_guard_new s n" fs] by simp

text \<open>
  C5: over any interleaving of grants and frames, accepted or rejected, the window holds exactly what it
  held first, plus the accepted grants, minus the complete wire sizes of the accepted frames; it never
  wraps around.
\<close>

theorem credit_is_conserved:
  "uint (cr_bytes (run_machine credit_event_step es c)) = uint (cr_bytes c) + net_credit event_bytes es c
   \<and> uint (cr_frames (run_machine credit_event_step es c)) = uint (cr_frames c) + net_credit event_frames es c"
  by (rule credit_run)

text \<open>
  C1: a decoded transcript passes a fresh transcript guard exactly when it is contiguous on the guard's
  stream and the credit covers its frames and every byte of the input.
\<close>

theorem transcript_admitted_iff:
  assumes "decode_frame_stream input b m = Inr fs"
  shows "(\<exists>g'. try_fold (\<lambda>f. transcript_accept f True) fs
        \<lparr>tg_sequence = sequence_guard_new s n, tg_credit = c\<rparr> = Inr g') \<longleftrightarrow>
    list_all (\<lambda>f. fr_stream_id f = s) fs
    \<and> map (\<lambda>f. unat (fr_sequence f)) fs = [unat n..<unat n + length fs]
    \<and> length fs \<le> unat (cr_frames c) \<and> length input \<le> unat (cr_bytes c)"
  using transcript_bytes [of b input fs] assms
  by (simp add: transcript_run_iff sequence_run_iff credit_run_iff decode_frame_stream_iff)

lemma transcript_admitted_iff_witness:
  "\<exists>input g. decode_frame_stream input default_frame_limits 2
        = Inr [with_digests (example_frame 5), with_digests (example_frame 6)]
      \<and> length input = 210 \<and> try_fold (\<lambda>f. transcript_accept f True)
      [with_digests (example_frame 5), with_digests (example_frame 6)]
      \<lparr>tg_sequence = sequence_guard_new 1 5, tg_credit = \<lparr>cr_bytes = 210, cr_frames = 2\<rparr>\<rparr> = Inr g"
proof -
  obtain p q where e: "encode_frame (example_frame 5) default_frame_limits = Inr p"
    "encode_frame (example_frame 6) default_frame_limits = Inr q"
    using example_encodes by blast
  have len: "length p = 105" "length q = 105"
    using prepare_encoded(2) [OF e(1)] prepare_encoded(2) [OF e(2)]
    by (simp_all add: example_frame_def fixed_header_bytes_def)
  have "transcript_of default_frame_limits (p @ q) [with_digests (example_frame 5), with_digests (example_frame 6)]"
    unfolding transcript_of_def using decode_encoded_frame [OF e(1)] decode_encoded_frame [OF e(2)]
    by (intro exI [of _ "[p, q]"]) simp
  then have d: "decode_frame_stream (p @ q) default_frame_limits 2
      = Inr [with_digests (example_frame 5), with_digests (example_frame 6)]"
    by (simp add: decode_frame_stream_iff)
  from transcript_admitted_iff [OF d, of 1 5 "\<lparr>cr_bytes = 210, cr_frames = 2\<rparr>"] len
  have "\<exists>g. try_fold (\<lambda>f. transcript_accept f True)
      [with_digests (example_frame 5), with_digests (example_frame 6)]
      \<lparr>tg_sequence = sequence_guard_new 1 5, tg_credit = \<lparr>cr_bytes = 210, cr_frames = 2\<rparr>\<rparr> = Inr g"
    by (simp add: with_digests_def example_frame_def upt_rec)
  moreover have "length (p @ q) = 210"
    using len by simp
  ultimately show ?thesis using d by blast
qed

end
