(* ===== verification/Closure_Wire.thy ===== *)
theory Closure_Wire
  imports Closure_Control
begin

text \<open>
  The parser of \<open>src/protocol_v2/closure.cpp\<close> against its encoder: how the parser walks the encoding
  of a field, what it accepts, and that both sides invert each other.
\<close>

section \<open>Heads and scalars\<close>

lemma scan_head_wire:
  assumes "scan_head input off = Inr (k, v, n)"
  shows "read_wire_head input off = \<lparr>wh_major = major_code k, wh_argument = v, wh_next = n, wh_valid = True\<rparr>"
  using assms
  by (auto simp: scan_head_def read_wire_head_def Let_def head_width_def split: if_splits)

lemma read_wire_head_at:
  assumes "drop off input = append_head k v @ rest"
  shows "read_wire_head input off
    = \<lparr>wh_major = major_code k, wh_argument = v, wh_next = off + length (append_head k v), wh_valid = True\<rparr>"
proof -
  have off: "off \<le> length input"
    using assms by (metis append_head_nonempty append_is_Nil_conv drop_all linorder_le_cases)
  have "length input - off = length (append_head k v) + length rest"
    using arg_cong [OF assms, of length] by simp
  then have "length input - length rest = off + length (append_head k v)"
    using off by linarith
  then show ?thesis
    using scan_head_read_head [OF off] scan_head_wire [of input off k v]
    by (simp add: assms read_head_append_head)
qed

lemma major_code_inject [simp]: "major_code j = major_code k \<longleftrightarrow> j = k"
  by (metis major_of_code)

lemma major_codes: "3 = major_code Text_Str" "0 = major_code Unsigned_Integer" "5 = major_code Map_Fields"
  by (simp_all add: major_code_def)

lemma cbor_bytes_head: "\<exists>a content. cbor_bytes v = append_head (kind_of v) a @ content"
  by (cases v) (auto simp: kind_of_def encoded_text_def)

lemma drop_beyond: "drop off input = part @ rest \<Longrightarrow> drop (off + length part) input = rest"
  by (metis add.commute append_eq_conv_conj drop_drop)

lemma part_within: "drop off input = part @ rest \<Longrightarrow> part \<noteq> [] \<Longrightarrow> off + length part \<le> length input"
proof -
  assume "drop off input = part @ rest" "part \<noteq> []"
  from arg_cong [OF this(1), of length] this(2)
  have "length input - off = length part + length rest" "0 < length part"
    by simp_all
  then show "off + length part \<le> length input"
    by linarith
qed

text \<open>A control is at most 64 KiB long, far below the 32-bit bound of a text range.\<close>

abbreviation in_range :: "bytes \<Rightarrow> bool" where
  "in_range input \<equiv> length input \<le> u32_max"

lemma unat_u32: "n \<le> u32_max \<Longrightarrow> unat (word_of_nat n :: u32) = n"
  by (simp add: u32_max_def unat_of_nat)

lemma unat_ucast_u32: "unat (w :: u64) \<le> u32_max \<Longrightarrow> unat (ucast w :: u32) = unat w"
  by (simp add: u32_max_def unsigned_ucast_eq unsigned_take_bit_eq take_bit_nat_eq_self)

lemma parse_text_range_at:
  assumes "drop off input = encoded_text t @ rest" "in_range input"
  shows "\<exists>r. parse_text_range input off = Inr (r, off + length (encoded_text t)) \<and> text_view input r = t"
proof -
  let ?n = "word_of_nat (length t) :: u64"
  define b where "b = off + length (append_head Text_Str ?n)"
  have at: "drop off input = append_head Text_Str ?n @ bytes_of t @ rest"
    using assms(1) by (simp add: encoded_text_def)
  have b: "drop b input = bytes_of t @ rest"
    unfolding b_def by (rule drop_beyond [OF at])
  have within: "b + length t \<le> length input"
    using part_within [OF assms(1)] by (simp add: encoded_text_def b_def)
  have n: "unat ?n = length t"
    using within assms(2) by (simp add: u32_max_def unat_of_nat)
  have fits: "\<not> length t > length input - b" "\<not> length t > u32_max" "\<not> b > u32_max"
    using within assms(2) by linarith+
  let ?r = "\<lparr>tr_offset = word_of_nat b, tr_size = ucast ?n\<rparr>"
  have "parse_text_range input off = Inr (?r, off + length (encoded_text t))"
    using fits n by (simp add: parse_text_range_def read_wire_head_at [OF at] major_codes encoded_text_def b_def)
  moreover have "text_view input ?r = t"
    using fits n by (simp add: text_view_def unat_u32 unat_ucast_u32 subspan_def b not_less del: map_map)
  ultimately show ?thesis by blast
qed

lemma parse_text_range_other:
  assumes "drop off input = cbor_bytes v @ rest" "kind_of v \<noteq> Text_Str"
  shows "parse_text_range input off = Inl ()"
proof -
  obtain a content where "drop off input = append_head (kind_of v) a @ content @ rest"
    using cbor_bytes_head [of v] assms(1) by auto
  then show ?thesis
    using assms(2) by (simp add: parse_text_range_def read_wire_head_at major_codes)
qed

lemma parse_uint_at:
  assumes "drop off input = append_head Unsigned_Integer n @ rest"
  shows "parse_uint input off = Inr (n, off + length (append_head Unsigned_Integer n))"
  by (simp add: parse_uint_def read_wire_head_at [OF assms] major_codes)

lemma parse_uint_other:
  assumes "drop off input = cbor_bytes v @ rest" "kind_of v \<noteq> Unsigned_Integer"
  shows "parse_uint input off = Inl ()"
proof -
  obtain a content where "drop off input = append_head (kind_of v) a @ content @ rest"
    using cbor_bytes_head [of v] assms(1) by auto
  then show ?thesis
    using assms(2) by (simp add: parse_uint_def read_wire_head_at major_codes)
qed

section \<open>Observed counters\<close>

abbreviation field_bytes :: "string \<times> cbor_value \<Rightarrow> bytes" where
  "field_bytes f \<equiv> encoded_text (fst f) @ cbor_bytes (snd f)"

definition counter_ok :: "string \<times> cbor_value \<Rightarrow> bool" where
  "counter_ok f = (valid_text 128 ''observed_counters.key'' (fst f) = Inr () \<and> (\<exists>n. snd f = Cbor_Unsigned n))"

lemma kind_of_uint: "kind_of v = Unsigned_Integer \<longleftrightarrow> (\<exists>n. v = Cbor_Unsigned n)"
  by (cases v) (auto simp: kind_of_def)

lemma kind_is_text: "kind_of v = Text_Str \<longleftrightarrow> (\<exists>t. v = Cbor_Text t)"
  by (cases v) (auto simp: kind_of_def)

lemma kind_of_map: "kind_of v = Map_Fields \<longleftrightarrow> (\<exists>fs. v = Cbor_Map fs)"
  by (cases v) (auto simp: kind_of_def)

lemma parse_counter_at:
  assumes at: "drop off input = field_bytes f @ rest" and "in_range input"
  shows "parse_counter input off = (if counter_ok f then Inr (off + length (field_bytes f)) else Inl ())"
    and "counter_ok f \<Longrightarrow> own_counter input (acc, off) = Inr (acc @ [f], off + length (field_bytes f))"
proof -
  let ?b = "off + length (encoded_text (fst f))"
  have key: "drop off input = encoded_text (fst f) @ cbor_bytes (snd f) @ rest"
    using at by simp
  have b: "drop ?b input = cbor_bytes (snd f) @ rest"
    by (rule drop_beyond [OF key])
  obtain r where r: "parse_text_range input off = Inr (r, ?b)" "text_view input r = fst f"
    using parse_text_range_at [OF key assms(2)] by blast
  show "parse_counter input off = (if counter_ok f then Inr (off + length (field_bytes f)) else Inl ())"
  proof (cases "kind_of (snd f) = Unsigned_Integer")
    case True
    then obtain n where n: "snd f = Cbor_Unsigned n"
      by (auto simp: kind_of_uint)
    then show ?thesis
      using parse_uint_at [of ?b input n rest] b
      by (auto simp: parse_counter_def r counter_ok_def add.assoc split: sum.splits)
  next
    case False
    then show ?thesis
      using parse_uint_other [OF b] by (auto simp: parse_counter_def r counter_ok_def kind_of_uint split: sum.splits)
  qed
  assume "counter_ok f"
  then obtain n where n: "snd f = Cbor_Unsigned n"
    by (auto simp: counter_ok_def)
  then have "f = (fst f, Cbor_Unsigned n)"
    by (simp add: prod_eq_iff)
  then show "own_counter input (acc, off) = Inr (acc @ [f], off + length (field_bytes f))"
    using parse_uint_at [of ?b input n rest] b n by (simp add: own_counter_def r add.assoc)
qed

lemma parse_counters_at:
  assumes "in_range input"
  shows "drop off input = concat (map field_bytes fs) @ rest \<Longrightarrow>
    repeat_result (length fs) (parse_counter input) off
      = (if list_all counter_ok fs then Inr (off + length (concat (map field_bytes fs))) else Inl ())"
proof (induction fs arbitrary: off)
  case Nil
  then show ?case by simp
next
  case (Cons f fs)
  have f: "drop off input = field_bytes f @ concat (map field_bytes fs) @ rest"
    using Cons.prems by simp
  show ?case
    using Cons.IH [OF drop_beyond [OF f]] by (simp add: parse_counter_at(1) [OF f assms] add.assoc)
qed

lemma own_counters_at:
  assumes "in_range input"
  shows "drop off input = concat (map field_bytes fs) @ rest \<Longrightarrow> list_all counter_ok fs \<Longrightarrow>
    own_counters (length fs) input (acc, off) = acc @ fs"
proof (induction fs arbitrary: off acc)
  case Nil
  then show ?case by simp
next
  case (Cons f fs)
  have f: "drop off input = field_bytes f @ concat (map field_bytes fs) @ rest"
    using Cons.prems(1) by simp
  show ?case
    using Cons.IH [OF drop_beyond [OF f]] Cons.prems(2) by (simp add: parse_counter_at(2) [OF f assms])
qed

definition counters_ok :: "(string \<times> cbor_value) list \<Rightarrow> bool" where
  "counters_ok cs = (length cs \<le> 32 \<and> list_all counter_ok cs)"

definition owned_counters :: "bytes \<Rightarrow> (string \<times> cbor_value) list" where
  "owned_counters counters = (let root = read_wire_head counters 0
     in own_counters (unat (wh_argument root)) counters ([], wh_next root))"

lemma own_reject_counters: "rej_observed_counters (own_reject r) = owned_counters (rej_observed_counters r)"
  by (simp add: own_reject_def owned_counters_def Let_def)

lemma owned_counters_of:
  assumes "counters_ok cs" "in_range (cbor_bytes (Cbor_Map cs))"
  shows "owned_counters (cbor_bytes (Cbor_Map cs)) = cs"
proof -
  let ?n = "word_of_nat (length cs) :: u64"
  have at: "drop 0 (cbor_bytes (Cbor_Map cs)) = append_head Map_Fields ?n @ concat (map field_bytes cs)"
    by simp
  have n: "unat ?n = length cs"
    using assms(1) by (simp add: counters_ok_def unat_of_nat)
  have "drop (length (append_head Map_Fields ?n)) (cbor_bytes (Cbor_Map cs)) = concat (map field_bytes cs) @ []"
    by simp
  from own_counters_at [OF assms(2) this, of "[]"] show ?thesis
    using assms(1) by (simp add: owned_counters_def read_wire_head_at [OF at] n counters_ok_def del: cbor_bytes.simps)
qed

lemma parse_counter_map_at:
  assumes at: "drop off input = cbor_bytes (Cbor_Map cs) @ rest" and range: "in_range input"
    and len: "length cs < 2 ^ 64"
  shows "counters_ok cs \<Longrightarrow> \<exists>r. parse_counter_map input off = Inr (r, off + length (cbor_bytes (Cbor_Map cs)))
      \<and> subspan input (unat (tr_offset r)) (unat (tr_size r)) = cbor_bytes (Cbor_Map cs)"
    and "\<not> counters_ok cs \<Longrightarrow> parse_counter_map input off = Inl ()"
proof -
  let ?n = "word_of_nat (length cs) :: u64"
  let ?b = "off + length (append_head Map_Fields ?n)"
  have hd: "drop off input = append_head Map_Fields ?n @ concat (map field_bytes cs) @ rest"
    using at by simp
  have n: "unat ?n = length cs"
    using len by (simp add: unat_of_nat)
  have gt: "?n > 32 \<longleftrightarrow> length cs > 32"
    using n by (simp add: word_less_nat_alt)
  note loop = parse_counters_at [OF range drop_beyond [OF hd]]
  have whole: "?b + length (concat (map field_bytes cs)) = off + length (cbor_bytes (Cbor_Map cs))"
    by simp
  have within: "off + length (cbor_bytes (Cbor_Map cs)) \<le> length input"
    by (rule part_within [OF at]) (simp add: cbor_bytes_nonempty)
  show "\<not> counters_ok cs \<Longrightarrow> parse_counter_map input off = Inl ()"
    using loop gt n by (auto simp: parse_counter_map_def read_wire_head_at [OF hd] counters_ok_def Let_def)
  assume ok: "counters_ok cs"
  let ?r = "\<lparr>tr_offset = word_of_nat off, tr_size = word_of_nat (length (cbor_bytes (Cbor_Map cs)))\<rparr> :: closure_text_range"
  have fits: "\<not> off > u32_max" "\<not> length (cbor_bytes (Cbor_Map cs)) > u32_max"
    using within range by linarith+
  have "parse_counter_map input off = Inr (?r, off + length (cbor_bytes (Cbor_Map cs)))"
    using loop gt n ok fits whole
    by (simp add: parse_counter_map_def read_wire_head_at [OF hd] counters_ok_def major_codes del: cbor_bytes.simps)
  moreover have "subspan input (unat (tr_offset ?r)) (unat (tr_size ?r)) = cbor_bytes (Cbor_Map cs)"
    using fits by (simp add: unat_u32 subspan_def at not_less del: cbor_bytes.simps)
  ultimately show "\<exists>r. parse_counter_map input off = Inr (r, off + length (cbor_bytes (Cbor_Map cs)))
      \<and> subspan input (unat (tr_offset r)) (unat (tr_size r)) = cbor_bytes (Cbor_Map cs)"
    by blast
qed

section \<open>Field sets\<close>

definition wire_name :: "wire_field \<Rightarrow> string" where
  "wire_name field = (case field of
     Wire_Kind \<Rightarrow> ''kind'' | Wire_Session_Id \<Rightarrow> ''session_id'' | Wire_Task_Id \<Rightarrow> ''task_id''
   | Wire_Task_V4_Digest \<Rightarrow> ''task_v4_digest'' | Wire_Closure_Id \<Rightarrow> ''closure_id''
   | Wire_Closure_Digest \<Rightarrow> ''closure_digest'' | Wire_Manifest_Digest \<Rightarrow> ''manifest_digest''
   | Wire_Total_Bytes \<Rightarrow> ''total_bytes'' | Wire_Chunk_Bytes \<Rightarrow> ''chunk_bytes''
   | Wire_Chunk_Count \<Rightarrow> ''chunk_count'' | Wire_Chunk_Index \<Rightarrow> ''chunk_index'' | Wire_Offset \<Rightarrow> ''offset''
   | Wire_Byte_Count \<Rightarrow> ''byte_count'' | Wire_Blob_Ordinal \<Rightarrow> ''blob_ordinal''
   | Wire_Blob_Digest \<Rightarrow> ''blob_digest'' | Wire_Blob_Receipts_Digest \<Rightarrow> ''blob_receipts_digest''
   | Wire_Blob_Count \<Rightarrow> ''blob_count'' | Wire_Transfer_Digest \<Rightarrow> ''transfer_digest''
   | Wire_Spool_Receipt \<Rightarrow> ''spool_receipt'' | Wire_Cleanup_Owner \<Rightarrow> ''cleanup_owner''
   | Wire_Failure_Phase \<Rightarrow> ''failure_phase'' | Wire_Reason_Code \<Rightarrow> ''reason_code''
   | Wire_Observed_Counters \<Rightarrow> ''observed_counters'' | Wire_Cleanup_Receipt \<Rightarrow> ''cleanup_receipt''
   | Wire_Unknown \<Rightarrow> '''')"

lemma identify_wire_name: "identify_field (wire_name f) = f"
  by (cases f) (simp_all add: wire_name_def identify_field_def)

lemma wire_name_identify: "identify_field k \<noteq> Wire_Unknown \<Longrightarrow> wire_name (identify_field k) = k"
  unfolding identify_field_def by (auto simp: wire_name_def split: if_splits)

lemma field_code_nth: "field_code f < 25 \<and> wire_fields ! field_code f = f"
  by (cases f) (simp_all add: field_code_def wire_fields_def)

lemma field_code_inject: "field_code f = field_code g \<longleftrightarrow> f = g"
  by (metis field_code_nth)

lemma field_mask_snoc: "field_mask (gs @ [f]) = field_mask gs OR field_bit f"
  by (simp add: field_mask_def)

lemma bit_field_mask: "bit (field_mask gs) n \<longleftrightarrow> (\<exists>f \<in> set gs. field_code f = n)"
proof (induction gs rule: rev_induct)
  case Nil
  then show ?case by (simp add: field_mask_def)
next
  case (snoc f gs)
  have "field_code f < 32"
    using field_code_nth [of f] by simp
  then show ?case
    using snoc by (auto simp: field_mask_snoc bit_or_iff field_bit_def bit_exp_iff)
qed

lemma field_mask_member: "field_mask gs AND field_bit f \<noteq> 0 \<longleftrightarrow> f \<in> set gs"
proof -
  have "field_code f < 32"
    using field_code_nth [of f] by simp
  then have "field_mask gs AND field_bit f \<noteq> 0 \<longleftrightarrow> bit (field_mask gs) (field_code f)"
    by (simp add: field_bit_def and_exp_eq_0_iff_not_bit)
  also have "\<dots> \<longleftrightarrow> f \<in> set gs"
    by (auto simp: bit_field_mask field_code_inject)
  finally show ?thesis .
qed

lemma field_mask_eq_iff: "field_mask gs = field_mask hs \<longleftrightarrow> set gs = set hs"
proof
  assume eq: "field_mask gs = field_mask hs"
  have "f \<in> set gs \<longleftrightarrow> f \<in> set hs" for f
    by (simp flip: field_mask_member add: eq)
  then show "set gs = set hs" by blast
qed (rule bit_word_eqI, simp add: bit_field_mask)

section \<open>Fields\<close>

text \<open>What a parsed control says of a field, and the values a field may have.\<close>

definition kind_name :: "manifest_kind \<Rightarrow> string" where
  "kind_name kind = (case kind of Kind_Descriptor \<Rightarrow> ''descriptor'' | Kind_Chunk \<Rightarrow> ''chunk'')"

definition parsed_value :: "bytes \<Rightarrow> closure_parsed_control \<Rightarrow> wire_field \<Rightarrow> cbor_value" where
  "parsed_value control parsed field =
    (case text_slot_of field of
       Some slot \<Rightarrow> Cbor_Text (text_view control (pc_text parsed slot))
     | None \<Rightarrow> (case number_slot_of field of
         Some slot \<Rightarrow> Cbor_Unsigned (pc_number parsed slot)
       | None \<Rightarrow> if field = Wire_Kind then Cbor_Text (kind_name (pc_kind parsed))
           else Cbor_Map (owned_counters (subspan control (unat (tr_offset (pc_observed_counters parsed)))
             (unat (tr_size (pc_observed_counters parsed)))))))"

definition field_fits :: "wire_field \<Rightarrow> cbor_value \<Rightarrow> bool" where
  "field_fits field v =
    (if text_slot_of field \<noteq> None then kind_of v = Text_Str
     else if number_slot_of field \<noteq> None then kind_of v = Unsigned_Integer
     else if field = Wire_Kind then v = Cbor_Text ''descriptor'' \<or> v = Cbor_Text ''chunk''
     else field = Wire_Observed_Counters \<and> (\<exists>cs. v = Cbor_Map cs \<and> counters_ok cs))"

lemma slots_inject:
  "text_slot_of f = Some s \<Longrightarrow> text_slot_of g = Some s \<Longrightarrow> f = g"
  "number_slot_of f = Some n \<Longrightarrow> number_slot_of g = Some n \<Longrightarrow> f = g"
  by (cases f; cases g; simp add: text_slot_of_def; fail)
    (cases f; cases g; simp add: number_slot_of_def; fail)

lemma slots_exclusive: "text_slot_of f = Some s \<Longrightarrow> number_slot_of f = None"
  by (cases f) (simp_all add: text_slot_of_def number_slot_of_def)

lemma slotless: "text_slot_of f = None \<Longrightarrow> number_slot_of f = None \<Longrightarrow>
    f = Wire_Kind \<or> f = Wire_Observed_Counters \<or> f = Wire_Unknown"
  by (cases f) (simp_all add: text_slot_of_def number_slot_of_def)

lemma no_slots [simp]:
  "text_slot_of Wire_Kind = None" "number_slot_of Wire_Kind = None"
  "text_slot_of Wire_Observed_Counters = None" "number_slot_of Wire_Observed_Counters = None"
  "text_slot_of Wire_Unknown = None" "number_slot_of Wire_Unknown = None"
  by (simp_all add: text_slot_of_def number_slot_of_def)

text \<open>
  Parsing the value of a field records it and leaves every other field as it was; a value that does
  not fit the field is refused.
\<close>

lemma parse_field_value_at:
  assumes at: "drop off input = cbor_bytes v @ rest" and range: "in_range input" and ok: "cbor_ok b d v"
  shows "field_fits f v \<Longrightarrow> \<exists>p'. parse_field_value f input off p = Inr (p', off + length (cbor_bytes v))
      \<and> parsed_value input p' f = v
      \<and> (\<forall>g. g \<noteq> f \<longrightarrow> g \<noteq> Wire_Unknown \<longrightarrow> parsed_value input p' g = parsed_value input p g)"
    and "\<not> field_fits f v \<Longrightarrow> parse_field_value f input off p = Inl ()"
proof -
  have text_at: "\<exists>r. parse_text_range input off = Inr (r, off + length (cbor_bytes v)) \<and> text_view input r = t"
    if "v = Cbor_Text t" for t
    using parse_text_range_at [of off input t rest] at range that by simp
  have no_text: "parse_text_range input off = Inl ()" if "kind_of v \<noteq> Text_Str"
    by (rule parse_text_range_other [OF at that])
  have num: "parse_uint input off = Inr (n, off + length (cbor_bytes v))" if "v = Cbor_Unsigned n" for n
    using parse_uint_at [of off input n rest] at that by simp
  have no_num: "parse_uint input off = Inl ()" if "kind_of v \<noteq> Unsigned_Integer"
    by (rule parse_uint_other [OF at that])
  have no_map: "parse_counter_map input off = Inl ()" if "kind_of v \<noteq> Map_Fields"
  proof -
    obtain a content where "drop off input = append_head (kind_of v) a @ content @ rest"
      using cbor_bytes_head [of v] at by auto
    then show ?thesis
      using that by (simp add: parse_counter_map_def read_wire_head_at major_codes)
  qed
  have counters: "\<exists>r. parse_counter_map input off = Inr (r, off + length (cbor_bytes v))
      \<and> owned_counters (subspan input (unat (tr_offset r)) (unat (tr_size r))) = cs"
    if "v = Cbor_Map cs" "counters_ok cs" for cs
  proof -
    have "length cs < 2 ^ 64"
      using that(2) by (simp add: counters_ok_def)
    moreover have "in_range (cbor_bytes (Cbor_Map cs))"
      using part_within [OF at cbor_bytes_nonempty] range unfolding that(1) by linarith
    ultimately show ?thesis
      using parse_counter_map_at(1) [of off input cs rest] owned_counters_of [of cs] at range that by auto
  qed
  have no_counters: "parse_counter_map input off = Inl ()" if "v = Cbor_Map cs" "\<not> counters_ok cs" for cs
    using parse_counter_map_at(2) [of off input cs rest] at range that ok by simp
  consider s where "text_slot_of f = Some s" | n where "text_slot_of f = None" "number_slot_of f = Some n"
    | "f = Wire_Kind" | "f = Wire_Observed_Counters" | "f = Wire_Unknown"
    using slotless [of f] by (cases "text_slot_of f"; cases "number_slot_of f") auto
  note cases = this
  show "\<exists>p'. parse_field_value f input off p = Inr (p', off + length (cbor_bytes v))
      \<and> parsed_value input p' f = v
      \<and> (\<forall>g. g \<noteq> f \<longrightarrow> g \<noteq> Wire_Unknown \<longrightarrow> parsed_value input p' g = parsed_value input p g)"
    if fits: "field_fits f v"
  proof (cases rule: cases)
    case (1 s)
    then obtain t where t: "v = Cbor_Text t"
      using fits by (auto simp: field_fits_def kind_is_text)
    then obtain r where "parse_text_range input off = Inr (r, off + length (cbor_bytes v))" "text_view input r = t"
      using text_at by blast
    then show ?thesis
      using 1 t by (auto simp: parse_field_value_def parsed_value_def dest: slots_inject(1) [OF 1] split: option.splits)
  next
    case (2 n)
    then obtain m where m: "v = Cbor_Unsigned m"
      using fits by (auto simp: field_fits_def kind_of_uint)
    then show ?thesis
      using 2 num by (auto simp: parse_field_value_def parsed_value_def dest: slots_inject(2) [OF 2(2)] split: option.splits)
  next
    case 3
    then obtain t where t: "v = Cbor_Text t" "t = ''descriptor'' \<or> t = ''chunk''"
      using fits by (auto simp: field_fits_def)
    then obtain r where "parse_text_range input off = Inr (r, off + length (cbor_bytes v))" "text_view input r = t"
      using text_at by blast
    then show ?thesis
      using 3 t by (auto simp: parse_field_value_def parsed_value_def kind_name_def split: option.splits)
  next
    case 4
    then obtain cs where cs: "v = Cbor_Map cs" "counters_ok cs"
      using fits by (auto simp: field_fits_def)
    then obtain r where "parse_counter_map input off = Inr (r, off + length (cbor_bytes v))"
      "owned_counters (subspan input (unat (tr_offset r)) (unat (tr_size r))) = cs"
      using counters by blast
    then show ?thesis
      using 4 cs(1) slotless by (auto simp: parse_field_value_def parsed_value_def split: option.splits)
  next
    case 5
    then show ?thesis
      using fits by (simp add: field_fits_def)
  qed
  show "parse_field_value f input off p = Inl ()" if misfit: "\<not> field_fits f v"
  proof (cases rule: cases)
    case (1 s)
    then show ?thesis
      using misfit no_text by (simp add: parse_field_value_def field_fits_def)
  next
    case (2 n)
    then show ?thesis
      using misfit no_num by (simp add: parse_field_value_def field_fits_def)
  next
    case 3
    show ?thesis
    proof (cases "kind_of v = Text_Str")
      case True
      then obtain t where t: "v = Cbor_Text t"
        by (auto simp: kind_is_text)
      then show ?thesis
        using 3 misfit text_at by (auto simp: parse_field_value_def field_fits_def)
    next
      case False
      then show ?thesis using 3 no_text by (simp add: parse_field_value_def)
    qed
  next
    case 4
    show ?thesis
    proof (cases "kind_of v = Map_Fields")
      case True
      then obtain cs where "v = Cbor_Map cs"
        by (auto simp: kind_of_map)
      then show ?thesis
        using 4 misfit no_counters by (simp add: parse_field_value_def field_fits_def)
    next
      case False
      then show ?thesis using 4 no_map by (simp add: parse_field_value_def)
    qed
  qed (simp add: parse_field_value_def)
qed

section \<open>The loop over the fields\<close>

abbreviation field_of :: "string \<times> cbor_value \<Rightarrow> wire_field" where
  "field_of f \<equiv> identify_field (fst f)"

definition entry_fits :: "string \<times> cbor_value \<Rightarrow> bool" where
  "entry_fits f = (field_of f \<noteq> Wire_Unknown \<and> field_fits (field_of f) (snd f))"

lemma parse_control_field_at:
  assumes at: "drop off control = field_bytes f @ rest" and range: "in_range control" and ok: "cbor_ok b d (snd f)"
  shows "entry_fits f \<Longrightarrow> field_of f \<notin> set gs \<Longrightarrow>
      \<exists>p'. parse_control_field control (p, field_mask gs, off)
        = Inr (p', field_mask (gs @ [field_of f]), off + length (field_bytes f))
      \<and> parsed_value control p' (field_of f) = snd f
      \<and> (\<forall>g. g \<noteq> field_of f \<longrightarrow> g \<noteq> Wire_Unknown \<longrightarrow> parsed_value control p' g = parsed_value control p g)"
    and "\<not> (entry_fits f \<and> field_of f \<notin> set gs) \<Longrightarrow> \<exists>e. parse_control_field control (p, field_mask gs, off) = Inl e"
proof -
  let ?b = "off + length (encoded_text (fst f))"
  have key: "drop off control = encoded_text (fst f) @ cbor_bytes (snd f) @ rest"
    using at by simp
  obtain r where r: "parse_text_range control off = Inr (r, ?b)" "text_view control r = fst f"
    using parse_text_range_at [OF key range] by blast
  note v = parse_field_value_at [OF drop_beyond [OF key] range ok, of "field_of f" p]
  show "\<exists>e. parse_control_field control (p, field_mask gs, off) = Inl e"
    if "\<not> (entry_fits f \<and> field_of f \<notin> set gs)"
    using that v(2) by (auto simp: parse_control_field_def r entry_fits_def field_mask_member Let_def)
  assume fits: "entry_fits f" "field_of f \<notin> set gs"
  then obtain p' where p': "parse_field_value (field_of f) control ?b p = Inr (p', ?b + length (cbor_bytes (snd f)))"
    "parsed_value control p' (field_of f) = snd f"
    "\<forall>g. g \<noteq> field_of f \<longrightarrow> g \<noteq> Wire_Unknown \<longrightarrow> parsed_value control p' g = parsed_value control p g"
    using v(1) by (auto simp: entry_fits_def)
  have "parse_control_field control (p, field_mask gs, off)
      = Inr (p', field_mask (gs @ [field_of f]), off + length (field_bytes f))"
    using fits p'(1) field_mask_member [of gs "field_of f"]
    by (simp add: parse_control_field_def r entry_fits_def field_mask_snoc add.assoc)
  then show "\<exists>p'. parse_control_field control (p, field_mask gs, off)
        = Inr (p', field_mask (gs @ [field_of f]), off + length (field_bytes f))
      \<and> parsed_value control p' (field_of f) = snd f
      \<and> (\<forall>g. g \<noteq> field_of f \<longrightarrow> g \<noteq> Wire_Unknown \<longrightarrow> parsed_value control p' g = parsed_value control p g)"
    using p'(2,3) by blast
qed

lemma parse_control_fields_at:
  assumes range: "in_range control"
  shows "drop off control = concat (map field_bytes fs) @ rest \<Longrightarrow> list_all (\<lambda>f. cbor_ok b d (snd f)) fs \<Longrightarrow>
    distinct gs \<Longrightarrow>
    (if distinct (gs @ map field_of fs) \<and> list_all entry_fits fs
     then \<exists>p'. repeat_result (length fs) (parse_control_field control) (p, field_mask gs, off)
         = Inr (p', field_mask (gs @ map field_of fs), off + length (concat (map field_bytes fs)))
       \<and> (\<forall>f \<in> set fs. parsed_value control p' (field_of f) = snd f)
       \<and> (\<forall>g. g \<noteq> Wire_Unknown \<longrightarrow> g \<notin> field_of ` set fs \<longrightarrow> parsed_value control p' g = parsed_value control p g)
     else \<exists>e. repeat_result (length fs) (parse_control_field control) (p, field_mask gs, off) = Inl e)"
proof (induction fs arbitrary: off gs p)
  case Nil
  then show ?case by auto
next
  case (Cons f fs)
  have at: "drop off control = field_bytes f @ concat (map field_bytes fs) @ rest"
    using Cons.prems(1) by simp
  have ok: "cbor_ok b d (snd f)" "list_all (\<lambda>f. cbor_ok b d (snd f)) fs"
    using Cons.prems(2) by simp_all
  note step = parse_control_field_at [OF at range ok(1)]
  show ?case
  proof (cases "entry_fits f \<and> field_of f \<notin> set gs")
    case False
    then obtain e where "parse_control_field control (p, field_mask gs, off) = Inl e"
      using step(2) by blast
    then show ?thesis
      using False by auto
  next
    case True
    then obtain p1 where p1: "parse_control_field control (p, field_mask gs, off)
        = Inr (p1, field_mask (gs @ [field_of f]), off + length (field_bytes f))"
      "parsed_value control p1 (field_of f) = snd f"
      "\<forall>g. g \<noteq> field_of f \<longrightarrow> g \<noteq> Wire_Unknown \<longrightarrow> parsed_value control p1 g = parsed_value control p g"
      using step(1) by blast
    have gs: "distinct (gs @ [field_of f])"
      using Cons.prems(3) True by simp
    note rest = Cons.IH [OF drop_beyond [OF at] ok(2) gs, of p1]
    show ?thesis
    proof (cases "distinct ((gs @ [field_of f]) @ map field_of fs) \<and> list_all entry_fits fs")
      case False
      then obtain e where "repeat_result (length fs) (parse_control_field control)
          (p1, field_mask (gs @ [field_of f]), off + length (field_bytes f)) = Inl e"
        using rest unfolding if_not_P [OF False] by blast
      then show ?thesis
        using False True p1(1) by auto
    next
      case ok: True
      then obtain p' where p': "repeat_result (length fs) (parse_control_field control)
          (p1, field_mask (gs @ [field_of f]), off + length (field_bytes f))
          = Inr (p', field_mask ((gs @ [field_of f]) @ map field_of fs),
              off + length (field_bytes f) + length (concat (map field_bytes fs)))"
        "\<forall>f \<in> set fs. parsed_value control p' (field_of f) = snd f"
        "\<forall>g. g \<noteq> Wire_Unknown \<longrightarrow> g \<notin> field_of ` set fs \<longrightarrow> parsed_value control p' g = parsed_value control p1 g"
        using rest unfolding if_P [OF ok] by blast
      have "field_of f \<noteq> Wire_Unknown" "field_of f \<notin> field_of ` set fs"
        using True ok by (auto simp: entry_fits_def)
      then have "parsed_value control p' (field_of f) = snd f"
        using p'(3) p1(2) by simp
      then show ?thesis
        using True ok p'(1,2,3) p1(1,3) by (auto simp: add.assoc)
    qed
  qed
qed

section \<open>Controls by their fields\<close>

definition control_id :: "'c control_variant \<Rightarrow> message_type" where
  "control_id control = (case control of
     Control_Manifest _ \<Rightarrow> source_closure_manifest_id | Control_Blob _ \<Rightarrow> source_closure_blob_id
   | Control_Chunk _ \<Rightarrow> source_closure_chunk_id | Control_Seal _ \<Rightarrow> source_closure_seal_id
   | Control_Ack _ \<Rightarrow> source_closure_ack_id | Control_Reject _ \<Rightarrow> source_closure_reject_id)"

definition control_fields :: "closure_control \<Rightarrow> (string \<times> cbor_value) list" where
  "control_fields control = (case control of
     Control_Manifest (Manifest_Descriptor value) \<Rightarrow> descriptor_fields value
   | Control_Manifest (Manifest_Chunk value) \<Rightarrow> manifest_chunk_fields value
   | Control_Blob value \<Rightarrow> blob_fields value | Control_Chunk value \<Rightarrow> chunk_fields value
   | Control_Seal value \<Rightarrow> seal_fields value | Control_Ack value \<Rightarrow> ack_fields value
   | Control_Reject value \<Rightarrow> reject_fields value)"

definition validate_control :: "closure_control \<Rightarrow> closure_limits \<Rightarrow> unit result" where
  "validate_control control bound = (case control of
     Control_Reject value \<Rightarrow> validate_reject value | _ \<Rightarrow> validate_control_view control bound)"

lemmas all_control_fields = control_fields_def descriptor_fields_def manifest_chunk_fields_def blob_fields_def
  chunk_fields_def seal_fields_def ack_fields_def reject_fields_def

lemma map_for_iff:
  "map_for t c b = Inr fs \<longleftrightarrow> t = control_id c \<and> validate_control c b = Inr () \<and> fs = control_fields c"
  by (auto simp: map_for_def control_id_def control_fields_def validate_control_def validate_control_view_def
      closure_ids result_simps split: control_variant.splits source_closure_manifest.splits)

lemma is_closure_message_cases:
  assumes "is_closure_message t"
  obtains "t = source_closure_manifest_id" | "t = source_closure_blob_id" | "t = source_closure_chunk_id"
    | "t = source_closure_seal_id" | "t = source_closure_ack_id" | "t = source_closure_reject_id"
proof -
  have "unat t = 24 \<or> unat t = 25 \<or> unat t = 26 \<or> unat t = 27 \<or> unat t = 28 \<or> unat t = 29"
    using assms
    by (auto simp: is_closure_message_def closure_first_message_id_def closure_last_message_id_def word_le_nat_alt)
  then show ?thesis
    using that by (auto simp: closure_ids word_unat_eq_iff)
qed

lemma control_id_closure: "is_closure_message (control_id c)"
  by (auto simp: control_id_def closure_ids is_closure_message_def closure_first_message_id_def
      closure_last_message_id_def split: control_variant.splits)

lemma expected_names:
  "map fst (control_fields c) = map wire_name (expected_fields (control_id c)
     (case c of Control_Manifest (Manifest_Chunk _) \<Rightarrow> Kind_Chunk | _ \<Rightarrow> Kind_Descriptor))"
  by (auto simp: all_control_fields control_id_def expected_fields_def wire_name_def closure_ids
      split: control_variant.splits source_closure_manifest.splits)

lemma distinct_ids [simp]:
  "source_closure_blob_id \<noteq> source_closure_manifest_id" "source_closure_chunk_id \<noteq> source_closure_manifest_id"
  "source_closure_chunk_id \<noteq> source_closure_blob_id" "source_closure_seal_id \<noteq> source_closure_manifest_id"
  "source_closure_seal_id \<noteq> source_closure_blob_id" "source_closure_seal_id \<noteq> source_closure_chunk_id"
  "source_closure_ack_id \<noteq> source_closure_manifest_id" "source_closure_ack_id \<noteq> source_closure_blob_id"
  "source_closure_ack_id \<noteq> source_closure_chunk_id" "source_closure_ack_id \<noteq> source_closure_seal_id"
  "source_closure_reject_id \<noteq> source_closure_manifest_id" "source_closure_reject_id \<noteq> source_closure_blob_id"
  "source_closure_reject_id \<noteq> source_closure_chunk_id" "source_closure_reject_id \<noteq> source_closure_seal_id"
  "source_closure_reject_id \<noteq> source_closure_ack_id"
  by (simp_all add: closure_ids)

lemma field_values:
  "parsed_value control p Wire_Kind = Cbor_Text (kind_name (pc_kind p))"
  "parsed_value control p Wire_Session_Id = Cbor_Text (text_view control (pc_text p Session_Text))"
  "parsed_value control p Wire_Task_Id = Cbor_Text (text_view control (pc_text p Task_Text))"
  "parsed_value control p Wire_Task_V4_Digest = Cbor_Text (text_view control (pc_text p Task_V4_Text))"
  "parsed_value control p Wire_Closure_Id = Cbor_Text (text_view control (pc_text p Closure_Id_Text))"
  "parsed_value control p Wire_Closure_Digest = Cbor_Text (text_view control (pc_text p Closure_Digest_Text))"
  "parsed_value control p Wire_Manifest_Digest = Cbor_Text (text_view control (pc_text p Manifest_Digest_Text))"
  "parsed_value control p Wire_Blob_Digest = Cbor_Text (text_view control (pc_text p Blob_Digest_Text))"
  "parsed_value control p Wire_Blob_Receipts_Digest = Cbor_Text (text_view control (pc_text p Blob_Receipts_Text))"
  "parsed_value control p Wire_Transfer_Digest = Cbor_Text (text_view control (pc_text p Transfer_Digest_Text))"
  "parsed_value control p Wire_Spool_Receipt = Cbor_Text (text_view control (pc_text p Spool_Receipt_Text))"
  "parsed_value control p Wire_Cleanup_Owner = Cbor_Text (text_view control (pc_text p Cleanup_Owner_Text))"
  "parsed_value control p Wire_Failure_Phase = Cbor_Text (text_view control (pc_text p Failure_Phase_Text))"
  "parsed_value control p Wire_Reason_Code = Cbor_Text (text_view control (pc_text p Reason_Code_Text))"
  "parsed_value control p Wire_Cleanup_Receipt = Cbor_Text (text_view control (pc_text p Cleanup_Receipt_Text))"
  "parsed_value control p Wire_Total_Bytes = Cbor_Unsigned (pc_number p Total_Number)"
  "parsed_value control p Wire_Chunk_Bytes = Cbor_Unsigned (pc_number p Chunk_Bytes_Number)"
  "parsed_value control p Wire_Chunk_Count = Cbor_Unsigned (pc_number p Chunk_Count_Number)"
  "parsed_value control p Wire_Chunk_Index = Cbor_Unsigned (pc_number p Chunk_Index_Number)"
  "parsed_value control p Wire_Offset = Cbor_Unsigned (pc_number p Offset_Number)"
  "parsed_value control p Wire_Byte_Count = Cbor_Unsigned (pc_number p Byte_Count_Number)"
  "parsed_value control p Wire_Blob_Ordinal = Cbor_Unsigned (pc_number p Blob_Ordinal_Number)"
  "parsed_value control p Wire_Blob_Count = Cbor_Unsigned (pc_number p Blob_Count_Number)"
  "parsed_value control p Wire_Observed_Counters = Cbor_Map (owned_counters (subspan control
     (unat (tr_offset (pc_observed_counters p))) (unat (tr_size (pc_observed_counters p)))))"
  by (simp_all add: parsed_value_def text_slot_of_def number_slot_of_def)

lemma own_reject_fields:
  "rej_session_id (own_reject r) = rej_session_id r" "rej_task_id (own_reject r) = rej_task_id r"
  "rej_failure_phase (own_reject r) = rej_failure_phase r" "rej_reason_code (own_reject r) = rej_reason_code r"
  "rej_cleanup_receipt (own_reject r) = rej_cleanup_receipt r"
  "rej_observed_counters (own_reject r) = owned_counters (rej_observed_counters r)"
  by (simp_all add: own_reject_def owned_counters_def Let_def)

lemma view_fields:
  assumes "is_closure_message t"
  shows "control_id (own_control_view (make_control_view t control p)) = t"
    and "control_fields (own_control_view (make_control_view t control p))
      = map (\<lambda>f. (wire_name f, parsed_value control p f)) (expected_fields t (pc_kind p))"
proof -
  show "control_id (own_control_view (make_control_view t control p)) = t"
    using assms
    by (cases rule: is_closure_message_cases; cases "pc_kind p";
        simp add: make_control_view_def own_control_view_def control_id_def closure_ids Let_def)
  show "control_fields (own_control_view (make_control_view t control p))
      = map (\<lambda>f. (wire_name f, parsed_value control p f)) (expected_fields t (pc_kind p))"
    using assms
    by (cases rule: is_closure_message_cases; cases "pc_kind p")
      (simp_all add: make_control_view_def own_control_view_def distinct_ids all_control_fields
        expected_fields_def field_values own_reject_fields kind_name_def wire_name_def Let_def)
qed

lemma expected_known: "f \<in> set (expected_fields t k) \<Longrightarrow> f \<noteq> Wire_Unknown"
  by (auto simp: expected_fields_def split: if_splits)

lemma wire_name_inject: "wire_name f = wire_name g \<longleftrightarrow> f = g"
  by (metis identify_wire_name)

lemma control_keys_distinct: "distinct (map fst (control_fields c))"
proof -
  have "distinct (expected_fields t k)" for t k
    by (simp add: expected_fields_def)
  then show ?thesis
    by (simp add: expected_names distinct_map inj_on_def wire_name_inject)
qed

section \<open>Rejections\<close>

lemma validate_counters_iff:
  "(\<exists>ks. try_fold validate_counter cs keys = Inr ks) \<longleftrightarrow>
    list_all counter_ok cs \<and> distinct (map fst cs) \<and> set (map fst cs) \<inter> keys = {}"
proof (induction cs arbitrary: keys)
  case Nil
  then show ?case by simp
next
  case (Cons f cs)
  show ?case
  proof (cases "counter_ok f \<and> fst f \<notin> keys")
    case True
    then have "validate_counter f keys = Inr (insert (fst f) keys)"
      by (auto simp: validate_counter_def counter_ok_def)
    then show ?thesis
      using Cons.IH [of "insert (fst f) keys"] True by auto
  next
    case False
    then have "\<exists>e. validate_counter f keys = Inl e"
      by (auto simp: validate_counter_def counter_ok_def split: cbor_value.splits)
    then show ?thesis
      using False by auto
  qed
qed

lemma validate_reject_iff:
  "validate_reject r = Inr () \<longleftrightarrow> validate_reject_view r = Inr () \<and> counters_ok (rej_observed_counters r)
    \<and> distinct (map fst (rej_observed_counters r))"
proof -
  have "(\<exists>ks. try_fold validate_counter (rej_observed_counters r) {} = Inr ks) \<longleftrightarrow>
      list_all counter_ok (rej_observed_counters r) \<and> distinct (map fst (rej_observed_counters r))"
    unfolding validate_counters_iff by simp
  then show ?thesis
    by (auto simp: validate_reject_def result_simps counters_ok_def)
qed

lemma validate_reject_view_cong:
  "rej_session_id q = rej_session_id r \<Longrightarrow> rej_task_id q = rej_task_id r \<Longrightarrow>
   rej_failure_phase q = rej_failure_phase r \<Longrightarrow> rej_reason_code q = rej_reason_code r \<Longrightarrow>
   rej_cleanup_receipt q = rej_cleanup_receipt r \<Longrightarrow> validate_reject_view q = validate_reject_view r"
  by (simp add: validate_reject_view_def)

text \<open>A control with the counters of a rejection in the canonical order of their keys.\<close>

definition ordered_control :: "closure_control \<Rightarrow> closure_control" where
  "ordered_control control = (case control of
     Control_Reject value \<Rightarrow> Control_Reject (value\<lparr>rej_observed_counters := sort_key key_rank (rej_observed_counters value)\<rparr>)
   | _ \<Rightarrow> control)"

definition counters_sorted :: "closure_control \<Rightarrow> bool" where
  "counters_sorted control = (case control of
     Control_Reject value \<Rightarrow> sorted_wrt key_before (map fst (rej_observed_counters value)) | _ \<Rightarrow> True)"

lemma ordered_control_sorted: "counters_sorted c \<Longrightarrow> ordered_control c = c"
  by (simp add: counters_sorted_def ordered_control_def sort_key_sorted_id split: control_variant.splits)

lemma ordered_control_facts:
  assumes "validate_control c b = Inr ()"
  shows "validate_control (ordered_control c) b = Inr ()" "counters_sorted (ordered_control c)"
    "control_id (ordered_control c) = control_id c"
proof -
  have *: "validate_reject (r\<lparr>rej_observed_counters := sort_key key_rank (rej_observed_counters r)\<rparr>) = Inr ()"
    if "validate_reject r = Inr ()" for r
    using that validate_reject_view_cong [of "r\<lparr>rej_observed_counters := sort_key key_rank (rej_observed_counters r)\<rparr>" r]
      sort_key_strict [of "rej_observed_counters r"]
    by (simp add: validate_reject_iff counters_ok_def list_all_iff sorted_keys_distinct)
  show "validate_control (ordered_control c) b = Inr ()"
    using assms * by (simp add: validate_control_def ordered_control_def split: control_variant.splits)
  show "counters_sorted (ordered_control c)"
    using assms
    by (simp add: validate_control_def counters_sorted_def ordered_control_def validate_reject_iff sort_key_strict
        split: control_variant.splits)
  show "control_id (ordered_control c) = control_id c"
    by (simp add: control_id_def ordered_control_def split: control_variant.splits)
qed

lemma ordered_counters_value:
  "counters_ok cs \<Longrightarrow> map (\<lambda>f. (fst f, ordered_value (snd f))) cs = cs"
  by (rule map_idI) (auto simp: counters_ok_def list_all_iff counter_ok_def prod_eq_iff)

lemma ordered_fields_control:
  assumes "validate_control c b = Inr ()"
  shows "map (\<lambda>f. (fst f, ordered_value (snd f))) (control_fields c) = control_fields (ordered_control c)"
  using assms ordered_counters_value
  by (auto simp: all_control_fields ordered_control_def validate_control_def validate_reject_iff
      split: control_variant.splits source_closure_manifest.splits)

lemma ordered_control_value:
  assumes "validate_control c b = Inr ()"
  shows "ordered_value (Cbor_Map (control_fields c)) = Cbor_Map (sort_key key_rank (control_fields (ordered_control c)))"
  by (simp add: ordered_fields_control [OF assms])

section \<open>What the parser accepts\<close>

text \<open>The encoding of a control: its fields in canonical order.\<close>

definition closure_wire :: "closure_control \<Rightarrow> bytes" where
  "closure_wire control = cbor_bytes (Cbor_Map (sort_key key_rank (control_fields control)))"

abbreviation scan_decoder :: cbor_limits where
  "scan_decoder \<equiv> decoder_limits control_scan_limits"

lemma scan_decoder_limits [simp]:
  "max_bytes scan_decoder = 65536" "max_depth scan_decoder = 2" "max_items scan_decoder = 96"
  "max_text_bytes scan_decoder = 4096" "max_byte_string_bytes scan_decoder = 0"
  by (simp_all add: decoder_limits_def control_scan_limits_def max_control_bytes_def maximum_scan_depth_def)

lemma scan_control_iff:
  "sr_error (scan_canonical bs control_scan_limits) = Scan_None \<longleftrightarrow>
    (\<exists>fs. bs = cbor_bytes (Cbor_Map fs) \<and> cbor_ok scan_decoder 0 (Cbor_Map fs) \<and> cbor_items (Cbor_Map fs) \<le> 96
      \<and> length bs \<le> 65536 \<and> scan_shape control_scan_limits (Cbor_Map fs))"
proof -
  have lim: "sl_max_items control_scan_limits < 2 ^ 64" "sl_require_root_map control_scan_limits"
    by (simp_all add: control_scan_limits_def)
  show ?thesis
    unfolding scan_canonical_accepts [OF lim(1)] cbor_decode_iff kind_of_map scan_decoder_limits
    using lim(2) by blast
qed

lemma sorted_fields_unique:
  assumes "sorted_wrt key_before (map fst fs)" "set fs = set gs" "distinct (map fst gs)"
  shows "fs = sort_key key_rank gs"
proof (rule map_inj_on)
  show "map fst fs = map fst (sort_key key_rank gs)"
    using assms(1) sort_key_strict [OF assms(3)] by (rule sorted_keys_unique) (simp add: assms(2))
  show "inj_on fst (set fs \<union> set (sort_key key_rank gs))"
    using assms(2,3) by (simp add: distinct_map)
qed

lemma in_range_control: "length control \<le> 65536 \<Longrightarrow> in_range control"
  by (simp add: u32_max_def)

lemma parse_closure_control_sound:
  assumes "parse_closure_control t bs b = Inr p"
  defines "c \<equiv> own_control_view (make_control_view t bs p)"
  shows "t = control_id c" "validate_control c b = Inr ()" "counters_sorted c" "bs = closure_wire c"
    "cbor_ok scan_decoder 0 (Cbor_Map (sort_key key_rank (control_fields c)))"
    "cbor_items (Cbor_Map (control_fields c)) \<le> 96" "length bs \<le> 65536"
proof -
  have t: "is_closure_message t"
    and scan: "sr_error (scan_canonical bs control_scan_limits) = Scan_None"
    and valid: "validate_control_view (make_control_view t bs p) b = Inr ()"
    using assms(1) by (auto simp: parse_closure_control_def Let_def and_then_Inr_iff split: if_splits)
  obtain fs where bs: "bs = cbor_bytes (Cbor_Map fs)" "cbor_ok scan_decoder 0 (Cbor_Map fs)"
    "cbor_items (Cbor_Map fs) \<le> 96" "length bs \<le> 65536"
    using scan unfolding scan_control_iff by blast
  let ?hd = "append_head Map_Fields (word_of_nat (length fs))"
  have at: "drop 0 bs = ?hd @ concat (map field_bytes fs)"
    by (simp add: bs(1))
  have len: "unat (word_of_nat (length fs) :: u64) = length fs"
    using bs(2) by (simp add: unat_of_nat)
  have content: "drop (length ?hd) bs = concat (map field_bytes fs) @ []"
    by (simp add: bs(1))
  have ok: "list_all (\<lambda>f. cbor_ok scan_decoder 1 (snd f)) fs"
    using bs(2) by (simp add: list_all_iff)
  obtain seen cursor where loop: "repeat_result (length fs) (parse_control_field bs)
      (empty_parsed_control, field_mask [], length ?hd) = Inr (p, seen, cursor)"
    and seen: "seen = expected_mask t (pc_kind p)"
    using assms(1) t scan
    by (auto simp: parse_closure_control_def Let_def and_then_Inr_iff read_wire_head_at [OF at] len
        field_mask_def split: if_splits)
  note parsed = parse_control_fields_at [OF in_range_control [OF bs(4)] content ok, of "[]" empty_parsed_control]
  have fits: "distinct ([] @ map field_of fs) \<and> list_all entry_fits fs"
    using parsed loop by (auto split: if_splits)
  with parsed loop have seen': "seen = field_mask (map field_of fs)"
    and entries: "\<forall>f \<in> set fs. parsed_value bs p (field_of f) = snd f"
    by auto
  have fields: "field_of ` set fs = set (expected_fields t (pc_kind p))"
    using seen seen' by (simp add: expected_mask_def field_mask_eq_iff)
  have known: "wire_name (field_of f) = fst f" if "f \<in> set fs" for f
    using fits that by (auto simp: list_all_iff entry_fits_def intro: wire_name_identify)
  have cf: "control_fields c = map (\<lambda>f. (wire_name f, parsed_value bs p f)) (expected_fields t (pc_kind p))"
    unfolding c_def by (rule view_fields(2) [OF t])
  have "set (control_fields c) = (\<lambda>f. (wire_name f, parsed_value bs p f)) ` field_of ` set fs"
    by (simp add: cf fields)
  also have "\<dots> = (\<lambda>f. (wire_name (field_of f), parsed_value bs p (field_of f))) ` set fs"
    by (simp add: image_image)
  also have "\<dots> = set fs"
    using known entries by (force simp: image_iff)
  finally have set: "set fs = set (control_fields c)" by simp
  have sorted: "sorted_wrt key_before (map fst fs)"
    using bs(2) by simp
  have fs: "fs = sort_key key_rank (control_fields c)"
    by (rule sorted_fields_unique [OF sorted set control_keys_distinct])
  show id: "t = control_id c"
    unfolding c_def by (rule view_fields(1) [OF t, symmetric])
  show "bs = closure_wire c"
    using bs(1) by (simp add: closure_wire_def flip: fs)
  show "cbor_ok scan_decoder 0 (Cbor_Map (sort_key key_rank (control_fields c)))"
    using bs(2) by (simp only: fs [symmetric])
  show "cbor_items (Cbor_Map (control_fields c)) \<le> 96"
    using bs(3) unfolding fs by (simp add: sum_list_sort_key)
  show "length bs \<le> 65536" by (fact bs(4))
  have counters: "counters_ok cs \<and> sorted_wrt key_before (map fst cs)"
    if "(''observed_counters'', Cbor_Map cs) \<in> set (control_fields c)" for cs
  proof -
    have f: "(''observed_counters'', Cbor_Map cs) \<in> set fs"
      using that set by simp
    then have "entry_fits (''observed_counters'', Cbor_Map cs)" "cbor_ok scan_decoder 1 (Cbor_Map cs)"
      using fits ok by (auto simp: list_all_iff simp del: cbor_ok.simps)
    then show ?thesis
      by (simp add: entry_fits_def identify_field_def field_fits_def)
  qed
  have counters': "counters_ok (rej_observed_counters r) \<and> sorted_wrt key_before (map fst (rej_observed_counters r))"
    if "c = Control_Reject r" for r
    by (rule counters) (simp add: that control_fields_def reject_fields_def)
  show "counters_sorted c"
    using counters' by (simp add: counters_sorted_def split: control_variant.splits)
  have "validate_reject (own_reject v) = Inr ()" if v: "make_control_view t bs p = Control_Reject v" for v
  proof -
    have "c = Control_Reject (own_reject v)"
      by (simp add: c_def v own_control_view_def)
    moreover have "validate_reject_view (own_reject v) = validate_reject_view v"
      by (simp add: validate_reject_view_def own_reject_fields)
    moreover have "validate_reject_view v = Inr ()"
      using valid by (simp add: v validate_control_view_def)
    ultimately show ?thesis
      using counters' sorted_keys_distinct by (auto simp: validate_reject_iff)
  qed
  then show "validate_control c b = Inr ()"
    using valid
    by (auto simp: c_def own_control_view_def validate_control_def validate_control_view_def
        split: control_variant.splits)
qed

section \<open>Every encoding parses\<close>

lemma control_entries_fit:
  assumes "validate_control c b = Inr ()"
  shows "list_all entry_fits (control_fields c)"
  using assms
  by (auto simp: all_control_fields entry_fits_def identify_field_def field_fits_def text_slot_of_def
      number_slot_of_def kind_of_def validate_control_def validate_reject_iff
      split: control_variant.splits source_closure_manifest.splits)

lemma control_items:
  assumes "validate_control c b = Inr ()"
  shows "cbor_items (Cbor_Map (control_fields c)) \<le> 96" "length (control_fields c) \<le> 10"
proof -
  have uint: "sum_list (map (\<lambda>f. Suc (cbor_items (snd f))) cs) \<le> 64" if "counters_ok cs" for cs
  proof -
    have "map (\<lambda>f. Suc (cbor_items (snd f))) cs = map (\<lambda>_. 2) cs"
      using that by (auto simp: counters_ok_def list_all_iff counter_ok_def)
    then have "sum_list (map (\<lambda>f. Suc (cbor_items (snd f))) cs) = length cs * 2"
      by (simp only: sum_list_triv) simp
    then show ?thesis
      using that by (simp add: counters_ok_def)
  qed
  show "cbor_items (Cbor_Map (control_fields c)) \<le> 96"
    using assms
    by (auto simp: all_control_fields validate_control_def validate_reject_iff dest!: uint
        split: control_variant.splits source_closure_manifest.splits)
  show "length (control_fields c) \<le> 10"
    by (auto simp: all_control_fields split: control_variant.splits source_closure_manifest.splits)
qed

lemma fitting_value_ok:
  assumes "entry_fits f" "cbor_ok default_cbor_limits 1 (snd f)"
  shows "cbor_ok scan_decoder 1 (snd f)" "scan_shape control_scan_limits (snd f)"
proof -
  consider t where "snd f = Cbor_Text t" | n where "snd f = Cbor_Unsigned n"
    | cs where "snd f = Cbor_Map cs" "counters_ok cs"
    using assms(1) by (auto simp: entry_fits_def field_fits_def kind_is_text kind_of_uint split: if_splits)
  then have "cbor_ok scan_decoder 1 (snd f) \<and> scan_shape control_scan_limits (snd f)"
  proof cases
    case (3 cs)
    have shape: "scan_shape control_scan_limits (snd g) \<and> cbor_ok scan_decoder 2 (snd g)" if "g \<in> set cs" for g
    proof -
      obtain n where "snd g = Cbor_Unsigned n"
        using 3(2) \<open>g \<in> set cs\<close> by (auto simp: counters_ok_def list_all_iff counter_ok_def)
      then show ?thesis
        by (simp add: decoder_limits_def control_scan_limits_def maximum_scan_depth_def)
    qed
    have "text_ok scan_decoder (fst g)" if "g \<in> set cs" for g
      using assms(2) that
      by (auto simp: 3(1) list_all_iff text_ok_def default_cbor_limits_def control_scan_limits_def)
    then show ?thesis
      using assms(2) shape 3(2)
      by (auto simp: 3(1) list_all_iff counters_ok_def control_scan_limits_def maximum_scan_depth_def
          numeral_2_eq_2)
  qed (use assms(2) in \<open>simp_all add: text_ok_def default_cbor_limits_def control_scan_limits_def
         maximum_scan_depth_def\<close>)
  then show "cbor_ok scan_decoder 1 (snd f)" "scan_shape control_scan_limits (snd f)"
    by blast+
qed

definition kinds_ok :: "'c control_variant \<Rightarrow> bool" where
  "kinds_ok control = (case control of
     Control_Manifest (Manifest_Descriptor value) \<Rightarrow> md_kind value = Kind_Descriptor
   | Control_Manifest (Manifest_Chunk value) \<Rightarrow> mc_kind value = Kind_Chunk
   | _ \<Rightarrow> True)"

lemma validate_control_kinds: "validate_control c b = Inr () \<Longrightarrow> kinds_ok c"
  by (auto simp: validate_control_def validate_control_view_def kinds_ok_def validate_manifest_descriptor_def
      validate_manifest_chunk_def split: control_variant.splits source_closure_manifest.splits if_splits)

lemma view_kinds: "kinds_ok (own_control_view (make_control_view t control p))"
  by (cases "pc_kind p") (simp_all add: make_control_view_def own_control_view_def kinds_ok_def Let_def)

lemma control_fields_inject:
  assumes "kinds_ok c" "kinds_ok d" "control_id c = control_id d" "control_fields c = control_fields d"
  shows "c = d"
proof (cases c)
  case (Control_Manifest m)
  with assms(3) obtain n where d: "d = Control_Manifest n"
    by (cases d) (simp_all add: control_id_def closure_ids)
  show ?thesis
    using assms(1,2,4)
    by (cases m; cases n) (auto simp: Control_Manifest d all_control_fields kinds_ok_def)
next
  case (Control_Blob v)
  then show ?thesis
    using assms(3,4) by (cases d) (auto simp: control_id_def closure_ids all_control_fields)
next
  case (Control_Chunk v)
  then show ?thesis
    using assms(3,4) by (cases d) (auto simp: control_id_def closure_ids all_control_fields)
next
  case (Control_Seal v)
  then show ?thesis
    using assms(3,4) by (cases d) (auto simp: control_id_def closure_ids all_control_fields)
next
  case (Control_Ack v)
  then show ?thesis
    using assms(3,4) by (cases d) (auto simp: control_id_def closure_ids all_control_fields)
next
  case (Control_Reject v)
  then show ?thesis
    using assms(3,4) by (cases d) (auto simp: control_id_def closure_ids all_control_fields)
qed

lemma validate_own_view: "validate_control (own_control_view v) b = Inr () \<Longrightarrow> validate_control_view v b = Inr ()"
  by (auto simp: own_control_view_def validate_control_def validate_control_view_def validate_reject_iff
      validate_reject_view_def own_reject_fields split: control_variant.splits)

lemma fields_scannable:
  assumes "validate_control c b = Inr ()"
    and ok: "cbor_ok default_cbor_limits 0 (Cbor_Map (sort_key key_rank (control_fields c)))"
    and size: "length (closure_wire c) \<le> 65536"
  shows "sr_error (scan_canonical (closure_wire c) control_scan_limits) = Scan_None"
    "list_all (\<lambda>f. cbor_ok scan_decoder 1 (snd f)) (sort_key key_rank (control_fields c))"
proof -
  let ?fs = "sort_key key_rank (control_fields c)"
  have value_ok: "cbor_ok scan_decoder 1 (snd f) \<and> scan_shape control_scan_limits (snd f)" if "f \<in> set ?fs" for f
  proof -
    have "entry_fits f"
      using control_entries_fit [OF assms(1)] that by (simp add: list_all_iff)
    moreover have "cbor_ok default_cbor_limits 1 (snd f)"
      using ok that by (auto simp: list_all_iff)
    ultimately show ?thesis
      using fitting_value_ok by blast
  qed
  then show "list_all (\<lambda>f. cbor_ok scan_decoder 1 (snd f)) ?fs"
    by (simp add: list_all_iff)
  have key_ok: "text_ok scan_decoder (fst f)" if "f \<in> set ?fs" for f
    using ok that by (auto simp: list_all_iff text_ok_def default_cbor_limits_def control_scan_limits_def)
  have "cbor_ok scan_decoder 0 (Cbor_Map ?fs)"
    using ok value_ok key_ok control_items(2) [OF assms(1)]
    by (auto simp: list_all_iff control_scan_limits_def maximum_scan_depth_def)
  moreover have "scan_shape control_scan_limits (Cbor_Map ?fs)"
    using value_ok control_items(2) [OF assms(1)] by (auto simp: list_all_iff control_scan_limits_def)
  moreover have "cbor_items (Cbor_Map ?fs) \<le> 96"
    using control_items(1) [OF assms(1)] by (simp add: sum_list_sort_key)
  ultimately show "sr_error (scan_canonical (closure_wire c) control_scan_limits) = Scan_None"
    unfolding scan_control_iff using size by (auto simp: closure_wire_def simp del: cbor_bytes.simps cbor_ok.simps)
qed

abbreviation kind_of_control :: "closure_control \<Rightarrow> manifest_kind" where
  "kind_of_control c \<equiv> (case c of Control_Manifest (Manifest_Chunk _) \<Rightarrow> Kind_Chunk | _ \<Rightarrow> Kind_Descriptor)"

lemma expected_fields_kind:
  assumes "\<And>m. c = Control_Manifest m \<Longrightarrow> k = kind_of_control c"
  shows "expected_fields (control_id c) k = expected_fields (control_id c) (kind_of_control c)"
  using assms by (cases c) (simp_all add: control_id_def expected_fields_def)

lemma kind_entry:
  "c = Control_Manifest m \<Longrightarrow> (''kind'', Cbor_Text (kind_name (kind_of_control c))) \<in> set (control_fields c)"
  by (cases m) (simp_all add: all_control_fields kind_name_def)

lemma kind_name_inject: "kind_name j = kind_name k \<longleftrightarrow> j = k"
  by (cases j; cases k) (simp_all add: kind_name_def)

lemma parse_closure_control_complete:
  assumes valid: "validate_control c b = Inr ()"
    and ok: "cbor_ok default_cbor_limits 0 (Cbor_Map (sort_key key_rank (control_fields c)))"
    and size: "length (closure_wire c) \<le> 65536"
  shows "\<exists>p. parse_closure_control (control_id c) (closure_wire c) b = Inr p
    \<and> own_control_view (make_control_view (control_id c) (closure_wire c) p) = c"
proof -
  let ?fs = "sort_key key_rank (control_fields c)"
  let ?bs = "closure_wire c"
  let ?hd = "append_head Map_Fields (word_of_nat (length ?fs))"
  note scan = fields_scannable [OF valid ok size]
  have at: "drop 0 ?bs = ?hd @ concat (map field_bytes ?fs)"
    by (simp add: closure_wire_def)
  have content: "drop (length ?hd) ?bs = concat (map field_bytes ?fs) @ []"
    by (simp add: closure_wire_def)
  have count: "unat (word_of_nat (length ?fs) :: u64) = length ?fs" "length ?fs \<le> 10"
    using control_items(2) [OF valid] by (simp_all add: unat_of_nat)
  have entries: "list_all entry_fits ?fs"
    using control_entries_fit [OF valid] by (simp add: list_all_iff)
  have keys: "distinct (map fst ?fs)"
    using ok sorted_keys_distinct by simp
  have named: "fst f = wire_name (field_of f)" if "f \<in> set ?fs" for f
    using entries that by (auto simp: list_all_iff entry_fits_def wire_name_identify)
  have "map fst ?fs = map wire_name (map field_of ?fs)"
    using named by simp
  then have dist: "distinct (map field_of ?fs)"
    using keys by (metis distinct_map)
  have fits: "distinct ([] @ map field_of ?fs) \<and> list_all entry_fits ?fs"
    using dist entries by simp
  note loop = parse_control_fields_at [OF in_range_control [OF size] content scan(2), of "[]" empty_parsed_control]
  obtain p where p: "repeat_result (length ?fs) (parse_control_field ?bs) (empty_parsed_control, field_mask [], length ?hd)
      = Inr (p, field_mask (map field_of ?fs), length ?bs)"
    and parsed: "\<forall>f \<in> set ?fs. parsed_value ?bs p (field_of f) = snd f"
    using loop unfolding if_P [OF fits] by (auto simp: closure_wire_def)
  let ?c = "own_control_view (make_control_view (control_id c) ?bs p)"
  have "pc_kind p = kind_of_control c" if m: "c = Control_Manifest m" for m
  proof -
    have "parsed_value ?bs p (field_of (''kind'', Cbor_Text (kind_name (kind_of_control c))))
        = snd (''kind'', Cbor_Text (kind_name (kind_of_control c)))"
      by (rule parsed [rule_format]) (simp only: set_sort kind_entry [OF m])
    then have "kind_name (pc_kind p) = kind_name (kind_of_control c)"
      by (simp add: identify_field_def field_values)
    then show ?thesis
      by (simp only: kind_name_inject)
  qed
  then have expected: "expected_fields (control_id c) (pc_kind p) = expected_fields (control_id c) (kind_of_control c)"
    by (rule expected_fields_kind)
  have "control_fields c = map (\<lambda>f. (fst f, parsed_value ?bs p (field_of f))) (control_fields c)"
    using parsed by (intro map_idI [symmetric]) (auto simp: prod_eq_iff)
  also have "\<dots> = map (\<lambda>k. (k, parsed_value ?bs p (identify_field k))) (map fst (control_fields c))"
    by simp
  also have "\<dots> = map (\<lambda>f. (wire_name f, parsed_value ?bs p f)) (expected_fields (control_id c) (pc_kind p))"
    unfolding expected_names expected by (simp add: identify_wire_name)
  finally have fields: "control_fields ?c = control_fields c"
    using view_fields(2) [OF control_id_closure, of c ?bs p] by simp
  have own: "?c = c"
    by (rule control_fields_inject [OF view_kinds validate_control_kinds [OF valid] view_fields(1) [OF control_id_closure] fields])
  have "set (map field_of ?fs) = set (expected_fields (control_id c) (pc_kind p))"
  proof -
    have "set (map field_of ?fs) = identify_field ` set (map fst (control_fields c))"
      by (simp add: image_image)
    then show ?thesis
      unfolding expected_names expected by (simp add: image_image identify_wire_name)
  qed
  then have mask: "field_mask (map field_of ?fs) = expected_mask (control_id c) (pc_kind p)"
    by (simp only: expected_mask_def field_mask_eq_iff)
  have "validate_control_view (make_control_view (control_id c) ?bs p) b = Inr ()"
    by (rule validate_own_view) (simp add: own valid)
  then have "parse_closure_control (control_id c) ?bs b = Inr p"
    using p mask count scan(1)
    by (simp add: parse_closure_control_def control_id_closure read_wire_head_at [OF at] major_codes
        field_mask_def [of "[]"] word_le_nat_alt not_less word_less_nat_alt)
  then show ?thesis
    using own by blast
qed

section \<open>Encoding\<close>

lemma default_limits_64 [simp]: "limits_64 default_cbor_limits"
  by (simp add: limits_64_def default_cbor_limits_def)

lemma default_max: "max_bytes default_cbor_limits = 65536" "max_items default_cbor_limits = 4096"
  by (simp_all add: default_cbor_limits_def)

lemma encode_closure_control_iff:
  "encode_closure_control t c b = Inr bs \<longleftrightarrow> t = control_id c \<and> validate_control c b = Inr ()
    \<and> bs = closure_wire (ordered_control c) \<and> length bs \<le> 65536
    \<and> cbor_ok default_cbor_limits 0 (Cbor_Map (sort_key key_rank (control_fields (ordered_control c))))
    \<and> cbor_encode (Cbor_Map (control_fields c)) default_cbor_limits = Inr bs" (is "?L \<longleftrightarrow> ?R")
proof
  assume ?L
  then have m: "t = control_id c" "validate_control c b = Inr ()"
    and e: "cbor_encode (Cbor_Map (control_fields c)) default_cbor_limits = Inr bs"
    by (auto simp: encode_closure_control_def and_then_Inr_iff map_for_iff)
  have "ordered_value (Cbor_Map (control_fields c)) = Cbor_Map (sort_key key_rank (control_fields (ordered_control c)))"
    by (rule ordered_control_value [OF m(2)])
  with m e cbor_encode_exact [OF e default_limits_64] show ?R
    by (simp add: closure_wire_def default_max del: cbor_bytes.simps cbor_ok.simps)
next
  assume ?R
  then show ?L
    by (auto simp: encode_closure_control_def and_then_Inr_iff map_for_iff)
qed

lemma cbor_ok_scan_default:
  "cbor_ok scan_decoder d v \<Longrightarrow> cbor_ok default_cbor_limits d v"
proof (induction v arbitrary: d rule: ordered_value.induct)
  case (1 vs)
  then show ?case
    by (auto simp: list_all_iff control_scan_limits_def maximum_scan_depth_def default_cbor_limits_def)
next
  case (2 fs)
  then show ?case
    by (fastforce simp: list_all_iff text_ok_def control_scan_limits_def maximum_scan_depth_def default_cbor_limits_def)
qed (auto simp: text_ok_def control_scan_limits_def maximum_scan_depth_def default_cbor_limits_def)

text \<open>The two directions, for the control a view owns.\<close>

lemma parse_then_encode:
  assumes "parse_closure_control t bs b = Inr p"
  shows "encode_closure_control t (own_control_view (make_control_view t bs p)) b = Inr bs"
    "counters_sorted (own_control_view (make_control_view t bs p))"
proof -
  let ?c = "own_control_view (make_control_view t bs p)"
  note s = parse_closure_control_sound [OF assms]
  have ord: "ordered_control ?c = ?c"
    by (rule ordered_control_sorted [OF s(3)])
  have ok: "cbor_ok default_cbor_limits 0 (Cbor_Map (sort_key key_rank (control_fields ?c)))"
    by (rule cbor_ok_scan_default [OF s(5)])
  have "cbor_nodes (Cbor_Map (control_fields ?c)) \<le> max_items default_cbor_limits"
    using s(6) cbor_nodes_le_items [of "Cbor_Map (control_fields ?c)"] by (simp add: default_max)
  then have "cbor_encode (Cbor_Map (control_fields ?c)) default_cbor_limits = Inr bs"
    using cbor_encode_ordered [of default_cbor_limits "Cbor_Map (control_fields ?c)"] ok s(4,7)
    by (simp add: ordered_control_value [OF s(2)] ord closure_wire_def default_max del: cbor_bytes.simps
        cbor_ok.simps ordered_value.simps cbor_nodes.simps)
  then show "encode_closure_control t ?c b = Inr bs"
    unfolding encode_closure_control_iff ord using s ok by simp
  show "counters_sorted ?c" by (fact s(3))
qed

lemma encode_then_parse:
  assumes "encode_closure_control t c b = Inr bs"
  shows "\<exists>p. parse_closure_control t bs b = Inr p \<and> own_control_view (make_control_view t bs p) = ordered_control c"
proof -
  note e = assms [unfolded encode_closure_control_iff]
  have valid: "validate_control (ordered_control c) b = Inr ()" "control_id (ordered_control c) = t"
    using e ordered_control_facts by auto
  have size: "length (closure_wire (ordered_control c)) \<le> 65536"
    "cbor_ok default_cbor_limits 0 (Cbor_Map (sort_key key_rank (control_fields (ordered_control c))))"
    using e by auto
  from parse_closure_control_complete [OF valid(1) size(2,1)] show ?thesis
    using e valid(2) by auto
qed

section \<open>Owned controls\<close>

lemma resident_sum: "try_fold resident_add xs s = Inr n \<Longrightarrow> n = s + sum_list xs"
proof (induction xs arbitrary: s)
  case Nil
  then show ?case by simp
next
  case (Cons x xs)
  then obtain m where m: "resident_add x s = Inr m" "try_fold resident_add xs m = Inr n"
    by (auto simp: and_then_Inr_iff)
  then have "m = s + x"
    by (simp add: resident_add_def split: if_splits)
  with m(2) have "try_fold resident_add xs (s + x) = Inr n" by simp
  from Cons.IH [OF this] show ?case by simp
qed

lemma resident_sum_small: "s + sum_list xs \<le> size_t_max \<Longrightarrow> try_fold resident_add xs s = Inr (s + sum_list xs)"
proof (induction xs arbitrary: s)
  case Nil
  then show ?case by simp
next
  case (Cons x xs)
  then have "resident_add x s = Inr (s + x)"
    by (simp add: resident_add_def)
  then show ?case
    using Cons by (simp add: add.assoc)
qed

lemma resident_limit_small: "resident_limit b < size_t_max"
proof -
  have "resident_limit b \<le> 1310720"
    by (simp add: resident_limit_def max_closure_resident_transport_bytes_def)
  then show ?thesis by (simp add: size_t_max_def)
qed

lemma within_resident_limit_iff [result_simps]: "within_resident_limit b n = Inr u \<longleftrightarrow> n \<le> resident_limit b"
  by (simp add: within_resident_limit_def)

text \<open>A running total that must stay within the resident limit.\<close>

lemma resident_chain:
  "and_then (try_fold resident_add xs s) (\<lambda>n. and_then (within_resident_limit b n) (\<lambda>_. k)) = Inr y
    \<longleftrightarrow> s + sum_list xs \<le> resident_limit b \<and> k = Inr y" (is "?L \<longleftrightarrow> ?R")
proof
  assume ?L
  then show ?R
    using resident_sum [of xs s] by (auto simp: and_then_Inr_iff within_resident_limit_iff)
next
  assume r: ?R
  then have "try_fold resident_add xs s = Inr (s + sum_list xs)"
    using resident_limit_small [of b] by (intro resident_sum_small) linarith
  then show ?L
    using r by (simp add: within_resident_limit_def)
qed

text \<open>The memory a control may occupy while it is decoded to an owned value.\<close>

definition control_fits :: "host_layout \<Rightarrow> closure_limits \<Rightarrow> bytes \<Rightarrow> closure_control \<Rightarrow> bool" where
  "control_fits layout bound control value =
    (let caller = fixed_header_bytes + ly_frame layout + length control;
         token = ly_vector_capacity layout (length control) + ly_decode_workspace layout
     in caller + ly_decode_workspace layout + 4 * max_control_bytes + 64 * ly_map_entry layout
          + ly_control layout + ly_control_result layout \<le> resident_limit bound
        \<and> caller + ly_vector_capacity layout 0 + token \<le> resident_limit bound
        \<and> caller + token + owned_control_resident layout value + ly_control_result layout \<le> resident_limit bound)"

lemma decode_token_iff:
  "decode_closure_control_token layout t bs cap n ncap b fixed = Inr k \<longleftrightarrow>
    bs \<noteq> [] \<and> length bs \<le> max_control_bytes
    \<and> n \<le> min (maximum_chunk_payload_bytes b) max_closure_chunk_payload_bytes
    \<and> fixed_header_bytes + fixed + ncap + (cap + ly_decode_workspace layout) \<le> resident_limit b
    \<and> (\<exists>p. parse_closure_control t bs b = Inr p
      \<and> k = \<lparr>tk_type = t, tk_control = bs, tk_parsed = p, tk_resident_bytes = cap + ly_decode_workspace layout,
          tk_control_digest = sha256 bs, tk_consumed = False\<rparr>)"
  (is "?L \<longleftrightarrow> ?R")
proof -
  let ?resident = "cap + ly_decode_workspace layout"
  let ?k = "\<lambda>token_resident. and_then (parse_closure_control t bs b) (\<lambda>p. Inr \<lparr>tk_type = t, tk_control = bs,
    tk_parsed = p, tk_resident_bytes = token_resident, tk_control_digest = sha256 bs, tk_consumed = False\<rparr>)"
  have token: "and_then (try_fold resident_add [cap, ly_decode_workspace layout] 0) (\<lambda>token_resident.
        and_then (try_fold resident_add [fixed_header_bytes, fixed, ncap, token_resident] 0) (\<lambda>peak_resident.
        and_then (within_resident_limit b peak_resident) (\<lambda>_. ?k token_resident))) = Inr k
      \<longleftrightarrow> fixed_header_bytes + fixed + ncap + ?resident \<le> resident_limit b \<and> ?k ?resident = Inr k"
    (is "and_then _ ?peak = _ \<longleftrightarrow> ?fits \<and> _")
  proof -
    have peak: "?peak n = Inr k \<longleftrightarrow> fixed_header_bytes + fixed + ncap + n \<le> resident_limit b \<and> ?k n = Inr k" for n
      unfolding resident_chain by (simp add: add.assoc)
    have "try_fold resident_add [cap, ly_decode_workspace layout] 0 = Inr ?resident" if ?fits
      using resident_sum_small [of 0 "[cap, ly_decode_workspace layout]"] that resident_limit_small [of b]
      by simp
    moreover have "n = ?resident" if "try_fold resident_add [cap, ly_decode_workspace layout] 0 = Inr n" for n
      using resident_sum [OF that] by simp
    ultimately show ?thesis
      unfolding and_then_Inr_iff [of "try_fold resident_add [cap, ly_decode_workspace layout] 0"] peak by blast
  qed
  show ?thesis
    unfolding decode_closure_control_token_def if_Inl_Inr_iff token
    by (auto simp: and_then_Inr_iff)
qed

lemma decode_closure_control_iff:
  "decode_closure_control layout t bs b = Inr c \<longleftrightarrow> bs \<noteq> [] \<and> length bs \<le> max_control_bytes \<and> control_fits layout b bs c
    \<and> (\<exists>p. parse_closure_control t bs b = Inr p \<and> c = own_control_view (make_control_view t bs p))"
proof -
  have closure: "is_closure_message t" if "parse_closure_control t bs b = Inr p" for p
    using that by (simp add: parse_closure_control_def split: if_splits)
  have consume: "fst (token_consume \<lparr>tk_type = t, tk_control = bs, tk_parsed = p, tk_resident_bytes = n,
      tk_control_digest = d, tk_consumed = False\<rparr>) = Inr v \<longleftrightarrow> bs \<noteq> [] \<and> v = make_control_view t bs p" for p n d v
    by (auto simp: token_consume_def token_value_def)
  show ?thesis
    unfolding decode_closure_control_def Let_def if_Inl_Inr_iff resident_chain
      and_then_Inr_iff [of "decode_closure_control_token _ _ _ _ _ _ _ _"] decode_token_iff
      and_then_Inr_iff [of "fst (token_consume _)"] control_fits_def
    using closure consume by (auto simp: add.assoc resident_chain max_control_bytes_def)
qed

lemma decoded_control_encodes:
  assumes "decode_closure_control layout t bs b = Inr c"
  shows "encode_closure_control t c b = Inr bs" "counters_sorted c"
  using assms parse_then_encode unfolding decode_closure_control_iff by blast+

lemma closure_wire_nonempty: "closure_wire c \<noteq> []"
  unfolding closure_wire_def by (rule cbor_bytes_nonempty)

lemma encoded_control_size:
  assumes "encode_closure_control t c b = Inr bs"
  shows "bs \<noteq> []" "length bs \<le> max_control_bytes"
  using assms closure_wire_nonempty unfolding encode_closure_control_iff max_control_bytes_def by auto

interpretation closure_codec: canonical_codec
  "\<lambda>c. encode_closure_control t c b" "\<lambda>bs. decode_closure_control layout t bs b" for t b layout
  by unfold_locales (rule decoded_control_encodes)

text \<open>
  C21: the wire form of source-closure controls is exact. On every host a byte string decodes to a
  control, under given limits, if and only if it is what the encoder writes for that control, the
  counters of a rejection being in canonical order, and the memory the decoder accounts for stays within
  the resident limit. So nothing decodes that the encoder would not produce, every encoding decodes, and
  no control has two spellings.
\<close>

theorem closure_control_wire_exact:
  "decode_closure_control layout t bs b = Inr c \<longleftrightarrow>
    encode_closure_control t c b = Inr bs \<and> counters_sorted c \<and> control_fits layout b bs c"
proof
  assume d: "decode_closure_control layout t bs b = Inr c"
  then show "encode_closure_control t c b = Inr bs \<and> counters_sorted c \<and> control_fits layout b bs c"
    using decoded_control_encodes [OF d] unfolding decode_closure_control_iff by blast
next
  assume e: "encode_closure_control t c b = Inr bs \<and> counters_sorted c \<and> control_fits layout b bs c"
  then have "\<exists>p. parse_closure_control t bs b = Inr p \<and> own_control_view (make_control_view t bs p) = c"
    using encode_then_parse [of t c b bs] ordered_control_sorted [of c] by simp
  then show "decode_closure_control layout t bs b = Inr c"
    unfolding decode_closure_control_iff using e encoded_control_size [of t c b bs] by auto
qed

end
