(* ===== verification/Closure_Transfer.thy ===== *)
theory Closure_Transfer
  imports Closure_Wire
begin

text \<open>
  The source-closure transfer of \<open>src/protocol_v2/closure.cpp\<close> and \<open>closure.hpp\<close>: the state machine
  over received frames that checks bindings, order, chunk shape and counters, and the two-step
  acknowledgement (prepare the wire, commit after it was sent). The lemmas follow the bytes of the
  accepted frames: what a sealed transfer has received is complete.
\<close>

section \<open>State\<close>

datatype closure_phase = Task_V4_Sealed | Manifest_Open | Manifest_Streaming | Manifest_Validated
  | Blob_Streaming | Closure_Sealed | Acknowledged | Transfer_Rejected

record closure_session =
  cs_session_id :: string
  cs_task_id :: string
  cs_task_v4_digest :: string
  cs_closure_digest :: string
  cs_manifest_digest :: string
  cs_stream_id :: u64
  cs_initial_credit :: credit
  cs_limits :: closure_limits
  cs_first_sequence :: u64

text \<open>A text of at most 96 bytes in fixed storage.\<close>

record fixed_text =
  ft_storage :: string
  ft_size :: byte

definition fixed_text_capacity :: nat where "fixed_text_capacity = 96"

definition empty_fixed_text :: fixed_text where
  "empty_fixed_text = \<lparr>ft_storage = replicate fixed_text_capacity (char_of_byte 0), ft_size = 0\<rparr>"

definition fixed_text_assign :: "string \<Rightarrow> fixed_text \<Rightarrow> fixed_text option" where
  "fixed_text_assign value current =
    (if length value > fixed_text_capacity then None
     else Some \<lparr>ft_storage = value @ drop (length value) (ft_storage current), ft_size = word_of_nat (length value)\<rparr>)"

definition fixed_text_view :: "fixed_text \<Rightarrow> string" where
  "fixed_text_view current = take (unat (ft_size current)) (ft_storage current)"

record transfer_state =
  ts_sequence :: sequence_guard
  ts_credit :: credit
  ts_phase :: closure_phase
  ts_manifest_total :: u64
  ts_manifest_chunk_bytes :: u64
  ts_manifest_chunk_count :: u64
  ts_manifest_next_chunk :: u64
  ts_manifest_observed :: u64
  ts_next_blob_ordinal :: u64
  ts_current_blob_ordinal :: u64
  ts_current_blob_digest :: fixed_text
  ts_current_blob_total :: u64
  ts_current_blob_chunk_bytes :: u64
  ts_current_blob_chunk_count :: u64
  ts_current_blob_next_chunk :: u64
  ts_current_blob_observed :: u64
  ts_blob_observed_total :: u64
  ts_sealed_transfer_digest :: fixed_text

definition initial_transfer_state :: "closure_session \<Rightarrow> transfer_state" where
  "initial_transfer_state session =
    \<lparr>ts_sequence = sequence_guard_new (cs_stream_id session) (cs_first_sequence session),
     ts_credit = cs_initial_credit session, ts_phase = Task_V4_Sealed, ts_manifest_total = 0,
     ts_manifest_chunk_bytes = 0, ts_manifest_chunk_count = 0, ts_manifest_next_chunk = 0,
     ts_manifest_observed = 0, ts_next_blob_ordinal = 0, ts_current_blob_ordinal = 0,
     ts_current_blob_digest = empty_fixed_text, ts_current_blob_total = 0, ts_current_blob_chunk_bytes = 0,
     ts_current_blob_chunk_count = 0, ts_current_blob_next_chunk = 0, ts_current_blob_observed = 0,
     ts_blob_observed_total = 0, ts_sealed_transfer_digest = empty_fixed_text\<rparr>"

record closure_transfer =
  ct_session :: closure_session
  ct_state :: transfer_state
  ct_generation :: u64
  ct_active :: bool

definition transfer_create :: "closure_session \<Rightarrow> closure_transfer result" where
  "transfer_create session =
    (if cs_session_id session = [] \<or> cs_task_id session = [] \<or> cs_stream_id session = 0
     then Inl (closure_error ''session'' ''binding-invalid'' ''session-binding-mismatch'')
     else and_then (valid_texts [(''session_id'', cs_session_id session), (''task_id'', cs_task_id session)]) (\<lambda>_.
       and_then (valid_semantics (filter (\<lambda>(field, digest). digest \<noteq> [])
         [(''task_v4_digest'', cs_task_v4_digest session), (''closure_digest'', cs_closure_digest session),
          (''manifest_digest'', cs_manifest_digest session)])) (\<lambda>_.
         if cr_bytes (cs_initial_credit session) = 0 \<or> cr_frames (cs_initial_credit session) = 0
         then Inl (limit_exceeded ''credit'' ''zero'')
         else Inr \<lparr>ct_session = session, ct_state = initial_transfer_state session, ct_generation = 1,
           ct_active = True\<rparr>)))"

text \<open>
  The move operations: the moved-to object and what is left of the moved-from one. Assignment gives the
  target a generation of its own, so that a transition prepared before it cannot be committed.
\<close>

definition transfer_move :: "closure_transfer \<Rightarrow> closure_transfer \<times> closure_transfer" where
  "transfer_move other = (other, other\<lparr>ct_active := False, ct_generation := ct_generation other + 1\<rparr>)"

definition transfer_assign :: "closure_transfer \<Rightarrow> closure_transfer \<Rightarrow> closure_transfer \<times> closure_transfer" where
  "transfer_assign target other =
    (\<lparr>ct_session = ct_session other, ct_state = ct_state other, ct_generation = ct_generation target + 1,
       ct_active = ct_active other\<rparr>,
     other\<lparr>ct_active := False, ct_generation := ct_generation other + 1\<rparr>)"

section \<open>Transitions\<close>

definition bind_common :: "closure_session \<Rightarrow> string \<Rightarrow> string \<Rightarrow> string \<Rightarrow> unit result" where
  "bind_common session session_id task_id closure_digest =
    (if session_id \<noteq> cs_session_id session
     then Inl (closure_error ''session_id'' ''mismatch'' ''session-binding-mismatch'')
     else if task_id \<noteq> cs_task_id session
     then Inl (closure_error ''task_id'' ''mismatch'' ''task-binding-mismatch'')
     else if closure_digest \<noteq> [] \<and> cs_closure_digest session \<noteq> [] \<and> closure_digest \<noteq> cs_closure_digest session
     then Inl (closure_error ''closure_digest'' ''mismatch'' ''task-binding-mismatch'')
     else Inr ())"

definition descriptor_transition :: "closure_session \<Rightarrow> source_closure_manifest_descriptor \<Rightarrow> transfer_state
    \<Rightarrow> transfer_state result" where
  "descriptor_transition session descriptor state =
    (if ts_phase state \<noteq> Task_V4_Sealed then Inl (state_invalid ''phase'' ''manifest-reopen'')
     else and_then (bind_common session (md_session_id descriptor) (md_task_id descriptor)
         (md_closure_digest descriptor)) (\<lambda>_.
       if cs_task_v4_digest session \<noteq> [] \<and> md_task_v4_digest descriptor \<noteq> cs_task_v4_digest session
       then Inl (closure_error ''task_v4_digest'' ''mismatch'' ''task-binding-mismatch'')
       else if cs_manifest_digest session \<noteq> [] \<and> md_manifest_digest descriptor \<noteq> cs_manifest_digest session
       then Inl (closure_error ''manifest_digest'' ''mismatch'' ''digest-mismatch'')
       else Inr (state\<lparr>ts_manifest_total := md_total_bytes descriptor,
         ts_manifest_chunk_bytes := md_chunk_bytes descriptor,
         ts_manifest_chunk_count := md_chunk_count descriptor, ts_manifest_next_chunk := 0,
         ts_manifest_observed := 0,
         ts_phase := (if md_chunk_count descriptor = 0 then Manifest_Validated else Manifest_Streaming)\<rparr>)))"

definition manifest_chunk_transition :: "closure_session \<Rightarrow> source_closure_manifest_chunk \<Rightarrow> transfer_state
    \<Rightarrow> transfer_state result" where
  "manifest_chunk_transition session chunk state =
    (if ts_phase state \<noteq> Manifest_Streaming \<and> ts_phase state \<noteq> Manifest_Open
     then Inl (state_invalid ''phase'' ''manifest-chunk-order'')
     else and_then (bind_common session (mc_session_id chunk) (mc_task_id chunk) []) (\<lambda>_.
       if mc_manifest_digest chunk \<noteq> cs_manifest_digest session \<and> cs_manifest_digest session \<noteq> []
       then Inl (closure_error ''manifest_digest'' ''mismatch'' ''digest-mismatch'')
       else if ts_manifest_observed state > ts_manifest_total state
         \<or> mc_chunk_index chunk \<noteq> ts_manifest_next_chunk state
         \<or> mc_offset chunk \<noteq> ts_manifest_observed state
         \<or> mc_byte_count chunk > ts_manifest_total state - ts_manifest_observed state
         \<or> (mc_chunk_index chunk + 1 < ts_manifest_chunk_count state
            \<and> mc_byte_count chunk \<noteq> ts_manifest_chunk_bytes state)
         \<or> (mc_chunk_index chunk + 1 = ts_manifest_chunk_count state
            \<and> mc_byte_count chunk \<noteq> ts_manifest_total state - ts_manifest_observed state)
       then Inl (closure_error ''chunk'' ''gap-overlap-or-reorder'' ''chunk-order-invalid'')
       else
        (let next_chunk = ts_manifest_next_chunk state + 1
         in Inr (state\<lparr>ts_manifest_observed := ts_manifest_observed state + mc_byte_count chunk,
           ts_manifest_next_chunk := next_chunk,
           ts_phase := (if next_chunk = ts_manifest_chunk_count state then Manifest_Validated
             else ts_phase state)\<rparr>))))"

definition blob_transition :: "closure_session \<Rightarrow> source_closure_blob_descriptor \<Rightarrow> transfer_state
    \<Rightarrow> transfer_state result" where
  "blob_transition session item state =
    (if ts_phase state \<noteq> Manifest_Validated then Inl (state_invalid ''phase'' ''blob-before-manifest'')
     else and_then (bind_common session (bd_session_id item) (bd_task_id item) (bd_closure_digest item)) (\<lambda>_.
       if bd_blob_ordinal item \<noteq> ts_next_blob_ordinal state
       then Inl (closure_error ''blob_ordinal'' ''gap-or-replay'' ''blob-order-invalid'')
       else case fixed_text_assign (bd_blob_digest item) (ts_current_blob_digest state) of
           None \<Rightarrow> Inl (limit_exceeded ''blob_digest'' ''fixed-bound'')
         | Some digest \<Rightarrow>
            (let opened = state\<lparr>ts_current_blob_digest := digest, ts_current_blob_ordinal := bd_blob_ordinal item,
               ts_current_blob_total := bd_total_bytes item, ts_current_blob_chunk_bytes := bd_chunk_bytes item,
               ts_current_blob_chunk_count := bd_chunk_count item, ts_current_blob_next_chunk := 0,
               ts_current_blob_observed := 0\<rparr>
             in if bd_chunk_count item \<noteq> 0 then Inr (opened\<lparr>ts_phase := Blob_Streaming\<rparr>)
                else if unat (bd_total_bytes item) > maximum_unique_blob_bytes (cs_limits session)
                  \<or> unat (ts_blob_observed_total state)
                    > maximum_unique_blob_bytes (cs_limits session) - unat (bd_total_bytes item)
                then Inl (limit_exceeded ''blob_bytes'' ''limit-exceeded'')
                else Inr (opened\<lparr>ts_phase := Manifest_Validated,
                  ts_next_blob_ordinal := ts_next_blob_ordinal state + 1,
                  ts_blob_observed_total := ts_blob_observed_total state + bd_total_bytes item\<rparr>))))"

definition chunk_transition :: "closure_session \<Rightarrow> source_closure_chunk \<Rightarrow> transfer_state \<Rightarrow> transfer_state result" where
  "chunk_transition session item state =
    (if ts_phase state \<noteq> Blob_Streaming then Inl (state_invalid ''phase'' ''blob-chunk-order'')
     else and_then (bind_common session (bc_session_id item) (bc_task_id item) []) (\<lambda>_.
       if ts_current_blob_observed state > ts_current_blob_total state
         \<or> bc_blob_ordinal item \<noteq> ts_current_blob_ordinal state
         \<or> bc_blob_digest item \<noteq> fixed_text_view (ts_current_blob_digest state)
         \<or> bc_chunk_index item \<noteq> ts_current_blob_next_chunk state
         \<or> bc_offset item \<noteq> ts_current_blob_observed state
         \<or> bc_byte_count item > ts_current_blob_total state - ts_current_blob_observed state
         \<or> (bc_chunk_index item + 1 < ts_current_blob_chunk_count state
            \<and> bc_byte_count item \<noteq> ts_current_blob_chunk_bytes state)
         \<or> (bc_chunk_index item + 1 = ts_current_blob_chunk_count state
            \<and> bc_byte_count item \<noteq> ts_current_blob_total state - ts_current_blob_observed state)
       then Inl (closure_error ''chunk'' ''gap-overlap-or-reorder'' ''chunk-order-invalid'')
       else if unat (bc_byte_count item) > maximum_unique_blob_bytes (cs_limits session)
         \<or> unat (bc_byte_count item) > maximum_task_spool_bytes (cs_limits session)
         \<or> unat (ts_blob_observed_total state)
           > maximum_unique_blob_bytes (cs_limits session) - unat (bc_byte_count item)
         \<or> unat (ts_blob_observed_total state)
           > maximum_task_spool_bytes (cs_limits session) - unat (bc_byte_count item)
       then Inl (limit_exceeded ''blob_bytes'' ''limit-exceeded'')
       else
        (let next_chunk = ts_current_blob_next_chunk state + 1;
             received = state\<lparr>ts_current_blob_observed := ts_current_blob_observed state + bc_byte_count item,
               ts_current_blob_next_chunk := next_chunk,
               ts_blob_observed_total := ts_blob_observed_total state + bc_byte_count item\<rparr>
         in if next_chunk \<noteq> ts_current_blob_chunk_count state then Inr received
            else if unat (ts_next_blob_ordinal state) \<ge> maximum_blobs (cs_limits session)
            then Inl (limit_exceeded ''blob_count'' ''limit-exceeded'')
            else Inr (received\<lparr>ts_next_blob_ordinal := ts_next_blob_ordinal state + 1,
              ts_phase := Manifest_Validated\<rparr>))))"

definition seal_transition :: "closure_session \<Rightarrow> source_closure_seal \<Rightarrow> transfer_state \<Rightarrow> transfer_state result" where
  "seal_transition session item state =
    (if ts_phase state \<noteq> Manifest_Validated
       \<or> ts_current_blob_next_chunk state \<noteq> ts_current_blob_chunk_count state
     then Inl (state_invalid ''phase'' ''seal-order'')
     else and_then (bind_common session (seal_session_id item) (seal_task_id item) (seal_closure_digest item)) (\<lambda>_.
       if (cs_task_v4_digest session \<noteq> [] \<and> seal_task_v4_digest item \<noteq> cs_task_v4_digest session)
         \<or> (cs_manifest_digest session \<noteq> [] \<and> seal_manifest_digest item \<noteq> cs_manifest_digest session)
         \<or> seal_blob_count item \<noteq> ts_next_blob_ordinal state
         \<or> seal_total_bytes item \<noteq> ts_blob_observed_total state
       then Inl (closure_error ''seal'' ''binding-or-counter-mismatch'' ''digest-mismatch'')
       else case fixed_text_assign (seal_transfer_digest item) (ts_sealed_transfer_digest state) of
           None \<Rightarrow> Inl (limit_exceeded ''transfer_digest'' ''fixed-bound'')
         | Some digest \<Rightarrow> Inr (state\<lparr>ts_sealed_transfer_digest := digest, ts_phase := Closure_Sealed\<rparr>)))"

definition ack_transition :: "closure_session \<Rightarrow> source_closure_ack \<Rightarrow> transfer_state \<Rightarrow> transfer_state result" where
  "ack_transition session item state =
    (if ts_phase state \<noteq> Closure_Sealed then Inl (state_invalid ''phase'' ''ack-order'')
     else and_then (bind_common session (ack_session_id item) (ack_task_id item) (ack_closure_digest item)) (\<lambda>_.
       if ack_transfer_digest item \<noteq> fixed_text_view (ts_sealed_transfer_digest state)
       then Inl (closure_error ''transfer_digest'' ''mismatch'' ''replay-invalid'')
       else Inr (state\<lparr>ts_phase := Acknowledged\<rparr>)))"

definition reject_transition :: "closure_session \<Rightarrow> 'c rejection \<Rightarrow> transfer_state \<Rightarrow> transfer_state result" where
  "reject_transition session item state =
    (if ts_phase state = Acknowledged \<or> ts_phase state = Transfer_Rejected
     then Inl (closure_error ''phase'' ''terminal-replay'' ''replay-invalid'')
     else and_then (bind_common session (rej_session_id item) (rej_task_id item) []) (\<lambda>_.
       Inr (state\<lparr>ts_phase := Transfer_Rejected\<rparr>)))"

text \<open>
  The dispatch on the message type. A view always has the alternative of its message type, so the source's
  \<open>std::get\<close> cannot fail and the alternative alone decides.
\<close>

definition control_transition :: "closure_session \<Rightarrow> 'c control_variant \<Rightarrow> transfer_state \<Rightarrow> transfer_state result" where
  "control_transition session decoded =
    (case decoded of
       Control_Manifest (Manifest_Descriptor descriptor) \<Rightarrow> descriptor_transition session descriptor
     | Control_Manifest (Manifest_Chunk chunk) \<Rightarrow> manifest_chunk_transition session chunk
     | Control_Blob item \<Rightarrow> blob_transition session item
     | Control_Chunk item \<Rightarrow> chunk_transition session item
     | Control_Seal item \<Rightarrow> seal_transition session item
     | Control_Ack item \<Rightarrow> ack_transition session item
     | Control_Reject item \<Rightarrow> reject_transition session item)"

definition prepare_transition :: "closure_transfer \<Rightarrow> frame \<Rightarrow> 'c control_variant \<Rightarrow> nat \<Rightarrow> bytes \<Rightarrow> bool
    \<Rightarrow> transfer_state result" where
  "prepare_transition transfer value decoded control_size control_digest consume_credit =
    (let session = ct_session transfer; limits = cs_limits session; payload = fr_payload value
     in if \<not> ct_active transfer then Inl (closure_error ''transfer'' ''moved-from'' ''replay-invalid'')
        else if fr_major value \<noteq> protocol_major_2 \<or> fr_minor value \<noteq> 0
        then Inl (closure_error ''protocol'' ''downgrade-or-unnegotiated'' ''replay-invalid'')
        else if fr_flags value \<noteq> 0 then Inl (state_invalid ''flags'' ''closure-flags-must-be-zero'')
        else if \<not> is_closure_message (fr_type value) then Inl (state_invalid ''message_type'' ''not-closure'')
        else if control_size > size_t_max - length payload
          \<or> control_size + length payload > maximum_resident_transport_bytes limits
        then Inl (limit_exceeded ''resident_transport_bytes'' ''limit-exceeded'')
        else if (\<not> digest_is_zero (fr_control_digest value) \<and> \<not> digest_equal (fr_control_digest value) control_digest)
          \<or> (\<not> digest_is_zero (fr_payload_digest value) \<and> \<not> digest_equal (fr_payload_digest value) (sha256 payload))
        then Inl (closure_error ''digest'' ''mismatch'' ''digest-mismatch'')
        else and_then (validate_closure_payload (fr_type value) decoded payload limits) (\<lambda>_.
          and_then (sequence_accept value (ts_sequence (ct_state transfer))) (\<lambda>sequence.
          and_then (if consume_credit then consume_encoded control_size (length payload) (ts_credit (ct_state transfer))
              else Inr (ts_credit (ct_state transfer))) (\<lambda>credit.
            control_transition session decoded
              ((ct_state transfer)\<lparr>ts_sequence := sequence, ts_credit := credit\<rparr>)))))"

section \<open>Operations\<close>

definition advance :: "transfer_state \<Rightarrow> closure_transfer \<Rightarrow> closure_transfer" where
  "advance state transfer = transfer\<lparr>ct_state := state, ct_generation := ct_generation transfer + 1\<rparr>"

text \<open>\<open>accept\<close>, with the capacities of the frame's two vectors.\<close>

definition transfer_accept :: "host_layout \<Rightarrow> frame \<times> nat \<times> nat \<Rightarrow> closure_transfer \<Rightarrow> closure_transfer result" where
  "transfer_accept layout = (\<lambda>(value, control_capacity, payload_capacity) transfer.
    and_then (decode_closure_control_token layout (fr_type value) (fr_control value)
        (ly_vector_capacity layout (length (fr_control value))) (length (fr_payload value)) payload_capacity
        (cs_limits (ct_session transfer)) (ly_frame layout + control_capacity)) (\<lambda>token.
    and_then (fst (token_consume token)) (\<lambda>view.
    and_then (prepare_transition transfer value view (length (tk_control token)) (tk_control_digest token) True)
      (\<lambda>state. Inr (advance state transfer)))))"

text \<open>\<open>accept_decoded\<close> leaves the token consumed once it got as far as consuming it.\<close>

definition accept_decoded :: "frame \<Rightarrow> closure_control_token \<Rightarrow> closure_transfer
    \<Rightarrow> closure_transfer result \<times> closure_control_token" where
  "accept_decoded value control transfer =
    (if fr_control value \<noteq> [] then (Inl (state_invalid ''control'' ''must-be-adopted''), control)
     else if tk_type control \<noteq> fr_type value then (Inl (state_invalid ''control'' ''type-mismatch''), control)
     else
      (let (view, spent) = token_consume control
       in (and_then view (\<lambda>view.
            and_then (prepare_transition transfer value view (length (tk_control control))
                (tk_control_digest control) True) (\<lambda>state. Inr (advance state transfer))), spent)))"

record prepared_ack_transition =
  pa_owner :: "nat option"
  pa_generation :: u64
  pa_next :: transfer_state
  pa_wire :: bytes
  pa_consumed :: bool

definition ack_abort :: "prepared_ack_transition \<Rightarrow> prepared_ack_transition" where
  "ack_abort transition = transition\<lparr>pa_owner := None, pa_generation := 0, pa_consumed := True, pa_wire := []\<rparr>"

definition ack_move :: "prepared_ack_transition \<Rightarrow> prepared_ack_transition \<times> prepared_ack_transition" where
  "ack_move other = (other, ack_abort other)"

definition ack_assign :: "prepared_ack_transition \<Rightarrow> prepared_ack_transition
    \<Rightarrow> prepared_ack_transition \<times> prepared_ack_transition" where
  "ack_assign target other =
    ((ack_abort target)\<lparr>pa_owner := pa_owner other, pa_generation := pa_generation other, pa_next := pa_next other,
       pa_wire := pa_wire other, pa_consumed := pa_consumed other\<rparr>, ack_abort other)"

definition acknowledgement_frame :: "closure_session \<Rightarrow> u64 \<Rightarrow> bytes \<Rightarrow> frame" where
  "acknowledgement_frame session sequence control =
    \<lparr>fr_type = source_closure_ack_id, fr_major = protocol_major_2, fr_minor = 0, fr_flags = 0,
     fr_stream_id = cs_stream_id session, fr_sequence = sequence, fr_control = control, fr_payload = [],
     fr_control_digest = zero_digest, fr_payload_digest = zero_digest\<rparr>"

text \<open>
  \<open>prepare_acknowledgement\<close> on the transfer at the address \<open>this\<close>; the last two arguments are the
  capacities of the two vectors it builds.
\<close>

definition prepare_acknowledgement :: "host_layout \<Rightarrow> nat \<Rightarrow> source_closure_ack \<Rightarrow> u64 \<Rightarrow> nat \<Rightarrow> nat
    \<Rightarrow> closure_transfer \<Rightarrow> prepared_ack_transition result" where
  "prepare_acknowledgement layout this value sequence control_capacity wire_capacity transfer =
    (let session = ct_session transfer; limits = cs_limits session;
         encoding_dynamic_reserve = 4 * max_control_bytes + fixed_header_bytes + 2 * 32 * ly_map_entry layout
     in if \<not> ct_active transfer \<or> ts_phase (ct_state transfer) \<noteq> Closure_Sealed
        then Inl (state_invalid ''phase'' ''ack-order'')
        else
          and_then (try_fold resident_add [encoding_dynamic_reserve] (ly_ack_workspace layout)) (\<lambda>preflight_resident.
          and_then (within_resident_limit limits preflight_resident) (\<lambda>_.
          and_then (encode_closure_control source_closure_ack_id (Control_Ack value) limits) (\<lambda>encoded_control.
            let acknowledgement = acknowledgement_frame session sequence encoded_control
            in and_then (prepare_transition transfer acknowledgement (Control_Ack value :: closure_control_view)
                 (length encoded_control) (sha256 encoded_control) False) (\<lambda>state.
               and_then (encode_frame acknowledgement default_frame_limits) (\<lambda>wire.
               and_then (try_fold resident_add [control_capacity, wire_capacity] (ly_ack_workspace layout)) (\<lambda>resident.
               and_then (within_resident_limit limits resident) (\<lambda>_.
                 Inr \<lparr>pa_owner = Some this, pa_generation = ct_generation transfer, pa_next = state,
                   pa_wire = wire, pa_consumed = False\<rparr>))))))))"

text \<open>\<open>commit_acknowledgement\<close>: the transfer and the transition it leaves behind.\<close>

definition commit_acknowledgement :: "nat \<Rightarrow> prepared_ack_transition \<Rightarrow> closure_transfer
    \<Rightarrow> closure_transfer \<times> prepared_ack_transition" where
  "commit_acknowledgement this transition transfer =
    (if \<not> ct_active transfer \<or> pa_owner transition \<noteq> Some this \<or> pa_consumed transition
       \<or> pa_generation transition \<noteq> ct_generation transfer \<or> ts_phase (ct_state transfer) \<noteq> Closure_Sealed
       \<or> ts_phase (pa_next transition) \<noteq> Acknowledged
     then (transfer, transition)
     else (advance (pa_next transition) transfer, ack_abort transition))"

end
