(* ===== verification/Closure_Assembly.thy ===== *)
theory Closure_Assembly
  imports Closure_Transfer
begin

text \<open>
  What a source-closure transfer has received: the bytes of the accepted frames put together, and the
  invariant by which the counters of the state machine describe them.
\<close>

section \<open>The received bytes\<close>

text \<open>An accepted frame as the state machine sees it: the view of its control, and its payload.\<close>

type_synonym transfer_event = "closure_control_view \<times> bytes"

fun descriptor_part :: "transfer_event \<Rightarrow> source_closure_manifest_descriptor list" where
  "descriptor_part (Control_Manifest (Manifest_Descriptor descriptor), payload) = [descriptor]"
| "descriptor_part _ = []"

fun manifest_part :: "transfer_event \<Rightarrow> bytes" where
  "manifest_part (Control_Manifest (Manifest_Chunk chunk), payload) = payload"
| "manifest_part _ = []"

fun blob_part :: "transfer_event \<Rightarrow> source_closure_blob_descriptor list" where
  "blob_part (Control_Blob item, payload) = [item]"
| "blob_part _ = []"

fun chunk_part :: "transfer_event \<Rightarrow> (u64 \<times> bytes) list" where
  "chunk_part (Control_Chunk item, payload) = [(bc_blob_ordinal item, payload)]"
| "chunk_part _ = []"

fun seal_part :: "transfer_event \<Rightarrow> source_closure_seal list" where
  "seal_part (Control_Seal item, payload) = [item]"
| "seal_part _ = []"

definition descriptors :: "transfer_event list \<Rightarrow> source_closure_manifest_descriptor list" where
  "descriptors es = concat (map descriptor_part es)"

definition manifest_content :: "transfer_event list \<Rightarrow> bytes" where
  "manifest_content es = concat (map manifest_part es)"

definition blobs :: "transfer_event list \<Rightarrow> source_closure_blob_descriptor list" where
  "blobs es = concat (map blob_part es)"

definition chunks :: "transfer_event list \<Rightarrow> (u64 \<times> bytes) list" where
  "chunks es = concat (map chunk_part es)"

definition blob_content :: "u64 \<Rightarrow> transfer_event list \<Rightarrow> bytes" where
  "blob_content ordinal es = concat (map snd (filter (\<lambda>c. fst c = ordinal) (chunks es)))"

definition seals :: "transfer_event list \<Rightarrow> source_closure_seal list" where
  "seals es = concat (map seal_part es)"

text \<open>The number of payload bytes of all blob chunks.\<close>

definition chunk_bytes_received :: "transfer_event list \<Rightarrow> nat" where
  "chunk_bytes_received es = sum_list (map (\<lambda>c. length (snd c)) (chunks es))"

text \<open>Each chunk declares the offset at which its object ends so far.\<close>

fun lands_at_end :: "transfer_event list \<Rightarrow> transfer_event \<Rightarrow> bool" where
  "lands_at_end es (Control_Manifest (Manifest_Chunk chunk), payload) =
     (unat (mc_offset chunk) = length (manifest_content es) \<and> unat (mc_byte_count chunk) = length payload)"
| "lands_at_end es (Control_Chunk item, payload) =
     (unat (bc_offset item) = length (blob_content (bc_blob_ordinal item) es)
      \<and> unat (bc_byte_count item) = length payload)"
| "lands_at_end es _ = True"

definition contiguous :: "transfer_event list \<Rightarrow> bool" where
  "contiguous es = (\<forall>i < length es. lands_at_end (take i es) (es ! i))"

lemma contiguous_snoc: "contiguous (es @ [e]) \<longleftrightarrow> contiguous es \<and> lands_at_end es e"
  by (auto simp: contiguous_def nth_append less_Suc_eq)

lemma parts_Nil [simp]:
  "descriptors [] = []" "manifest_content [] = []" "blobs [] = []" "chunks [] = []" "seals [] = []"
  "blob_content k [] = []" "chunk_bytes_received [] = 0" "contiguous []"
  by (simp_all add: descriptors_def manifest_content_def blobs_def chunks_def seals_def blob_content_def
      chunk_bytes_received_def contiguous_def)

lemma parts_snoc [simp]:
  "descriptors (es @ [e]) = descriptors es @ descriptor_part e"
  "manifest_content (es @ [e]) = manifest_content es @ manifest_part e"
  "blobs (es @ [e]) = blobs es @ blob_part e"
  "chunks (es @ [e]) = chunks es @ chunk_part e"
  "seals (es @ [e]) = seals es @ seal_part e"
  by (simp_all add: descriptors_def manifest_content_def blobs_def chunks_def seals_def)

lemma blob_content_snoc [simp]:
  "blob_content k (es @ [e]) = blob_content k es @ concat (map snd (filter (\<lambda>c. fst c = k) (chunk_part e)))"
  by (simp add: blob_content_def)

lemma chunk_bytes_snoc [simp]:
  "chunk_bytes_received (es @ [e]) = chunk_bytes_received es + sum_list (map (\<lambda>c. length (snd c)) (chunk_part e))"
  by (simp add: chunk_bytes_received_def)

section \<open>Chunk shapes\<close>

lemma word_div_succ_nonzero:
  fixes whole chunk :: u64
  assumes "chunk \<noteq> 0" "whole mod chunk \<noteq> 0"
  shows "whole div chunk + 1 \<noteq> 0"
proof
  assume "whole div chunk + 1 = 0"
  then have max: "whole div chunk = - 1"
    by (simp add: eq_neg_iff_add_eq_0)
  have "chunk \<noteq> 1"
    using assms(2) by auto
  then have "2 \<le> unat chunk"
    using assms(1) by (metis One_nat_def Suc_1 Suc_leI le_neq_implies_less less_one not_le unat_1 unat_eq_zero unat_word_inject)
  then have "unat whole div unat chunk \<le> unat whole div 2"
    by (intro div_le_mono2) simp_all
  moreover have "unat whole div unat chunk = 18446744073709551615"
    using arg_cong [OF max, of unat] by (simp add: unat_div)
  ultimately show False
    using unat_u64_le [of whole] by linarith
qed

lemma valid_shape_empty:
  assumes "valid_shape whole chunk_size count m n field = Inr ()" "count = 0"
  shows "whole = 0"
proof (rule ccontr)
  assume whole: "whole \<noteq> 0"
  have chunk: "chunk_size \<noteq> 0" and zero: "whole div chunk_size + (if whole mod chunk_size = 0 then 0 else 1) = 0"
    using assms whole by (auto simp: valid_shape_def Let_def split: if_splits)
  show False
  proof (cases "whole mod chunk_size = 0")
    case True
    then have "whole = 0"
      using zero div_mult_mod_eq [of whole chunk_size] by simp
    then show False using whole by simp
  next
    case False
    then show False
      using zero word_div_succ_nonzero [OF chunk False] by simp
  qed
qed

lemma word_next_less: "i < n \<Longrightarrow> i + 1 \<noteq> n \<Longrightarrow> i + 1 < (n :: u64)"
  by (metis inc_le order_le_less add.commute)

section \<open>The invariant\<close>

text \<open>
  What the counters of the state machine say of the accepted frames, phase by phase. After a rejection
  nothing is claimed.
\<close>

definition manifest_complete :: "transfer_event list \<Rightarrow> bool" where
  "manifest_complete es = (\<exists>d. descriptors es = [d] \<and> length (manifest_content es) = unat (md_total_bytes d))"

definition blobs_complete :: "nat \<Rightarrow> transfer_event list \<Rightarrow> bool" where
  "blobs_complete n es = (\<forall>i < n. length (blob_content (word_of_nat i) es) = unat (bd_total_bytes (blobs es ! i)))"

definition numbered :: "transfer_event list \<Rightarrow> bool" where
  "numbered es = ((\<forall>i < length (blobs es). bd_blob_ordinal (blobs es ! i) = word_of_nat i)
    \<and> (\<forall>c \<in> set (chunks es). unat (fst c) < length (blobs es)))"

definition phase_tracks :: "transfer_state \<Rightarrow> transfer_event list \<Rightarrow> bool" where
  "phase_tracks st es = (case ts_phase st of
     Task_V4_Sealed \<Rightarrow> es = [] \<and> ts_next_blob_ordinal st = 0
       \<and> ts_current_blob_next_chunk st = ts_current_blob_chunk_count st
   | Manifest_Open \<Rightarrow> False
   | Manifest_Streaming \<Rightarrow> (\<exists>d. descriptors es = [d] \<and> ts_manifest_total st = md_total_bytes d)
       \<and> unat (ts_manifest_observed st) = length (manifest_content es)
       \<and> ts_manifest_observed st \<le> ts_manifest_total st
       \<and> ts_manifest_next_chunk st < ts_manifest_chunk_count st
       \<and> blobs es = [] \<and> seals es = [] \<and> ts_next_blob_ordinal st = 0
       \<and> ts_current_blob_next_chunk st = ts_current_blob_chunk_count st
   | Manifest_Validated \<Rightarrow> manifest_complete es \<and> length (blobs es) = unat (ts_next_blob_ordinal st)
       \<and> blobs_complete (length (blobs es)) es \<and> seals es = []
       \<and> ts_current_blob_next_chunk st = ts_current_blob_chunk_count st
   | Blob_Streaming \<Rightarrow> manifest_complete es \<and> length (blobs es) = unat (ts_next_blob_ordinal st) + 1
       \<and> blobs_complete (unat (ts_next_blob_ordinal st)) es \<and> seals es = []
       \<and> ts_current_blob_ordinal st = ts_next_blob_ordinal st
       \<and> ts_current_blob_total st = bd_total_bytes (last (blobs es))
       \<and> unat (ts_current_blob_observed st) = length (blob_content (ts_current_blob_ordinal st) es)
       \<and> ts_current_blob_observed st \<le> ts_current_blob_total st
       \<and> ts_current_blob_next_chunk st < ts_current_blob_chunk_count st
   | Transfer_Rejected \<Rightarrow> True
   | _ \<Rightarrow> manifest_complete es \<and> length (blobs es) = unat (ts_next_blob_ordinal st)
       \<and> blobs_complete (length (blobs es)) es
       \<and> (\<exists>s. seals es = [s] \<and> seal_blob_count s = ts_next_blob_ordinal st
            \<and> seal_total_bytes s = ts_blob_observed_total st
            \<and> seal_transfer_digest s = fixed_text_view (ts_sealed_transfer_digest st)))"

definition tracks :: "closure_limits \<Rightarrow> transfer_state \<Rightarrow> transfer_event list \<Rightarrow> bool" where
  "tracks bound st es = (contiguous es \<and> numbered es \<and> length (blobs es) \<le> maximum_blobs bound
    \<and> unat (ts_blob_observed_total st) = chunk_bytes_received es
    \<and> chunk_bytes_received es \<le> maximum_unique_blob_bytes bound
    \<and> length (ft_storage (ts_current_blob_digest st)) = fixed_text_capacity
    \<and> length (ft_storage (ts_sealed_transfer_digest st)) = fixed_text_capacity
    \<and> phase_tracks st es)"

text \<open>Limits that a \<open>std::size_t\<close> holds.\<close>

definition closure_limits_64 :: "closure_limits \<Rightarrow> bool" where
  "closure_limits_64 bound = (maximum_blobs bound < 2 ^ 64 \<and> maximum_unique_blob_bytes bound < 2 ^ 64)"

lemma fixed_text_round_trip:
  assumes "fixed_text_assign value current = Some assigned" "length (ft_storage current) = fixed_text_capacity"
  shows "fixed_text_view assigned = value" "length (ft_storage assigned) = fixed_text_capacity"
  using assms
  by (auto simp: fixed_text_assign_def fixed_text_view_def fixed_text_capacity_def unat_of_nat split: if_splits)

lemma initial_tracks: "tracks bound (initial_transfer_state session) []"
  by (simp add: tracks_def phase_tracks_def initial_transfer_state_def numbered_def empty_fixed_text_def)

section \<open>Every step keeps the invariant\<close>

lemma blob_content_unopened:
  assumes "numbered es" "length (blobs es) \<le> unat k"
  shows "blob_content k es = []"
proof -
  have "filter (\<lambda>c. fst c = k) (chunks es) = []"
    using assms by (force simp: numbered_def filter_empty_conv)
  then show ?thesis by (simp add: blob_content_def)
qed

lemma other_ordinal:
  assumes "i < unat (k :: u64)"
  shows "word_of_nat i \<noteq> k"
proof
  assume "word_of_nat i = k"
  then have "unat (word_of_nat i :: u64) = unat k" by simp
  moreover have "unat (word_of_nat i :: u64) = i"
    using assms unat_u64_le [of k] by (simp add: unat_of_nat)
  ultimately show False using assms by simp
qed

lemma word_room:
  fixes seen whole part :: u64
  assumes "seen \<le> whole" "part \<le> whole - seen"
  shows "unat (seen + part) = unat seen + unat part" "seen + part \<le> whole"
    "part = whole - seen \<Longrightarrow> seen + part = whole"
proof -
  have "unat part \<le> unat whole - unat seen"
    using assms by (simp add: word_le_nat_alt unat_sub)
  moreover have "unat seen \<le> unat whole"
    using assms(1) by (simp add: word_le_nat_alt)
  ultimately have room: "unat seen + unat part \<le> unat whole" by linarith
  then show sum: "unat (seen + part) = unat seen + unat part"
    using unat_u64_le [of whole] by (simp add: unat_word_ariths)
  show "seen + part \<le> whole"
    using room sum by (simp add: word_le_nat_alt)
  show "seen + part = whole" if "part = whole - seen" using that by simp
qed

lemma word_succ_unat: "unat (k :: u64) < m \<Longrightarrow> m < 2 ^ 64 \<Longrightarrow> unat (k + 1) = unat k + 1"
  by (simp add: unat_word_ariths)

lemma bind_common_Inr: "bind_common session s t c = Inr u \<longleftrightarrow> s = cs_session_id session \<and> t = cs_task_id session
    \<and> (c = [] \<or> cs_closure_digest session = [] \<or> c = cs_closure_digest session)"
  by (auto simp: bind_common_def split: if_splits)

lemma descriptor_tracks:
  assumes "tracks b st es" "descriptor_transition session d st = Inr st'"
    and "validate_manifest_descriptor d b = Inr ()"
  shows "tracks b st' (es @ [(Control_Manifest (Manifest_Descriptor d), payload)])"
proof -
  have shape: "valid_shape (md_total_bytes d) (md_chunk_bytes d) (md_chunk_count d)
      (maximum_chunk_payload_bytes b) (maximum_manifest_chunks b) ''manifest'' = Inr ()"
    using assms(3) by (auto simp: validate_manifest_descriptor_def and_then_Inr_iff split: if_splits)
  have st': "st' = st\<lparr>ts_manifest_total := md_total_bytes d, ts_manifest_chunk_bytes := md_chunk_bytes d,
      ts_manifest_chunk_count := md_chunk_count d, ts_manifest_next_chunk := 0, ts_manifest_observed := 0,
      ts_phase := (if md_chunk_count d = 0 then Manifest_Validated else Manifest_Streaming)\<rparr>"
    and phase: "ts_phase st = Task_V4_Sealed"
    using assms(2) by (auto simp: descriptor_transition_def and_then_Inr_iff split: if_splits)
  have "es = []"
    using assms(1) phase by (simp add: tracks_def phase_tracks_def)
  then show ?thesis
    using assms(1) phase st' valid_shape_empty [OF shape]
    by (auto simp: tracks_def phase_tracks_def contiguous_snoc numbered_def manifest_complete_def
        blobs_complete_def parts_snoc [of "[]", simplified] contiguous_snoc [of "[]", simplified]
        chunk_bytes_snoc [of "[]", simplified] word_neq_0_conv)
qed

lemma manifest_chunk_tracks:
  assumes "tracks b st es" "manifest_chunk_transition session m st = Inr st'"
    and "length payload = unat (mc_byte_count m)"
  shows "tracks b st' (es @ [(Control_Manifest (Manifest_Chunk m), payload)])"
proof -
  let ?seen = "ts_manifest_observed st" and ?whole = "ts_manifest_total st" and ?part = "mc_byte_count m"
  have phase: "ts_phase st = Manifest_Streaming"
    using assms(1,2) by (auto simp: manifest_chunk_transition_def tracks_def phase_tracks_def split: if_splits)
  have checks: "?seen \<le> ?whole" "mc_chunk_index m = ts_manifest_next_chunk st" "mc_offset m = ?seen"
      "?part \<le> ?whole - ?seen"
      "mc_chunk_index m + 1 = ts_manifest_chunk_count st \<Longrightarrow> ?part = ?whole - ?seen"
    and st': "st' = st\<lparr>ts_manifest_observed := ?seen + ?part,
      ts_manifest_next_chunk := ts_manifest_next_chunk st + 1,
      ts_phase := (if ts_manifest_next_chunk st + 1 = ts_manifest_chunk_count st then Manifest_Validated
        else ts_phase st)\<rparr>"
    using assms(2) by (auto simp: manifest_chunk_transition_def and_then_Inr_iff Let_def not_less split: if_splits)
  show ?thesis
    using assms(1,3) phase checks word_room [OF checks(1,4)]
      word_next_less [of "ts_manifest_next_chunk st" "ts_manifest_chunk_count st"]
    by (auto simp: st' tracks_def phase_tracks_def contiguous_snoc numbered_def manifest_complete_def
        blobs_complete_def)
qed

lemma blob_tracks:
  assumes "tracks b st es" "blob_transition session item st = Inr st'"
    and "validate_blob_descriptor item b = Inr ()" "closure_limits_64 b"
  shows "tracks b st' (es @ [(Control_Blob item, payload)])"
proof -
  let ?next = "ts_next_blob_ordinal st"
  have shape: "valid_shape (bd_total_bytes item) (bd_chunk_bytes item) (bd_chunk_count item)
      (maximum_chunk_payload_bytes b) (maximum_chunks_per_blob b) ''blob'' = Inr ()"
    and room: "unat (bd_blob_ordinal item) < maximum_blobs b"
    using assms(3) by (auto simp: validate_blob_descriptor_def and_then_Inr_iff split: if_splits)
  have phase: "ts_phase st = Manifest_Validated"
    using assms(2) by (auto simp: blob_transition_def split: if_splits)
  obtain digest where digest: "fixed_text_assign (bd_blob_digest item) (ts_current_blob_digest st) = Some digest"
    and ordinal: "bd_blob_ordinal item = ?next"
    using assms(2) phase by (auto simp: blob_transition_def and_then_Inr_iff split: if_splits option.splits)
  let ?opened = "st\<lparr>ts_current_blob_digest := digest, ts_current_blob_ordinal := ?next,
      ts_current_blob_total := bd_total_bytes item, ts_current_blob_chunk_bytes := bd_chunk_bytes item,
      ts_current_blob_chunk_count := bd_chunk_count item, ts_current_blob_next_chunk := 0,
      ts_current_blob_observed := 0\<rparr>"
  have st': "st' = (if bd_chunk_count item \<noteq> 0 then ?opened\<lparr>ts_phase := Blob_Streaming\<rparr>
      else ?opened\<lparr>ts_phase := Manifest_Validated, ts_next_blob_ordinal := ?next + 1,
        ts_blob_observed_total := ts_blob_observed_total st + bd_total_bytes item\<rparr>)"
    using assms(2) phase digest ordinal
    by (auto simp: blob_transition_def and_then_Inr_iff Let_def split: if_splits)
  have storage: "length (ft_storage digest) = fixed_text_capacity"
    using assms(1) fixed_text_round_trip(2) [OF digest] by (simp add: tracks_def)
  have before: "numbered es" "length (blobs es) = unat ?next" "blobs_complete (unat ?next) es"
    using assms(1) phase by (auto simp: tracks_def phase_tracks_def)
  have empty: "blob_content ?next es = []"
    using before by (intro blob_content_unopened) simp_all
  have succ: "unat (?next + 1) = unat ?next + 1"
    using room assms(4) ordinal by (intro word_succ_unat [of _ "maximum_blobs b"]) (simp_all add: closure_limits_64_def)
  have numbers: "numbered (es @ [(Control_Blob item, payload)])"
    using before(1,2) ordinal by (auto simp: numbered_def nth_append less_Suc_eq)
  have complete: "blobs_complete (unat ?next) (es @ [(Control_Blob item, payload)])"
    using before(2,3) by (simp add: blobs_complete_def nth_append)
  have last: "blobs_complete (Suc (unat ?next)) (es @ [(Control_Blob item, payload)])"
    if "bd_chunk_count item = 0"
    using before(2,3) empty valid_shape_empty [OF shape that]
    by (auto simp: blobs_complete_def nth_append less_Suc_eq)
  show ?thesis
  proof (cases "bd_chunk_count item = 0")
    case True
    then show ?thesis
      using assms(1) phase st' storage before succ numbers last room ordinal valid_shape_empty [OF shape]
      by (auto simp: tracks_def phase_tracks_def contiguous_snoc manifest_complete_def)
  next
    case False
    then show ?thesis
      using assms(1) phase st' storage before empty numbers complete room ordinal
      by (auto simp: tracks_def phase_tracks_def contiguous_snoc manifest_complete_def word_neq_0_conv)
  qed
qed

lemma chunk_tracks:
  assumes "tracks b st es" "chunk_transition session item st = Inr st'"
    and "length payload = unat (bc_byte_count item)" "closure_limits_64 b" "cs_limits session = b"
  shows "tracks b st' (es @ [(Control_Chunk item, payload)])"
proof -
  let ?seen = "ts_current_blob_observed st" and ?whole = "ts_current_blob_total st"
    and ?part = "bc_byte_count item" and ?next = "ts_next_blob_ordinal st"
    and ?all = "ts_blob_observed_total st" and ?e = "(Control_Chunk item, payload)"
  let ?received = "st\<lparr>ts_current_blob_observed := ?seen + ?part,
      ts_current_blob_next_chunk := ts_current_blob_next_chunk st + 1, ts_blob_observed_total := ?all + ?part\<rparr>"
  have phase: "ts_phase st = Blob_Streaming"
    using assms(2) by (auto simp: chunk_transition_def split: if_splits)
  have checks: "?seen \<le> ?whole" "bc_blob_ordinal item = ts_current_blob_ordinal st"
      "bc_chunk_index item = ts_current_blob_next_chunk st" "bc_offset item = ?seen" "?part \<le> ?whole - ?seen"
      "bc_chunk_index item + 1 = ts_current_blob_chunk_count st \<Longrightarrow> ?part = ?whole - ?seen"
      "unat ?part \<le> maximum_unique_blob_bytes b" "unat ?all \<le> maximum_unique_blob_bytes b - unat ?part"
    and st': "st' = (if ts_current_blob_next_chunk st + 1 \<noteq> ts_current_blob_chunk_count st then ?received
      else ?received\<lparr>ts_next_blob_ordinal := ?next + 1, ts_phase := Manifest_Validated\<rparr>)"
    and last_room: "ts_current_blob_next_chunk st + 1 = ts_current_blob_chunk_count st
      \<Longrightarrow> unat ?next < maximum_blobs b"
    using assms(2) unfolding assms(5) [symmetric]
    by (auto simp: chunk_transition_def and_then_Inr_iff Let_def not_less not_le split: if_splits)
  have before: "numbered es" "length (blobs es) = unat ?next + 1" "blobs_complete (unat ?next) es"
      "ts_current_blob_ordinal st = ?next" "?whole = bd_total_bytes (last (blobs es))"
    using assms(1) phase by (auto simp: tracks_def phase_tracks_def)
  have all: "unat (?all + ?part) = unat ?all + unat ?part"
      "unat ?all + unat ?part \<le> maximum_unique_blob_bytes b"
    using checks(7,8) assms(4) word_room(1) [of ?all "- 1" ?part]
    by (simp_all add: closure_limits_64_def unat_word_ariths le_diff_conv2)
  have succ: "unat (?next + 1) = unat ?next + 1" if "unat ?next < maximum_blobs b"
    using that assms(4) by (intro word_succ_unat [of _ "maximum_blobs b"]) (simp_all add: closure_limits_64_def)
  have numbers: "numbered (es @ [?e])"
    using before(1,2,4) checks(2) by (auto simp: numbered_def)
  have others: "blobs_complete (unat ?next) (es @ [?e])"
  proof -
    have "blob_content (word_of_nat i) (es @ [?e]) = blob_content (word_of_nat i) es" if "i < unat ?next" for i
      using other_ordinal [OF that] before(4) checks(2) by auto
    then show ?thesis
      using before(3) by (simp add: blobs_complete_def)
  qed
  have last: "last (blobs es) = blobs es ! unat ?next"
    using before(2) by (subst last_conv_nth) auto
  have finished: "blobs_complete (Suc (unat ?next)) (es @ [?e])"
    if "length (blob_content ?next (es @ [?e])) = unat (bd_total_bytes (last (blobs es)))"
    using others that last by (auto simp: blobs_complete_def less_Suc_eq)
  show ?thesis
    using assms(1,3) phase st' before checks(1-6) all succ numbers others finished last_room
      word_room [OF checks(1,5)]
      word_next_less [of "ts_current_blob_next_chunk st" "ts_current_blob_chunk_count st"]
    by (auto simp: tracks_def phase_tracks_def contiguous_snoc manifest_complete_def)
qed

lemma seal_tracks:
  assumes "tracks b st es" "seal_transition session item st = Inr st'"
  shows "tracks b st' (es @ [(Control_Seal item, payload)])"
proof -
  have phase: "ts_phase st = Manifest_Validated"
    using assms(2) by (auto simp: seal_transition_def split: if_splits)
  obtain digest where digest: "fixed_text_assign (seal_transfer_digest item) (ts_sealed_transfer_digest st) = Some digest"
    and counts: "seal_blob_count item = ts_next_blob_ordinal st" "seal_total_bytes item = ts_blob_observed_total st"
    and st': "st' = st\<lparr>ts_sealed_transfer_digest := digest, ts_phase := Closure_Sealed\<rparr>"
    using assms(2) by (auto simp: seal_transition_def and_then_Inr_iff split: if_splits option.splits)
  have storage: "length (ft_storage (ts_sealed_transfer_digest st)) = fixed_text_capacity"
    using assms(1) by (simp add: tracks_def)
  show ?thesis
    using assms(1) phase counts fixed_text_round_trip [OF digest storage]
    by (auto simp: st' tracks_def phase_tracks_def contiguous_snoc numbered_def manifest_complete_def blobs_complete_def)
qed

lemma ack_tracks:
  assumes "tracks b st es" "ack_transition session item st = Inr st'"
  shows "tracks b st' (es @ [(Control_Ack item, payload)])"
proof -
  have "ts_phase st = Closure_Sealed" "st' = st\<lparr>ts_phase := Acknowledged\<rparr>"
    using assms(2) by (auto simp: ack_transition_def and_then_Inr_iff split: if_splits)
  then show ?thesis
    using assms(1)
    by (auto simp: tracks_def phase_tracks_def contiguous_snoc numbered_def manifest_complete_def blobs_complete_def)
qed

lemma reject_tracks:
  assumes "tracks b st es" "reject_transition session item st = Inr st'"
  shows "tracks b st' (es @ [(Control_Reject item, payload)])"
proof -
  have "st' = st\<lparr>ts_phase := Transfer_Rejected\<rparr>"
    using assms(2) by (auto simp: reject_transition_def and_then_Inr_iff split: if_splits)
  then show ?thesis
    using assms(1) by (auto simp: tracks_def phase_tracks_def contiguous_snoc numbered_def)
qed

lemma control_tracks:
  assumes "tracks b st es" "control_transition session view st = Inr st'"
    and "validate_control_view view b = Inr ()" "validate_closure_payload (control_id view) view payload b = Inr ()"
    and "closure_limits_64 b" "cs_limits session = b"
  shows "tracks b st' (es @ [(view, payload)])"
proof (cases view)
  case (Control_Manifest item)
  then show ?thesis
    using assms descriptor_tracks [of b st es session _ st'] manifest_chunk_tracks [of b st es session _ st' payload]
    by (cases item) (auto simp: control_transition_def validate_control_view_def validate_closure_payload_def
        control_id_def split: if_splits)
next
  case (Control_Blob item)
  then show ?thesis
    using assms blob_tracks [of b st es session item st']
    by (auto simp: control_transition_def validate_control_view_def)
next
  case (Control_Chunk item)
  then show ?thesis
    using assms chunk_tracks [of b st es session item st' payload]
    by (auto simp: control_transition_def validate_closure_payload_def control_id_def split: if_splits)
next
  case (Control_Seal item)
  then show ?thesis using assms seal_tracks [of b st es session item st'] by (simp add: control_transition_def)
next
  case (Control_Ack item)
  then show ?thesis using assms ack_tracks [of b st es session item st'] by (simp add: control_transition_def)
next
  case (Control_Reject item)
  then show ?thesis using assms reject_tracks [of b st es session item st'] by (simp add: control_transition_def)
qed

text \<open>What every accepted control is bound to.\<close>

definition control_binding :: "'c control_variant \<Rightarrow> string \<times> string" where
  "control_binding view = (case view of
     Control_Manifest (Manifest_Descriptor v) \<Rightarrow> (md_session_id v, md_task_id v)
   | Control_Manifest (Manifest_Chunk v) \<Rightarrow> (mc_session_id v, mc_task_id v)
   | Control_Blob v \<Rightarrow> (bd_session_id v, bd_task_id v) | Control_Chunk v \<Rightarrow> (bc_session_id v, bc_task_id v)
   | Control_Seal v \<Rightarrow> (seal_session_id v, seal_task_id v) | Control_Ack v \<Rightarrow> (ack_session_id v, ack_task_id v)
   | Control_Reject v \<Rightarrow> (rej_session_id v, rej_task_id v))"

lemma control_transition_bound:
  assumes "control_transition session view st = Inr st'"
  shows "control_binding view = (cs_session_id session, cs_task_id session)"
  using assms
  by (auto simp: control_transition_def control_binding_def descriptor_transition_def
      manifest_chunk_transition_def blob_transition_def chunk_transition_def seal_transition_def
      ack_transition_def reject_transition_def and_then_Inr_iff bind_common_Inr
      split: control_variant.splits source_closure_manifest.splits if_splits)

section \<open>Frames\<close>

definition frame_events :: "closure_limits \<Rightarrow> frame \<Rightarrow> transfer_event list" where
  "frame_events bound value = (case parse_closure_control (fr_type value) (fr_control value) bound of
     Inl _ \<Rightarrow> []
   | Inr parsed \<Rightarrow> [(make_control_view (fr_type value) (fr_control value) parsed, fr_payload value)])"

definition received :: "closure_limits \<Rightarrow> (frame \<times> nat \<times> nat) list \<Rightarrow> transfer_event list" where
  "received bound inputs = concat (map (\<lambda>i. frame_events bound (fst i)) inputs)"

lemma received_snoc: "received b (is @ [i]) = received b is @ frame_events b (fst i)"
  by (simp add: received_def)

lemma control_id_own: "control_id (own_control_view v) = control_id v"
  by (cases v) (simp_all add: control_id_def own_control_view_def)

lemma parsed_view_facts:
  assumes "parse_closure_control t bs b = Inr p"
  shows "control_id (make_control_view t bs p) = t" "validate_control_view (make_control_view t bs p) b = Inr ()"
proof -
  show "control_id (make_control_view t bs p) = t"
    using parse_closure_control_sound(1) [OF assms] by (simp add: control_id_own)
  show "validate_control_view (make_control_view t bs p) b = Inr ()"
    using parse_closure_control_sound(2) [OF assms] by (rule validate_own_view)
qed

lemma prepare_transition_Inr:
  "prepare_transition transfer f v n d c = Inr st' \<longleftrightarrow>
    (let limits = cs_limits (ct_session transfer); st = ct_state transfer in
     ct_active transfer \<and> fr_major f = protocol_major_2 \<and> fr_minor f = 0 \<and> fr_flags f = 0
     \<and> is_closure_message (fr_type f)
     \<and> n + length (fr_payload f) \<le> size_t_max \<and> n + length (fr_payload f) \<le> maximum_resident_transport_bytes limits
     \<and> (digest_is_zero (fr_control_digest f) \<or> digest_equal (fr_control_digest f) d)
     \<and> (digest_is_zero (fr_payload_digest f) \<or> digest_equal (fr_payload_digest f) (sha256 (fr_payload f)))
     \<and> validate_closure_payload (fr_type f) v (fr_payload f) limits = Inr ()
     \<and> (\<exists>sequence credit. sequence_accept f (ts_sequence st) = Inr sequence
        \<and> (if c then consume_encoded n (length (fr_payload f)) (ts_credit st) else Inr (ts_credit st)) = Inr credit
        \<and> control_transition (ct_session transfer) v (st\<lparr>ts_sequence := sequence, ts_credit := credit\<rparr>) = Inr st'))"
  if "length (fr_payload f) \<le> size_t_max"
  using that unfolding prepare_transition_def Let_def if_Inl_Inr_iff and_then_Inr_iff
  by (auto simp: not_less le_diff_conv2)

lemma decoded_token:
  assumes "decode_closure_control_token layout t bs cap n ncap b fixed = Inr token"
  shows "\<exists>p. parse_closure_control t bs b = Inr p \<and> fst (token_consume token) = Inr (make_control_view t bs p)
    \<and> tk_control token = bs \<and> tk_control_digest token = sha256 bs"
  using assms unfolding decode_token_iff by (auto simp: token_consume_def token_value_def)

lemma transfer_accept_Inr:
  "transfer_accept layout (f, cc, pc) transfer = Inr transfer' \<longleftrightarrow>
   (\<exists>token p st'. decode_closure_control_token layout (fr_type f) (fr_control f)
        (ly_vector_capacity layout (length (fr_control f))) (length (fr_payload f)) pc
        (cs_limits (ct_session transfer)) (ly_frame layout + cc) = Inr token
     \<and> parse_closure_control (fr_type f) (fr_control f) (cs_limits (ct_session transfer)) = Inr p
     \<and> prepare_transition transfer f (make_control_view (fr_type f) (fr_control f) p) (length (fr_control f))
          (sha256 (fr_control f)) True = Inr st'
     \<and> transfer' = advance st' transfer)"
  (is "?L \<longleftrightarrow> ?R")
proof -
  have accept: "?L \<longleftrightarrow> (\<exists>token. decode_closure_control_token layout (fr_type f) (fr_control f)
        (ly_vector_capacity layout (length (fr_control f))) (length (fr_payload f)) pc
        (cs_limits (ct_session transfer)) (ly_frame layout + cc) = Inr token
      \<and> (\<exists>view. fst (token_consume token) = Inr view
        \<and> (\<exists>st'. prepare_transition transfer f view (length (tk_control token)) (tk_control_digest token) True = Inr st'
          \<and> transfer' = advance st' transfer)))"
    unfolding transfer_accept_def prod.case and_then_Inr_iff by auto
  show ?thesis
  proof
    assume ?L
    then obtain token view st' where step: "decode_closure_control_token layout (fr_type f) (fr_control f)
          (ly_vector_capacity layout (length (fr_control f))) (length (fr_payload f)) pc
          (cs_limits (ct_session transfer)) (ly_frame layout + cc) = Inr token"
        "fst (token_consume token) = Inr view"
        "prepare_transition transfer f view (length (tk_control token)) (tk_control_digest token) True = Inr st'"
        "transfer' = advance st' transfer"
      unfolding accept by blast
    from decoded_token [OF step(1)] step show ?R by auto
  next
    assume ?R
    then obtain token p st' where step: "decode_closure_control_token layout (fr_type f) (fr_control f)
          (ly_vector_capacity layout (length (fr_control f))) (length (fr_payload f)) pc
          (cs_limits (ct_session transfer)) (ly_frame layout + cc) = Inr token"
        "parse_closure_control (fr_type f) (fr_control f) (cs_limits (ct_session transfer)) = Inr p"
        "prepare_transition transfer f (make_control_view (fr_type f) (fr_control f) p) (length (fr_control f))
          (sha256 (fr_control f)) True = Inr st'"
        "transfer' = advance st' transfer"
      by blast
    from decoded_token [OF step(1)] step show ?L unfolding accept by auto
  qed
qed

lemma transfer_accept_step:
  assumes "transfer_accept layout i transfer = Inr transfer'"
  defines "b \<equiv> cs_limits (ct_session transfer)"
  obtains view where "frame_events b (fst i) = [(view, fr_payload (fst i))]"
    "ct_session transfer' = ct_session transfer"
    "control_binding view = (cs_session_id (ct_session transfer), cs_task_id (ct_session transfer))"
    "\<And>es. tracks b (ct_state transfer) es \<Longrightarrow> closure_limits_64 b
      \<Longrightarrow> tracks b (ct_state transfer') (es @ [(view, fr_payload (fst i))])"
proof -
  obtain f cc pc where i: "i = (f, cc, pc)" by (cases i) auto
  obtain token p st' where token: "decode_closure_control_token layout (fr_type f) (fr_control f)
        (ly_vector_capacity layout (length (fr_control f))) (length (fr_payload f)) pc b (ly_frame layout + cc) = Inr token"
    and p: "parse_closure_control (fr_type f) (fr_control f) b = Inr p"
    and step: "prepare_transition transfer f (make_control_view (fr_type f) (fr_control f) p) (length (fr_control f))
          (sha256 (fr_control f)) True = Inr st'"
    and transfer': "transfer' = advance st' transfer"
    using assms(1) unfolding i transfer_accept_Inr b_def by blast
  let ?view = "make_control_view (fr_type f) (fr_control f) p"
  have small: "length (fr_payload f) \<le> size_t_max"
    using token unfolding decode_token_iff by (simp add: max_closure_chunk_payload_bytes_def size_t_max_def)
  obtain sequence credit where payload: "validate_closure_payload (fr_type f) ?view (fr_payload f) b = Inr ()"
    and control: "control_transition (ct_session transfer) ?view
      ((ct_state transfer)\<lparr>ts_sequence := sequence, ts_credit := credit\<rparr>) = Inr st'"
    using step unfolding prepare_transition_Inr [OF small] Let_def b_def by blast
  have keep: "tracks b ((ct_state transfer)\<lparr>ts_sequence := sequence, ts_credit := credit\<rparr>) es
      \<longleftrightarrow> tracks b (ct_state transfer) es" for es
    by (simp add: tracks_def phase_tracks_def cong: closure_phase.case_cong)
  show thesis
  proof (rule that [of ?view])
    show "frame_events b (fst i) = [(?view, fr_payload (fst i))]"
      by (simp add: frame_events_def i p)
    show "ct_session transfer' = ct_session transfer"
      by (simp add: transfer' advance_def)
    show "control_binding ?view = (cs_session_id (ct_session transfer), cs_task_id (ct_session transfer))"
      using control by (rule control_transition_bound)
    show "tracks b (ct_state transfer') (es @ [(?view, fr_payload (fst i))])"
      if "tracks b (ct_state transfer) es" "closure_limits_64 b" for es
    proof -
      have "tracks b st' (es @ [(?view, fr_payload f)])"
        using keep [THEN iffD2, OF that(1)] control parsed_view_facts(2) [OF p] _ that(2)
      proof (rule control_tracks)
        show "validate_closure_payload (control_id ?view) ?view (fr_payload f) b = Inr ()"
          using payload by (simp only: parsed_view_facts(1) [OF p])
        show "cs_limits (ct_session transfer) = b" by (simp add: b_def)
      qed
      then show ?thesis by (simp add: transfer' advance_def i)
    qed
  qed
qed

section \<open>A sealed transfer\<close>

lemma accepted_run_tracks:
  assumes "try_fold (transfer_accept layout) is t = Inr u" "tracks (cs_limits (ct_session t)) (ct_state t) []"
    and "closure_limits_64 (cs_limits (ct_session t))"
  shows "ct_session u = ct_session t
    \<and> tracks (cs_limits (ct_session t)) (ct_state u) (received (cs_limits (ct_session t)) is)
    \<and> (\<forall>e \<in> set (received (cs_limits (ct_session t)) is).
         control_binding (fst e) = (cs_session_id (ct_session t), cs_task_id (ct_session t)))"
  using assms(1)
proof (induction rule: try_fold_snoc_induct)
  case nil
  then show ?case using assms(2) by (simp add: received_def)
next
  case (snoc "is" i r u)
  then have session: "ct_session r = ct_session t" by blast
  obtain view where view: "frame_events (cs_limits (ct_session t)) (fst i) = [(view, fr_payload (fst i))]"
    "ct_session u = ct_session t"
    "control_binding view = (cs_session_id (ct_session t), cs_task_id (ct_session t))"
    "\<And>es. tracks (cs_limits (ct_session t)) (ct_state r) es \<Longrightarrow> closure_limits_64 (cs_limits (ct_session t))
      \<Longrightarrow> tracks (cs_limits (ct_session t)) (ct_state u) (es @ [(view, fr_payload (fst i))])"
    using transfer_accept_step [OF snoc.hyps(2)] unfolding session by blast
  then show ?case
    using snoc.IH assms(3) by (simp add: received_snoc)
qed

lemma content_lengths:
  assumes "\<forall>c \<in> set cs. unat (fst c) < n" "n < 2 ^ 64"
  shows "(\<Sum>i<n. length (concat (map snd (filter (\<lambda>c. fst c = (word_of_nat i :: u64)) cs))))
    = sum_list (map (\<lambda>c. length (snd c)) cs)"
  using assms(1)
proof (induction cs)
  case Nil
  then show ?case by simp
next
  case (Cons c cs)
  have pick: "fst c = (word_of_nat i :: u64) \<longleftrightarrow> i = unat (fst c)" if "i < n" for i
    using that assms(2) by (auto simp: word_unat_eq_iff unat_of_nat)
  have "(\<Sum>i<n. length (concat (map snd (filter (\<lambda>c. fst c = (word_of_nat i :: u64)) (c # cs)))))
      = (\<Sum>i<n. (if i = unat (fst c) then length (snd c) else 0)
          + length (concat (map snd (filter (\<lambda>c. fst c = (word_of_nat i :: u64)) cs))))"
    by (rule sum.cong) (simp_all add: pick)
  also have "\<dots> = length (snd c) + sum_list (map (\<lambda>c. length (snd c)) cs)"
    using Cons by (simp add: sum.distrib)
  finally show ?case by simp
qed

lemma blob_totals:
  assumes "numbered es" "blobs_complete (length (blobs es)) es" "length (blobs es) < 2 ^ 64"
  shows "sum_list (map (\<lambda>item. unat (bd_total_bytes item)) (blobs es)) = chunk_bytes_received es"
proof -
  have "sum_list (map (\<lambda>item. unat (bd_total_bytes item)) (blobs es))
      = (\<Sum>i<length (blobs es). unat (bd_total_bytes (blobs es ! i)))"
    by (simp add: sum_list_sum_nth atLeast0LessThan)
  also have "\<dots> = (\<Sum>i<length (blobs es). length (blob_content (word_of_nat i) es))"
    using assms(2) by (simp add: blobs_complete_def)
  also have "\<dots> = chunk_bytes_received es"
    using content_lengths [of "chunks es" "length (blobs es)"] assms(1,3)
    by (simp add: numbered_def blob_content_def chunk_bytes_received_def)
  finally show ?thesis .
qed

lemma transfer_create_tracks:
  assumes "transfer_create session = Inr t"
  shows "ct_session t = session" "ct_state t = initial_transfer_state session"
  using assms by (auto simp: transfer_create_def and_then_Inr_iff split: if_splits)

text \<open>The session-level contract of a sealed transfer, over the events it accepted.\<close>

definition complete_transfer :: "closure_session \<Rightarrow> transfer_event list \<Rightarrow> bool" where
  "complete_transfer session es = (\<exists>d s. descriptors es = [d] \<and> seals es = [s]
     \<and> length (manifest_content es) = unat (md_total_bytes d)
     \<and> unat (seal_blob_count s) = length (blobs es)
     \<and> (\<forall>i < length (blobs es). bd_blob_ordinal (blobs es ! i) = word_of_nat i
          \<and> length (blob_content (word_of_nat i) es) = unat (bd_total_bytes (blobs es ! i)))
     \<and> unat (seal_total_bytes s) = sum_list (map (\<lambda>item. unat (bd_total_bytes item)) (blobs es))
     \<and> unat (seal_total_bytes s) \<le> maximum_unique_blob_bytes (cs_limits session)
     \<and> contiguous es
     \<and> (\<forall>e \<in> set es. control_binding (fst e) = (cs_session_id session, cs_task_id session)))"

lemma sealed_complete:
  assumes "tracks (cs_limits session) st es" "ts_phase st \<in> {Closure_Sealed, Acknowledged}"
    and "closure_limits_64 (cs_limits session)"
    and "\<forall>e \<in> set es. control_binding (fst e) = (cs_session_id session, cs_task_id session)"
  shows "complete_transfer session es"
proof -
  obtain d s where es: "descriptors es = [d]" "length (manifest_content es) = unat (md_total_bytes d)"
      "length (blobs es) = unat (ts_next_blob_ordinal st)" "blobs_complete (length (blobs es)) es" "seals es = [s]"
      "seal_blob_count s = ts_next_blob_ordinal st" "seal_total_bytes s = ts_blob_observed_total st"
    using assms(1,2) by (auto simp: tracks_def phase_tracks_def manifest_complete_def)
  have "length (blobs es) < 2 ^ 64"
    using es(3) unat_u64_less [of "ts_next_blob_ordinal st"] by simp
  then show ?thesis
    using assms es blob_totals [of es]
    by (auto simp: complete_transfer_def tracks_def numbered_def blobs_complete_def)
qed

end
