(* ===== verification/Closure_Delivery.thy ===== *)
theory Closure_Delivery
  imports Closure_Assembly
begin

text \<open>
  Source-closure controls and acknowledgements on their way between two hosts: every valid control has a
  wire form, an encoded control is judged by the state machine alone, and an acknowledgement is prepared
  once, for the transfer and the generation it was prepared from.
\<close>

section \<open>Every valid control encodes\<close>

definition wire_text :: "string \<Rightarrow> bool" where
  "wire_text t = (length t \<le> 4096 \<and> cbor_valid_utf8 (bytes_of t))"

definition ascii_text :: "string \<Rightarrow> bool" where
  "ascii_text t = list_all (\<lambda>c. byte_of_char c \<le> 0x7f) t"

lemma ascii_utf8: "ascii_text t \<Longrightarrow> cbor_valid_utf8 (bytes_of t)"
  by (rule ascii_valid_utf8) (auto simp: ascii_text_def list_all_iff)

lemma hex_wire_text:
  assumes "has_hex_after prefix t" "ascii_text prefix" "length prefix \<le> 1000"
  shows "wire_text t"
proof -
  have t: "t = prefix @ drop (length prefix) t"
    using assms(1) by (metis append_take_drop_id has_hex_after_def starts_with_def)
  have hex: "length (drop (length prefix) t) = 64" "list_all lower_hex (drop (length prefix) t)"
    using assms(1) by (simp_all add: has_hex_after_def hex64_def)
  have "ascii_text (drop (length prefix) t)"
    using hex(2) lower_hex_ascii by (auto simp: ascii_text_def list_all_iff)
  then have "ascii_text t"
    using assms(2) by (subst t) (simp add: ascii_text_def)
  moreover have "length t \<le> 4096"
    using assms(3) hex(1) by (subst t) simp
  ultimately show ?thesis
    by (simp add: wire_text_def ascii_utf8)
qed

lemma digest_wire_text:
  "is_semantic_digest t \<Longrightarrow> wire_text t" "is_content_digest t \<Longrightarrow> wire_text t"
  unfolding is_semantic_digest_def is_content_digest_def by (erule hex_wire_text; code_simp)+

lemma valid_wire_text: "valid_text n field t = Inr () \<Longrightarrow> n \<le> 4096 \<Longrightarrow> wire_text t"
  by (auto simp: valid_text_def wire_text_def split: if_splits)

lemma wire_name_text: "ascii_text (wire_name f) \<and> length (wire_name f) \<le> 32"
proof -
  have "list_all (\<lambda>f. ascii_text (wire_name f) \<and> length (wire_name f) \<le> 32) wire_fields \<and> length wire_fields = 25"
    by code_simp
  then show ?thesis
    using field_code_nth [of f] by (metis list_all_length)
qed

definition wire_value :: "cbor_value \<Rightarrow> bool" where
  "wire_value v = (case v of
     Cbor_Text t \<Rightarrow> wire_text t | Cbor_Unsigned _ \<Rightarrow> True
   | Cbor_Map cs \<Rightarrow> counters_ok cs \<and> sorted_wrt key_before (map fst cs) | _ \<Rightarrow> False)"

lemma control_wire_values:
  assumes "validate_control c b = Inr ()" "counters_sorted c" "f \<in> set (control_fields c)"
  shows "wire_value (snd f)"
proof -
  have kinds: "wire_text ''descriptor''" "wire_text ''chunk''"
    by code_simp+
  show ?thesis
    using assms kinds
    by (auto simp: all_control_fields validate_control_def validate_control_view_def wire_value_def
        validate_manifest_descriptor_def validate_manifest_chunk_def validate_blob_descriptor_def
        validate_blob_chunk_def validate_seal_def validate_ack_def validate_reject_iff validate_reject_view_def
        check_items_def valid_semantic_def valid_content_def counters_sorted_def result_simps
        intro: digest_wire_text valid_wire_text
        split: control_variant.splits source_closure_manifest.splits if_splits)
qed

lemma append_head_length: "length (append_head k n) \<le> 9"
  by (simp add: append_head_def Let_def)

lemma encoded_text_length: "length (encoded_text t) \<le> 9 + length t"
  using append_head_length [of Text_Str "word_of_nat (length t)"] by (simp add: encoded_text_def)

lemma sum_list_le: "\<forall>x \<in> set xs. g x \<le> n \<Longrightarrow> sum_list (map g xs) \<le> length xs * (n :: nat)"
  by (induction xs) auto

lemma counters_wire_length:
  assumes "counters_ok cs"
  shows "length (cbor_bytes (Cbor_Map cs)) \<le> 4681"
proof -
  have "length (encoded_text (fst f) @ cbor_bytes (snd f)) \<le> 146" if "f \<in> set cs" for f
  proof -
    have "counter_ok f"
      using assms that by (simp add: counters_ok_def list_all_iff)
    then obtain n where "snd f = Cbor_Unsigned n" "length (fst f) \<le> 128"
      by (auto simp: counter_ok_def valid_text_def split: if_splits)
    then show ?thesis
      using encoded_text_length [of "fst f"] append_head_length [of Unsigned_Integer n] by simp
  qed
  then have "sum_list (map (\<lambda>f. length (encoded_text (fst f) @ cbor_bytes (snd f))) cs) \<le> length cs * 146"
    by (intro sum_list_le) blast
  also have "\<dots> \<le> 32 * 146"
    using assms by (simp add: counters_ok_def)
  finally show ?thesis
    using append_head_length [of Map_Fields "word_of_nat (length cs)"]
    by (simp add: length_concat comp_def)
qed

lemma wire_value_facts:
  assumes "wire_value v"
  shows "length (cbor_bytes v) \<le> 4681" "cbor_ok default_cbor_limits 1 v"
proof -
  show "length (cbor_bytes v) \<le> 4681"
  proof (cases v)
    case (Cbor_Text t)
    then show ?thesis
      using assms encoded_text_length [of t] by (simp add: wire_value_def wire_text_def)
  next
    case (Cbor_Unsigned n)
    then show ?thesis
      using append_head_length [of Unsigned_Integer n] by simp
  next
    case (Cbor_Map cs)
    then show ?thesis
      using assms counters_wire_length [of cs] by (simp add: wire_value_def del: cbor_bytes.simps)
  qed (use assms in \<open>simp_all add: wire_value_def\<close>)
  show "cbor_ok default_cbor_limits 1 v"
  proof (cases v)
    case (Cbor_Map cs)
    have "text_ok default_cbor_limits (fst f) \<and> cbor_ok default_cbor_limits (Suc 1) (snd f)" if "f \<in> set cs" for f
      using assms that
      by (auto simp: Cbor_Map wire_value_def counters_ok_def list_all_iff counter_ok_def text_ok_def
          valid_text_def default_cbor_limits_def split: if_splits)
    then show ?thesis
      using assms
      by (auto simp: Cbor_Map wire_value_def counters_ok_def list_all_iff default_cbor_limits_def)
  qed (use assms in \<open>simp_all add: wire_value_def wire_text_def text_ok_def default_cbor_limits_def\<close>)
qed

lemma control_key_text:
  assumes "k \<in> set (map fst (control_fields c))"
  shows "ascii_text k \<and> length k \<le> 32"
  using assms wire_name_text unfolding expected_names by auto

lemma ordered_control_wire:
  assumes "validate_control c b = Inr ()" "counters_sorted c"
  shows "cbor_ok default_cbor_limits 0 (Cbor_Map (sort_key key_rank (control_fields c)))"
    "length (closure_wire c) \<le> 65536"
proof -
  let ?fs = "sort_key key_rank (control_fields c)"
  have field: "text_ok default_cbor_limits (fst f) \<and> length (fst f) \<le> 32 \<and> cbor_ok default_cbor_limits (Suc 0) (snd f)
      \<and> length (cbor_bytes (snd f)) \<le> 4681" if "f \<in> set ?fs" for f
    using that control_key_text [of "fst f" c] wire_value_facts [OF control_wire_values [OF assms, of f]]
    by (auto simp: text_ok_def ascii_utf8 default_cbor_limits_def)
  have few: "length ?fs \<le> 10"
    using control_items(2) [OF assms(1)] by simp
  show "cbor_ok default_cbor_limits 0 (Cbor_Map ?fs)"
    using field few sort_key_strict [OF control_keys_distinct, of c]
    by (auto simp: list_all_iff default_cbor_limits_def)
  have "length (encoded_text (fst f) @ cbor_bytes (snd f)) \<le> 4722" if "f \<in> set ?fs" for f
    using field [OF that] encoded_text_length [of "fst f"] by simp
  then have "sum_list (map (\<lambda>f. length (encoded_text (fst f) @ cbor_bytes (snd f))) ?fs) \<le> length ?fs * 4722"
    by (intro sum_list_le) blast
  also have "\<dots> \<le> 10 * 4722"
    using few by simp
  finally show "length (closure_wire c) \<le> 65536"
    using append_head_length [of Map_Fields "word_of_nat (length ?fs)"]
    by (simp add: closure_wire_def length_concat comp_def)
qed

lemma control_nodes:
  "validate_control c b = Inr () \<Longrightarrow> cbor_nodes (Cbor_Map (control_fields c)) \<le> max_items default_cbor_limits"
  using control_items(1) [of c b] cbor_nodes_le_items [of "Cbor_Map (control_fields c)"] by (simp add: default_max)

lemma valid_control_wire:
  assumes "validate_control c b = Inr ()"
  shows "encode_closure_control (control_id c) c b = Inr (closure_wire (ordered_control c))"
proof -
  note ordered = ordered_control_facts [OF assms]
  note wire = ordered_control_wire [OF ordered(1,2)]
  have "cbor_encode (Cbor_Map (control_fields c)) default_cbor_limits = Inr (closure_wire (ordered_control c))"
    using cbor_encode_ordered [of default_cbor_limits "Cbor_Map (control_fields c)"] wire control_nodes [OF assms]
    by (simp add: ordered_control_value [OF assms] closure_wire_def default_max del: cbor_bytes.simps
        cbor_ok.simps ordered_value.simps cbor_nodes.simps)
  then show ?thesis
    using assms by (auto simp: encode_closure_control_def and_then_Inr_iff map_for_iff)
qed

text \<open>
  A control that passes its validation has a wire form. \<open>encode_closure_control\<close> succeeds on a
  control and its message type exactly if the validation does: the limits of the CBOR encoder never
  stop a valid control.
\<close>

theorem valid_control_encodes:
  "(\<exists>bs. encode_closure_control t c b = Inr bs) \<longleftrightarrow> t = control_id c \<and> validate_control c b = Inr ()"
  using valid_control_wire [of c b] unfolding encode_closure_control_iff by blast

section \<open>An encoded control is judged by the state machine\<close>

lemma own_view_inject:
  assumes "own_control_view w = own_control_view v" "\<And>r. v \<noteq> Control_Reject r"
  shows "w = v"
  using assms by (cases v; cases w) (simp_all add: own_control_view_def)

lemma valid_view_wire:
  assumes valid: "validate_control_view v b = Inr ()" and kind: "\<And>r. v \<noteq> Control_Reject r"
  defines "bs \<equiv> closure_wire (own_control_view v)"
  shows "\<exists>p. parse_closure_control (control_id v) bs b = Inr p \<and> make_control_view (control_id v) bs p = v"
    "bs \<noteq> []" "length bs \<le> max_control_bytes"
proof -
  let ?c = "own_control_view v"
  have c: "validate_control ?c b = Inr ()" "counters_sorted ?c"
    using valid kind
    by (cases v; auto simp: own_control_view_def validate_control_def validate_control_view_def counters_sorted_def
        split: source_closure_manifest.splits)+
  note wire = ordered_control_wire [OF c]
  obtain p where p: "parse_closure_control (control_id ?c) bs b = Inr p"
      "own_control_view (make_control_view (control_id ?c) bs p) = ?c"
    using parse_closure_control_complete [OF c(1) wire] unfolding bs_def by blast
  from own_view_inject [OF p(2) kind] p(1)
  show "\<exists>p. parse_closure_control (control_id v) bs b = Inr p \<and> make_control_view (control_id v) bs p = v"
    by (auto simp: control_id_own)
  show "bs \<noteq> []" unfolding bs_def by (rule closure_wire_nonempty)
  show "length bs \<le> max_control_bytes" using wire(2) by (simp add: bs_def max_control_bytes_def)
qed

text \<open>The memory \<open>accept\<close> accounts for.\<close>

definition accept_resident :: "host_layout \<Rightarrow> nat \<Rightarrow> nat \<Rightarrow> nat \<Rightarrow> nat" where
  "accept_resident layout control_size control_capacity payload_capacity =
    fixed_header_bytes + (ly_frame layout + control_capacity) + payload_capacity
      + (ly_vector_capacity layout control_size + ly_decode_workspace layout)"

lemma accept_valid_view:
  assumes valid: "validate_control_view v b = Inr ()" and kind: "\<And>r. v \<noteq> Control_Reject r"
    and frame: "fr_type f = control_id v" "fr_control f = closure_wire (own_control_view v)"
    and b: "cs_limits (ct_session transfer) = b"
    and payload: "length (fr_payload f) \<le> min (maximum_chunk_payload_bytes b) max_closure_chunk_payload_bytes"
    and memory: "accept_resident layout (length (fr_control f)) cc pc \<le> resident_limit b"
    and step: "prepare_transition transfer f v (length (fr_control f)) (sha256 (fr_control f)) True = Inr st'"
  shows "transfer_accept layout (f, cc, pc) transfer = Inr (advance st' transfer)"
proof -
  note wire = valid_view_wire [OF valid kind]
  obtain p where p: "parse_closure_control (fr_type f) (fr_control f) b = Inr p"
      "make_control_view (fr_type f) (fr_control f) p = v"
    using wire(1) by (auto simp: frame)
  have "\<exists>token. decode_closure_control_token layout (fr_type f) (fr_control f)
        (ly_vector_capacity layout (length (fr_control f))) (length (fr_payload f)) pc b (ly_frame layout + cc) = Inr token"
    unfolding decode_token_iff
    using wire(2,3) payload memory p(1) by (simp add: frame accept_resident_def)
  then show ?thesis
    unfolding transfer_accept_Inr b using p step by blast
qed

lemma consume_encoded_enough:
  assumes "fixed_header_bytes + n + m \<le> unat (cr_bytes c)" "cr_frames c \<noteq> 0"
  shows "consume_encoded n m c = Inr \<lparr>cr_bytes = cr_bytes c - word_of_nat (fixed_header_bytes + n + m),
    cr_frames = cr_frames c - 1\<rparr>"
proof -
  have "fixed_header_bytes + n + m < 2 ^ 64"
    using assms(1) unat_u64_less [of "cr_bytes c"] by linarith
  then have "unat (word_of_nat (fixed_header_bytes + n + m) :: u64) = fixed_header_bytes + n + m"
    by (simp only: unat_of_nat) simp
  moreover have "fixed_header_bytes + n + m \<le> size_t_max"
    using \<open>fixed_header_bytes + n + m < 2 ^ 64\<close> by (simp add: size_t_max_def)
  ultimately show ?thesis
    using assms by (auto simp: consume_encoded_def Let_def word_less_nat_alt not_less add.assoc
        simp flip: of_nat_add)
qed

text \<open>The frame a sender makes of a control and a payload, with the digests left for the codec to fill in.\<close>

definition closure_frame :: "u64 \<Rightarrow> u64 \<Rightarrow> transfer_event \<Rightarrow> frame" where
  "closure_frame stream sequence = (\<lambda>(view, payload).
    \<lparr>fr_type = control_id view, fr_major = protocol_major_2, fr_minor = 0, fr_flags = 0, fr_stream_id = stream,
     fr_sequence = sequence, fr_control = closure_wire (own_control_view view), fr_payload = payload,
     fr_control_digest = zero_digest, fr_payload_digest = zero_digest\<rparr>)"

lemma zero_digest_zero [simp]: "digest_is_zero zero_digest"
  by (simp add: zero_digest_def digest_is_zero_def all_zero_def list_all_iff)

lemma sequence_accept_next:
  assumes "fr_stream_id f = sg_stream_id g" "fr_sequence f = sg_next_sequence g" "\<not> sg_exhausted g"
    "sg_next_sequence g \<noteq> - 1"
  shows "sequence_accept f g = Inr (g\<lparr>sg_next_sequence := sg_next_sequence g + 1\<rparr>)"
  using assms by (simp add: sequence_accept_def)

lemma accept_closure_frame:
  fixes transfer :: closure_transfer and view :: closure_control_view
  defines "session \<equiv> ct_session transfer" and "st \<equiv> ct_state transfer"
    and "n \<equiv> length (closure_wire (own_control_view view))"
  assumes valid: "validate_control_view view (cs_limits session) = Inr ()" "\<And>r. view \<noteq> Control_Reject r"
    and payload: "validate_closure_payload (control_id view) view payload (cs_limits session) = Inr ()"
      "length payload \<le> min (maximum_chunk_payload_bytes (cs_limits session)) max_closure_chunk_payload_bytes"
    and active: "ct_active transfer"
    and sequence: "sg_stream_id (ts_sequence st) = stream" "sg_next_sequence (ts_sequence st) = k"
      "\<not> sg_exhausted (ts_sequence st)" "k \<noteq> - 1"
    and memory: "accept_resident layout n cc pc \<le> resident_limit (cs_limits session)"
      "n + length payload \<le> maximum_resident_transport_bytes (cs_limits session)"
    and credit: "fixed_header_bytes + n + length payload \<le> unat (cr_bytes (ts_credit st))" "cr_frames (ts_credit st) \<noteq> 0"
    and step: "control_transition session view (st\<lparr>ts_sequence := (ts_sequence st)\<lparr>sg_next_sequence := k + 1\<rparr>,
      ts_credit := \<lparr>cr_bytes = cr_bytes (ts_credit st) - word_of_nat (fixed_header_bytes + n + length payload),
        cr_frames = cr_frames (ts_credit st) - 1\<rparr>\<rparr>) = Inr st'"
  shows "transfer_accept layout (closure_frame stream k (view, payload), cc, pc) transfer = Inr (advance st' transfer)"
proof -
  let ?f = "closure_frame stream k (view, payload)"
  have f: "fr_type ?f = control_id view" "fr_control ?f = closure_wire (own_control_view view)" "fr_payload ?f = payload"
    by (simp_all add: closure_frame_def)
  have small: "length (fr_payload ?f) \<le> size_t_max" "n + length payload \<le> size_t_max"
    using payload(2) valid_view_wire(3) [OF valid] unfolding f n_def
    by (simp_all add: max_closure_chunk_payload_bytes_def size_t_max_def max_control_bytes_def)
  have "sequence_accept ?f (ts_sequence st) = Inr ((ts_sequence st)\<lparr>sg_next_sequence := k + 1\<rparr>)"
    using sequence sequence_accept_next [of ?f "ts_sequence st"] by (simp add: closure_frame_def)
  then have "prepare_transition transfer ?f view (length (fr_control ?f)) (sha256 (fr_control ?f)) True = Inr st'"
    unfolding prepare_transition_Inr [OF small(1)] Let_def
    using active payload(1) memory(2) small(2) consume_encoded_enough [OF credit] step
    by (simp add: closure_frame_def session_def st_def n_def control_id_closure)
  then show ?thesis
    using valid payload(2) memory(1)
    by (intro accept_valid_view [OF valid f(1,2)]) (simp_all add: f n_def session_def)
qed

section \<open>A small transfer\<close>

definition example_layout :: host_layout where
  "example_layout = \<lparr>ly_decode_workspace = 0, ly_frame = 0, ly_control = 0, ly_control_result = 0, ly_map_entry = 0,
    ly_ack_workspace = 0, ly_vector_capacity = (\<lambda>n. n), ly_string_capacity = (\<lambda>n. n),
    ly_entries_capacity = (\<lambda>n. n)\<rparr>"

definition example_semantic :: string where
  "example_semantic = ''semantic-v2:sha256:'' @ replicate 64 CHR ''0''"

definition example_session :: closure_session where
  "example_session = \<lparr>cs_session_id = ''s'', cs_task_id = ''t'', cs_task_v4_digest = [], cs_closure_digest = [],
    cs_manifest_digest = [], cs_stream_id = 1, cs_initial_credit = \<lparr>cr_bytes = 1000000, cr_frames = 10\<rparr>,
    cs_limits = default_closure_limits, cs_first_sequence = 0\<rparr>"

definition example_descriptor :: source_closure_manifest_descriptor where
  "example_descriptor = \<lparr>md_kind = Kind_Descriptor, md_session_id = ''s'', md_task_id = ''t'',
    md_task_v4_digest = example_semantic, md_closure_id = ''source-closure:'' @ example_semantic,
    md_closure_digest = example_semantic, md_manifest_digest = example_semantic, md_total_bytes = 0,
    md_chunk_bytes = 1, md_chunk_count = 0\<rparr>"

definition example_seal :: source_closure_seal where
  "example_seal = \<lparr>seal_session_id = ''s'', seal_task_id = ''t'', seal_task_v4_digest = example_semantic,
    seal_manifest_digest = example_semantic, seal_blob_receipts_digest = example_semantic, seal_blob_count = 0,
    seal_total_bytes = 0, seal_closure_digest = example_semantic, seal_transfer_digest = example_semantic\<rparr>"

abbreviation example_opening :: closure_control_view where
  "example_opening \<equiv> Control_Manifest (Manifest_Descriptor example_descriptor)"

definition example_frames :: "(frame \<times> nat \<times> nat) list" where
  "example_frames = [(closure_frame 1 0 (example_opening, []), 65536, 0), (closure_frame 1 1 (Control_Seal example_seal, []), 65536, 0)]"

definition plain_text :: "string \<Rightarrow> bool" where
  "plain_text t = (t \<noteq> [] \<and> list_all (\<lambda>c. 0x20 \<le> byte_of_char c \<and> byte_of_char c < 0x7f) t)"

lemma plain_text_valid: "plain_text t \<Longrightarrow> length t \<le> n \<Longrightarrow> valid_text n field t = Inr ()"
  using ascii_utf8 [of t]
  by (fastforce simp: valid_text_def plain_text_def ascii_text_def list_all_iff list_ex_iff byte_le_unat)

lemma example_texts: "plain_text ''s''" "plain_text ''t''" "plain_text example_semantic"
  "plain_text (''source-closure:'' @ example_semantic)" "is_semantic_digest example_semantic"
  "is_closure_id (''source-closure:'' @ example_semantic)" "length example_semantic = 83"
  by code_simp+

lemma example_valid:
  "validate_manifest_descriptor example_descriptor default_closure_limits = Inr ()"
  "validate_seal example_seal default_closure_limits = Inr ()"
  using example_texts
  by (simp_all add: validate_manifest_descriptor_def validate_seal_def check_items_def valid_semantic_def
      plain_text_valid example_descriptor_def example_seal_def default_closure_limits_def valid_shape_def)

lemma example_transfer_created: "transfer_create example_session = Inr \<lparr>ct_session = example_session,
  ct_state = initial_transfer_state example_session, ct_generation = 1, ct_active = True\<rparr>"
  using example_texts
  by (simp add: transfer_create_def example_session_def check_items_def plain_text_valid)

lemma example_room:
  "length (closure_wire (own_control_view example_opening)) \<le> 65536"
  "length (closure_wire (own_control_view (Control_Seal example_seal))) \<le> 65536"
  "accept_resident example_layout n 65536 0 = 104 + 65536 + n"
  "resident_limit default_closure_limits = 1310720"
  using valid_view_wire(3) [of example_opening default_closure_limits]
    valid_view_wire(3) [of "Control_Seal example_seal" default_closure_limits] example_valid
  by (simp_all add: validate_control_view_def accept_resident_def example_layout_def resident_limit_def
      default_closure_limits_def max_closure_resident_transport_bytes_def fixed_header_bytes_def max_control_bytes_def)

lemma credit_left: "m \<le> unat (c :: u64) \<Longrightarrow> unat (c - word_of_nat m) = unat c - m"
  using unat_u64_less [of c] by (simp add: unat_sub word_le_nat_alt unat_of_nat)

lemma maximum_resident_default: "maximum_resident_transport_bytes default_closure_limits = 1310720"
  by (simp add: default_closure_limits_def)

lemma example_run:
  assumes "transfer_create example_session = Inr t"
  shows "\<exists>t1 t2. transfer_accept example_layout (example_frames ! 0) t = Inr t1
    \<and> transfer_accept example_layout (example_frames ! 1) t1 = Inr t2
    \<and> ts_phase (ct_state t2) = Closure_Sealed \<and> ct_active t2 \<and> ct_session t2 = example_session
    \<and> fixed_text_view (ts_sealed_transfer_digest (ct_state t2)) = example_semantic
    \<and> ts_sequence (ct_state t2) = \<lparr>sg_stream_id = 1, sg_next_sequence = 2, sg_exhausted = False\<rparr>
    \<and> 800000 \<le> unat (cr_bytes (ts_credit (ct_state t2))) \<and> cr_frames (ts_credit (ct_state t2)) = 8"
proof -
  have t: "ct_session t = example_session" "ct_state t = initial_transfer_state example_session" "ct_active t"
    using assms by (auto simp: example_transfer_created)
  let ?n = "\<lambda>v. length (closure_wire (own_control_view v))" and ?seal = "Control_Seal example_seal :: closure_control_view"
  let ?c1 = "1000000 - word_of_nat (fixed_header_bytes + ?n example_opening) :: u64"
  obtain st1 where st1: "control_transition example_session example_opening
      ((ct_state t)\<lparr>ts_sequence := (ts_sequence (ct_state t))\<lparr>sg_next_sequence := 1\<rparr>,
        ts_credit := \<lparr>cr_bytes = ?c1, cr_frames = 9\<rparr>\<rparr>) = Inr st1"
    and st1': "ts_phase st1 = Manifest_Validated" "ts_sequence st1 = \<lparr>sg_stream_id = 1, sg_next_sequence = 1, sg_exhausted = False\<rparr>"
      "ts_credit st1 = \<lparr>cr_bytes = ?c1, cr_frames = 9\<rparr>" "ts_next_blob_ordinal st1 = 0" "ts_blob_observed_total st1 = 0"
      "ts_current_blob_next_chunk st1 = ts_current_blob_chunk_count st1"
      "ts_sealed_transfer_digest st1 = empty_fixed_text"
    by (simp add: control_transition_def descriptor_transition_def t initial_transfer_state_def example_session_def
        bind_common_def example_descriptor_def sequence_guard_new_def)
  have first: "transfer_accept example_layout (example_frames ! 0) t = Inr (advance st1 t)"
    unfolding example_frames_def nth_Cons_0
    by (rule accept_closure_frame)
      (use st1 example_valid example_room in \<open>simp_all add: t initial_transfer_state_def example_session_def
        sequence_guard_new_def validate_control_view_def validate_closure_payload_def is_closure_message_def
        closure_first_message_id_def closure_last_message_id_def fixed_header_bytes_def max_closure_chunk_payload_bytes_def control_id_def closure_ids
        maximum_resident_default\<close>)
  have c1: "unat ?c1 \<ge> 900000"
    using example_room(1) by (simp add: fixed_header_bytes_def unat_sub word_le_nat_alt unat_of_nat)
  obtain st2 where st2: "control_transition example_session ?seal
      (st1\<lparr>ts_sequence := (ts_sequence st1)\<lparr>sg_next_sequence := 2\<rparr>,
        ts_credit := \<lparr>cr_bytes = ?c1 - word_of_nat (fixed_header_bytes + ?n ?seal), cr_frames = 8\<rparr>\<rparr>) = Inr st2"
    and st2': "ts_phase st2 = Closure_Sealed" "fixed_text_view (ts_sealed_transfer_digest st2) = example_semantic"
      "ts_sequence st2 = \<lparr>sg_stream_id = 1, sg_next_sequence = 2, sg_exhausted = False\<rparr>"
      "ts_credit st2 = \<lparr>cr_bytes = ?c1 - word_of_nat (fixed_header_bytes + ?n ?seal), cr_frames = 8\<rparr>"
    using st1'
    by (simp add: control_transition_def seal_transition_def example_session_def bind_common_def example_seal_def
        fixed_text_assign_def fixed_text_view_def empty_fixed_text_def fixed_text_capacity_def example_texts)
  have second: "transfer_accept example_layout (example_frames ! 1) (advance st1 t) = Inr (advance st2 (advance st1 t))"
    unfolding example_frames_def nth_Cons_Suc nth_Cons_0 One_nat_def
    by (rule accept_closure_frame)
      (use st1' st2 c1 example_valid example_room in \<open>simp_all add: t advance_def example_session_def
        validate_control_view_def validate_closure_payload_def control_id_def closure_ids is_closure_message_def closure_first_message_id_def
        closure_last_message_id_def
        fixed_header_bytes_def max_closure_chunk_payload_bytes_def maximum_resident_default\<close>)
  have "800000 \<le> unat (?c1 - word_of_nat (fixed_header_bytes + ?n ?seal))"
    using c1 example_room(2) by (subst credit_left) (simp_all add: fixed_header_bytes_def)
  then show ?thesis
    using first second st2' t by (auto simp: advance_def)
qed

text \<open>
  C20: a sealed source-closure transfer is complete. Take a host that creates a transfer and offers it
  any frames in any order, dropping those it refuses. If the transfer is then sealed or acknowledged, the
  accepted frames held exactly one manifest descriptor and one seal; the manifest chunks together have
  the declared manifest size; the blobs were opened in the order 0, 1, 2, ..., the seal counts them, the
  chunks of each have its declared size, and the seal's total is the sum of these sizes; every chunk
  started where its object ended at that moment, with no gap and no overlap; and every accepted control
  was bound to the session and the task of the transfer.
\<close>

theorem sealed_transfer_complete:
  assumes "transfer_create session = Inr t" "closure_limits_64 (cs_limits session)"
    and "ts_phase (ct_state (run_machine (transfer_accept layout) is t)) \<in> {Closure_Sealed, Acknowledged}"
  shows "complete_transfer session
    (received (cs_limits session) (accepted_inputs (transfer_accept layout) is t))"
proof -
  note create = transfer_create_tracks [OF assms(1)]
  show ?thesis
    using accepted_run_tracks [OF try_fold_accepted [of "transfer_accept layout" "is" t]] assms(2,3)
      initial_tracks [of "cs_limits session" session]
    by (intro sealed_complete [of session "ct_state (run_machine (transfer_accept layout) is t)"])
      (auto simp: create)
qed

lemma sealed_transfer_complete_witness:
  "\<exists>t. transfer_create example_session = Inr t \<and> complete_transfer example_session
    (received default_closure_limits (accepted_inputs (transfer_accept example_layout) example_frames t))"
proof -
  obtain t t1 t2 where t: "transfer_create example_session = Inr t"
    and run: "transfer_accept example_layout (example_frames ! 0) t = Inr t1"
      "transfer_accept example_layout (example_frames ! 1) t1 = Inr t2" "ts_phase (ct_state t2) = Closure_Sealed"
    using example_run example_transfer_created by blast
  have "example_frames = [example_frames ! 0, example_frames ! 1]"
    by (simp add: example_frames_def)
  then have "run_machine (transfer_accept example_layout) example_frames t = t2"
    using run by (metis run_machine.simps sum.case(2))
  then show ?thesis
    using sealed_transfer_complete [OF t, of example_layout example_frames] run(3) t
    by (simp add: example_session_def closure_limits_64_def default_closure_limits_def)
qed

text \<open>
  A manifest descriptor may carry any payload: of the descriptors only the one of a blob is checked to
  have none.
\<close>

lemma descriptor_payload_unchecked:
  "validate_closure_payload source_closure_manifest_id (Control_Manifest (Manifest_Descriptor d)) payload b = Inr ()"
  by (simp add: validate_closure_payload_def closure_ids is_closure_message_def closure_first_message_id_def
      closure_last_message_id_def)

section \<open>Acknowledgements\<close>

text \<open>The digests a frame carries over the wire are the ones \<open>accept\<close> computes itself.\<close>

lemma accept_with_digests:
  assumes "digest_is_zero (fr_control_digest f)" "digest_is_zero (fr_payload_digest f)"
  shows "transfer_accept layout (with_digests f, cc, pc) t = transfer_accept layout (f, cc, pc) t"
proof -
  have digests: "prepare_transition t (with_digests f) v n (sha256 (fr_control f)) c
      = prepare_transition t f v n (sha256 (fr_control f)) c" for v n c
    using assms by (simp add: prepare_transition_def with_digests_def Let_def digest_equal_def sequence_accept_def)
  have "decode_closure_control_token layout (fr_type f) (fr_control f) cap m pcap b r = Inr token
      \<Longrightarrow> tk_control_digest token = sha256 (fr_control f)" for cap m pcap b r token
    using decoded_token by blast
  then show ?thesis
    unfolding transfer_accept_def prod.case
    by (auto simp: with_digests_def digests [unfolded with_digests_def] and_then_def split: sum.splits)
qed

lemma prepare_transition_plain:
  assumes "prepare_transition t f v n d c = Inr st'" "length (fr_payload f) \<le> size_t_max"
  obtains sequence credit where "sequence_accept f (ts_sequence (ct_state t)) = Inr sequence"
    "control_transition (ct_session t) v ((ct_state t)\<lparr>ts_sequence := sequence, ts_credit := credit\<rparr>) = Inr st'"
    "\<not> c \<Longrightarrow> credit = ts_credit (ct_state t)"
  using assms unfolding prepare_transition_Inr [OF assms(2)] Let_def by (auto split: if_splits)

lemma prepare_acknowledgement_facts:
  assumes "prepare_acknowledgement layout this value k cc wc t = Inr tr"
  shows "ct_active t" "ts_phase (ct_state t) = Closure_Sealed" "validate_ack value = Inr ()"
    "encode_frame (closure_frame (cs_stream_id (ct_session t)) k (Control_Ack value, [])) default_frame_limits = Inr (pa_wire tr)"
    "ack_transfer_digest value = fixed_text_view (ts_sealed_transfer_digest (ct_state t))"
    "control_binding (Control_Ack value) = (cs_session_id (ct_session t), cs_task_id (ct_session t))"
    "ack_closure_digest value = cs_closure_digest (ct_session t) \<or> cs_closure_digest (ct_session t) = []"
    "\<exists>sequence. sequence_accept (closure_frame (cs_stream_id (ct_session t)) k (Control_Ack value, [])) (ts_sequence (ct_state t))
        = Inr sequence \<and> pa_next tr = (ct_state t)\<lparr>ts_sequence := sequence, ts_phase := Acknowledged\<rparr>"
    "pa_owner tr = Some this" "pa_generation tr = ct_generation t" "\<not> pa_consumed tr"
proof -
  obtain control st where ready: "ct_active t" "ts_phase (ct_state t) = Closure_Sealed"
    and control: "encode_closure_control source_closure_ack_id (Control_Ack value) (cs_limits (ct_session t)) = Inr control"
    and step: "prepare_transition t (acknowledgement_frame (ct_session t) k control) (Control_Ack value :: closure_control_view)
       (length control) (sha256 control) False = Inr st"
    and wire: "encode_frame (acknowledgement_frame (ct_session t) k control) default_frame_limits = Inr (pa_wire tr)"
    and tr: "pa_owner tr = Some this" "pa_generation tr = ct_generation t" "pa_next tr = st" "\<not> pa_consumed tr"
    using assms unfolding prepare_acknowledgement_def Let_def and_then_Inr_iff if_Inl_Inr_iff by auto
  have c: "validate_control (Control_Ack value) (cs_limits (ct_session t)) = Inr ()" "control = closure_wire (Control_Ack value)"
    using control unfolding encode_closure_control_iff by (simp_all add: ordered_control_def)
  have frame: "acknowledgement_frame (ct_session t) k control = closure_frame (cs_stream_id (ct_session t)) k (Control_Ack value, [])"
    by (simp add: acknowledgement_frame_def closure_frame_def c(2) own_control_view_def control_id_def)
  have "length (fr_payload (closure_frame (cs_stream_id (ct_session t)) k (Control_Ack value, []))) \<le> size_t_max"
    by (simp add: closure_frame_def)
  from prepare_transition_plain [OF step [unfolded frame] this]
  obtain sequence where seq: "sequence_accept (closure_frame (cs_stream_id (ct_session t)) k (Control_Ack value, []))
      (ts_sequence (ct_state t)) = Inr sequence"
    and move: "control_transition (ct_session t) (Control_Ack value :: closure_control_view)
      ((ct_state t)\<lparr>ts_sequence := sequence, ts_credit := ts_credit (ct_state t)\<rparr>) = Inr st"
    by metis
  show "ct_active t" "ts_phase (ct_state t) = Closure_Sealed" by (fact ready)+
  show "validate_ack value = Inr ()" using c(1) by (simp add: validate_control_def validate_control_view_def)
  show "encode_frame (closure_frame (cs_stream_id (ct_session t)) k (Control_Ack value, [])) default_frame_limits = Inr (pa_wire tr)"
    using wire unfolding frame .
  show "control_binding (Control_Ack value) = (cs_session_id (ct_session t), cs_task_id (ct_session t))"
    "ack_transfer_digest value = fixed_text_view (ts_sealed_transfer_digest (ct_state t))"
    "\<exists>sequence. sequence_accept (closure_frame (cs_stream_id (ct_session t)) k (Control_Ack value, [])) (ts_sequence (ct_state t))
        = Inr sequence \<and> pa_next tr = (ct_state t)\<lparr>ts_sequence := sequence, ts_phase := Acknowledged\<rparr>"
    using seq move
    by (auto simp: control_transition_def ack_transition_def and_then_Inr_iff tr control_binding_def bind_common_Inr
        split: if_splits)
  show "ack_closure_digest value = cs_closure_digest (ct_session t) \<or> cs_closure_digest (ct_session t) = []"
  proof -
    have "ack_closure_digest value \<noteq> []"
      using \<open>validate_ack value = Inr ()\<close>
      by (auto simp: validate_ack_def check_items_def valid_semantic_def is_semantic_digest_def has_hex_after_def
          hex64_def starts_with_def result_simps split: if_splits)
    then show ?thesis
      using move by (auto simp: control_transition_def ack_transition_def and_then_Inr_iff bind_common_Inr split: if_splits)
  qed
  show "pa_owner tr = Some this" "pa_generation tr = ct_generation t" "\<not> pa_consumed tr" by (fact tr)+
qed

lemma accept_generation:
  assumes "try_fold (transfer_accept layout) is t = Inr u"
  shows "ct_generation u = ct_generation t + word_of_nat (length is)"
  using assms
proof (induction rule: try_fold_snoc_induct)
  case nil
  then show ?case by simp
next
  case (snoc "is" i r u)
  obtain f cc pc where "i = (f, cc, pc)" by (cases i) auto
  then show ?case
    using snoc transfer_accept_Inr [of layout f cc pc r u] by (auto simp: advance_def)
qed

lemma commit_stale:
  "ct_generation u \<noteq> pa_generation tr \<Longrightarrow> commit_acknowledgement this tr u = (u, tr)"
  by (auto simp: commit_acknowledgement_def)

text \<open>The frame of every valid control encodes.\<close>

lemma closure_header_valid:
  assumes "is_closure_message type_id" "0 < n" "n \<le> max_control_bytes" "m \<le> max_closure_payload_bytes"
  shows "validate_header_values protocol_major_2 0 type_id 0 n m default_frame_limits = Inr ()"
proof -
  have limits: "validate_limits default_frame_limits = Inr ()"
    by (simp add: validate_limits_def default_frame_limits_def max_control_bytes_def max_payload_bytes_def
        max_frame_bytes_def fixed_header_bytes_def flag_end_of_stream_def)
  have "is_known_message_id type_id" "type_id \<noteq> 0" "type_id \<noteq> heartbeat_message_id"
    using assms(1) by (auto simp: is_closure_message_def is_known_message_id_def closure_first_message_id_def
        closure_last_message_id_def heartbeat_message_id_def word_le_nat_alt)
  moreover have "fl_max_control_bytes default_frame_limits = 65536" "fl_max_payload_bytes default_frame_limits = 16777216"
      "fl_max_frame_bytes default_frame_limits = 16842856"
    by (simp_all add: default_frame_limits_def max_control_bytes_def max_payload_bytes_def max_frame_bytes_def
        fixed_header_bytes_def)
  ultimately show ?thesis
    using assms(2-4)
    by (simp add: validate_header_values_def limits Let_def max_control_bytes_def max_closure_payload_bytes_def
        fixed_header_bytes_def size_t_max_def)
qed

lemma closure_frame_encodes:
  assumes valid: "validate_control_view view b = Inr ()" "\<And>r. view \<noteq> Control_Reject r"
    and payload: "length payload \<le> max_closure_payload_bytes"
  shows "\<exists>bs. encode_frame (closure_frame stream k (view, payload)) default_frame_limits = Inr bs"
proof -
  note wire = valid_view_wire [OF valid]
  obtain p where "parse_closure_control (control_id view) (closure_wire (own_control_view view)) b = Inr p"
    using wire(1) by blast
  then have scan: "sr_error (scan_canonical (closure_wire (own_control_view view)) control_scan_limits) = Scan_None"
    by (auto simp: parse_closure_control_def split: if_splits)
  have limits: "closure_scan_limits default_frame_limits = control_scan_limits"
    by (simp add: closure_scan_limits_def control_scan_limits_def default_frame_limits_def)
  have "validate_canonical_control (control_id view) (closure_wire (own_control_view view)) default_frame_limits = Inr ()"
    by (simp add: validate_canonical_control_def control_id_closure limits scan)
  then show ?thesis
    unfolding encode_frame_iff
    using closure_header_valid [OF control_id_closure [of view] _ wire(3) payload] wire(2)
    by (simp add: closure_frame_def)
qed

definition example_ack :: source_closure_ack where
  "example_ack = \<lparr>ack_session_id = ''s'', ack_task_id = ''t'', ack_closure_digest = example_semantic,
    ack_transfer_digest = example_semantic, ack_spool_receipt = ''r'', ack_cleanup_owner = ''o''\<rparr>"

lemma example_ack_valid: "validate_ack example_ack = Inr ()"
proof -
  have "plain_text ''r''" "plain_text ''o''" by code_simp+
  then show ?thesis
    using example_texts by (simp add: validate_ack_def check_items_def valid_semantic_def plain_text_valid example_ack_def)
qed

lemma example_prepare:
  assumes "ct_active t" "ts_phase (ct_state t) = Closure_Sealed" "ct_session t = example_session"
    "fixed_text_view (ts_sealed_transfer_digest (ct_state t)) = example_semantic"
    "ts_sequence (ct_state t) = \<lparr>sg_stream_id = 1, sg_next_sequence = 2, sg_exhausted = False\<rparr>"
  shows "\<exists>tr. prepare_acknowledgement example_layout 7 example_ack 2 65536 65640 t = Inr tr"
proof -
  let ?v = "Control_Ack example_ack :: closure_control_view" and ?control = "closure_wire (Control_Ack example_ack)"
  have control: "encode_closure_control source_closure_ack_id (Control_Ack example_ack) default_closure_limits = Inr ?control"
    using valid_control_wire [of "Control_Ack example_ack" default_closure_limits] example_ack_valid
    by (simp add: validate_control_def validate_control_view_def control_id_def ordered_control_def)
  have view: "validate_control_view ?v default_closure_limits = Inr ()"
    by (simp add: validate_control_view_def example_ack_valid)
  have frame: "acknowledgement_frame example_session 2 ?control = closure_frame 1 2 (?v, [])"
    by (simp add: acknowledgement_frame_def closure_frame_def own_control_view_def control_id_def example_session_def)
  obtain wire where wire: "encode_frame (closure_frame 1 2 (?v, [])) default_frame_limits = Inr wire"
    using closure_frame_encodes [OF view, of "[]" 1 2] by auto
  have size: "length ?control \<le> 65536"
    using valid_view_wire(3) [OF view] by (simp add: own_control_view_def max_control_bytes_def)
  have "length (fr_payload (closure_frame 1 2 (?v, []))) \<le> size_t_max"
    by (simp add: closure_frame_def)
  then have "\<exists>st'. prepare_transition t (closure_frame 1 2 (?v, [])) ?v (length ?control) (sha256 ?control) False = Inr st'"
    using assms size sequence_accept_next [of "closure_frame 1 2 (?v, [])" "ts_sequence (ct_state t)"] control_id_closure [of ?v]
    by (simp add: prepare_transition_Inr Let_def closure_frame_def size_t_max_def example_session_def
        maximum_resident_default validate_closure_payload_def control_id_def control_transition_def ack_transition_def
        bind_common_def example_ack_def)
  moreover have "try_fold resident_add [4 * max_control_bytes + fixed_header_bytes + 2 * 32 * ly_map_entry example_layout]
      (ly_ack_workspace example_layout) = Inr 262248"
    "try_fold resident_add [65536, 65640] (ly_ack_workspace example_layout) = Inr 131176"
    by (simp_all add: resident_add_def example_layout_def max_control_bytes_def fixed_header_bytes_def size_t_max_def)
  moreover have "resident_limit (cs_limits example_session) = 1310720" "cs_limits example_session = default_closure_limits"
    by (simp_all add: example_session_def example_room)
  ultimately show ?thesis
    using assms control wire
    by (auto simp: prepare_acknowledgement_def Let_def within_resident_limit_def frame simp del: try_fold.simps)
qed

text \<open>
  C22: an acknowledgement takes effect once, and only for the transfer state it was prepared from. A prepared
  acknowledgement names the digest that the seal declared. Committing it on the transfer it was prepared
  from acknowledges that transfer and changes nothing but the phase and the receive sequence; the
  transition is then spent, and committing it again changes nothing. Committing it on another object, or
  after the transfer accepted further frames (fewer than 2^64), changes nothing at all.
\<close>

theorem acknowledgement_commits_once:
  assumes "prepare_acknowledgement layout this value k cc wc t = Inr tr"
  shows "ack_transfer_digest value = fixed_text_view (ts_sealed_transfer_digest (ct_state t))
    \<and> (\<exists>sequence. fst (commit_acknowledgement this tr t)
        = t\<lparr>ct_state := (ct_state t)\<lparr>ts_sequence := sequence, ts_phase := Acknowledged\<rparr>,
            ct_generation := ct_generation t + 1\<rparr>)
    \<and> (\<forall>u. commit_acknowledgement this (snd (commit_acknowledgement this tr t)) u
          = (u, snd (commit_acknowledgement this tr t)))
    \<and> (\<forall>other u. other \<noteq> this \<longrightarrow> commit_acknowledgement other tr u = (u, tr))
    \<and> (\<forall>is. length (accepted_inputs (transfer_accept layout) is t) \<in> {0 <..< 2 ^ 64} \<longrightarrow>
          commit_acknowledgement this tr (run_machine (transfer_accept layout) is t)
            = (run_machine (transfer_accept layout) is t, tr))"
proof -
  note tr = prepare_acknowledgement_facts [OF assms]
  obtain sequence where move: "pa_next tr = (ct_state t)\<lparr>ts_sequence := sequence, ts_phase := Acknowledged\<rparr>"
    using tr(8) by blast
  have commit: "commit_acknowledgement this tr t = (advance (pa_next tr) t, ack_abort tr)"
    using tr move by (simp add: commit_acknowledgement_def)
  have spent: "commit_acknowledgement this (ack_abort tr) u = (u, ack_abort tr)" for u
    by (simp add: commit_acknowledgement_def ack_abort_def)
  have foreign: "commit_acknowledgement other tr u = (u, tr)" if "other \<noteq> this" for other u
    using that tr(9) by (auto simp: commit_acknowledgement_def)
  have stale: "commit_acknowledgement this tr (run_machine (transfer_accept layout) is t)
      = (run_machine (transfer_accept layout) is t, tr)"
    if "length (accepted_inputs (transfer_accept layout) is t) \<in> {0 <..< 2 ^ 64}" for "is"
  proof (rule commit_stale)
    let ?n = "length (accepted_inputs (transfer_accept layout) is t)"
    have "unat (word_of_nat ?n :: u64) = ?n"
      using that by (simp add: unat_of_nat)
    then have "(word_of_nat ?n :: u64) \<noteq> 0"
      using that by (metis greaterThanLessThan_iff less_numeral_extra(3) unat_0)
    then show "ct_generation (run_machine (transfer_accept layout) is t) \<noteq> pa_generation tr"
      using accept_generation [OF try_fold_accepted [of "transfer_accept layout" "is" t]] tr(10) by simp
  qed
  show ?thesis
    using tr(5) commit spent foreign stale move by (auto simp: advance_def)
qed

text \<open>
  C23: a prepared acknowledgement reaches a peer that waits for it. Its wire bytes always decode to a frame.
  The peer accepts that frame and becomes acknowledged when all of this holds: the peer is active and
  sealed, serves the same session and task, is bound to no closure digest or to the acknowledged one, and
  sealed with the same transfer digest; the sequence number the acknowledgement was prepared with is the
  next one on the peer's stream and not the last of all; the peer's credit covers the frame and its bytes;
  and its resident limits admit the frame.
\<close>

theorem acknowledgement_reaches_peer:
  assumes "prepare_acknowledgement layout this value k cc wc t = Inr tr"
    and "ct_active peer" "ts_phase (ct_state peer) = Closure_Sealed"
    and "cs_session_id (ct_session peer) = cs_session_id (ct_session t)"
      "cs_task_id (ct_session peer) = cs_task_id (ct_session t)"
      "cs_closure_digest (ct_session peer) \<in> {[], ack_closure_digest value}"
      "fixed_text_view (ts_sealed_transfer_digest (ct_state peer)) = fixed_text_view (ts_sealed_transfer_digest (ct_state t))"
    and "ts_sequence (ct_state peer) = \<lparr>sg_stream_id = cs_stream_id (ct_session t), sg_next_sequence = k, sg_exhausted = False\<rparr>"
      "k \<noteq> - 1"
    and "length (pa_wire tr) \<le> unat (cr_bytes (ts_credit (ct_state peer)))" "cr_frames (ts_credit (ct_state peer)) \<noteq> 0"
    and "accept_resident peer_layout (length (pa_wire tr) - fixed_header_bytes) pcc ppc \<le> resident_limit (cs_limits (ct_session peer))"
      "length (pa_wire tr) \<le> maximum_resident_transport_bytes (cs_limits (ct_session peer))"
  shows "\<exists>f peer'. decode_frame (pa_wire tr) default_frame_limits = Inr f
    \<and> transfer_accept peer_layout (f, pcc, ppc) peer = Inr peer' \<and> ts_phase (ct_state peer') = Acknowledged"
proof -
  note tr = prepare_acknowledgement_facts [OF assms(1)]
  let ?v = "Control_Ack value :: closure_control_view"
  let ?f = "closure_frame (cs_stream_id (ct_session t)) k (?v, [])"
  let ?n = "length (closure_wire (own_control_view ?v))"
  have decoded: "decode_frame (pa_wire tr) default_frame_limits = Inr (with_digests ?f)"
    and size: "length (pa_wire tr) = fixed_header_bytes + ?n"
    using decode_encoded_frame [OF tr(4)] prepare_encoded(2) [OF tr(4)] by (simp_all add: closure_frame_def)
  obtain st' where step: "control_transition (ct_session peer) ?v ((ct_state peer)\<lparr>ts_sequence := (ts_sequence (ct_state peer))
        \<lparr>sg_next_sequence := k + 1\<rparr>,
      ts_credit := \<lparr>cr_bytes = cr_bytes (ts_credit (ct_state peer)) - word_of_nat (fixed_header_bytes + ?n + length ([] :: bytes)),
        cr_frames = cr_frames (ts_credit (ct_state peer)) - 1\<rparr>\<rparr>) = Inr st'" "ts_phase st' = Acknowledged"
    using assms(3-7) tr(5-7)
    by (auto simp: control_transition_def ack_transition_def and_then_Inr_iff bind_common_def control_binding_def)
  have "transfer_accept peer_layout (?f, pcc, ppc) peer = Inr (advance st' peer)"
  proof (rule accept_closure_frame [OF _ _ _ _ assms(2) _ _ _ assms(9) _ _ _ assms(11) step(1)])
    show "validate_control_view ?v (cs_limits (ct_session peer)) = Inr ()"
      using tr(3) by (simp add: validate_control_view_def)
    show "validate_closure_payload (control_id ?v) ?v [] (cs_limits (ct_session peer)) = Inr ()"
      using control_id_closure [of ?v] by (simp add: validate_closure_payload_def control_id_def)
  qed (use assms(8,10,12,13) size in simp_all)
  moreover have "digest_is_zero (fr_control_digest ?f)" "digest_is_zero (fr_payload_digest ?f)"
    by (simp_all add: closure_frame_def)
  ultimately have "transfer_accept peer_layout (with_digests ?f, pcc, ppc) peer = Inr (advance st' peer)"
    by (simp only: accept_with_digests)
  then show ?thesis
    using decoded step(2) by (auto simp: advance_def)
qed


lemma example_prepared:
  "\<exists>t tr. prepare_acknowledgement example_layout 7 example_ack 2 65536 65640 t = Inr tr
    \<and> ct_active t \<and> ts_phase (ct_state t) = Closure_Sealed \<and> ct_session t = example_session
    \<and> ts_sequence (ct_state t) = \<lparr>sg_stream_id = 1, sg_next_sequence = 2, sg_exhausted = False\<rparr>
    \<and> 800000 \<le> unat (cr_bytes (ts_credit (ct_state t))) \<and> cr_frames (ts_credit (ct_state t)) = 8"
  using example_run [OF example_transfer_created] example_prepare by blast

lemma acknowledgement_commits_once_witness:
  "\<exists>t tr. prepare_acknowledgement example_layout 7 example_ack 2 65536 65640 t = Inr tr
    \<and> ts_phase (ct_state (fst (commit_acknowledgement 7 tr t))) = Acknowledged
    \<and> commit_acknowledgement 8 tr t = (t, tr)"
proof -
  obtain t tr where tr: "prepare_acknowledgement example_layout 7 example_ack 2 65536 65640 t = Inr tr"
    using example_prepared by blast
  from acknowledgement_commits_once [OF tr] obtain sequence where
    "fst (commit_acknowledgement 7 tr t) = t\<lparr>ct_state := (ct_state t)\<lparr>ts_sequence := sequence, ts_phase := Acknowledged\<rparr>,
        ct_generation := ct_generation t + 1\<rparr>"
    "\<forall>other u. other \<noteq> 7 \<longrightarrow> commit_acknowledgement other tr u = (u, tr)"
    by blast
  then have "ts_phase (ct_state (fst (commit_acknowledgement 7 tr t))) = Acknowledged" "commit_acknowledgement 8 tr t = (t, tr)"
    by simp_all
  with tr show ?thesis by blast
qed

lemma acknowledgement_reaches_peer_witness:
  "\<exists>t tr f peer'. prepare_acknowledgement example_layout 7 example_ack 2 65536 65640 t = Inr tr
    \<and> transfer_accept example_layout (f, 65536, 0) t = Inr peer' \<and> ts_phase (ct_state peer') = Acknowledged"
proof -
  obtain t tr where tr: "prepare_acknowledgement example_layout 7 example_ack 2 65536 65640 t = Inr tr"
    and t: "ct_active t" "ts_phase (ct_state t) = Closure_Sealed" "ct_session t = example_session"
      "ts_sequence (ct_state t) = \<lparr>sg_stream_id = 1, sg_next_sequence = 2, sg_exhausted = False\<rparr>"
      "800000 \<le> unat (cr_bytes (ts_credit (ct_state t)))" "cr_frames (ts_credit (ct_state t)) = 8"
    using example_prepared by blast
  note facts = prepare_acknowledgement_facts [OF tr]
  have "validate_control_view (Control_Ack example_ack :: closure_control_view) default_closure_limits = Inr ()"
    by (simp add: validate_control_view_def example_ack_valid)
  from valid_view_wire(3) [OF this]
  have size: "length (pa_wire tr) \<le> 65640"
    using prepare_encoded(2) [OF facts(4)] by (simp add: closure_frame_def max_control_bytes_def fixed_header_bytes_def)
  have room: "accept_resident example_layout (length (pa_wire tr) - fixed_header_bytes) 65536 0 \<le> 1310720"
    using size by (simp add: example_room fixed_header_bytes_def)
  have session: "cs_limits (ct_session t) = default_closure_limits" "cs_closure_digest (ct_session t) = []"
      "cs_stream_id (ct_session t) = 1"
    by (simp_all add: t example_session_def)
  have "\<exists>f peer'. decode_frame (pa_wire tr) default_frame_limits = Inr f
      \<and> transfer_accept example_layout (f, 65536, 0) t = Inr peer' \<and> ts_phase (ct_state peer') = Acknowledged"
    by (rule acknowledgement_reaches_peer [OF tr t(1,2)])
      (use t size room session in \<open>simp_all add: example_room maximum_resident_default\<close>)
  with tr show ?thesis by blast
qed

end
