(* ===== verification/Ng1_Liveness.thy ===== *)
theory Ng1_Liveness
  imports Sdk_Common
begin

text \<open>
  \<open>src/sdk/provider_ng1_validation.cpp\<close>, first half: the identity and digest checks that the NG1
  validators share, and the two liveness validators of a provider session, \<open>ng1_heartbeat_state\<close>
  (probe and acknowledgement clocks) and \<open>ng1_progress_state\<close> (rate of completed units). Clocks and
  counters are 64-bit words. The lemmas show that accepted samples form contiguous sequences on
  monotone clocks, that silence is detected within the deadline, and what rate of progress an
  accepted run proves.
\<close>

section \<open>Constants and shared checks\<close>

definition heartbeat_schema :: string where "heartbeat_schema = ''cxxlens.provider-control.heartbeat.v1''"
definition progress_schema :: string where "progress_schema = ''cxxlens.provider-control.progress.v2''"
definition manifest_content_digest_prefix :: string where "manifest_content_digest_prefix = ''sha256:''"
definition semantic_digest_prefix :: string where "semantic_digest_prefix = ''semantic-v2:sha256:''"
definition heartbeat_timeout_ns :: u64 where "heartbeat_timeout_ns = 5000000000"
definition heartbeat_startup_grace_ns :: u64 where "heartbeat_startup_grace_ns = 10000000000"
definition progress_startup_grace_ns :: u64 where "progress_startup_grace_ns = 10000000000"
definition progress_sample_window_ns :: u64 where "progress_sample_window_ns = 5000000000"
definition progress_maximum_sample_gap_ns :: u64 where "progress_maximum_sample_gap_ns = 10000000000"
definition progress_units_per_second :: u64 where "progress_units_per_second = 1"
definition nanos_per_second :: u64 where "nanos_per_second = 1000000000"

definition ng1_error :: "string \<Rightarrow> string \<Rightarrow> string \<Rightarrow> sdk_error" where
  "ng1_error suffix field detail = Err (''provider.'' @ suffix) field detail"

definition valid_semantic_digest :: "string \<Rightarrow> bool" where
  "valid_semantic_digest value =
    (starts_with value semantic_digest_prefix \<and> length value = length semantic_digest_prefix + 64
      \<and> list_all lower_hex (drop (length semantic_digest_prefix) value))"

definition valid_content_digest :: "string \<Rightarrow> bool" where
  "valid_content_digest value =
    (starts_with value manifest_content_digest_prefix
      \<and> length value = length manifest_content_digest_prefix + 64
      \<and> list_all lower_hex (drop (length manifest_content_digest_prefix) value))"

definition valid_id :: "string \<Rightarrow> string \<Rightarrow> string \<Rightarrow> unit result" where
  "valid_id value field failure_code =
    (case validate_strong_id value of
       Inl e \<Rightarrow> Inl (ng1_error failure_code field ''strong-id'')
     | Inr _ \<Rightarrow> Inr ())"

definition valid_digest :: "string \<Rightarrow> string \<Rightarrow> string \<Rightarrow> unit result" where
  "valid_digest value field failure_code =
    (if \<not> valid_semantic_digest value then Inl (ng1_error failure_code field ''semantic-v2'') else Inr ())"

definition valid_manifest_content_digest :: "string \<Rightarrow> string \<Rightarrow> string \<Rightarrow> unit result" where
  "valid_manifest_content_digest value field failure_code =
    (if \<not> valid_content_digest value then Inl (ng1_error failure_code field ''sha256'') else Inr ())"

definition checked_elapsed :: "u64 \<Rightarrow> u64 \<Rightarrow> string \<Rightarrow> string \<Rightarrow> u64 result" where
  "checked_elapsed current previous code field =
    (if current < previous then Inl (ng1_error code field ''backwards-or-underflow'')
     else Inr (current - previous))"

text \<open>
  The parameter \<open>last\<close> is in-out: the result is its new value.
\<close>

definition accept_contiguous :: "u64 option \<Rightarrow> u64 \<Rightarrow> string \<Rightarrow> string \<Rightarrow> u64 option result" where
  "accept_contiguous previous observed code field =
    (let expected = (case previous of None \<Rightarrow> Some 0 | Some l \<Rightarrow> if l = - 1 then None else Some (l + 1))
     in if expected = None \<or> expected \<noteq> Some observed
        then Inl (ng1_error code field ''non-contiguous-or-overflow'')
        else Inr (Some observed))"

section \<open>Exact 128-bit products\<close>

record ng1_u128 =
  u128_high :: u64
  u128_low :: u64

definition multiply_u64 :: "u64 \<Rightarrow> u64 \<Rightarrow> ng1_u128" where
  "multiply_u64 left right =
    (let mask = 0xffffffff;
         left_low = left AND mask;
         left_high = drop_bit 32 left;
         right_low = right AND mask;
         right_high = drop_bit 32 right;
         low_product = left_low * right_low;
         carry = drop_bit 32 low_product;
         high_low_product = left_high * right_low + carry;
         middle_digit = high_low_product AND mask;
         high_carry = drop_bit 32 high_low_product;
         low_high_product = left_low * right_high + middle_digit;
         low = (low_product AND mask) OR push_bit 32 (low_high_product AND mask);
         high = left_high * right_high + high_carry + drop_bit 32 low_high_product
     in \<lparr>u128_high = high, u128_low = low\<rparr>)"

definition u128_less_equal :: "ng1_u128 \<Rightarrow> ng1_u128 \<Rightarrow> bool" where
  "u128_less_equal left right =
    (u128_high left < u128_high right
      \<or> (u128_high left = u128_high right \<and> u128_low left \<le> u128_low right))"

definition progress_rate_satisfied :: "u64 \<Rightarrow> u64 \<Rightarrow> bool" where
  "progress_rate_satisfied delta_units delta_time_ns =
    (let work = multiply_u64 delta_units nanos_per_second;
         required = multiply_u64 delta_time_ns progress_units_per_second
     in u128_less_equal required work)"

section \<open>Heartbeats\<close>

record ng1_session_binding =
  sb_provider_id :: string
  sb_provider_version :: semantic_version
  sb_protocol_session_id :: string
  sb_task_id :: string
  sb_stream_id :: u64

definition session_binding_validate :: "ng1_session_binding \<Rightarrow> unit result" where
  "session_binding_validate binding =
    (if version_major (sb_provider_version binding) = 0
     then Inl (ng1_error ''heartbeat-clock-invalid'' ''provider_version'' ''major-zero'')
     else first_error
       [valid_id (sb_provider_id binding) ''provider_id'' ''heartbeat-clock-invalid'',
        valid_id (sb_protocol_session_id binding) ''protocol_session_id'' ''heartbeat-clock-invalid'',
        valid_id (sb_task_id binding) ''task_id'' ''heartbeat-clock-invalid''])"

datatype ng1_heartbeat_kind = Probe | Ack

record ng1_heartbeat_sample =
  hs_schema :: string
  hs_binding :: ng1_session_binding
  hs_kind :: ng1_heartbeat_kind
  hs_heartbeat_sequence :: u64
  hs_provider_monotonic_time_ns :: u64
  hs_host_receipt_time_ns :: u64
  hs_highest_contiguous_acked_sequence :: u64
  hs_staged_digest :: string

record ng1_heartbeat_state =
  hb_binding :: ng1_session_binding
  hb_started_at_ns :: u64
  hb_last_probe_sequence :: "u64 option"
  hb_last_ack_sequence :: "u64 option"
  hb_last_provider_time_ns :: "u64 option"
  hb_last_probe_host_receipt_ns :: "u64 option"
  hb_last_host_receipt_time_ns :: "u64 option"
  hb_last_valid_ack_received_ns :: "u64 option"
  hb_terminal :: bool

definition heartbeat_create :: "ng1_session_binding \<Rightarrow> u64 \<Rightarrow> ng1_heartbeat_state result" where
  "heartbeat_create binding started_at_ns =
    and_then (session_binding_validate binding) (\<lambda>_.
      Inr \<lparr>hb_binding = binding, hb_started_at_ns = started_at_ns, hb_last_probe_sequence = None,
        hb_last_ack_sequence = None, hb_last_provider_time_ns = None,
        hb_last_probe_host_receipt_ns = None, hb_last_host_receipt_time_ns = None,
        hb_last_valid_ack_received_ns = None, hb_terminal = False\<rparr>)"

abbreviation clock_invalid :: "string \<Rightarrow> string \<Rightarrow> sdk_error" where
  "clock_invalid \<equiv> ng1_error ''heartbeat-clock-invalid''"

text \<open>The checks of \<open>accept\<close> that a probe and an acknowledgement share, in order.\<close>

definition heartbeat_common :: "ng1_heartbeat_state \<Rightarrow> ng1_heartbeat_sample \<Rightarrow> string \<Rightarrow> unit result" where
  "heartbeat_common s sample host_observed_staged_digest =
    (if hb_terminal s then Inl (clock_invalid ''terminal'' ''heartbeat-after-terminal'')
     else if hs_schema sample \<noteq> heartbeat_schema then Inl (clock_invalid ''schema'' ''unexpected'')
     else if hs_binding sample \<noteq> hb_binding s then Inl (clock_invalid ''binding'' ''mismatch'')
     else if \<not> valid_semantic_digest host_observed_staged_digest
     then Inl (clock_invalid ''host_observed_staged_digest'' ''invalid-digest'')
     else if \<not> valid_semantic_digest (hs_staged_digest sample)
     then Inl (clock_invalid ''staged_digest'' ''invalid-digest'')
     else if hs_staged_digest sample \<noteq> host_observed_staged_digest
     then Inl (clock_invalid ''staged_digest'' ''host-state-mismatch'')
     else if hs_host_receipt_time_ns sample < hb_started_at_ns s
     then Inl (clock_invalid ''host_receipt_time_ns'' ''before-session-start'')
     else if hs_provider_monotonic_time_ns sample > hs_host_receipt_time_ns sample
     then Inl (clock_invalid ''monotonic_time_ns'' ''future'')
     else if (case hb_last_provider_time_ns s of None \<Rightarrow> False
       | Some t \<Rightarrow> hs_provider_monotonic_time_ns sample < t)
     then Inl (clock_invalid ''monotonic_time_ns'' ''backwards'')
     else if (case hb_last_host_receipt_time_ns s of None \<Rightarrow> False
       | Some t \<Rightarrow> hs_host_receipt_time_ns sample < t)
     then Inl (clock_invalid ''host_receipt_time_ns'' ''backwards'')
     else Inr ())"

definition heartbeat_probe :: "ng1_heartbeat_state \<Rightarrow> ng1_heartbeat_sample \<Rightarrow> u64 \<Rightarrow> ng1_heartbeat_state result" where
  "heartbeat_probe s sample highest_observed_sequence =
    and_then (accept_contiguous (hb_last_probe_sequence s) (hs_heartbeat_sequence sample)
      ''heartbeat-sequence'' ''heartbeat_sequence'') (\<lambda>next_sequence.
    if hs_highest_contiguous_acked_sequence sample > highest_observed_sequence
    then Inl (clock_invalid ''highest_contiguous_acked_sequence'' ''ahead-of-observed'')
    else Inr (s\<lparr>hb_last_probe_sequence := next_sequence,
      hb_last_probe_host_receipt_ns := Some (hs_host_receipt_time_ns sample)\<rparr>))"

text \<open>The deadlines an acknowledgement must meet.\<close>

definition ack_deadlines :: "ng1_heartbeat_state \<Rightarrow> ng1_heartbeat_sample \<Rightarrow> unit result" where
  "ack_deadlines s sample =
    and_then (case hb_last_valid_ack_received_ns s of
        None \<Rightarrow> and_then (checked_elapsed (hs_host_receipt_time_ns sample) (hb_started_at_ns s)
            ''heartbeat-clock-invalid'' ''host_receipt_time_ns'') (\<lambda>since_start.
          if since_start \<ge> heartbeat_startup_grace_ns
          then Inl (ng1_error ''heartbeat-timeout'' ''host_receipt_time_ns'' ''startup-deadline-reached'')
          else Inr ())
      | Some _ \<Rightarrow> Inr ()) (\<lambda>_.
    case hb_last_probe_host_receipt_ns s of
      None \<Rightarrow> Inr ()
    | Some probe \<Rightarrow> and_then (checked_elapsed (hs_host_receipt_time_ns sample) probe
          ''heartbeat-clock-invalid'' ''host_receipt_time_ns'') (\<lambda>since_probe.
        if since_probe \<ge> heartbeat_timeout_ns
        then Inl (ng1_error ''heartbeat-timeout'' ''host_receipt_time_ns'' ''ack-deadline-reached'')
        else Inr ()))"

definition heartbeat_ack :: "ng1_heartbeat_state \<Rightarrow> ng1_heartbeat_sample \<Rightarrow> u64 \<Rightarrow> ng1_heartbeat_state result" where
  "heartbeat_ack s sample highest_observed_sequence =
    and_then (ack_deadlines s sample) (\<lambda>_.
    and_then (accept_contiguous (hb_last_ack_sequence s) (hs_heartbeat_sequence sample)
      ''heartbeat-sequence'' ''heartbeat_sequence'') (\<lambda>next_sequence.
    if hs_highest_contiguous_acked_sequence sample > highest_observed_sequence
    then Inl (clock_invalid ''highest_contiguous_acked_sequence'' ''ahead-of-observed'')
    else Inr (s\<lparr>hb_last_ack_sequence := next_sequence,
      hb_last_valid_ack_received_ns := Some (hs_host_receipt_time_ns sample)\<rparr>)))"

text \<open>
  \<open>ng1_heartbeat_state::accept\<close>. The source also refuses a kind outside the enumeration, which a
  value of the datatype cannot be.
\<close>

definition heartbeat_accept :: "ng1_heartbeat_sample \<Rightarrow> u64 \<Rightarrow> string \<Rightarrow> ng1_heartbeat_state \<Rightarrow> ng1_heartbeat_state result" where
  "heartbeat_accept sample highest_observed_sequence host_observed_staged_digest s =
    and_then (heartbeat_common s sample host_observed_staged_digest) (\<lambda>_.
    and_then (case hs_kind sample of
        Probe \<Rightarrow> heartbeat_probe s sample highest_observed_sequence
      | Ack \<Rightarrow> heartbeat_ack s sample highest_observed_sequence) (\<lambda>t.
    Inr (t\<lparr>hb_last_provider_time_ns := Some (hs_provider_monotonic_time_ns sample),
      hb_last_host_receipt_time_ns := Some (hs_host_receipt_time_ns sample)\<rparr>)))"

definition check_liveness :: "ng1_heartbeat_state \<Rightarrow> u64 \<Rightarrow> unit result" where
  "check_liveness s now_ns =
    (if hb_terminal s then Inr ()
     else and_then (checked_elapsed now_ns (hb_started_at_ns s) ''heartbeat-clock-invalid'' ''now_ns'') (\<lambda>elapsed.
       case hb_last_valid_ack_received_ns s of
         None \<Rightarrow>
           if elapsed \<ge> heartbeat_startup_grace_ns
           then Inl (ng1_error ''heartbeat-timeout'' ''now_ns'' ''startup-grace-expired'')
           else Inr ()
       | Some ack \<Rightarrow>
           and_then (case hb_last_probe_host_receipt_ns s of
               None \<Rightarrow> Inr ()
             | Some probe \<Rightarrow> and_then (checked_elapsed now_ns probe ''heartbeat-clock-invalid'' ''now_ns'') (\<lambda>since_probe.
                 if since_probe \<ge> heartbeat_timeout_ns
                 then Inl (ng1_error ''heartbeat-timeout'' ''now_ns'' ''probe-deadline-reached'')
                 else Inr ())) (\<lambda>_.
           and_then (checked_elapsed now_ns ack ''heartbeat-clock-invalid'' ''now_ns'') (\<lambda>since_ack.
             if since_ack \<ge> heartbeat_timeout_ns
             then Inl (ng1_error ''heartbeat-timeout'' ''now_ns'' ''ack-deadline-reached'')
             else Inr ()))))"

definition mark_terminal :: "ng1_heartbeat_state \<Rightarrow> ng1_heartbeat_state" where
  "mark_terminal s = s\<lparr>hb_terminal := True\<rparr>"

definition heartbeat_rebase_start :: "u64 \<Rightarrow> ng1_heartbeat_state \<Rightarrow> ng1_heartbeat_state" where
  "heartbeat_rebase_start started_at_ns s =
    s\<lparr>hb_started_at_ns := started_at_ns, hb_last_probe_sequence := None, hb_last_ack_sequence := None,
      hb_last_provider_time_ns := None, hb_last_probe_host_receipt_ns := None,
      hb_last_host_receipt_time_ns := None, hb_last_valid_ack_received_ns := None, hb_terminal := False\<rparr>"

section \<open>Progress\<close>

record ng1_progress_sample =
  ps_schema :: string
  ps_task_id :: string
  ps_dependency_group_id :: string
  ps_progress_sequence :: u64
  ps_provider_monotonic_time_ns :: u64
  ps_host_receipt_time_ns :: u64
  ps_completed_units :: u64
  ps_total_units :: u64

record ng1_progress_state =
  pg_task_id :: string
  pg_dependency_group_id :: string
  pg_started_at_ns :: u64
  pg_last_sequence :: "u64 option"
  pg_last_provider_time_ns :: "u64 option"
  pg_last_host_receipt_time_ns :: "u64 option"
  pg_last_completed_units :: "u64 option"
  pg_rate_checkpoint_receipt_ns :: "u64 option"
  pg_rate_checkpoint_completed_units :: "u64 option"
  pg_total_units :: "u64 option"
  pg_terminal_observed :: bool

abbreviation rate_error :: "string \<Rightarrow> string \<Rightarrow> sdk_error" where
  "rate_error \<equiv> ng1_error ''progress-rate''"

definition progress_create :: "string \<Rightarrow> string \<Rightarrow> u64 \<Rightarrow> ng1_progress_state result" where
  "progress_create task_id dependency_group_id started_at_ns =
    and_then (valid_id task_id ''task_id'' ''progress-rate'') (\<lambda>_.
    and_then (valid_id dependency_group_id ''dependency_group_id'' ''progress-rate'') (\<lambda>_.
      Inr \<lparr>pg_task_id = task_id, pg_dependency_group_id = dependency_group_id,
        pg_started_at_ns = started_at_ns, pg_last_sequence = None, pg_last_provider_time_ns = None,
        pg_last_host_receipt_time_ns = None, pg_last_completed_units = None,
        pg_rate_checkpoint_receipt_ns = None, pg_rate_checkpoint_completed_units = None,
        pg_total_units = None, pg_terminal_observed = False\<rparr>))"

text \<open>The guards of \<open>observe\<close> before the sequence check.\<close>

definition progress_guards :: "ng1_progress_state \<Rightarrow> ng1_progress_sample \<Rightarrow> unit result" where
  "progress_guards s sample =
    (if pg_terminal_observed s then Inl (rate_error ''terminal'' ''after-terminal'')
     else if ps_schema sample \<noteq> progress_schema then Inl (rate_error ''schema'' ''unexpected'')
     else if ps_task_id sample \<noteq> pg_task_id s \<or> ps_dependency_group_id sample \<noteq> pg_dependency_group_id s
     then Inl (rate_error ''binding'' ''mismatch'')
     else if ps_total_units sample = 0 \<or> ps_completed_units sample > ps_total_units sample
     then Inl (rate_error ''completed_units'' ''range'')
     else if (case pg_total_units s of None \<Rightarrow> False | Some known \<Rightarrow> ps_total_units sample \<noteq> known)
     then Inl (rate_error ''total_units'' ''changed'')
     else if ps_host_receipt_time_ns sample < pg_started_at_ns s
     then Inl (clock_invalid ''host_receipt_time_ns'' ''before-start'')
     else if ps_provider_monotonic_time_ns sample > ps_host_receipt_time_ns sample
     then Inl (clock_invalid ''monotonic_time_ns'' ''future'')
     else if (case pg_last_host_receipt_time_ns s of None \<Rightarrow> False
       | Some t \<Rightarrow> ps_host_receipt_time_ns sample < t)
     then Inl (clock_invalid ''host_receipt_time_ns'' ''backwards'')
     else if (case pg_last_provider_time_ns s of None \<Rightarrow> False
       | Some t \<Rightarrow> ps_provider_monotonic_time_ns sample < t)
     then Inl (clock_invalid ''monotonic_time_ns'' ''backwards'')
     else Inr ())"

text \<open>
  The rate checks of a sample that follows another one (received at \<open>last_receipt\<close> with
  \<open>last_units\<close> completed); the result is the next checkpoint.
\<close>

definition progress_rate_check :: "ng1_progress_state \<Rightarrow> ng1_progress_sample \<Rightarrow> bool \<Rightarrow> u64 \<Rightarrow> u64 \<Rightarrow> u64 \<Rightarrow> u64
    \<Rightarrow> (u64 \<times> u64) result" where
  "progress_rate_check s sample terminal_sample last_receipt last_units checkpoint_receipt checkpoint_units =
    and_then (checked_elapsed (ps_host_receipt_time_ns sample) last_receipt
      ''progress-rate'' ''host_receipt_time_ns'') (\<lambda>elapsed.
    if elapsed = 0 then Inl (rate_error ''sample_gap'' ''zero-elapsed'')
    else if elapsed > progress_maximum_sample_gap_ns then Inl (rate_error ''sample_gap'' ''maximum-exceeded'')
    else if ps_completed_units sample < last_units then Inl (rate_error ''completed_units'' ''backwards'')
    else
     (let delta_units = ps_completed_units sample - last_units
      in and_then (checked_elapsed (ps_host_receipt_time_ns sample) (pg_started_at_ns s)
           ''progress-rate'' ''host_receipt_time_ns'') (\<lambda>since_start.
         let after_grace = (since_start > progress_startup_grace_ns)
         in and_then (checked_elapsed (ps_host_receipt_time_ns sample) checkpoint_receipt
              ''progress-rate'' ''host_receipt_time_ns'') (\<lambda>checkpoint_elapsed.
            let checkpoint_delta_units = ps_completed_units sample - checkpoint_units;
                admitted = (terminal_sample \<or> checkpoint_elapsed \<ge> progress_sample_window_ns)
            in if after_grace \<and> delta_units = 0
               then Inl (rate_error ''completed_units'' ''zero-after-grace'')
               else if admitted \<and> (after_grace \<or> terminal_sample)
                 \<and> \<not> progress_rate_satisfied checkpoint_delta_units checkpoint_elapsed
               then Inl (rate_error ''rate'' ''minimum-not-met'')
               else Inr (if admitted then (ps_host_receipt_time_ns sample, ps_completed_units sample)
                         else (checkpoint_receipt, checkpoint_units))))))"

text \<open>
  \<open>ng1_progress_state::observe\<close>. The optional fields are dereferenced where the source does so;
  \<open>*last_completed_units_\<close> is read only when a receipt time is present, together with which it is
  always set (\<open>progress_wf\<close> below), and its value when absent is of no consequence.
\<close>

definition progress_observe :: "ng1_progress_sample \<Rightarrow> bool \<Rightarrow> ng1_progress_state \<Rightarrow> ng1_progress_state result" where
  "progress_observe sample terminal_sample s =
    and_then (progress_guards s sample) (\<lambda>_.
    and_then (accept_contiguous (pg_last_sequence s) (ps_progress_sequence sample)
      ''progress-rate'' ''progress_sequence'') (\<lambda>next_sequence.
    if terminal_sample \<and> ps_completed_units sample \<noteq> ps_total_units sample
    then Inl (rate_error ''completed_units'' ''terminal-not-total'')
    else and_then
      (case pg_last_host_receipt_time_ns s of
         None \<Rightarrow> and_then (checked_elapsed (ps_host_receipt_time_ns sample) (pg_started_at_ns s)
             ''progress-rate'' ''host_receipt_time_ns'') (\<lambda>since_start.
           if since_start \<ge> progress_startup_grace_ns
           then Inl (rate_error ''host_receipt_time_ns'' ''startup-deadline-reached'')
           else Inr (ps_host_receipt_time_ns sample, ps_completed_units sample))
       | Some last_receipt \<Rightarrow>
          (case (pg_rate_checkpoint_receipt_ns s, pg_rate_checkpoint_completed_units s) of
             (Some checkpoint_receipt, Some checkpoint_units) \<Rightarrow>
               progress_rate_check s sample terminal_sample last_receipt
                 (case pg_last_completed_units s of None \<Rightarrow> 0 | Some units \<Rightarrow> units)
                 checkpoint_receipt checkpoint_units
           | _ \<Rightarrow> Inl (rate_error ''rate_checkpoint'' ''missing'')))
      (\<lambda>(next_rate_checkpoint_receipt_ns, next_rate_checkpoint_completed_units).
        Inr (s\<lparr>pg_last_sequence := next_sequence,
          pg_last_provider_time_ns := Some (ps_provider_monotonic_time_ns sample),
          pg_last_host_receipt_time_ns := Some (ps_host_receipt_time_ns sample),
          pg_last_completed_units := Some (ps_completed_units sample),
          pg_rate_checkpoint_receipt_ns := Some next_rate_checkpoint_receipt_ns,
          pg_rate_checkpoint_completed_units := Some next_rate_checkpoint_completed_units,
          pg_total_units := Some (ps_total_units sample),
          pg_terminal_observed := terminal_sample\<rparr>))))"

definition progress_finish :: "ng1_progress_state \<Rightarrow> unit result" where
  "progress_finish s =
    (if \<not> pg_terminal_observed s \<or> pg_total_units s = None \<or> pg_last_completed_units s = None
       \<or> pg_last_completed_units s \<noteq> pg_total_units s
     then Inl (rate_error ''terminal'' ''total-not-reached'') else Inr ())"

definition progress_rebase_start :: "u64 \<Rightarrow> ng1_progress_state \<Rightarrow> ng1_progress_state" where
  "progress_rebase_start started_at_ns s =
    s\<lparr>pg_started_at_ns := started_at_ns, pg_last_sequence := None, pg_last_provider_time_ns := None,
      pg_last_host_receipt_time_ns := None, pg_last_completed_units := None,
      pg_rate_checkpoint_receipt_ns := None, pg_rate_checkpoint_completed_units := None,
      pg_total_units := None, pg_terminal_observed := False\<rparr>"

section \<open>The product is exact\<close>

definition u128_value :: "ng1_u128 \<Rightarrow> nat" where
  "u128_value x = unat (u128_high x) * 2 ^ 64 + unat (u128_low x)"

lemma unat_low_half: "unat (x AND 0xffffffff :: u64) = unat x mod 2 ^ 32"
proof -
  have "(0xffffffff :: u64) = mask 32"
    by (simp add: mask_eq_exp_minus_1)
  then have "x AND 0xffffffff = take_bit 32 x"
    by (simp only: take_bit_eq_mask)
  then show ?thesis
    by (simp add: take_bit_eq_mod unat_mod)
qed

lemma unat_high_half: "unat (drop_bit 32 x :: u64) = unat x div 2 ^ 32"
  by (simp add: drop_bit_eq_div unat_div)

lemma unat_u64_mult: "unat x * unat y < 2 ^ 64 \<Longrightarrow> unat (x * y :: u64) = unat x * unat y"
  by (simp add: unat_word_ariths)

text \<open>The digit algorithm over base \<open>B\<close>, on natural numbers.\<close>

lemma digit_product:
  fixes a b c d B :: nat
  shows "(b * d + (b * c + a * c div B) div B + (a * d + (b * c + a * c div B) mod B) div B) * (B * B)
    + (a * c mod B + B * ((a * d + (b * c + a * c div B) mod B) mod B)) = (b * B + a) * (d * B + c)"
proof -
  define p where "p = a * c"
  define h where "h = b * c + p div B"
  define l where "l = a * d + h mod B"
  have e: "p div B * B + p mod B = p" "h div B * B + h mod B = h" "l div B * B + l mod B = l"
    by (rule div_mult_mod_eq)+
  have "(b * d + h div B + l div B) * (B * B) + (p mod B + B * (l mod B))
      = b * d * B * B + (h div B * B) * B + B * (l div B * B + l mod B) + p mod B"
    by (simp only: algebra_simps)
  also have "\<dots> = b * d * B * B + (h div B * B + h mod B) * B + a * d * B + p mod B"
    unfolding e(3) by (simp only: l_def algebra_simps)
  also have "\<dots> = b * d * B * B + b * c * B + (p div B * B + p mod B) + a * d * B"
    unfolding e(2) by (simp only: h_def algebra_simps)
  also have "\<dots> = (b * B + a) * (d * B + c)"
    unfolding e(1) by (simp only: p_def algebra_simps)
  finally show ?thesis
    unfolding l_def h_def p_def by simp
qed

lemma digit_bound:
  fixes a b c :: nat
  assumes "a < 2 ^ 32" "b < 2 ^ 32" "c < 2 ^ 32"
  shows "a * b + c < 2 ^ 64"
proof -
  have "a * b \<le> (2 ^ 32 - 1) * (2 ^ 32 - 1)"
    using assms by (intro mult_le_mono) auto
  then show ?thesis
    using assms(3) by simp
qed

lemma multiply_u64_value: "u128_value (multiply_u64 x y) = unat x * unat y"
proof -
  let ?B = "2 ^ 32 :: nat"
  define a b c d where "a = unat x mod ?B" and "b = unat x div ?B" and "c = unat y mod ?B" and "d = unat y div ?B"
  have lt: "a < ?B" "b < ?B" "c < ?B" "d < ?B"
    using unat_u64_less [of x] unat_u64_less [of y]
    by (simp_all add: a_def b_def c_def d_def less_mult_imp_div_less)
  define xl xh yl yh where "xl = x AND 0xffffffff" and "xh = drop_bit 32 x" and "yl = y AND 0xffffffff"
    and "yh = drop_bit 32 y"
  have parts: "unat xl = a" "unat xh = b" "unat yl = c" "unat yh = d"
    by (simp_all only: xl_def xh_def yl_def yh_def unat_low_half unat_high_half a_def b_def c_def d_def)
  define p where "p = xl * yl"
  have p: "unat p = a * c"
    using digit_bound [of a c 0] lt by (simp add: p_def unat_u64_mult parts)
  have pd: "a * c div ?B < ?B"
    using digit_bound [of a c 0] lt by (simp add: less_mult_imp_div_less)
  define h where "h = xh * yl + drop_bit 32 p"
  have h: "unat h = b * c + a * c div ?B"
    using digit_bound [OF lt(2,3) pd] digit_bound [of b c 0] lt
    unfolding h_def by (subst unat_u64_plus) (simp_all add: unat_u64_mult parts unat_high_half p)
  define m where "m = xl * yh + (h AND 0xffffffff)"
  have m: "unat m = a * d + (b * c + a * c div ?B) mod ?B"
    using digit_bound [OF lt(1,4), of "(b * c + a * c div ?B) mod ?B"] digit_bound [of a d 0] lt
    unfolding m_def by (subst unat_u64_plus) (simp_all add: unat_u64_mult parts unat_low_half h)
  define low where "low = (p AND 0xffffffff) OR push_bit 32 (m AND 0xffffffff)"
  have sum: "low = (p AND 0xffffffff) + (m AND 0xffffffff) * 4294967296"
  proof -
    have "push_bit 32 (m AND 0xffffffff) = (m AND 0xffffffff) * 4294967296"
      by (simp add: push_bit_eq_mult)
    moreover have "\<not> bit (p AND 0xffffffff) n \<or> \<not> bit (push_bit 32 (m AND 0xffffffff)) n" for n
    proof -
      have "(0xffffffff :: u64) = mask 32"
        by (simp add: mask_eq_exp_minus_1)
      then show ?thesis
        by (auto simp only: bit_and_iff bit_push_bit_iff bit_mask_iff)
    qed
    ultimately show ?thesis
      unfolding low_def by (metis disjunctive_add)
  qed
  have low: "unat low = a * c mod ?B + ?B * ((a * d + (b * c + a * c div ?B) mod ?B) mod ?B)"
  proof -
    have bounds: "unat m mod ?B \<le> ?B - 1" "unat p mod ?B \<le> ?B - 1"
      by simp_all
    have hi: "unat ((m AND 0xffffffff) * 4294967296) = ?B * (unat m mod ?B)"
      using bounds(1) by (subst unat_u64_mult) (simp_all add: unat_low_half)
    show ?thesis
      using bounds unfolding sum
      by (subst unat_u64_plus) (simp_all add: hi unat_low_half p m)
  qed
  define high where "high = xh * yh + drop_bit 32 h + drop_bit 32 m"
  have val: "(b * d + (b * c + a * c div ?B) div ?B + (a * d + (b * c + a * c div ?B) mod ?B) div ?B) * (?B * ?B)
      + unat low = unat x * unat y"
    unfolding low using digit_product [of b d c a ?B]
    by (simp add: a_def b_def c_def d_def del: power_mult_distrib)
  have "unat x * unat y < 2 ^ 64 * 2 ^ 64"
    by (intro mult_strict_mono unat_u64_less) simp_all
  then have "b * d + (b * c + a * c div ?B) div ?B + (a * d + (b * c + a * c div ?B) mod ?B) div ?B < 2 ^ 64"
    using val by simp
  then have high: "unat high = b * d + (b * c + a * c div ?B) div ?B + (a * d + (b * c + a * c div ?B) mod ?B) div ?B"
    unfolding high_def using digit_bound [of b d 0] lt
    by (simp add: unat_u64_plus unat_u64_mult parts unat_high_half h m)
  have "multiply_u64 x y = \<lparr>u128_high = high, u128_low = low\<rparr>"
    by (simp add: multiply_u64_def Let_def high_def low_def m_def h_def p_def xl_def xh_def yl_def yh_def)
  then show ?thesis
    using val by (simp add: u128_value_def high)
qed

lemma u128_less_equal_iff: "u128_less_equal x y \<longleftrightarrow> u128_value x \<le> u128_value y"
proof -
  define a b c d where "a = unat (u128_high x)" and "b = unat (u128_low x)"
    and "c = unat (u128_high y)" and "d = unat (u128_low y)"
  have "b < 2 ^ 64" "d < 2 ^ 64"
    by (simp_all only: b_def d_def unat_u64_less)
  then have "a * 2 ^ 64 + b \<le> c * 2 ^ 64 + d \<longleftrightarrow> a < c \<or> (a = c \<and> b \<le> d)"
    by (cases a c rule: linorder_cases) (auto dest!: less_imp_Suc_add)
  moreover have "u128_high x = u128_high y \<longleftrightarrow> a = c"
    by (simp only: a_def c_def unat_word_inject)
  ultimately show ?thesis
    by (auto simp: u128_less_equal_def u128_value_def word_less_nat_alt word_le_nat_alt a_def b_def c_def d_def)
qed

lemma progress_rate_satisfied_iff: "progress_rate_satisfied units time \<longleftrightarrow> unat time \<le> unat units * 10 ^ 9"
  by (simp add: progress_rate_satisfied_def Let_def u128_less_equal_iff multiply_u64_value
      nanos_per_second_def progress_units_per_second_def)

section \<open>Elapsed times and sequences\<close>

lemma checked_elapsed_iff [result_simps]:
  "checked_elapsed current previous code field = Inr e \<longleftrightarrow> previous \<le> current \<and> e = current - previous"
  by (auto simp: checked_elapsed_def not_less)

lemma elapsed_ge: "previous \<le> current \<Longrightarrow> unat (current - previous :: u64) = unat current - unat previous"
  by (rule unat_u64_sub)

lemma elapsed_less_iff:
  "previous \<le> current \<Longrightarrow> \<not> current - previous \<ge> (d :: u64) \<longleftrightarrow> unat current < unat previous + unat d"
  by (auto simp: word_le_nat_alt unat_u64_sub)

lemma elapsed_greater_iff:
  "previous \<le> current \<Longrightarrow> current - previous > (d :: u64) \<longleftrightarrow> unat current > unat previous + unat d"
  by (auto simp: word_less_nat_alt word_le_nat_alt unat_u64_sub)

text \<open>The sequence number a contiguous counter expects next.\<close>

definition next_expected :: "u64 option \<Rightarrow> nat" where
  "next_expected previous = (case previous of None \<Rightarrow> 0 | Some l \<Rightarrow> unat l + 1)"

lemma accept_contiguous_iff [result_simps]:
  "accept_contiguous previous observed code field = Inr q \<longleftrightarrow>
    unat observed = next_expected previous \<and> q = Some observed"
proof (cases previous)
  case None
  then show ?thesis
    by (auto simp: accept_contiguous_def next_expected_def unsigned_eq_0_iff)
next
  case (Some l)
  have "l + 1 = observed \<longleftrightarrow> unat observed = unat l + 1" if "l \<noteq> - 1"
    using unat_u64_plus_1 [OF that] unat_word_inject [of "l + 1" observed] by auto
  moreover have "unat observed \<noteq> unat (- 1 :: u64) + 1"
    using unat_u64_less [of observed] by simp
  ultimately show ?thesis
    using Some by (auto simp: accept_contiguous_def next_expected_def Let_def)
qed

lemma next_expected_accepted: "unat observed = next_expected previous \<Longrightarrow>
  next_expected (Some observed) = next_expected previous + 1"
  by (simp add: next_expected_def)

section \<open>Heartbeat sessions\<close>

text \<open>
  What a host can do with a heartbeat validator, and the traces of accepted events. \<open>rebase_start\<close> is not an
  event: it clears all that samples left behind, so what follows it is a trace of a fresh session.
\<close>

datatype heartbeat_event = Sample ng1_heartbeat_sample u64 string | Session_End

inductive heartbeat_step :: "ng1_heartbeat_state \<Rightarrow> heartbeat_event \<Rightarrow> ng1_heartbeat_state \<Rightarrow> bool" where
  accepted: "heartbeat_accept sample observed digest s = Inr t \<Longrightarrow>
    heartbeat_step s (Sample sample observed digest) t"
| ended: "heartbeat_step s Session_End (mark_terminal s)"

inductive_cases heartbeat_sampleE: "heartbeat_step s (Sample sample observed digest) t"
inductive_cases heartbeat_endE: "heartbeat_step s Session_End t"

inductive heartbeat_trace :: "ng1_heartbeat_state \<Rightarrow> heartbeat_event list \<Rightarrow> ng1_heartbeat_state \<Rightarrow> bool" where
  trace_nil: "heartbeat_trace s [] s"
| trace_snoc: "heartbeat_trace s es t \<Longrightarrow> heartbeat_step t e u \<Longrightarrow> heartbeat_trace s (es @ [e]) u"

text \<open>An optional time lies between two bounds.\<close>

definition time_within :: "u64 \<Rightarrow> u64 option \<Rightarrow> u64 option \<Rightarrow> bool" where
  "time_within low t high = (case t of None \<Rightarrow> True
     | Some x \<Rightarrow> low \<le> x \<and> (case high of None \<Rightarrow> False | Some h \<Rightarrow> x \<le> h))"

definition heartbeat_wf :: "ng1_heartbeat_state \<Rightarrow> bool" where
  "heartbeat_wf s =
    (time_within (hb_started_at_ns s) (hb_last_host_receipt_time_ns s) (hb_last_host_receipt_time_ns s)
    \<and> time_within 0 (hb_last_provider_time_ns s) (hb_last_host_receipt_time_ns s)
    \<and> time_within (hb_started_at_ns s) (hb_last_probe_host_receipt_ns s) (hb_last_host_receipt_time_ns s)
    \<and> time_within (hb_started_at_ns s) (hb_last_valid_ack_received_ns s) (hb_last_host_receipt_time_ns s)
    \<and> (hb_last_probe_sequence s = None \<longleftrightarrow> hb_last_probe_host_receipt_ns s = None)
    \<and> (hb_last_ack_sequence s = None \<longleftrightarrow> hb_last_valid_ack_received_ns s = None)
    \<and> (hb_last_provider_time_ns s = None \<longleftrightarrow> hb_last_host_receipt_time_ns s = None))"

text \<open>An optional time is at most another one; an absent time is before every other.\<close>

definition time_le :: "u64 option \<Rightarrow> u64 \<Rightarrow> bool" where
  "time_le t x = (case t of None \<Rightarrow> True | Some y \<Rightarrow> y \<le> x)"

lemma heartbeat_common_ok:
  "heartbeat_common s sample digest = Inr u \<longleftrightarrow>
    \<not> hb_terminal s \<and> hs_schema sample = heartbeat_schema \<and> hs_binding sample = hb_binding s
    \<and> valid_semantic_digest digest \<and> hs_staged_digest sample = digest
    \<and> hb_started_at_ns s \<le> hs_host_receipt_time_ns sample
    \<and> hs_provider_monotonic_time_ns sample \<le> hs_host_receipt_time_ns sample
    \<and> time_le (hb_last_provider_time_ns s) (hs_provider_monotonic_time_ns sample)
    \<and> time_le (hb_last_host_receipt_time_ns s) (hs_host_receipt_time_ns sample)"
  by (auto simp: heartbeat_common_def time_le_def not_less split: option.splits)

lemma heartbeat_accept_common:
  assumes "heartbeat_accept sample observed digest s = Inr t"
  shows "heartbeat_common s sample digest = Inr ()"
  using assms by (auto simp: heartbeat_accept_def result_simps)

lemma heartbeat_accept_cases:
  assumes "heartbeat_accept sample observed digest s = Inr t"
  obtains (probe) "hs_kind sample = Probe"
    "unat (hs_heartbeat_sequence sample) = next_expected (hb_last_probe_sequence s)"
    "t = s\<lparr>hb_last_probe_sequence := Some (hs_heartbeat_sequence sample),
      hb_last_probe_host_receipt_ns := Some (hs_host_receipt_time_ns sample),
      hb_last_provider_time_ns := Some (hs_provider_monotonic_time_ns sample),
      hb_last_host_receipt_time_ns := Some (hs_host_receipt_time_ns sample)\<rparr>"
  | (ack) "hs_kind sample = Ack" "ack_deadlines s sample = Inr ()"
    "unat (hs_heartbeat_sequence sample) = next_expected (hb_last_ack_sequence s)"
    "t = s\<lparr>hb_last_ack_sequence := Some (hs_heartbeat_sequence sample),
      hb_last_valid_ack_received_ns := Some (hs_host_receipt_time_ns sample),
      hb_last_provider_time_ns := Some (hs_provider_monotonic_time_ns sample),
      hb_last_host_receipt_time_ns := Some (hs_host_receipt_time_ns sample)\<rparr>"
  using assms
  by (cases "hs_kind sample")
    (auto simp: heartbeat_accept_def heartbeat_probe_def heartbeat_ack_def result_simps)

lemma heartbeat_create_wf: "heartbeat_create binding start = Inr s \<Longrightarrow> heartbeat_wf s"
  by (auto simp: heartbeat_create_def result_simps heartbeat_wf_def time_within_def)

lemma time_within_later:
  "time_within low t high \<Longrightarrow> time_le high x \<Longrightarrow> time_within low t (Some x)"
  by (auto simp: time_within_def time_le_def split: option.splits)

lemma heartbeat_step_wf:
  assumes "heartbeat_wf s" "heartbeat_step s e t"
  shows "heartbeat_wf t"
  using assms(2)
proof cases
  case (accepted sample observed digest)
  note c = heartbeat_accept_common [OF accepted(2), unfolded heartbeat_common_ok]
  note later = time_within_later [of _ _ "hb_last_host_receipt_time_ns s" "hs_host_receipt_time_ns sample"]
  show ?thesis
    using assms(1) c later
    by (cases rule: heartbeat_accept_cases [OF accepted(2)]) (auto simp: heartbeat_wf_def time_within_def [of _ "Some _"])
next
  case ended
  then show ?thesis using assms(1) by (simp add: heartbeat_wf_def mark_terminal_def)
qed

lemma heartbeat_trace_wf: "heartbeat_trace s es t \<Longrightarrow> heartbeat_wf s \<Longrightarrow> heartbeat_wf t"
  by (induction rule: heartbeat_trace.induct) (auto intro: heartbeat_step_wf)

fun samples_of :: "heartbeat_event list \<Rightarrow> ng1_heartbeat_sample list" where
  "samples_of [] = []"
| "samples_of (Sample sample observed digest # es) = sample # samples_of es"
| "samples_of (Session_End # es) = samples_of es"

lemma samples_of_append [simp]: "samples_of (es @ fs) = samples_of es @ samples_of fs"
  by (induction es rule: samples_of.induct) simp_all

definition kind_sequences :: "ng1_heartbeat_kind \<Rightarrow> heartbeat_event list \<Rightarrow> nat list" where
  "kind_sequences k es = map (\<lambda>x. unat (hs_heartbeat_sequence x)) (filter (\<lambda>x. hs_kind x = k) (samples_of es))"

text \<open>What a trace from a fresh validator has recorded.\<close>

definition trace_facts :: "u64 \<Rightarrow> heartbeat_event list \<Rightarrow> ng1_heartbeat_state \<Rightarrow> bool" where
  "trace_facts start es t =
    (kind_sequences Probe es = [0..<next_expected (hb_last_probe_sequence t)]
    \<and> kind_sequences Ack es = [0..<next_expected (hb_last_ack_sequence t)]
    \<and> sorted (map hs_host_receipt_time_ns (samples_of es))
    \<and> sorted (map hs_provider_monotonic_time_ns (samples_of es))
    \<and> list_all (\<lambda>x. start \<le> hs_host_receipt_time_ns x
        \<and> hs_provider_monotonic_time_ns x \<le> hs_host_receipt_time_ns x) (samples_of es))"

lemma upt_snoc: "unat (w :: u64) = m \<Longrightarrow> [0..<m] @ [unat w] = [0..<m + 1]"
  by simp

text \<open>The last recorded times bound all recorded ones.\<close>

definition recorded_until :: "heartbeat_event list \<Rightarrow> ng1_heartbeat_state \<Rightarrow> bool" where
  "recorded_until es t =
    (\<forall>x \<in> set (samples_of es). \<exists>h p. hb_last_host_receipt_time_ns t = Some h
      \<and> hb_last_provider_time_ns t = Some p \<and> hs_host_receipt_time_ns x \<le> h \<and> hs_provider_monotonic_time_ns x \<le> p)"

lemma heartbeat_step_facts:
  assumes "heartbeat_step s e t" "trace_facts start es s" "recorded_until es s" "hb_started_at_ns s = start"
  shows "trace_facts start (es @ [e]) t \<and> recorded_until (es @ [e]) t \<and> hb_started_at_ns t = start"
  using assms(1)
proof cases
  case (accepted sample observed digest)
  note c = heartbeat_accept_common [OF accepted(2), unfolded heartbeat_common_ok]
  have before: "hs_host_receipt_time_ns x \<le> hs_host_receipt_time_ns sample"
    "hs_provider_monotonic_time_ns x \<le> hs_provider_monotonic_time_ns sample" if "x \<in> set (samples_of es)" for x
    using assms(3) that c by (force simp: recorded_until_def time_le_def intro: order_trans)+
  then have "sorted (map hs_host_receipt_time_ns (samples_of (es @ [e])))"
    "sorted (map hs_provider_monotonic_time_ns (samples_of (es @ [e])))"
    using assms(2) by (auto simp: trace_facts_def accepted(1) sorted_append)
  moreover have "recorded_until (es @ [e]) t"
    using before by (cases rule: heartbeat_accept_cases [OF accepted(2)]) (auto simp: recorded_until_def accepted(1))
  ultimately show ?thesis
    using assms(2,4) c
    by (cases rule: heartbeat_accept_cases [OF accepted(2)])
      (simp_all add: trace_facts_def kind_sequences_def accepted(1) next_expected_accepted)
next
  case ended
  then show ?thesis
    using assms(2,3,4) by (simp add: trace_facts_def recorded_until_def kind_sequences_def mark_terminal_def)
qed

lemma heartbeat_create_facts:
  assumes "heartbeat_create binding start = Inr s"
  shows "trace_facts start [] s" "recorded_until [] s" "hb_started_at_ns s = start" "\<not> hb_terminal s"
  using assms
  by (auto simp: heartbeat_create_def result_simps trace_facts_def recorded_until_def kind_sequences_def next_expected_def)

lemma heartbeat_trace_facts:
  assumes "heartbeat_trace s es t" "heartbeat_create binding start = Inr s"
  shows "trace_facts start es t \<and> recorded_until es t \<and> hb_started_at_ns t = start"
  using assms
proof (induction rule: heartbeat_trace.induct)
  case (trace_nil s)
  then show ?case using heartbeat_create_facts by blast
next
  case (trace_snoc s es t e u)
  then show ?case using heartbeat_step_facts by blast
qed

lemma heartbeat_trace_terminal:
  assumes "heartbeat_trace s es t" "\<not> hb_terminal s"
  shows "(hb_terminal t \<longleftrightarrow> Session_End \<in> set es) \<and> samples_of (dropWhile (\<lambda>e. e \<noteq> Session_End) es) = []"
  using assms
proof (induction rule: heartbeat_trace.induct)
  case (trace_nil s)
  then show ?case by simp
next
  case (trace_snoc s es t e u)
  from trace_snoc.hyps(2) show ?case
  proof cases
    case (accepted sample observed digest)
    then have "\<not> hb_terminal t"
      using heartbeat_accept_common by (auto simp: heartbeat_common_ok)
    then have "Session_End \<notin> set es"
      using trace_snoc by blast
    moreover have "\<not> hb_terminal u"
      using \<open>\<not> hb_terminal t\<close> by (cases rule: heartbeat_accept_cases [OF accepted(2)]) simp_all
    moreover have "dropWhile (\<lambda>e. e \<noteq> Session_End) (es @ [e]) = []"
      using calculation(1) by (auto simp: accepted(1))
    ultimately show ?thesis
      by (simp add: accepted(1))
  next
    case ended
    then show ?thesis
      using trace_snoc by (cases "Session_End \<in> set es") (auto simp: mark_terminal_def dropWhile_append)
  qed
qed

section \<open>Deadlines\<close>

text \<open>The deadlines of a session that is still running, as of the host time \<open>now\<close>.\<close>

definition deadlines_met :: "ng1_heartbeat_state \<Rightarrow> u64 \<Rightarrow> bool" where
  "deadlines_met s now =
    (case hb_last_valid_ack_received_ns s of
       None \<Rightarrow> unat now < unat (hb_started_at_ns s) + 10 * 10 ^ 9
     | Some ack \<Rightarrow> unat now < unat ack + 5 * 10 ^ 9
         \<and> (case hb_last_probe_host_receipt_ns s of None \<Rightarrow> True | Some probe \<Rightarrow> unat now < unat probe + 5 * 10 ^ 9))"

lemma liveness_of_wf:
  assumes "heartbeat_wf s" "hb_started_at_ns s \<le> now" "time_le (hb_last_host_receipt_time_ns s) now"
  shows "(check_liveness s now = Inr () \<longleftrightarrow> hb_terminal s \<or> deadlines_met s now)
    \<and> (check_liveness s now = Inr () \<or> (\<exists>field detail. check_liveness s now = Inl (ng1_error ''heartbeat-timeout'' field detail)))"
proof -
  have le: "x \<le> now" if "hb_last_valid_ack_received_ns s = Some x \<or> hb_last_probe_host_receipt_ns s = Some x" for x
    using assms that by (auto simp: heartbeat_wf_def time_within_def time_le_def split: option.splits)
  show ?thesis
  proof (cases "hb_terminal s")
    case True
    then show ?thesis by (simp add: check_liveness_def)
  next
    case False
    note el = elapsed_less_iff [of _ now heartbeat_timeout_ns] elapsed_less_iff [OF assms(2), of heartbeat_startup_grace_ns]
    have ns: "unat heartbeat_timeout_ns = 5 * 10 ^ 9" "unat heartbeat_startup_grace_ns = 10 * 10 ^ 9"
      by (simp_all add: heartbeat_timeout_ns_def heartbeat_startup_grace_ns_def)
    show ?thesis
    proof (cases "hb_last_valid_ack_received_ns s")
      case None
      then show ?thesis
        using False assms(2) el(2) ns
        by (auto simp: check_liveness_def checked_elapsed_def not_less deadlines_met_def)
    next
      case (Some ack)
      then have a: "ack \<le> now" using le by blast
      show ?thesis
      proof (cases "hb_last_probe_host_receipt_ns s")
        case None
        then show ?thesis
          using False Some a assms(2) el(1) [OF a] ns
          by (auto simp: check_liveness_def checked_elapsed_def not_less deadlines_met_def)
      next
        case probe: (Some p)
        then have "p \<le> now" using le by blast
        then show ?thesis
          using False Some probe a assms(2) el(1) [OF a] el(1) [of p] ns
          by (auto simp: check_liveness_def checked_elapsed_def not_less deadlines_met_def)
      qed
    qed
  qed
qed

section \<open>Progress runs\<close>

text \<open>
  The fields after the first sample are set together; the checkpoint lies between the first and the
  last sample; and the pace so far is at least one unit per second beyond the startup grace.
\<close>

definition progress_wf :: "ng1_progress_state \<Rightarrow> bool" where
  "progress_wf s =
    (case (pg_last_host_receipt_time_ns s, pg_last_completed_units s, pg_total_units s,
        pg_rate_checkpoint_receipt_ns s, pg_rate_checkpoint_completed_units s) of
       (None, None, None, None, None) \<Rightarrow> \<not> pg_terminal_observed s
     | (Some receipt, Some units, Some total_units, Some checkpoint, Some checkpoint_units) \<Rightarrow>
         pg_started_at_ns s \<le> checkpoint \<and> checkpoint \<le> receipt
         \<and> checkpoint_units \<le> units \<and> units \<le> total_units
         \<and> (pg_terminal_observed s \<longrightarrow> units = total_units \<and> checkpoint = receipt \<and> checkpoint_units = units)
         \<and> unat checkpoint \<le> unat (pg_started_at_ns s) + 10 * 10 ^ 9 + unat checkpoint_units * 10 ^ 9
         \<and> (receipt = checkpoint \<or> unat receipt < unat checkpoint + 5 * 10 ^ 9)
     | _ \<Rightarrow> False)"

lemma progress_wf_cases:
  assumes "progress_wf s"
  obtains (fresh) "pg_last_host_receipt_time_ns s = None" "pg_last_completed_units s = None"
    "pg_total_units s = None" "pg_rate_checkpoint_receipt_ns s = None"
    "pg_rate_checkpoint_completed_units s = None" "\<not> pg_terminal_observed s"
  | (running) receipt units total_units checkpoint checkpoint_units
    where "pg_last_host_receipt_time_ns s = Some receipt" "pg_last_completed_units s = Some units"
    "pg_total_units s = Some total_units" "pg_rate_checkpoint_receipt_ns s = Some checkpoint"
    "pg_rate_checkpoint_completed_units s = Some checkpoint_units"
    "pg_started_at_ns s \<le> checkpoint" "checkpoint \<le> receipt" "checkpoint_units \<le> units"
    "units \<le> total_units"
    "pg_terminal_observed s \<longrightarrow> units = total_units \<and> checkpoint = receipt \<and> checkpoint_units = units"
    "unat checkpoint \<le> unat (pg_started_at_ns s) + 10 * 10 ^ 9 + unat checkpoint_units * 10 ^ 9"
    "receipt = checkpoint \<or> unat receipt < unat checkpoint + 5 * 10 ^ 9"
  using assms by (auto simp: progress_wf_def split: option.splits)

lemma progress_guards_ok:
  "progress_guards s sample = Inr u \<longleftrightarrow>
    \<not> pg_terminal_observed s \<and> ps_schema sample = progress_schema
    \<and> ps_task_id sample = pg_task_id s \<and> ps_dependency_group_id sample = pg_dependency_group_id s
    \<and> ps_total_units sample \<noteq> 0 \<and> ps_completed_units sample \<le> ps_total_units sample
    \<and> (case pg_total_units s of None \<Rightarrow> True | Some known \<Rightarrow> ps_total_units sample = known)
    \<and> pg_started_at_ns s \<le> ps_host_receipt_time_ns sample
    \<and> ps_provider_monotonic_time_ns sample \<le> ps_host_receipt_time_ns sample
    \<and> time_le (pg_last_host_receipt_time_ns s) (ps_host_receipt_time_ns sample)
    \<and> time_le (pg_last_provider_time_ns s) (ps_provider_monotonic_time_ns sample)"
  by (auto simp: progress_guards_def time_le_def not_less split: option.splits)

lemma progress_rate_check_ok:
  assumes "progress_rate_check s sample terminal_sample last_receipt last_units checkpoint checkpoint_units = Inr (c, cu)"
  shows "last_receipt < ps_host_receipt_time_ns sample" "last_units \<le> ps_completed_units sample"
    "checkpoint \<le> ps_host_receipt_time_ns sample"
    "(c, cu) = (ps_host_receipt_time_ns sample, ps_completed_units sample)
        \<and> (unat (ps_host_receipt_time_ns sample) \<le> unat (pg_started_at_ns s) + 10 * 10 ^ 9 \<and> \<not> terminal_sample
          \<or> unat (ps_host_receipt_time_ns sample) - unat checkpoint
              \<le> unat (ps_completed_units sample - checkpoint_units) * 10 ^ 9)
      \<or> (c, cu) = (checkpoint, checkpoint_units) \<and> \<not> terminal_sample
        \<and> unat (ps_host_receipt_time_ns sample) < unat checkpoint + 5 * 10 ^ 9"
proof -
  have le: "last_receipt \<le> ps_host_receipt_time_ns sample" "ps_host_receipt_time_ns sample - last_receipt \<noteq> 0"
    "last_units \<le> ps_completed_units sample" "checkpoint \<le> ps_host_receipt_time_ns sample"
    "pg_started_at_ns s \<le> ps_host_receipt_time_ns sample"
    using assms by (auto simp: progress_rate_check_def result_simps Let_def not_less split: if_splits)
  then show "last_receipt < ps_host_receipt_time_ns sample" "last_units \<le> ps_completed_units sample"
    "checkpoint \<le> ps_host_receipt_time_ns sample"
    by auto
  have ns: "unat progress_sample_window_ns = 5 * 10 ^ 9" "unat progress_startup_grace_ns = 10 * 10 ^ 9"
    by (simp_all add: progress_sample_window_ns_def progress_startup_grace_ns_def)
  define admitted where "admitted = (terminal_sample
    \<or> ps_host_receipt_time_ns sample - checkpoint \<ge> progress_sample_window_ns)"
  define after_grace where "after_grace = (ps_host_receipt_time_ns sample - pg_started_at_ns s > progress_startup_grace_ns)"
  have r: "(c, cu) = (if admitted then (ps_host_receipt_time_ns sample, ps_completed_units sample) else (checkpoint, checkpoint_units))"
    "admitted \<longrightarrow> after_grace \<or> terminal_sample \<longrightarrow> progress_rate_satisfied (ps_completed_units sample - checkpoint_units)
      (ps_host_receipt_time_ns sample - checkpoint)"
    using assms
    by (auto simp: progress_rate_check_def result_simps Let_def admitted_def after_grace_def split: if_splits)
  have "\<not> after_grace \<longrightarrow> unat (ps_host_receipt_time_ns sample) \<le> unat (pg_started_at_ns s) + 10 * 10 ^ 9"
    using elapsed_greater_iff [OF le(5), of progress_startup_grace_ns] ns by (auto simp: after_grace_def)
  moreover have "\<not> admitted \<longrightarrow> \<not> terminal_sample \<and> unat (ps_host_receipt_time_ns sample) < unat checkpoint + 5 * 10 ^ 9"
    using elapsed_less_iff [OF le(4), of progress_sample_window_ns] ns by (auto simp: admitted_def)
  ultimately show "(c, cu) = (ps_host_receipt_time_ns sample, ps_completed_units sample)
        \<and> (unat (ps_host_receipt_time_ns sample) \<le> unat (pg_started_at_ns s) + 10 * 10 ^ 9 \<and> \<not> terminal_sample
          \<or> unat (ps_host_receipt_time_ns sample) - unat checkpoint
              \<le> unat (ps_completed_units sample - checkpoint_units) * 10 ^ 9)
      \<or> (c, cu) = (checkpoint, checkpoint_units) \<and> \<not> terminal_sample
        \<and> unat (ps_host_receipt_time_ns sample) < unat checkpoint + 5 * 10 ^ 9"
    using r by (auto simp: progress_rate_satisfied_iff elapsed_ge [OF le(4)] split: if_splits)
qed

text \<open>The state after an accepted sample, for the checkpoint \<open>(c, cu)\<close>.\<close>

definition progress_after :: "ng1_progress_sample \<Rightarrow> bool \<Rightarrow> u64 \<Rightarrow> u64 \<Rightarrow> ng1_progress_state \<Rightarrow> ng1_progress_state" where
  "progress_after sample terminal_sample c cu s =
    s\<lparr>pg_last_sequence := Some (ps_progress_sequence sample),
      pg_last_provider_time_ns := Some (ps_provider_monotonic_time_ns sample),
      pg_last_host_receipt_time_ns := Some (ps_host_receipt_time_ns sample),
      pg_last_completed_units := Some (ps_completed_units sample),
      pg_rate_checkpoint_receipt_ns := Some c, pg_rate_checkpoint_completed_units := Some cu,
      pg_total_units := Some (ps_total_units sample), pg_terminal_observed := terminal_sample\<rparr>"

lemma progress_observe_ok:
  assumes "progress_observe sample terminal_sample s = Inr t"
  shows "progress_guards s sample = Inr ()"
    "unat (ps_progress_sequence sample) = next_expected (pg_last_sequence s)"
    "terminal_sample \<longrightarrow> ps_completed_units sample = ps_total_units sample"
    "\<exists>c cu. t = progress_after sample terminal_sample c cu s
      \<and> (case pg_last_host_receipt_time_ns s of
           None \<Rightarrow> ps_host_receipt_time_ns sample - pg_started_at_ns s < progress_startup_grace_ns
             \<and> (c, cu) = (ps_host_receipt_time_ns sample, ps_completed_units sample)
         | Some receipt \<Rightarrow> \<exists>checkpoint checkpoint_units.
             pg_rate_checkpoint_receipt_ns s = Some checkpoint
             \<and> pg_rate_checkpoint_completed_units s = Some checkpoint_units
             \<and> progress_rate_check s sample terminal_sample receipt
                 (case pg_last_completed_units s of None \<Rightarrow> 0 | Some units \<Rightarrow> units)
                 checkpoint checkpoint_units = Inr (c, cu))"
proof -
  obtain q where g: "progress_guards s sample = Inr ()"
    "unat (ps_progress_sequence sample) = next_expected (pg_last_sequence s)"
    "terminal_sample \<longrightarrow> ps_completed_units sample = ps_total_units sample"
    using assms by (auto simp: progress_observe_def result_simps split: if_splits)
  then show "progress_guards s sample = Inr ()"
    "unat (ps_progress_sequence sample) = next_expected (pg_last_sequence s)"
    "terminal_sample \<longrightarrow> ps_completed_units sample = ps_total_units sample"
    by blast+
  show "\<exists>c cu. t = progress_after sample terminal_sample c cu s
      \<and> (case pg_last_host_receipt_time_ns s of
           None \<Rightarrow> ps_host_receipt_time_ns sample - pg_started_at_ns s < progress_startup_grace_ns
             \<and> (c, cu) = (ps_host_receipt_time_ns sample, ps_completed_units sample)
         | Some receipt \<Rightarrow> \<exists>checkpoint checkpoint_units.
             pg_rate_checkpoint_receipt_ns s = Some checkpoint
             \<and> pg_rate_checkpoint_completed_units s = Some checkpoint_units
             \<and> progress_rate_check s sample terminal_sample receipt
                 (case pg_last_completed_units s of None \<Rightarrow> 0 | Some units \<Rightarrow> units)
                 checkpoint checkpoint_units = Inr (c, cu))"
    using assms
    by (cases "pg_last_host_receipt_time_ns s"; cases "pg_rate_checkpoint_receipt_ns s";
        cases "pg_rate_checkpoint_completed_units s")
      (auto simp: progress_observe_def progress_after_def result_simps not_le split: if_splits)
qed

lemma progress_observe_wf:
  assumes "progress_wf s" "progress_observe sample terminal_sample s = Inr t"
  shows "progress_wf t"
proof -
  note ok = progress_observe_ok [OF assms(2)]
  note g = ok(1) [unfolded progress_guards_ok]
  let ?now = "ps_host_receipt_time_ns sample" and ?units = "ps_completed_units sample"
  obtain c cu where t: "t = progress_after sample terminal_sample c cu s"
    and r: "case pg_last_host_receipt_time_ns s of
           None \<Rightarrow> ?now - pg_started_at_ns s < progress_startup_grace_ns \<and> (c, cu) = (?now, ?units)
         | Some receipt \<Rightarrow> \<exists>checkpoint checkpoint_units.
             pg_rate_checkpoint_receipt_ns s = Some checkpoint
             \<and> pg_rate_checkpoint_completed_units s = Some checkpoint_units
             \<and> progress_rate_check s sample terminal_sample receipt
                 (case pg_last_completed_units s of None \<Rightarrow> 0 | Some units \<Rightarrow> units)
                 checkpoint checkpoint_units = Inr (c, cu)"
    using ok(4) by blast
  have goal: "progress_wf t" if "pg_started_at_ns s \<le> c" "c \<le> ?now" "cu \<le> ?units"
    "terminal_sample \<longrightarrow> c = ?now \<and> cu = ?units"
    "unat c \<le> unat (pg_started_at_ns s) + 10 * 10 ^ 9 + unat cu * 10 ^ 9"
    "?now = c \<or> unat ?now < unat c + 5 * 10 ^ 9"
    using that g ok(3) by (simp add: progress_wf_def t progress_after_def)
  from assms(1) show ?thesis
  proof (cases rule: progress_wf_cases)
    case fresh
    then have "c = ?now" "cu = ?units" "?now - pg_started_at_ns s < progress_startup_grace_ns"
      using r by simp_all
    moreover have "unat progress_startup_grace_ns = 10 * 10 ^ 9"
      by (simp add: progress_startup_grace_ns_def)
    ultimately have "unat ?now < unat (pg_started_at_ns s) + 10 * 10 ^ 9"
      using elapsed_less_iff [of "pg_started_at_ns s" ?now progress_startup_grace_ns] g by (auto simp: not_le)
    then show ?thesis
      using g \<open>c = ?now\<close> \<open>cu = ?units\<close> by (intro goal) auto
  next
    case (running receipt units total_units checkpoint checkpoint_units)
    then have rc: "progress_rate_check s sample terminal_sample receipt units checkpoint checkpoint_units = Inr (c, cu)"
      using r by simp
    note p = progress_rate_check_ok [OF rc]
    have cu_le: "checkpoint_units \<le> ?units"
      using running(8) p(2) by auto
    then have delta: "unat (?units - checkpoint_units) = unat ?units - unat checkpoint_units"
      "unat checkpoint_units \<le> unat ?units"
      by (simp_all add: unat_u64_sub word_le_nat_alt)
    show ?thesis
      using p(4)
    proof (elim disjE conjE)
      assume e: "(c, cu) = (?now, ?units)" "unat ?now \<le> unat (pg_started_at_ns s) + 10 * 10 ^ 9"
      then show ?thesis using g by (intro goal) auto
    next
      assume e: "(c, cu) = (?now, ?units)" "unat ?now - unat checkpoint \<le> unat (?units - checkpoint_units) * 10 ^ 9"
      then have "unat ?now \<le> unat checkpoint + unat ?units * 10 ^ 9 - unat checkpoint_units * 10 ^ 9"
        using delta by (simp add: diff_mult_distrib)
      then have "unat ?now \<le> unat (pg_started_at_ns s) + 10 * 10 ^ 9 + unat ?units * 10 ^ 9"
        using running(11) delta(2) by linarith
      then show ?thesis using e g by (intro goal) auto
    next
      assume e: "(c, cu) = (checkpoint, checkpoint_units)" "\<not> terminal_sample" "unat ?now < unat checkpoint + 5 * 10 ^ 9"
      then show ?thesis using running p(3) cu_le by (intro goal) auto
    qed
  qed
qed

lemma progress_create_wf: "progress_create task dependency_group start = Inr s \<Longrightarrow>
  progress_wf s \<and> pg_started_at_ns s = start \<and> pg_last_sequence s = None"
  by (auto simp: progress_create_def result_simps progress_wf_def)

text \<open>The samples of a run, each with the host's terminal flag; rejected ones leave the state unchanged.\<close>

fun observe_input :: "ng1_progress_sample \<times> bool \<Rightarrow> ng1_progress_state \<Rightarrow> ng1_progress_state result" where
  "observe_input (sample, terminal_sample) s = progress_observe sample terminal_sample s"

definition units_rank :: "ng1_progress_state \<Rightarrow> nat" where
  "units_rank s = (case pg_last_completed_units s of None \<Rightarrow> 0 | Some units \<Rightarrow> unat units)"

lemma observe_input_rank:
  assumes "progress_wf s" "observe_input i s = Inr t"
  shows "units_rank s \<le> units_rank t"
proof -
  obtain sample terminal_sample where i: "i = (sample, terminal_sample)"
    by fastforce
  note ok = progress_observe_ok [OF assms(2) [unfolded i observe_input.simps]]
  from assms(1) show ?thesis
  proof (cases rule: progress_wf_cases)
    case fresh
    then show ?thesis by (simp add: units_rank_def)
  next
    case (running receipt units total_units checkpoint checkpoint_units)
    then have "units \<le> ps_completed_units sample"
      using ok(4) progress_rate_check_ok(2) by force
    then show ?thesis
      using ok(4) running(2) by (auto simp: units_rank_def progress_after_def word_le_nat_alt)
  qed
qed

interpretation progress: monotone_machine observe_input progress_wf units_rank
proof
  fix s t :: ng1_progress_state and i
  assume a: "progress_wf s" "observe_input i s = Inr t"
  show "units_rank s \<le> units_rank t"
    by (rule observe_input_rank [OF a])
  show "progress_wf t"
    using a(2) progress_observe_wf [OF a(1)] by (cases i) simp
qed

lemma run_started_at:
  "pg_started_at_ns (run_machine observe_input is s) = pg_started_at_ns s"
proof (induction "is" arbitrary: s)
  case Nil
  then show ?case by simp
next
  case (Cons i "is")
  have "pg_started_at_ns t = pg_started_at_ns s" if "observe_input i s = Inr t" for t
    using that progress_observe_ok(4) by (cases i) (fastforce simp: progress_after_def)
  then show ?case
    by (cases "observe_input i s") (simp_all add: Cons)
qed

section \<open>Properties\<close>

text \<open>
  C18: the portable 64-by-64 multiplication is exact, and with it the rate test is exactly "at least one
  completed unit per second", without overflow for any 64-bit operands.
\<close>

theorem progress_rate_exact:
  "u128_value (multiply_u64 x y) = unat x * unat y
    \<and> (progress_rate_satisfied units time \<longleftrightarrow> unat time \<le> unat units * 10 ^ 9)"
  by (simp add: multiply_u64_value progress_rate_satisfied_iff)

text \<open>
  In every trace of accepted heartbeat events of a session, probes and acknowledgements carry the
  sequence numbers 0, 1, 2, ... of their direction, host and provider clocks never run backwards, no
  sample is from before the start or from the host's future, and nothing is accepted after the end.
\<close>

theorem heartbeat_trace_ordered:
  assumes "heartbeat_create binding start = Inr s" "heartbeat_trace s es t"
  shows "trace_facts start es t \<and> heartbeat_wf t \<and> (hb_terminal t \<longleftrightarrow> Session_End \<in> set es)
    \<and> samples_of (dropWhile (\<lambda>e. e \<noteq> Session_End) es) = []"
  using heartbeat_trace_facts [OF assms(2,1)] heartbeat_trace_wf [OF assms(2)] heartbeat_create_wf [OF assms(1)]
    heartbeat_trace_terminal [OF assms(2)] heartbeat_create_facts(4) [OF assms(1)] by blast

definition example_binding :: ng1_session_binding where
  "example_binding = \<lparr>sb_provider_id = ''p'', sb_provider_version = \<lparr>version_major = 1, version_minor = 0,
    version_patch = 0\<rparr>, sb_protocol_session_id = ''s'', sb_task_id = ''t'', sb_stream_id = 1\<rparr>"

definition example_digest :: string where
  "example_digest = semantic_digest_prefix @ replicate 64 (CHR ''0'')"

definition example_sample :: "ng1_heartbeat_kind \<Rightarrow> u64 \<Rightarrow> ng1_heartbeat_sample" where
  "example_sample kind receipt = \<lparr>hs_schema = heartbeat_schema, hs_binding = example_binding, hs_kind = kind,
    hs_heartbeat_sequence = 0, hs_provider_monotonic_time_ns = 3, hs_host_receipt_time_ns = receipt,
    hs_highest_contiguous_acked_sequence = 0, hs_staged_digest = example_digest\<rparr>"

lemma example_digest_valid: "valid_semantic_digest example_digest"
  by code_simp

lemma example_binding_valid: "session_binding_validate example_binding = Inr ()"
  by code_simp

definition example_started :: ng1_heartbeat_state where
  "example_started = \<lparr>hb_binding = example_binding, hb_started_at_ns = 2, hb_last_probe_sequence = None,
        hb_last_ack_sequence = None, hb_last_provider_time_ns = None,
        hb_last_probe_host_receipt_ns = None, hb_last_host_receipt_time_ns = None,
        hb_last_valid_ack_received_ns = None, hb_terminal = False\<rparr>"

lemma example_created: "heartbeat_create example_binding 2 = Inr example_started"
  by (simp add: heartbeat_create_def example_binding_valid example_started_def)

definition example_acked :: ng1_heartbeat_state where
  "example_acked = example_started\<lparr>hb_last_ack_sequence := Some 0, hb_last_provider_time_ns := Some 3,
    hb_last_host_receipt_time_ns := Some 5, hb_last_valid_ack_received_ns := Some 5\<rparr>"

lemma example_trace:
  "heartbeat_trace example_started [Sample (example_sample Ack 5) 0 example_digest] example_acked"
proof -
  have "heartbeat_accept (example_sample Ack 5) 0 example_digest example_started = Inr example_acked"
    by (simp add: heartbeat_accept_def heartbeat_common_def heartbeat_ack_def ack_deadlines_def
        checked_elapsed_def accept_contiguous_def example_sample_def example_started_def example_acked_def
        example_digest_valid heartbeat_startup_grace_ns_def)
  from trace_snoc [OF trace_nil accepted [OF this]] show ?thesis
    by simp
qed

lemma heartbeat_trace_ordered_witness:
  "trace_facts 2 [Sample (example_sample Ack 5) 0 example_digest] example_acked"
  using heartbeat_trace_ordered [OF example_created example_trace] by blast

text \<open>
  C9: silence is detected: in every session a host has traced, at any time not before the last sample, the
  liveness check passes exactly while the session has ended or the deadlines are met (ten seconds from
  the start to the first acknowledgement, then five seconds from the last acknowledgement and from the
  last probe), and otherwise it reports a heartbeat timeout, never a clock error.
\<close>

theorem heartbeat_silence_detected:
  assumes "heartbeat_create binding start = Inr s" "heartbeat_trace s es t" "start \<le> now"
    "time_le (hb_last_host_receipt_time_ns t) now"
  shows "(check_liveness t now = Inr () \<longleftrightarrow> hb_terminal t \<or> deadlines_met t now)
    \<and> (check_liveness t now = Inr ()
        \<or> (\<exists>field detail. check_liveness t now = Inl (ng1_error ''heartbeat-timeout'' field detail)))"
  using liveness_of_wf [of t now] heartbeat_trace_wf [OF assms(2) heartbeat_create_wf [OF assms(1)]]
    heartbeat_trace_facts [OF assms(2,1)] assms(3,4) by blast

lemma heartbeat_silence_detected_witness:
  "\<exists>field detail. check_liveness example_acked 5000000005 = Inl (ng1_error ''heartbeat-timeout'' field detail)"
proof -
  have "\<not> hb_terminal example_acked" "\<not> deadlines_met example_acked 5000000005"
    by (simp_all add: example_acked_def example_started_def deadlines_met_def)
  moreover have "(2 :: u64) \<le> 5000000005" "time_le (hb_last_host_receipt_time_ns example_acked) 5000000005"
    by (simp_all add: example_acked_def time_le_def)
  ultimately show ?thesis
    using heartbeat_silence_detected [OF example_created example_trace, of 5000000005] by blast
qed

text \<open>
  Whatever samples a host feeds to a progress validator, skipping rejected ones, the state stays well
  formed (the stored checkpoint is never missing and never ahead of the last sample, so the unsigned
  differences of the rate test do not wrap around) and completed units never fall.
\<close>

theorem progress_run_invariant:
  assumes "progress_create task dependency_group start = Inr s"
  shows "progress_wf (run_machine observe_input is s) \<and> units_rank s \<le> units_rank (run_machine observe_input is s)"
  using progress.run_inv [of s "is"] progress.run_rank [of s "is"] progress_create_wf [OF assms] by blast

lemma progress_run_invariant_witness:
  "\<exists>s. progress_create ''t'' ''g'' 0 = Inr s \<and> progress_wf (run_machine observe_input [] s)"
proof -
  have "valid_id ''t'' ''task_id'' ''progress-rate'' = Inr ()"
    "valid_id ''g'' ''dependency_group_id'' ''progress-rate'' = Inr ()"
    by code_simp+
  then obtain s where s: "progress_create ''t'' ''g'' 0 = Inr s"
    by (simp add: progress_create_def)
  with progress_run_invariant [OF s] show ?thesis by blast
qed

text \<open>
  C12: a task whose accepted progress reaches the end does so in bounded time: when \<open>finish\<close> passes, all
  units are completed and the last sample arrived at most ten seconds plus one second per unit after the
  start, whatever samples were offered in between.
\<close>

theorem progress_finishes_in_time:
  assumes "progress_create task dependency_group start = Inr s"
    "progress_finish (run_machine observe_input is s) = Inr ()"
  shows "\<exists>receipt units. pg_last_host_receipt_time_ns (run_machine observe_input is s) = Some receipt
    \<and> pg_last_completed_units (run_machine observe_input is s) = Some units
    \<and> pg_total_units (run_machine observe_input is s) = Some units
    \<and> unat receipt \<le> unat start + 10 * 10 ^ 9 + unat units * 10 ^ 9"
proof -
  let ?t = "run_machine observe_input is s"
  have "progress_wf ?t" "pg_started_at_ns ?t = start" "pg_terminal_observed ?t" "pg_last_completed_units ?t \<noteq> None"
    using progress.run_inv progress_create_wf [OF assms(1)] run_started_at assms(2)
    by (auto simp: progress_finish_def split: if_splits)
  then show ?thesis
    by (cases rule: progress_wf_cases) auto
qed

definition example_progress :: ng1_progress_sample where
  "example_progress = \<lparr>ps_schema = progress_schema, ps_task_id = ''t'', ps_dependency_group_id = ''g'',
    ps_progress_sequence = 0, ps_provider_monotonic_time_ns = 1, ps_host_receipt_time_ns = 7,
    ps_completed_units = 4, ps_total_units = 4\<rparr>"

lemma progress_finishes_in_time_witness:
  "\<exists>s. progress_create ''t'' ''g'' 0 = Inr s
    \<and> (\<exists>receipt units. pg_last_host_receipt_time_ns (run_machine observe_input [(example_progress, True)] s) = Some receipt
      \<and> pg_last_completed_units (run_machine observe_input [(example_progress, True)] s) = Some units
      \<and> pg_total_units (run_machine observe_input [(example_progress, True)] s) = Some units
      \<and> unat receipt \<le> unat (0 :: u64) + 10 * 10 ^ 9 + unat units * 10 ^ 9)"
proof -
  have "valid_id ''t'' ''task_id'' ''progress-rate'' = Inr ()"
    "valid_id ''g'' ''dependency_group_id'' ''progress-rate'' = Inr ()"
    by code_simp+
  then obtain s where s: "progress_create ''t'' ''g'' 0 = Inr s"
    "pg_task_id s = ''t''" "pg_dependency_group_id s = ''g''" "pg_started_at_ns s = 0" "pg_last_sequence s = None"
    "pg_last_provider_time_ns s = None" "pg_last_host_receipt_time_ns s = None" "pg_total_units s = None"
    "\<not> pg_terminal_observed s"
    by (simp add: progress_create_def)
  then have "progress_observe example_progress True s = Inr (progress_after example_progress True 7 4 s)"
    by (simp add: progress_observe_def progress_guards_def example_progress_def accept_contiguous_def
        checked_elapsed_def progress_startup_grace_ns_def progress_after_def)
  then have run: "run_machine observe_input [(example_progress, True)] s = progress_after example_progress True 7 4 s"
    by simp
  then have "progress_finish (run_machine observe_input [(example_progress, True)] s) = Inr ()"
    by (simp add: progress_finish_def progress_after_def example_progress_def)
  from progress_finishes_in_time [OF s(1) this] s(1) show ?thesis
    by blast
qed

end
