(* ===== verification/Ng1_Resume.thy ===== *)
theory Ng1_Resume
  imports Ng1_Liveness
begin

text \<open>
  \<open>src/sdk/provider_ng1_validation.cpp\<close>, second half: the digests that bind a resume token and a
  spill record, the append-only spill prefix with its quotas (\<open>ng1_spill_prefix_state\<close>), the receipt a
  host makes of it, and the admission of resume tokens (\<open>ng1_resume_state\<close>). The lemmas show that an
  admitted prefix is contiguous, bound and within its quotas with exact byte accounting, and that
  admitted tokens only move forward.
\<close>

section \<open>Digests over canonical tuples\<close>

definition resume_schema :: string where "resume_schema = ''cxxlens.provider-control.resume.v2''"
definition spill_schema :: string where "spill_schema = ''cxxlens.provider-spill-record.v1''"
definition spill_payload_domain :: string where "spill_payload_domain = ''cxxlens.provider-spill-payload.v1''"
definition spill_record_domain :: string where "spill_record_domain = ''cxxlens.provider-spill-record.v1''"
definition spill_prefix_domain :: string where "spill_prefix_domain = ''cxxlens.provider-spill-prefix.v1''"
definition spill_fsync_receipt_schema :: string where
  "spill_fsync_receipt_schema = ''cxxlens.provider-spill-fsync-receipt.v1''"

definition canonical_u64 :: "u64 \<Rightarrow> canonical_value" where
  "canonical_u64 value = from_bytes (be_bytes 8 value)"

definition canonical_text :: "string \<Rightarrow> canonical_value" where
  "canonical_text value = from_string value"

definition semantic_tuple_digest :: "string \<Rightarrow> canonical_value list \<Rightarrow> string result" where
  "semantic_tuple_digest domain items =
    and_then (canonical_binary (from_tuple items)) (\<lambda>encoded. semantic_digest domain (string_of encoded))"

section \<open>Resume tokens\<close>

record ng1_resume_binding =
  rb_provider_id :: string
  rb_provider_version :: semantic_version
  rb_provider_binary_digest :: string
  rb_provider_semantic_contract_digest :: string
  rb_protocol_session_id :: string
  rb_task_id :: string
  rb_task_input_digest :: string
  rb_normalized_invocation_digest :: string
  rb_toolchain_digest :: string
  rb_environment_digest :: string
  rb_sandbox_policy_digest :: string
  rb_dependency_group_id :: string
  rb_atomic_output_group_id :: string
  rb_batch_id :: string
  rb_stream_id :: u64

abbreviation token_stale :: "string \<Rightarrow> string \<Rightarrow> sdk_error" where
  "token_stale \<equiv> ng1_error ''resume-token-stale''"

abbreviation replay_invalid :: "string \<Rightarrow> string \<Rightarrow> sdk_error" where
  "replay_invalid \<equiv> ng1_error ''resume-replay-invalid''"

definition resume_binding_validate :: "ng1_resume_binding \<Rightarrow> unit result" where
  "resume_binding_validate b =
    (if version_major (rb_provider_version b) = 0 then Inl (token_stale ''provider_version'' ''major-zero'')
     else first_error
       [valid_id (rb_provider_id b) ''provider_id'' ''resume-token-stale'',
        valid_id (rb_protocol_session_id b) ''protocol_session_id'' ''resume-token-stale'',
        valid_id (rb_task_id b) ''task_id'' ''resume-token-stale'',
        valid_id (rb_dependency_group_id b) ''dependency_group_id'' ''resume-token-stale'',
        valid_id (rb_atomic_output_group_id b) ''atomic_output_group_id'' ''resume-token-stale'',
        valid_id (rb_batch_id b) ''batch_id'' ''resume-token-stale'',
        valid_manifest_content_digest (rb_provider_binary_digest b) ''provider_binary_digest'' ''resume-token-stale'',
        valid_manifest_content_digest (rb_provider_semantic_contract_digest b)
          ''provider_semantic_contract_digest'' ''resume-token-stale'',
        valid_digest (rb_task_input_digest b) ''task_input_digest'' ''resume-token-stale'',
        valid_digest (rb_normalized_invocation_digest b) ''normalized_invocation_digest'' ''resume-token-stale'',
        valid_digest (rb_toolchain_digest b) ''toolchain_digest'' ''resume-token-stale'',
        valid_digest (rb_environment_digest b) ''environment_digest'' ''resume-token-stale'',
        valid_digest (rb_sandbox_policy_digest b) ''sandbox_policy_digest'' ''resume-token-stale''])"

datatype ng1_resume_kind = Resume_Request | Resume_Accepted | Resume_Rejected

definition resume_kind_text :: "ng1_resume_kind \<Rightarrow> string" where
  "resume_kind_text kind = (case kind of
     Resume_Request \<Rightarrow> ''request'' | Resume_Accepted \<Rightarrow> ''accepted'' | Resume_Rejected \<Rightarrow> ''rejected'')"

record ng1_resume_token =
  rt_schema :: string
  rt_kind :: ng1_resume_kind
  rt_binding :: ng1_resume_binding
  rt_highest_contiguous_acked_sequence :: u64
  rt_staged_digest :: string
  rt_token_generation :: u64
  rt_token_digest :: string

text \<open>
  The exact projection that the token digest covers. The source also refuses a kind outside the
  enumeration, which a value of the datatype cannot be.
\<close>

definition resume_token_fields :: "ng1_resume_token \<Rightarrow> canonical_value list" where
  "resume_token_fields token = (let b = rt_binding token in
    [canonical_text (rt_schema token), canonical_text (resume_kind_text (rt_kind token)),
     canonical_text (rb_provider_id b), canonical_text (version_string (rb_provider_version b)),
     canonical_text (rb_provider_binary_digest b), canonical_text (rb_provider_semantic_contract_digest b),
     canonical_text (rb_protocol_session_id b), canonical_text (rb_task_id b),
     canonical_text (rb_task_input_digest b), canonical_text (rb_normalized_invocation_digest b),
     canonical_text (rb_toolchain_digest b), canonical_text (rb_environment_digest b),
     canonical_text (rb_sandbox_policy_digest b), canonical_text (rb_dependency_group_id b),
     canonical_text (rb_atomic_output_group_id b), canonical_text (rb_batch_id b),
     canonical_u64 (rb_stream_id b), canonical_u64 (rt_highest_contiguous_acked_sequence token),
     canonical_text (rt_staged_digest token), canonical_u64 (rt_token_generation token)])"

definition ng1_resume_token_digest :: "ng1_resume_token \<Rightarrow> string result" where
  "ng1_resume_token_digest token =
    (if rt_schema token \<noteq> resume_schema then Inl (replay_invalid ''schema'' ''unexpected'')
     else and_then (resume_binding_validate (rt_binding token)) (\<lambda>_.
     and_then (valid_digest (rt_staged_digest token) ''staged_digest'' ''resume-replay-invalid'') (\<lambda>_.
     if rt_token_generation token = 0 then Inl (replay_invalid ''token_generation'' ''zero'')
     else semantic_tuple_digest ''cxxlens.provider-resume-token.v1'' (resume_token_fields token))))"

record ng1_spill_fsync_receipt =
  rc_schema :: string
  rc_provider_id :: string
  rc_protocol_session_id :: string
  rc_task_id :: string
  rc_stream_id :: u64
  rc_highest_contiguous_acked_sequence :: u64
  rc_staged_digest :: string
  rc_spill_digest :: string
  rc_total_bytes :: u64
  rc_total_records :: u64
  rc_fsync_sequence :: u64

text \<open>\<open>ng1_spill_fsync_receipt::validate\<close>: an identity failure is reported with the detail \<open>identity\<close>.\<close>

definition receipt_identity :: "string \<Rightarrow> string \<Rightarrow> unit result" where
  "receipt_identity value field =
    (case valid_id value field ''resume-token-stale'' of
       Inl e \<Rightarrow> Inl (token_stale field ''identity'') | Inr _ \<Rightarrow> Inr ())"

definition receipt_validate :: "ng1_spill_fsync_receipt \<Rightarrow> unit result" where
  "receipt_validate r =
    (if rc_schema r \<noteq> spill_fsync_receipt_schema then Inl (token_stale ''schema'' ''unexpected'')
     else first_error
       [receipt_identity (rc_provider_id r) ''provider_id'',
        receipt_identity (rc_protocol_session_id r) ''protocol_session_id'',
        receipt_identity (rc_task_id r) ''task_id'',
        valid_digest (rc_staged_digest r) ''staged_digest'' ''resume-token-stale'',
        valid_digest (rc_spill_digest r) ''spill_digest'' ''resume-token-stale'',
        (if rc_fsync_sequence r = 0 then Inl (token_stale ''fsync_sequence'' ''zero'') else Inr ())])"

record ng1_spill_resume_frontier =
  sf_receipt :: ng1_spill_fsync_receipt
  sf_resume_generation :: u64

definition frontier_validate :: "ng1_spill_resume_frontier \<Rightarrow> unit result" where
  "frontier_validate f =
    and_then (receipt_validate (sf_receipt f)) (\<lambda>_.
      if sf_resume_generation f = 0 then Inl (token_stale ''resume_generation'' ''zero'') else Inr ())"

section \<open>Spill records and their wire size\<close>

abbreviation spill_corrupt :: "string \<Rightarrow> string \<Rightarrow> sdk_error" where
  "spill_corrupt \<equiv> ng1_error ''spill-corrupt''"

record ng1_spill_binding =
  sp_provider_id :: string
  sp_protocol_session_id :: string
  sp_task_id :: string
  sp_dependency_group_id :: string
  sp_atomic_output_group_id :: string
  sp_batch_id :: string
  sp_stream_id :: u64

definition spill_binding_validate :: "ng1_spill_binding \<Rightarrow> unit result" where
  "spill_binding_validate b = first_error
     [valid_id (sp_provider_id b) ''provider_id'' ''spill-corrupt'',
      valid_id (sp_protocol_session_id b) ''protocol_session_id'' ''spill-corrupt'',
      valid_id (sp_task_id b) ''task_id'' ''spill-corrupt'',
      valid_id (sp_dependency_group_id b) ''dependency_group_id'' ''spill-corrupt'',
      valid_id (sp_atomic_output_group_id b) ''atomic_output_group_id'' ''spill-corrupt'',
      valid_id (sp_batch_id b) ''batch_id'' ''spill-corrupt'']"

record ng1_spill_record =
  sx_schema :: string
  sx_record_ordinal :: u64
  sx_task_id :: string
  sx_dependency_group_id :: string
  sx_atomic_output_group_id :: string
  sx_batch_id :: string
  sx_stream_id :: u64
  sx_sequence :: u64
  sx_payload_bytes :: bytes
  sx_payload_digest :: string
  sx_record_digest :: string

definition ng1_spill_maximum_record_bytes :: u64 where "ng1_spill_maximum_record_bytes = 16 * 1024 * 1024"
definition ng1_spill_maximum_total_bytes :: u64 where "ng1_spill_maximum_total_bytes = 64 * 1024 * 1024"
definition ng1_spill_maximum_records :: nat where "ng1_spill_maximum_records = 65536"

definition checked_spill_size_add :: "u64 \<Rightarrow> u64 \<Rightarrow> string \<Rightarrow> u64 result" where
  "checked_spill_size_add left right field =
    (if right > - 1 - left then Inl (spill_corrupt field ''size-overflow'') else Inr (left + right))"

definition cbor_head_bytes :: "u64 \<Rightarrow> u64" where
  "cbor_head_bytes value =
    (if value < 24 then 1 else if value \<le> 0xff then 2 else if value \<le> 0xffff then 3
     else if value \<le> 0xffffffff then 5 else 9)"

definition cbor_text_bytes :: "string \<Rightarrow> string \<Rightarrow> u64 result" where
  "cbor_text_bytes value field =
    (let len = word_of_nat (length value) in checked_spill_size_add (cbor_head_bytes len) len field)"

definition cbor_bytes_bytes :: "bytes \<Rightarrow> string \<Rightarrow> u64 result" where
  "cbor_bytes_bytes value field =
    (let len = word_of_nat (length value) in checked_spill_size_add (cbor_head_bytes len) len field)"

definition add_text_pair :: "string \<Rightarrow> string \<Rightarrow> u64 \<Rightarrow> u64 result" where
  "add_text_pair key value so_far =
    and_then (cbor_text_bytes key ''record-key'') (\<lambda>key_bytes.
    and_then (cbor_text_bytes value key) (\<lambda>value_bytes.
    and_then (checked_spill_size_add so_far key_bytes key) (\<lambda>next_sum.
      checked_spill_size_add next_sum value_bytes key)))"

definition add_uint_pair :: "string \<Rightarrow> u64 \<Rightarrow> u64 \<Rightarrow> u64 result" where
  "add_uint_pair key value so_far =
    and_then (cbor_text_bytes key ''record-key'') (\<lambda>key_bytes.
    and_then (checked_spill_size_add so_far key_bytes key) (\<lambda>next_sum.
      checked_spill_size_add next_sum (cbor_head_bytes value) key))"

definition add_bytes_pair :: "string \<Rightarrow> bytes \<Rightarrow> u64 \<Rightarrow> u64 result" where
  "add_bytes_pair key value so_far =
    and_then (cbor_text_bytes key ''record-key'') (\<lambda>key_bytes.
    and_then (cbor_bytes_bytes value key) (\<lambda>value_bytes.
    and_then (checked_spill_size_add so_far key_bytes key) (\<lambda>next_sum.
      checked_spill_size_add next_sum value_bytes key)))"

text \<open>
  \<open>spill_record_wire_bytes\<close>. The source evaluates all eleven additions before it looks at their
  results; the first failure is the one it returns, so the chain may stop there.
\<close>

definition spill_record_wire_bytes :: "ng1_spill_record \<Rightarrow> u64 result" where
  "spill_record_wire_bytes r =
    try_fold (\<lambda>add. add)
      [add_text_pair ''schema'' (sx_schema r),
       add_uint_pair ''record_ordinal'' (sx_record_ordinal r),
       add_text_pair ''task_id'' (sx_task_id r),
       add_text_pair ''dependency_group_id'' (sx_dependency_group_id r),
       add_text_pair ''atomic_output_group_id'' (sx_atomic_output_group_id r),
       add_text_pair ''batch_id'' (sx_batch_id r),
       add_uint_pair ''stream_id'' (sx_stream_id r),
       add_uint_pair ''sequence'' (sx_sequence r),
       add_bytes_pair ''payload_bytes'' (sx_payload_bytes r),
       add_text_pair ''payload_digest'' (sx_payload_digest r),
       add_text_pair ''record_digest'' (sx_record_digest r)]
      (cbor_head_bytes 11 + 8)"

definition ng1_spill_payload_digest :: "bytes \<Rightarrow> string result" where
  "ng1_spill_payload_digest payload = semantic_digest spill_payload_domain (string_of payload)"

definition spill_record_fields :: "ng1_spill_record \<Rightarrow> canonical_value list" where
  "spill_record_fields r =
    [canonical_text (sx_schema r), canonical_u64 (sx_record_ordinal r), canonical_text (sx_task_id r),
     canonical_text (sx_dependency_group_id r), canonical_text (sx_atomic_output_group_id r),
     canonical_text (sx_batch_id r), canonical_u64 (sx_stream_id r), canonical_u64 (sx_sequence r),
     from_bytes (sx_payload_bytes r), canonical_text (sx_payload_digest r)]"

definition ng1_spill_record_digest :: "ng1_spill_record \<Rightarrow> string result" where
  "ng1_spill_record_digest r =
    (if sx_schema r \<noteq> spill_schema then Inl (spill_corrupt ''schema'' ''unexpected'')
     else and_then (first_error
       [valid_id (sx_task_id r) ''task_id'' ''spill-corrupt'',
        valid_id (sx_dependency_group_id r) ''dependency_group_id'' ''spill-corrupt'',
        valid_id (sx_atomic_output_group_id r) ''atomic_output_group_id'' ''spill-corrupt'',
        valid_id (sx_batch_id r) ''batch_id'' ''spill-corrupt'']) (\<lambda>_.
     and_then (ng1_spill_payload_digest (sx_payload_bytes r)) (\<lambda>expected_payload_digest.
     if sx_payload_digest r \<noteq> expected_payload_digest then Inl (spill_corrupt ''payload_digest'' ''mismatch'')
     else semantic_tuple_digest spill_record_domain (spill_record_fields r))))"

section \<open>The spill prefix\<close>

record ng1_spill_prefix_state =
  px_binding :: ng1_spill_binding
  px_record_digests :: "string list"
  px_total_bytes :: u64
  px_next_record_ordinal :: u64
  px_next_sequence :: u64

definition spill_prefix_create :: "ng1_spill_binding \<Rightarrow> ng1_spill_prefix_state result" where
  "spill_prefix_create binding =
    and_then (spill_binding_validate binding) (\<lambda>_.
      Inr \<lparr>px_binding = binding, px_record_digests = [], px_total_bytes = 0,
        px_next_record_ordinal = 0, px_next_sequence = 0\<rparr>)"

definition spill_append :: "ng1_spill_record \<Rightarrow> ng1_spill_prefix_state \<Rightarrow> ng1_spill_prefix_state result" where
  "spill_append r s =
    (if length (px_record_digests s) \<ge> ng1_spill_maximum_records
     then Inl (spill_corrupt ''record_ordinal'' ''record-quota'')
     else if sx_record_ordinal r \<noteq> px_next_record_ordinal s
     then Inl (spill_corrupt ''record_ordinal'' ''non-contiguous'')
     else if sx_sequence r \<noteq> px_next_sequence s
     then Inl (spill_corrupt ''sequence'' ''non-contiguous'')
     else if sx_task_id r \<noteq> sp_task_id (px_binding s)
       \<or> sx_dependency_group_id r \<noteq> sp_dependency_group_id (px_binding s)
       \<or> sx_atomic_output_group_id r \<noteq> sp_atomic_output_group_id (px_binding s)
       \<or> sx_batch_id r \<noteq> sp_batch_id (px_binding s) \<or> sx_stream_id r \<noteq> sp_stream_id (px_binding s)
     then Inl (spill_corrupt ''binding'' ''mismatch'')
     else and_then (ng1_spill_record_digest r) (\<lambda>expected_digest.
       if sx_record_digest r \<noteq> expected_digest then Inl (spill_corrupt ''record_digest'' ''mismatch'')
       else and_then (spill_record_wire_bytes r) (\<lambda>wire_bytes.
         if wire_bytes > ng1_spill_maximum_record_bytes
         then Inl (spill_corrupt ''record_bytes'' ''record-quota'')
         else if wire_bytes > ng1_spill_maximum_total_bytes - px_total_bytes s
         then Inl (spill_corrupt ''total_bytes'' ''total-quota'')
         else Inr (s\<lparr>px_record_digests := px_record_digests s @ [sx_record_digest r],
           px_total_bytes := px_total_bytes s + wire_bytes,
           px_next_record_ordinal := px_next_record_ordinal s + 1,
           px_next_sequence := px_next_sequence s + 1\<rparr>))))"

definition validate_ack_frontier :: "ng1_spill_prefix_state \<Rightarrow> u64 \<Rightarrow> unit result" where
  "validate_ack_frontier s highest_contiguous_acked_sequence =
    (if px_record_digests s = [] \<or> highest_contiguous_acked_sequence \<ge> px_next_sequence s
     then Inl (spill_corrupt ''highest_contiguous_acked_sequence'' ''not-in-prefix'') else Inr ())"

definition spill_digest :: "ng1_spill_prefix_state \<Rightarrow> string result" where
  "spill_digest s = semantic_tuple_digest spill_prefix_domain (map canonical_text (px_record_digests s))"

definition observe_host_fsync :: "ng1_spill_prefix_state \<Rightarrow> u64 \<Rightarrow> string \<Rightarrow> u64 \<Rightarrow> ng1_spill_fsync_receipt result" where
  "observe_host_fsync s highest_contiguous_acked_sequence staged_digest fsync_sequence =
    (if \<not> valid_semantic_digest staged_digest then Inl (spill_corrupt ''staged_digest'' ''semantic-v2'')
     else and_then (validate_ack_frontier s highest_contiguous_acked_sequence) (\<lambda>_.
     if fsync_sequence = 0 then Inl (spill_corrupt ''fsync_sequence'' ''zero'')
     else and_then (spill_digest s) (\<lambda>prefix_digest.
       let receipt = \<lparr>rc_schema = spill_fsync_receipt_schema, rc_provider_id = sp_provider_id (px_binding s),
             rc_protocol_session_id = sp_protocol_session_id (px_binding s),
             rc_task_id = sp_task_id (px_binding s), rc_stream_id = sp_stream_id (px_binding s),
             rc_highest_contiguous_acked_sequence = highest_contiguous_acked_sequence,
             rc_staged_digest = staged_digest, rc_spill_digest = prefix_digest,
             rc_total_bytes = px_total_bytes s,
             rc_total_records = word_of_nat (length (px_record_digests s)),
             rc_fsync_sequence = fsync_sequence\<rparr>
       in case receipt_validate receipt of
            Inl e \<Rightarrow> Inl (spill_corrupt ''receipt'' ''invalid'') | Inr _ \<Rightarrow> Inr receipt)))"

section \<open>Admission of resume tokens\<close>

record ng1_resume_state =
  rs_binding :: ng1_resume_binding
  rs_last_generation :: "u64 option"
  rs_last_acked_sequence :: u64
  rs_last_fsync_sequence :: "u64 option"
  rs_last_receipt :: "ng1_spill_fsync_receipt option"
  rs_accepted :: bool

definition resume_create :: "ng1_resume_binding \<Rightarrow> ng1_resume_state result" where
  "resume_create binding =
    and_then (resume_binding_validate binding) (\<lambda>_.
      Inr \<lparr>rs_binding = binding, rs_last_generation = None, rs_last_acked_sequence = 0,
        rs_last_fsync_sequence = None, rs_last_receipt = None, rs_accepted = False\<rparr>)"

text \<open>The comparison with the last admitted receipt.\<close>

definition follows_receipt :: "ng1_resume_state \<Rightarrow> ng1_resume_token \<Rightarrow> ng1_spill_fsync_receipt
    \<Rightarrow> ng1_spill_fsync_receipt \<Rightarrow> unit result" where
  "follows_receipt s token receipt previous =
    (if rt_highest_contiguous_acked_sequence token < rs_last_acked_sequence s
     then Inl (replay_invalid ''highest_contiguous_acked_sequence'' ''backwards'')
     else if rt_highest_contiguous_acked_sequence token = rs_last_acked_sequence s
       \<and> rt_staged_digest token \<noteq> rc_staged_digest previous
     then Inl (replay_invalid ''staged_digest'' ''changed-at-sequence'')
     else if rc_total_bytes receipt < rc_total_bytes previous
       \<or> rc_total_records receipt < rc_total_records previous
     then Inl (replay_invalid ''spill_receipt'' ''append-only-counter-backwards'')
     else if rt_highest_contiguous_acked_sequence token = rs_last_acked_sequence s
       \<and> rc_spill_digest receipt \<noteq> rc_spill_digest previous
     then Inl (replay_invalid ''spill_digest'' ''changed-at-sequence'')
     else Inr ())"

definition resume_accept :: "ng1_resume_token \<Rightarrow> ng1_spill_fsync_receipt \<Rightarrow> bool \<Rightarrow> bool \<Rightarrow> u64
    \<Rightarrow> ng1_resume_state \<Rightarrow> ng1_resume_state result" where
  "resume_accept token receipt open_dependency_group terminal highest_observed_sequence s =
    (if ng1_resume_token_digest token \<noteq> Inr (rt_token_digest token)
     then Inl (replay_invalid ''token_digest'' ''projection-mismatch'')
     else and_then (receipt_validate receipt) (\<lambda>_.
     if rt_kind token \<noteq> Resume_Accepted \<or> terminal \<or> open_dependency_group
     then Inl (token_stale ''authority'' ''not-durable-or-terminal'')
     else if rt_binding token \<noteq> rs_binding s then Inl (token_stale ''binding'' ''mismatch'')
     else if rc_provider_id receipt \<noteq> rb_provider_id (rs_binding s)
       \<or> rc_protocol_session_id receipt \<noteq> rb_protocol_session_id (rs_binding s)
       \<or> rc_task_id receipt \<noteq> rb_task_id (rs_binding s)
       \<or> rc_stream_id receipt \<noteq> rb_stream_id (rs_binding s)
       \<or> rc_highest_contiguous_acked_sequence receipt \<noteq> rt_highest_contiguous_acked_sequence token
       \<or> rc_staged_digest receipt \<noteq> rt_staged_digest token
     then Inl (replay_invalid ''fsync_receipt'' ''binding-mismatch'')
     else if (case rs_last_fsync_sequence s of None \<Rightarrow> False | Some l \<Rightarrow> rc_fsync_sequence receipt \<le> l)
     then Inl (replay_invalid ''fsync_sequence'' ''not-increasing'')
     else and_then (case rs_last_receipt s of None \<Rightarrow> Inr () | Some previous \<Rightarrow> follows_receipt s token receipt previous) (\<lambda>_.
     if rt_highest_contiguous_acked_sequence token > highest_observed_sequence
       \<or> rt_highest_contiguous_acked_sequence token = - 1
     then Inl (replay_invalid ''highest_contiguous_acked_sequence'' ''replay-boundary'')
     else if (case rs_last_generation s of None \<Rightarrow> False | Some l \<Rightarrow> rt_token_generation token \<le> l)
     then Inl (token_stale ''token_generation'' ''not-increasing'')
     else Inr (s\<lparr>rs_last_generation := Some (rt_token_generation token),
       rs_last_acked_sequence := rt_highest_contiguous_acked_sequence token,
       rs_last_fsync_sequence := Some (rc_fsync_sequence receipt),
       rs_last_receipt := Some receipt, rs_accepted := True\<rparr>))))"

definition replay_start_sequence :: "ng1_resume_state \<Rightarrow> u64 result" where
  "replay_start_sequence s =
    (if \<not> rs_accepted s \<or> rs_last_acked_sequence s = - 1
     then Inl (replay_invalid ''highest_contiguous_acked_sequence'' ''no-replay-authority'')
     else Inr (rs_last_acked_sequence s + 1))"

section \<open>The spill prefix is contiguous and within its quotas\<close>

lemma checked_spill_size_add_iff [result_simps]:
  "checked_spill_size_add l r field = Inr n \<longleftrightarrow> unat l + unat r < 2 ^ 64 \<and> n = l + r"
  using u64_no_overflow [of l r] by (auto simp: checked_spill_size_add_def)

definition prefix_wf :: "ng1_spill_prefix_state \<Rightarrow> bool" where
  "prefix_wf s =
    (length (px_record_digests s) \<le> ng1_spill_maximum_records
    \<and> px_total_bytes s \<le> ng1_spill_maximum_total_bytes
    \<and> unat (px_next_record_ordinal s) = length (px_record_digests s)
    \<and> px_next_sequence s = px_next_record_ordinal s
    \<and> spill_binding_validate (px_binding s) = Inr ()
    \<and> list_all valid_semantic_digest (px_record_digests s))"

lemma list_all_lower_hex_concat: "list_all lower_hex (concat (map hex_word ws))"
  by (rule lower_hex_concat_hex_words)

lemma semantic_digest_valid:
  assumes "semantic_digest domain bs = Inr d"
  shows "valid_semantic_digest d"
proof -
  obtain framed where d: "d = semantic_digest_prefix @ concat (map hex_word (sha256_words framed))"
    using assms by (auto simp: semantic_digest_def result_simps semantic_digest_prefix_def split: if_splits)
  then show ?thesis
    using lower_hex_concat_hex_words [of "sha256_words framed"] length_concat_hex_words [of "sha256_words framed"]
    by (simp add: valid_semantic_digest_def starts_with_def)
qed

lemma semantic_tuple_digest_valid: "semantic_tuple_digest domain items = Inr d \<Longrightarrow> valid_semantic_digest d"
  by (auto simp: semantic_tuple_digest_def result_simps dest: semantic_digest_valid)

lemma spill_record_digest_valid: "ng1_spill_record_digest r = Inr d \<Longrightarrow> valid_semantic_digest d"
  by (auto simp: ng1_spill_record_digest_def result_simps dest: semantic_tuple_digest_valid split: if_splits)

text \<open>The five identities a record shares with the binding of its prefix.\<close>

definition record_bound :: "ng1_spill_binding \<Rightarrow> ng1_spill_record \<Rightarrow> bool" where
  "record_bound b r = (sx_task_id r = sp_task_id b \<and> sx_dependency_group_id r = sp_dependency_group_id b
    \<and> sx_atomic_output_group_id r = sp_atomic_output_group_id b \<and> sx_batch_id r = sp_batch_id b
    \<and> sx_stream_id r = sp_stream_id b)"

lemma spill_append_step:
  assumes "spill_append r s = Inr t"
  obtains n where
    "length (px_record_digests s) < ng1_spill_maximum_records"
    "sx_record_ordinal r = px_next_record_ordinal s" "sx_sequence r = px_next_sequence s"
    "record_bound (px_binding s) r" "ng1_spill_record_digest r = Inr (sx_record_digest r)"
    "spill_record_wire_bytes r = Inr n" "n \<le> ng1_spill_maximum_record_bytes"
    "n \<le> ng1_spill_maximum_total_bytes - px_total_bytes s"
    "t = s\<lparr>px_record_digests := px_record_digests s @ [sx_record_digest r],
           px_total_bytes := px_total_bytes s + n,
           px_next_record_ordinal := px_next_record_ordinal s + 1,
           px_next_sequence := px_next_sequence s + 1\<rparr>"
  using assms by (auto simp: spill_append_def record_bound_def result_simps not_le not_less split: if_splits)

text \<open>The charged size of an admitted record.\<close>

definition charged_bytes :: "ng1_spill_record \<Rightarrow> nat" where
  "charged_bytes r = (case spill_record_wire_bytes r of Inl e \<Rightarrow> 0 | Inr n \<Rightarrow> unat n)"

lemma spill_append_wf:
  assumes "prefix_wf s" "spill_append r s = Inr t"
  shows "prefix_wf t" "unat (px_total_bytes t) = unat (px_total_bytes s) + charged_bytes r"
    "unat (px_next_record_ordinal t) = unat (px_next_record_ordinal s) + 1"
proof -
  obtain n where a:
    "length (px_record_digests s) < ng1_spill_maximum_records"
    "ng1_spill_record_digest r = Inr (sx_record_digest r)"
    "spill_record_wire_bytes r = Inr n" "n \<le> ng1_spill_maximum_total_bytes - px_total_bytes s"
    "t = s\<lparr>px_record_digests := px_record_digests s @ [sx_record_digest r],
           px_total_bytes := px_total_bytes s + n,
           px_next_record_ordinal := px_next_record_ordinal s + 1,
           px_next_sequence := px_next_sequence s + 1\<rparr>"
    using assms(2) by (elim spill_append_step) blast
  note wf = assms(1) [unfolded prefix_wf_def]
  have "unat n \<le> unat ng1_spill_maximum_total_bytes - unat (px_total_bytes s)"
    using a(4) wf by (simp add: word_le_nat_alt unat_u64_sub)
  moreover have le: "unat (px_total_bytes s) \<le> unat ng1_spill_maximum_total_bytes"
    using wf by (simp add: word_le_nat_alt)
  ultimately have bytes: "unat (px_total_bytes s) + unat n \<le> unat ng1_spill_maximum_total_bytes"
    by linarith
  then have plus: "unat (px_total_bytes s + n) = unat (px_total_bytes s) + unat n"
    by (intro unat_u64_plus) (simp add: ng1_spill_maximum_total_bytes_def)
  then show "unat (px_total_bytes t) = unat (px_total_bytes s) + charged_bytes r"
    using a(3,5) by (simp add: charged_bytes_def)
  have "unat (px_next_record_ordinal s) < 65536"
    using wf a(1) by (simp add: ng1_spill_maximum_records_def)
  then have ord: "unat (px_next_record_ordinal s + 1) = unat (px_next_record_ordinal s) + 1"
    by (intro unat_u64_plus_1) auto
  then show "unat (px_next_record_ordinal t) = unat (px_next_record_ordinal s) + 1"
    using a(5) by simp
  show "prefix_wf t"
    using wf a(1,5) ord bytes plus spill_record_digest_valid [OF a(2)]
    by (simp add: prefix_wf_def word_le_nat_alt)
qed

lemma spill_prefix_create_wf: "spill_prefix_create binding = Inr s \<Longrightarrow>
  prefix_wf s \<and> px_binding s = binding \<and> px_record_digests s = [] \<and> px_total_bytes s = 0"
  by (auto simp: spill_prefix_create_def result_simps prefix_wf_def)

interpretation spill: monotone_machine spill_append prefix_wf "\<lambda>s. unat (px_total_bytes s)"
  by unfold_locales (simp_all add: spill_append_wf)

text \<open>What the admitted records of a prefix look like.\<close>

definition prefix_of_records :: "ng1_spill_record list \<Rightarrow> ng1_spill_prefix_state \<Rightarrow> bool" where
  "prefix_of_records rs s =
    (px_record_digests s = map sx_record_digest rs
    \<and> map (\<lambda>r. unat (sx_record_ordinal r)) rs = [0..<length rs]
    \<and> map (\<lambda>r. unat (sx_sequence r)) rs = [0..<length rs]
    \<and> unat (px_total_bytes s) = sum_list (map charged_bytes rs)
    \<and> list_all (\<lambda>r. ng1_spill_record_digest r = Inr (sx_record_digest r) \<and> record_bound (px_binding s) r
        \<and> (\<exists>n. spill_record_wire_bytes r = Inr n \<and> n \<le> ng1_spill_maximum_record_bytes)) rs)"

lemma spill_run_records:
  assumes "try_fold spill_append rs s = Inr t" "spill_prefix_create binding = Inr s"
  shows "prefix_of_records rs t \<and> prefix_wf t \<and> px_binding t = binding"
  using assms(1)
proof (induction rule: try_fold_snoc_induct)
  case nil
  then show ?case
    using spill_prefix_create_wf [OF assms(2)] by (simp add: prefix_of_records_def)
next
  case (snoc rs r t u)
  then have p: "prefix_of_records rs t" and wf: "prefix_wf t" and b: "px_binding t = binding"
    by auto
  obtain n where a: "sx_record_ordinal r = px_next_record_ordinal t" "sx_sequence r = px_next_sequence t"
    "record_bound (px_binding t) r" "ng1_spill_record_digest r = Inr (sx_record_digest r)"
    "spill_record_wire_bytes r = Inr n" "n \<le> ng1_spill_maximum_record_bytes"
    "u = t\<lparr>px_record_digests := px_record_digests t @ [sx_record_digest r],
           px_total_bytes := px_total_bytes t + n,
           px_next_record_ordinal := px_next_record_ordinal t + 1,
           px_next_sequence := px_next_sequence t + 1\<rparr>"
    using snoc.hyps(2) by - (erule spill_append_step, blast)
  have ord: "unat (sx_record_ordinal r) = length rs" "unat (sx_sequence r) = length rs"
    using wf p a(1,2) by (simp_all add: prefix_wf_def prefix_of_records_def)
  show ?case
    using spill_append_wf(1,2) [OF wf snoc.hyps(2)] p a b ord by (simp add: prefix_of_records_def)
qed

lemma ack_frontier_iff:
  assumes "prefix_wf s"
  shows "validate_ack_frontier s a = Inr () \<longleftrightarrow> unat a < length (px_record_digests s)"
  using assms by (auto simp: validate_ack_frontier_def prefix_wf_def word_le_nat_alt not_le)

section \<open>Honest receipts\<close>

lemma digest_text_valid:
  assumes "valid_semantic_digest d"
  shows "sdk_valid_utf8 (bytes_of d)"
proof -
  have d: "d = semantic_digest_prefix @ drop (length semantic_digest_prefix) d"
    using assms by (metis valid_semantic_digest_def starts_with_def append_take_drop_id)
  have "list_all (\<lambda>b. b \<le> 0x7f) (bytes_of semantic_digest_prefix)"
    by code_simp
  moreover have "list_all (\<lambda>b. b \<le> 0x7f) (bytes_of (drop (length semantic_digest_prefix) d))"
    using assms lower_hex_ascii by (auto simp: valid_semantic_digest_def list_all_iff)
  ultimately have "list_all (\<lambda>b. b \<le> 0x7f) (bytes_of d)"
    by (subst d) (simp only: map_append list_all_append)
  then show ?thesis
    by (rule ascii_valid_utf8)
qed

lemma semantic_tuple_digest_total:
  assumes "domain \<noteq> []" "lower_letter (hd domain)" "list_all semantic_domain_char domain"
    "\<forall>v \<in> set vs. canonical_validate v = Inr ()"
  shows "\<exists>d. semantic_tuple_digest domain vs = Inr d"
proof -
  have "canonical_binary (from_tuple vs) = Inr (append_canonical (from_tuple vs))"
    using assms(4) by (intro canonical_binary_ok) simp
  then show ?thesis
    using semantic_digest_total [OF assms(1-3)] by (simp add: semantic_tuple_digest_def)
qed

lemma spill_digest_total:
  assumes "prefix_wf s"
  shows "\<exists>d. spill_digest s = Inr d"
proof -
  have "spill_prefix_domain \<noteq> []" "lower_letter (hd spill_prefix_domain)"
    "list_all semantic_domain_char spill_prefix_domain"
    by code_simp+
  moreover have "\<forall>v \<in> set (map canonical_text (px_record_digests s)). canonical_validate v = Inr ()"
    using assms digest_text_valid by (auto simp: prefix_wf_def list_all_iff canonical_text_def)
  ultimately show ?thesis
    unfolding spill_digest_def by (rule semantic_tuple_digest_total)
qed

text \<open>
  The receipt for an acknowledgement frontier inside the prefix is always valid, so the final
  \<open>receipt\<close>/\<open>invalid\<close> failure is never reported for a prefix that \<open>create\<close> and \<open>append\<close> built.
\<close>

lemma valid_id_cases: "valid_id v f c = Inr () \<longleftrightarrow> (\<exists>u. validate_strong_id v = Inr u)"
  by (auto simp: valid_id_def split: sum.splits)

lemma observe_host_fsync_iff:
  assumes "prefix_wf s"
  shows "(\<exists>r. observe_host_fsync s a d n = Inr r) \<longleftrightarrow>
    valid_semantic_digest d \<and> unat a < length (px_record_digests s) \<and> n \<noteq> 0"
proof -
  obtain sd where sd: "spill_digest s = Inr sd" "valid_semantic_digest sd"
    using spill_digest_total [OF assms] semantic_tuple_digest_valid by (metis spill_digest_def)
  have ids: "\<exists>u. validate_strong_id (sp_provider_id (px_binding s)) = Inr u"
    "\<exists>u. validate_strong_id (sp_protocol_session_id (px_binding s)) = Inr u"
    "\<exists>u. validate_strong_id (sp_task_id (px_binding s)) = Inr u"
    using assms by (auto simp: prefix_wf_def spill_binding_validate_def result_simps valid_id_def split: sum.splits)
  have "receipt_validate \<lparr>rc_schema = spill_fsync_receipt_schema, rc_provider_id = sp_provider_id (px_binding s),
             rc_protocol_session_id = sp_protocol_session_id (px_binding s),
             rc_task_id = sp_task_id (px_binding s), rc_stream_id = sp_stream_id (px_binding s),
             rc_highest_contiguous_acked_sequence = a, rc_staged_digest = d, rc_spill_digest = sd,
             rc_total_bytes = px_total_bytes s, rc_total_records = word_of_nat (length (px_record_digests s)),
             rc_fsync_sequence = n\<rparr> = Inr ()" if "valid_semantic_digest d" "n \<noteq> 0"
    using that sd ids by (auto simp: receipt_validate_def receipt_identity_def valid_id_def valid_digest_def)
  then show ?thesis
    using ack_frontier_iff [OF assms, of a] sd(1)
    by (cases "validate_ack_frontier s a") (auto simp: observe_host_fsync_def Let_def)
qed

section \<open>Tokens only move forward\<close>

text \<open>One call of \<open>accept\<close>: the token, the receipt and the host's observations.\<close>

record resume_input =
  ri_token :: ng1_resume_token
  ri_receipt :: ng1_spill_fsync_receipt
  ri_open_group :: bool
  ri_terminal :: bool
  ri_highest_observed :: u64

definition resume_step :: "resume_input \<Rightarrow> ng1_resume_state \<Rightarrow> ng1_resume_state result" where
  "resume_step i s = resume_accept (ri_token i) (ri_receipt i) (ri_open_group i) (ri_terminal i)
     (ri_highest_observed i) s"

text \<open>The four identities a receipt shares with the binding of a session.\<close>

definition receipt_bound :: "ng1_resume_binding \<Rightarrow> ng1_spill_fsync_receipt \<Rightarrow> bool" where
  "receipt_bound b r = (rc_provider_id r = rb_provider_id b \<and> rc_protocol_session_id r = rb_protocol_session_id b
    \<and> rc_task_id r = rb_task_id b \<and> rc_stream_id r = rb_stream_id b)"

definition resume_wf :: "ng1_resume_state \<Rightarrow> bool" where
  "resume_wf s =
    (case (rs_last_generation s, rs_last_fsync_sequence s, rs_last_receipt s) of
       (None, None, None) \<Rightarrow> \<not> rs_accepted s
     | (Some g, Some n, Some r) \<Rightarrow> rs_accepted s \<and> 0 < g \<and> rc_fsync_sequence r = n
         \<and> rc_highest_contiguous_acked_sequence r = rs_last_acked_sequence s
         \<and> rs_last_acked_sequence s \<noteq> - 1 \<and> receipt_validate r = Inr () \<and> receipt_bound (rs_binding s) r
     | _ \<Rightarrow> False)"

lemma token_digest_generation: "ng1_resume_token_digest t = Inr d \<Longrightarrow> 0 < rt_token_generation t"
  by (auto simp: ng1_resume_token_digest_def result_simps word_neq_0_conv split: if_splits)

lemma resume_step_ok:
  assumes "resume_step i s = Inr t"
  shows "ng1_resume_token_digest (ri_token i) = Inr (rt_token_digest (ri_token i))"
    "receipt_validate (ri_receipt i) = Inr ()" "rt_kind (ri_token i) = Resume_Accepted"
    "\<not> ri_terminal i" "\<not> ri_open_group i" "rt_binding (ri_token i) = rs_binding s"
    "rc_highest_contiguous_acked_sequence (ri_receipt i) = rt_highest_contiguous_acked_sequence (ri_token i)"
    "rc_staged_digest (ri_receipt i) = rt_staged_digest (ri_token i)"
    "case rs_last_fsync_sequence s of None \<Rightarrow> True | Some l \<Rightarrow> l < rc_fsync_sequence (ri_receipt i)"
    "case rs_last_receipt s of None \<Rightarrow> True | Some previous \<Rightarrow> follows_receipt s (ri_token i) (ri_receipt i) previous = Inr ()"
    "rt_highest_contiguous_acked_sequence (ri_token i) \<le> ri_highest_observed i"
    "rt_highest_contiguous_acked_sequence (ri_token i) \<noteq> - 1"
    "case rs_last_generation s of None \<Rightarrow> True | Some l \<Rightarrow> l < rt_token_generation (ri_token i)"
    "t = s\<lparr>rs_last_generation := Some (rt_token_generation (ri_token i)),
       rs_last_acked_sequence := rt_highest_contiguous_acked_sequence (ri_token i),
       rs_last_fsync_sequence := Some (rc_fsync_sequence (ri_receipt i)),
       rs_last_receipt := Some (ri_receipt i), rs_accepted := True\<rparr>"
    "receipt_bound (rs_binding s) (ri_receipt i)"
  using assms
  by (auto simp: resume_step_def resume_accept_def receipt_bound_def result_simps not_le not_less
      split: if_splits option.splits)

lemma resume_step_wf:
  assumes "resume_wf s" "resume_step i s = Inr t"
  shows "resume_wf t"
  using resume_step_ok [OF assms(2)] token_digest_generation by (simp add: resume_wf_def)

definition generation_rank :: "ng1_resume_state \<Rightarrow> nat" where
  "generation_rank s = (case rs_last_generation s of None \<Rightarrow> 0 | Some g \<Rightarrow> unat g)"

lemma resume_step_rank:
  assumes "resume_wf s" "resume_step i s = Inr t"
  shows "generation_rank s < generation_rank t"
proof -
  note ok = resume_step_ok [OF assms(2)]
  have "0 < unat (rt_token_generation (ri_token i))"
    using token_digest_generation [OF ok(1)] by (simp add: word_less_nat_alt)
  then show ?thesis
    using ok(13,14) by (auto simp: generation_rank_def word_less_nat_alt split: option.splits)
qed

interpretation resume: monotone_machine resume_step resume_wf generation_rank
  by unfold_locales (auto intro: resume_step_wf less_imp_le resume_step_rank)

lemma resume_create_wf: "resume_create binding = Inr s \<Longrightarrow> resume_wf s \<and> rs_binding s = binding
  \<and> rs_last_generation s = None \<and> rs_last_fsync_sequence s = None \<and> rs_last_receipt s = None"
  by (auto simp: resume_create_def result_simps resume_wf_def)

text \<open>What a chain of admitted tokens looks like.\<close>

definition resume_chain :: "ng1_resume_binding \<Rightarrow> resume_input list \<Rightarrow> bool" where
  "resume_chain binding is =
    (sorted_wrt (<) (map (\<lambda>i. rt_token_generation (ri_token i)) is)
    \<and> sorted_wrt (<) (map (\<lambda>i. rc_fsync_sequence (ri_receipt i)) is)
    \<and> sorted (map (\<lambda>i. rt_highest_contiguous_acked_sequence (ri_token i)) is)
    \<and> sorted (map (\<lambda>i. rc_total_bytes (ri_receipt i)) is)
    \<and> sorted (map (\<lambda>i. rc_total_records (ri_receipt i)) is)
    \<and> list_all (\<lambda>i. rt_kind (ri_token i) = Resume_Accepted \<and> rt_binding (ri_token i) = binding
        \<and> ng1_resume_token_digest (ri_token i) = Inr (rt_token_digest (ri_token i))
        \<and> receipt_validate (ri_receipt i) = Inr () \<and> receipt_bound binding (ri_receipt i)
        \<and> rc_staged_digest (ri_receipt i) = rt_staged_digest (ri_token i)) is)"

text \<open>The state records the last admitted token and its receipt.\<close>

definition resume_records :: "resume_input list \<Rightarrow> ng1_resume_state \<Rightarrow> bool" where
  "resume_records is s =
    (if is = [] then rs_last_generation s = None \<and> rs_last_fsync_sequence s = None \<and> rs_last_receipt s = None
     else rs_last_generation s = Some (rt_token_generation (ri_token (last is)))
       \<and> rs_last_fsync_sequence s = Some (rc_fsync_sequence (ri_receipt (last is)))
       \<and> rs_last_receipt s = Some (ri_receipt (last is))
       \<and> rs_last_acked_sequence s = rt_highest_contiguous_acked_sequence (ri_token (last is)))"

lemma sorted_map_snoc:
  assumes "sorted (map f xs)" "xs \<noteq> [] \<Longrightarrow> f (last xs) \<le> f y"
  shows "sorted (map f (xs @ [y]))"
  using assms by (cases xs rule: rev_cases) (force simp: sorted_append)+

lemma strict_map_snoc:
  assumes "sorted_wrt (<) (map f xs)" "xs \<noteq> [] \<Longrightarrow> f (last xs) < (f y :: 'a :: linorder)"
  shows "sorted_wrt (<) (map f (xs @ [y]))"
  using assms by (cases xs rule: rev_cases) (force simp: sorted_wrt_append)+

lemma resume_chain_facts:
  assumes "try_fold resume_step is s = Inr t" "resume_create binding = Inr s"
  shows "resume_chain binding is \<and> resume_records is t \<and> resume_wf t \<and> rs_binding t = binding"
  using assms(1)
proof (induction rule: try_fold_snoc_induct)
  case nil
  then show ?case
    using resume_create_wf [OF assms(2)] by (simp add: resume_chain_def resume_records_def)
next
  case (snoc "is" i t u)
  note ok = resume_step_ok [OF snoc.hyps(2)]
  have c: "resume_chain binding is" and r: "resume_records is t" and wf: "resume_wf t" and b: "rs_binding t = binding"
    using snoc.IH by auto
  have ends: "rt_token_generation (ri_token (last is)) < rt_token_generation (ri_token i)"
    "rc_fsync_sequence (ri_receipt (last is)) < rc_fsync_sequence (ri_receipt i)"
    "rt_highest_contiguous_acked_sequence (ri_token (last is)) \<le> rt_highest_contiguous_acked_sequence (ri_token i)"
    "rc_total_bytes (ri_receipt (last is)) \<le> rc_total_bytes (ri_receipt i)"
    "rc_total_records (ri_receipt (last is)) \<le> rc_total_records (ri_receipt i)" if "is \<noteq> []"
    using r that ok(9,10,13) by (auto simp: resume_records_def follows_receipt_def not_less split: if_splits)
  note c = c [unfolded resume_chain_def]
  have "resume_chain binding (is @ [i])"
    unfolding resume_chain_def
  proof (intro conjI)
    show "sorted_wrt (<) (map (\<lambda>i. rt_token_generation (ri_token i)) (is @ [i]))"
      using c ends(1) by (intro strict_map_snoc) blast+
    show "sorted_wrt (<) (map (\<lambda>i. rc_fsync_sequence (ri_receipt i)) (is @ [i]))"
      using c ends(2) by (intro strict_map_snoc) blast+
    show "sorted (map (\<lambda>i. rt_highest_contiguous_acked_sequence (ri_token i)) (is @ [i]))"
      using c ends(3) by (intro sorted_map_snoc) blast+
    show "sorted (map (\<lambda>i. rc_total_bytes (ri_receipt i)) (is @ [i]))"
      using c ends(4) by (intro sorted_map_snoc) blast+
    show "sorted (map (\<lambda>i. rc_total_records (ri_receipt i)) (is @ [i]))"
      using c ends(5) by (intro sorted_map_snoc) blast+
  qed (use c ok(1,2,3,6,8,15) b in simp)
  moreover have "resume_records (is @ [i]) u"
    using ok(14) by (simp add: resume_records_def)
  ultimately show ?case
    using resume_step_wf [OF wf snoc.hyps(2)] b ok(14) by simp
qed

section \<open>What a token digest binds\<close>

lemma canonical_binary_inject:
  assumes "canonical_binary v = Inr bs" "canonical_binary w = Inr bs" "length bs < 2 ^ 64"
  shows "v = w"
proof -
  have "canonical_validate v = Inr ()" "append_canonical v = bs" "canonical_validate w = Inr ()" "append_canonical w = bs"
    using assms by (auto simp: canonical_binary_def split: sum.splits)
  then show ?thesis
    using decode_canonical_encoded [of v] decode_canonical_encoded [of w] assms(3) by simp
qed

lemma canonical_fields_inject [simp]:
  "canonical_text s = canonical_text t \<longleftrightarrow> s = t"
  "from_tuple vs = from_tuple ws \<longleftrightarrow> vs = ws"
  by (auto simp: canonical_text_def from_string_def from_tuple_def)

lemma canonical_u64_inject [simp]: "canonical_u64 x = canonical_u64 y \<longleftrightarrow> x = y"
  by (metis be_value_be_bytes_8 canonical_u64_def canonical_value.sel(4) from_bytes_def)

lemma resume_kind_text_inject: "resume_kind_text k = resume_kind_text l \<Longrightarrow> k = l"
  by (cases k; cases l) (simp_all add: resume_kind_text_def)

lemma resume_token_fields_inject:
  assumes "resume_token_fields t = resume_token_fields u"
  shows "t\<lparr>rt_token_digest := x\<rparr> = u\<lparr>rt_token_digest := x\<rparr>"
  using assms
  by (cases t; cases u; cases "rt_binding t"; cases "rt_binding u")
    (auto simp: resume_token_fields_def Let_def dest: resume_kind_text_inject version_string_inject)

section \<open>Properties\<close>

text \<open>
  C10: whatever records are offered to a fresh spill prefix, rejected ones being skipped, the prefix holds
  exactly the admitted ones: ordinals and sequences 0, 1, 2, ..., the task, dependency group, atomic output
  group, batch and stream of the binding, the exact record digests, at most 16 MiB charged for each record,
  at most 65536 records and 64 MiB in all, and a byte total that is the sum of the charged sizes without
  wrap-around; and the total never falls as records are added.
\<close>

theorem spill_prefix_exact:
  assumes "spill_prefix_create binding = Inr s"
  shows "prefix_of_records (accepted_inputs spill_append rs s) (run_machine spill_append rs s)
    \<and> prefix_wf (run_machine spill_append rs s) \<and> px_binding (run_machine spill_append rs s) = binding
    \<and> unat (px_total_bytes s) \<le> unat (px_total_bytes (run_machine spill_append rs s))"
  using spill_run_records [OF try_fold_accepted assms] spill.run_rank [of s rs] spill_prefix_create_wf [OF assms]
  by blast

definition example_spill_binding :: ng1_spill_binding where
  "example_spill_binding = \<lparr>sp_provider_id = ''p'', sp_protocol_session_id = ''s'', sp_task_id = ''t'',
    sp_dependency_group_id = ''g'', sp_atomic_output_group_id = ''a'', sp_batch_id = ''b'', sp_stream_id = 1\<rparr>"

definition example_prefix :: ng1_spill_prefix_state where
  "example_prefix = \<lparr>px_binding = example_spill_binding, px_record_digests = [], px_total_bytes = 0,
        px_next_record_ordinal = 0, px_next_sequence = 0\<rparr>"

lemma example_prefix_created: "spill_prefix_create example_spill_binding = Inr example_prefix"
proof -
  have "spill_binding_validate example_spill_binding = Inr ()"
    by code_simp
  then show ?thesis
    by (simp add: spill_prefix_create_def example_prefix_def)
qed

text \<open>
  For a prefix that \<open>create\<close> and \<open>append\<close> built, the host gets a durability receipt exactly when the
  staged digest is well formed, the acknowledged sequence is one of the prefix and the fsync sequence is
  not zero; no other failure (an invalid receipt, an undigestible prefix) can be reported.
\<close>

theorem fsync_receipt_available:
  assumes "spill_prefix_create binding = Inr s"
  shows "(\<exists>r. observe_host_fsync (run_machine spill_append rs s) a d n = Inr r) \<longleftrightarrow>
    valid_semantic_digest d \<and> unat a < length (accepted_inputs spill_append rs s) \<and> n \<noteq> 0"
proof -
  note p = spill_run_records [OF try_fold_accepted assms, of rs]
  show ?thesis
    using observe_host_fsync_iff [of "run_machine spill_append rs s"] p by (simp add: prefix_of_records_def)
qed

lemma fsync_receipt_available_witness:
  "\<not> (\<exists>r. observe_host_fsync (run_machine spill_append [] example_prefix) 0 example_digest 1 = Inr r)"
  using fsync_receipt_available [OF example_prefix_created, of "[]"] by simp

text \<open>
  C11: whatever tokens and receipts are offered to a fresh resume validator, the admitted ones are bound to
  its identity and to their own exact digest, are of the accepted kind and carry a valid receipt for the
  same staged state; their generations and fsync sequences strictly increase, and their acknowledged
  sequences and append-only counters never go back.
\<close>

theorem resume_tokens_move_forward:
  assumes "resume_create binding = Inr s"
  shows "resume_chain binding (accepted_inputs resume_step is s)
    \<and> resume_records (accepted_inputs resume_step is s) (run_machine resume_step is s)
    \<and> resume_wf (run_machine resume_step is s)
    \<and> generation_rank s \<le> generation_rank (run_machine resume_step is s)"
  using resume_chain_facts [OF try_fold_accepted assms] resume.run_rank resume_create_wf [OF assms] by blast

definition example_content_digest :: string where
  "example_content_digest = manifest_content_digest_prefix @ replicate 64 (CHR ''0'')"

definition example_resume_binding :: ng1_resume_binding where
  "example_resume_binding = \<lparr>rb_provider_id = ''p'', rb_provider_version = \<lparr>version_major = 1,
      version_minor = 0, version_patch = 0\<rparr>, rb_provider_binary_digest = example_content_digest,
    rb_provider_semantic_contract_digest = example_content_digest, rb_protocol_session_id = ''s'',
    rb_task_id = ''t'', rb_task_input_digest = example_digest,
    rb_normalized_invocation_digest = example_digest, rb_toolchain_digest = example_digest,
    rb_environment_digest = example_digest, rb_sandbox_policy_digest = example_digest,
    rb_dependency_group_id = ''g'', rb_atomic_output_group_id = ''a'', rb_batch_id = ''b'', rb_stream_id = 1\<rparr>"

lemma example_resume_valid: "resume_binding_validate example_resume_binding = Inr ()"
proof -
  have "valid_id x field code = Inr ()" if "x \<in> {''p'', ''s'', ''t'', ''g'', ''a'', ''b''}" for x field code
  proof -
    have "validate_strong_id ''p'' = Inr ()" "validate_strong_id ''s'' = Inr ()" "validate_strong_id ''t'' = Inr ()"
      "validate_strong_id ''g'' = Inr ()" "validate_strong_id ''a'' = Inr ()" "validate_strong_id ''b'' = Inr ()"
      by code_simp+
    then show ?thesis using that by (auto simp: valid_id_def)
  qed
  moreover have "valid_content_digest example_content_digest"
    by code_simp
  ultimately show ?thesis
    by (simp add: resume_binding_validate_def example_resume_binding_def valid_digest_def
        valid_manifest_content_digest_def example_digest_valid)
qed

definition example_resume :: ng1_resume_state where
  "example_resume = \<lparr>rs_binding = example_resume_binding, rs_last_generation = None, rs_last_acked_sequence = 0,
        rs_last_fsync_sequence = None, rs_last_receipt = None, rs_accepted = False\<rparr>"

lemma example_resume_created: "resume_create example_resume_binding = Inr example_resume"
  by (simp add: resume_create_def example_resume_valid example_resume_def)

text \<open>A token and a receipt that the fresh validator admits; the token digest stays symbolic.\<close>

definition example_token :: "string \<Rightarrow> ng1_resume_token" where
  "example_token d = \<lparr>rt_schema = resume_schema, rt_kind = Resume_Accepted, rt_binding = example_resume_binding,
    rt_highest_contiguous_acked_sequence = 4, rt_staged_digest = example_digest, rt_token_generation = 1,
    rt_token_digest = d\<rparr>"

definition example_receipt :: ng1_spill_fsync_receipt where
  "example_receipt = \<lparr>rc_schema = spill_fsync_receipt_schema, rc_provider_id = ''p'',
    rc_protocol_session_id = ''s'', rc_task_id = ''t'', rc_stream_id = 1,
    rc_highest_contiguous_acked_sequence = 4, rc_staged_digest = example_digest,
    rc_spill_digest = example_digest, rc_total_bytes = 900, rc_total_records = 5, rc_fsync_sequence = 1\<rparr>"

definition example_resume_input :: "string \<Rightarrow> resume_input" where
  "example_resume_input d = \<lparr>ri_token = example_token d, ri_receipt = example_receipt, ri_open_group = False,
    ri_terminal = False, ri_highest_observed = 4\<rparr>"

lemma example_token_digest: "\<exists>d. ng1_resume_token_digest (example_token e) = Inr d"
proof -
  have "\<forall>v \<in> set (resume_token_fields (example_token e)). canonical_validate v = Inr ()"
  proof -
    have "sdk_valid_utf8 (bytes_of example_digest)" "sdk_valid_utf8 (bytes_of example_content_digest)"
      "sdk_valid_utf8 (bytes_of resume_schema)" "sdk_valid_utf8 (bytes_of ''accepted'')"
      "sdk_valid_utf8 (bytes_of ''p'')" "sdk_valid_utf8 (bytes_of ''s'')" "sdk_valid_utf8 (bytes_of ''t'')"
      "sdk_valid_utf8 (bytes_of ''g'')" "sdk_valid_utf8 (bytes_of ''a'')" "sdk_valid_utf8 (bytes_of ''b'')"
      "sdk_valid_utf8 (bytes_of (version_string \<lparr>version_major = 1, version_minor = 0, version_patch = 0\<rparr>))"
      by code_simp+
    then show ?thesis
      by (simp add: resume_token_fields_def example_token_def example_resume_binding_def Let_def
          canonical_text_def canonical_u64_def resume_kind_text_def)
  qed
  moreover have "''cxxlens.provider-resume-token.v1'' \<noteq> []" "lower_letter (hd ''cxxlens.provider-resume-token.v1'')"
    "list_all semantic_domain_char ''cxxlens.provider-resume-token.v1''"
    by code_simp+
  ultimately have "\<exists>d. semantic_tuple_digest ''cxxlens.provider-resume-token.v1''
      (resume_token_fields (example_token e)) = Inr d"
    by (intro semantic_tuple_digest_total)
  then show ?thesis
    by (simp add: ng1_resume_token_digest_def example_token_def example_resume_valid valid_digest_def
        example_digest_valid)
qed

lemma example_token_digest_irrelevant:
  "ng1_resume_token_digest (example_token d) = ng1_resume_token_digest (example_token e)"
  by (simp add: ng1_resume_token_digest_def example_token_def resume_token_fields_def)

lemma example_token_admitted: "\<exists>d t. resume_step (example_resume_input d) example_resume = Inr t"
proof -
  obtain d where d: "ng1_resume_token_digest (example_token []) = Inr d"
    using example_token_digest by blast
  then have "ng1_resume_token_digest (example_token d) = Inr d"
    using example_token_digest_irrelevant by metis
  moreover have "receipt_validate example_receipt = Inr ()"
  proof -
    have "validate_strong_id ''p'' = Inr ()" "validate_strong_id ''s'' = Inr ()" "validate_strong_id ''t'' = Inr ()"
      by code_simp+
    then show ?thesis
      by (simp add: receipt_validate_def example_receipt_def receipt_identity_def valid_id_def valid_digest_def
          example_digest_valid)
  qed
  ultimately have "resume_accept (example_token d) example_receipt False False 4 example_resume \<noteq> Inl e" for e
    by (simp add: resume_accept_def example_resume_def) (simp add: example_token_def example_receipt_def
        example_resume_binding_def)
  then show ?thesis
    by (metis resume_step_def example_resume_input_def resume_input.select_convs sum.exhaust_sel)
qed

lemma resume_tokens_move_forward_witness:
  "\<exists>d t. resume_step (example_resume_input d) example_resume = Inr t
    \<and> resume_chain example_resume_binding [example_resume_input d]"
proof -
  obtain d t where t: "resume_step (example_resume_input d) example_resume = Inr t"
    using example_token_admitted by blast
  from resume_tokens_move_forward [OF example_resume_created, of "[example_resume_input d]"] t show ?thesis
    by auto
qed

text \<open>
  The bytes a token digest is computed over determine the token: two tokens with the same digested
  bytes agree in their kind, all fifteen identities (the version included, through its text), the
  acknowledged sequence, the staged digest and the generation; only the digest field itself is left out.
\<close>

theorem resume_digest_binds_token:
  assumes "canonical_binary (from_tuple (resume_token_fields t)) = Inr bs"
    "canonical_binary (from_tuple (resume_token_fields u)) = Inr bs" "length bs < 2 ^ 64"
  shows "t\<lparr>rt_token_digest := x\<rparr> = u\<lparr>rt_token_digest := x\<rparr>"
  using canonical_binary_inject [OF assms] by (intro resume_token_fields_inject) simp

lemma resume_digest_binds_token_witness:
  "(example_token ''d'')\<lparr>rt_token_digest := []\<rparr> = (example_token ''e'')\<lparr>rt_token_digest := []\<rparr>"
proof -
  have fields: "resume_token_fields (example_token e) = resume_token_fields (example_token [])" for e
    by (simp add: resume_token_fields_def example_token_def)
  obtain d where "ng1_resume_token_digest (example_token []) = Inr d"
    using example_token_digest by blast
  then obtain bs where bs: "canonical_binary (from_tuple (resume_token_fields (example_token []))) = Inr bs"
    by (auto simp: ng1_resume_token_digest_def semantic_tuple_digest_def result_simps split: if_splits)
  have lens: "length example_digest = 83" "length example_content_digest = 71"
    by (simp_all add: example_digest_def semantic_digest_prefix_def example_content_digest_def
        manifest_content_digest_prefix_def)
  have version: "length (version_string \<lparr>version_major = 1, version_minor = 0, version_patch = 0\<rparr>) = 5"
    by code_simp
  have "bs = append_canonical (from_tuple (resume_token_fields (example_token [])))"
    using bs by (auto simp: canonical_binary_def split: sum.splits)
  then have "length bs < 2 ^ 64"
    by (simp add: append_canonical_tuple resume_token_fields_def example_token_def example_resume_binding_def
        canonical_text_def canonical_u64_def from_string_def from_bytes_def resume_schema_def resume_kind_text_def
        lens version Let_def)
  then show ?thesis
    using resume_digest_binds_token [of "example_token ''d''" bs "example_token ''e''" "[]"] bs fields by metis
qed

end
