(* ===== verification/Ng1_Recovery.thy ===== *)
theory Ng1_Recovery
  imports Ng1_Resume
begin

text \<open>
  The recovery matrix of a provider session (\<open>ng1_recovery_transition\<close> in
  \<open>src/sdk/provider_ng1_validation.cpp\<close>) and the adapter that drives it
  (\<open>src/sdk/provider_ng1_recovery.cpp\<close>). An adapter operation returns a result and updates the adapter
  even when it fails, so each one is a function from the adapter to a result and the next adapter. The
  lemmas show which orders of observations a session can go through, that a replay starts right after the
  durably acknowledged prefix, and that every session can always be ended.
\<close>

section \<open>The recovery matrix\<close>

datatype ng1_recovery_state = Running | Heartbeat_Timed_Out | Progress_Rate_Failed | Cancel_Pending
  | Worker_Killed | Resume_Replay | Resumed | Completed | Failed

datatype ng1_recovery_event = Heartbeat_Timeout | Progress_Rate_Failure | Cancel_Requested | Worker_Exit
  | Output_Sealed | Invalid_Heartbeat_Clock | Worker_Kill_Confirmed | Cancel_Acknowledged | Cancel_Timeout
  | Durable_Token_Valid | Durable_Token_Invalid | Replay_Valid | Replay_Invalid | Output_Invalid

definition invalid_transition :: "ng1_recovery_state result" where
  "invalid_transition = Inl (ng1_error ''recovery-failed'' ''transition'' ''transition-not-in-matrix'')"

definition ng1_recovery_transition :: "ng1_recovery_state \<Rightarrow> ng1_recovery_event \<Rightarrow> ng1_recovery_state result" where
  "ng1_recovery_transition state event =
    (case state of
       Running \<Rightarrow>
        (case event of
           Heartbeat_Timeout \<Rightarrow> Inr Heartbeat_Timed_Out
         | Progress_Rate_Failure \<Rightarrow> Inr Progress_Rate_Failed
         | Cancel_Requested \<Rightarrow> Inr Cancel_Pending
         | Worker_Exit \<Rightarrow> Inr Worker_Killed
         | Output_Sealed \<Rightarrow> Inr Completed
         | Invalid_Heartbeat_Clock \<Rightarrow> Inr Failed
         | _ \<Rightarrow> invalid_transition)
     | Heartbeat_Timed_Out \<Rightarrow>
         if event = Worker_Kill_Confirmed then Inr Worker_Killed else invalid_transition
     | Progress_Rate_Failed \<Rightarrow>
         if event = Worker_Kill_Confirmed then Inr Worker_Killed else invalid_transition
     | Cancel_Pending \<Rightarrow>
         if event = Cancel_Acknowledged then Inr Failed
         else if event = Cancel_Timeout then Inr Worker_Killed
         else invalid_transition
     | Worker_Killed \<Rightarrow>
         if event = Durable_Token_Valid then Inr Resume_Replay
         else if event = Durable_Token_Invalid then Inr Failed
         else invalid_transition
     | Resume_Replay \<Rightarrow>
         if event = Replay_Valid then Inr Resumed
         else if event = Replay_Invalid then Inr Failed
         else invalid_transition
     | Resumed \<Rightarrow>
         if event = Output_Sealed then Inr Completed
         else if event = Output_Invalid then Inr Failed
         else invalid_transition
     | Completed \<Rightarrow> invalid_transition
     | Failed \<Rightarrow> invalid_transition)"

section \<open>The adapter\<close>

record ng1_recovery_adapter =
  ra_resume_state :: "ng1_resume_state option"
  ra_state :: ng1_recovery_state

text \<open>The default-constructed adapter, and \<open>create\<close>.\<close>

definition recovery_default :: ng1_recovery_adapter where
  "recovery_default = \<lparr>ra_resume_state = None, ra_state = Running\<rparr>"

definition recovery_create :: "ng1_resume_binding \<Rightarrow> ng1_recovery_adapter result" where
  "recovery_create binding =
    and_then (resume_create binding) (\<lambda>resume_state. Inr (recovery_default\<lparr>ra_resume_state := Some resume_state\<rparr>))"

type_synonym 'a operation = "ng1_recovery_adapter \<Rightarrow> 'a result \<times> ng1_recovery_adapter"

definition transition :: "ng1_recovery_event \<Rightarrow> unit operation" where
  "transition event a =
    (case ng1_recovery_transition (ra_state a) event of
       Inl e \<Rightarrow> (Inl e, a)
     | Inr state \<Rightarrow> (Inr (), a\<lparr>ra_state := state\<rparr>))"

definition fail_from :: "ng1_recovery_event \<Rightarrow> sdk_error \<Rightarrow> unit operation" where
  "fail_from event original_error a =
    (case ng1_recovery_transition (ra_state a) event of
       Inl e \<Rightarrow> (Inl e, a)
     | Inr state \<Rightarrow> (Inl original_error, a\<lparr>ra_state := state\<rparr>))"

definition observe_worker_exit :: "unit operation" where
  "observe_worker_exit = transition Worker_Exit"
definition observe_heartbeat_timeout :: "unit operation" where
  "observe_heartbeat_timeout = transition Heartbeat_Timeout"
definition observe_progress_rate_failure :: "unit operation" where
  "observe_progress_rate_failure = transition Progress_Rate_Failure"
definition request_cancel :: "unit operation" where
  "request_cancel = transition Cancel_Requested"
definition acknowledge_cancel :: "unit operation" where
  "acknowledge_cancel = transition Cancel_Acknowledged"
definition timeout_cancel :: "unit operation" where
  "timeout_cancel = transition Cancel_Timeout"
definition confirm_worker_kill :: "unit operation" where
  "confirm_worker_kill = transition Worker_Kill_Confirmed"
definition reject_heartbeat_clock :: "unit operation" where
  "reject_heartbeat_clock = transition Invalid_Heartbeat_Clock"
definition seal_output :: "unit operation" where
  "seal_output = transition Output_Sealed"
definition reject_output :: "unit operation" where
  "reject_output = transition Output_Invalid"

definition accept_durable_resume :: "resume_input \<Rightarrow> unit operation" where
  "accept_durable_resume i a =
    (case ra_resume_state a of
       None \<Rightarrow> (Inl (Err ''provider.recovery-failed'' ''state'' ''uninitialized''), a)
     | Some resume_state \<Rightarrow>
         if ra_state a \<noteq> Worker_Killed then transition Durable_Token_Valid a
         else
          (case resume_step i resume_state of
             Inl e \<Rightarrow> fail_from Durable_Token_Invalid e a
           | Inr accepted \<Rightarrow> transition Durable_Token_Valid (a\<lparr>ra_resume_state := Some accepted\<rparr>)))"

definition reject_durable_resume :: "sdk_error \<Rightarrow> unit operation" where
  "reject_durable_resume original_error a =
    (if ra_state a \<noteq> Worker_Killed
     then (Inl (Err ''provider.recovery-failed'' ''state'' ''resume-not-pending''), a)
     else fail_from Durable_Token_Invalid original_error a)"

definition adapter_replay_start :: "ng1_recovery_adapter \<Rightarrow> u64 result" where
  "adapter_replay_start a =
    (case ra_resume_state a of
       None \<Rightarrow> Inl (Err ''provider.recovery-failed'' ''state'' ''replay-not-pending'')
     | Some resume_state \<Rightarrow>
         if ra_state a \<noteq> Resume_Replay
         then Inl (Err ''provider.recovery-failed'' ''state'' ''replay-not-pending'')
         else replay_start_sequence resume_state)"

definition accept_replay_validated :: "u64 \<Rightarrow> unit operation" where
  "accept_replay_validated first_sequence a =
    (case ra_resume_state a of
       None \<Rightarrow> transition Replay_Valid a
     | Some resume_state \<Rightarrow>
         if ra_state a \<noteq> Resume_Replay then transition Replay_Valid a
         else
          (case replay_start_sequence resume_state of
             Inl e \<Rightarrow> fail_from Replay_Invalid e a
           | Inr expected \<Rightarrow>
               if first_sequence \<noteq> expected
               then fail_from Replay_Invalid
                 (Err ''provider.resume-replay-invalid'' ''first_sequence'' ''not-ack-plus-one'') a
               else transition Replay_Valid a))"

definition reject_replay :: "sdk_error \<Rightarrow> unit operation" where
  "reject_replay original_error a =
    (if ra_state a \<noteq> Resume_Replay
     then (Inl (Err ''provider.recovery-failed'' ''state'' ''replay-not-pending''), a)
     else fail_from Replay_Invalid original_error a)"

section \<open>Sessions\<close>

text \<open>A call of the adapter.\<close>

datatype recovery_call = Observe_Worker_Exit | Observe_Heartbeat_Timeout | Observe_Progress_Rate_Failure
  | Request_Cancel | Acknowledge_Cancel | Timeout_Cancel | Confirm_Worker_Kill | Reject_Heartbeat_Clock
  | Accept_Durable_Resume resume_input | Reject_Durable_Resume sdk_error
  | Accept_Replay_Validated u64 | Reject_Replay sdk_error | Seal_Output | Reject_Output

fun perform :: "recovery_call \<Rightarrow> unit operation" where
  "perform Observe_Worker_Exit = observe_worker_exit"
| "perform Observe_Heartbeat_Timeout = observe_heartbeat_timeout"
| "perform Observe_Progress_Rate_Failure = observe_progress_rate_failure"
| "perform Request_Cancel = request_cancel"
| "perform Acknowledge_Cancel = acknowledge_cancel"
| "perform Timeout_Cancel = timeout_cancel"
| "perform Confirm_Worker_Kill = confirm_worker_kill"
| "perform Reject_Heartbeat_Clock = reject_heartbeat_clock"
| "perform (Accept_Durable_Resume i) = accept_durable_resume i"
| "perform (Reject_Durable_Resume e) = reject_durable_resume e"
| "perform (Accept_Replay_Validated n) = accept_replay_validated n"
| "perform (Reject_Replay e) = reject_replay e"
| "perform Seal_Output = seal_output"
| "perform Reject_Output = reject_output"

text \<open>
  The states a session can reach: any sequence of calls, successful or not, in any order, with any
  arguments.
\<close>

inductive session_step :: "ng1_recovery_adapter \<Rightarrow> recovery_call \<Rightarrow> ng1_recovery_adapter \<Rightarrow> bool" where
  called: "snd (perform c a) = b \<Longrightarrow> session_step a c b"

inductive_simps session_step_iff: "session_step a c b"

inductive session_reachable :: "ng1_resume_binding \<Rightarrow> ng1_recovery_adapter \<Rightarrow> bool" for binding where
  created: "recovery_create binding = Inr a \<Longrightarrow> session_reachable binding a"
| step: "session_reachable binding a \<Longrightarrow> session_step a c b \<Longrightarrow> session_reachable binding b"

lemmas operation_defs = observe_worker_exit_def observe_heartbeat_timeout_def
  observe_progress_rate_failure_def request_cancel_def acknowledge_cancel_def timeout_cancel_def
  confirm_worker_kill_def reject_heartbeat_clock_def seal_output_def reject_output_def

text \<open>
  The order in which a session passes through the states, and the number of steps left: every transition
  leads to a state with a smaller number.
\<close>

fun steps_left :: "ng1_recovery_state \<Rightarrow> nat" where
  "steps_left Running = 5"
| "steps_left Heartbeat_Timed_Out = 4"
| "steps_left Progress_Rate_Failed = 4"
| "steps_left Cancel_Pending = 4"
| "steps_left Worker_Killed = 3"
| "steps_left Resume_Replay = 2"
| "steps_left Resumed = 1"
| "steps_left Completed = 0"
| "steps_left Failed = 0"

lemma transition_decreases: "ng1_recovery_transition state event = Inr next_state \<Longrightarrow> steps_left next_state < steps_left state"
  by (cases state; cases event) (auto simp: ng1_recovery_transition_def invalid_transition_def split: if_splits)

text \<open>What one call does to the state: nothing, or one step of the matrix.\<close>

lemma perform_state:
  "ra_state (snd (perform c a)) = ra_state a
    \<or> (\<exists>event. ng1_recovery_transition (ra_state a) event = Inr (ra_state (snd (perform c a))))"
  by (cases c)
    (auto simp: operation_defs transition_def fail_from_def accept_durable_resume_def reject_durable_resume_def
      accept_replay_validated_def reject_replay_def split: sum.splits option.splits if_splits)

text \<open>The adapter's invariant.\<close>

definition adapter_wf :: "ng1_resume_binding \<Rightarrow> ng1_recovery_adapter \<Rightarrow> bool" where
  "adapter_wf binding a =
    (case ra_resume_state a of
       None \<Rightarrow> False
     | Some r \<Rightarrow> resume_wf r \<and> rs_binding r = binding
         \<and> (ra_state a \<in> {Resume_Replay, Resumed} \<longrightarrow> rs_accepted r)
         \<and> (rs_accepted r \<longrightarrow> ra_state a \<in> {Resume_Replay, Resumed, Completed, Failed}))"

lemma recovery_create_wf: "recovery_create binding = Inr a \<Longrightarrow> adapter_wf binding a \<and> ra_state a = Running"
  by (auto simp: recovery_create_def recovery_default_def result_simps adapter_wf_def resume_create_def resume_wf_def)

lemma transition_wf_simple:
  assumes "adapter_wf binding a" "event \<notin> {Durable_Token_Valid}"
  shows "adapter_wf binding (snd (transition event a))" "adapter_wf binding (snd (fail_from event e a))"
  using assms
  by (cases "ra_state a"; cases event;
      force simp: adapter_wf_def transition_def fail_from_def ng1_recovery_transition_def invalid_transition_def
        split: option.splits)+

lemma perform_wf:
  assumes "adapter_wf binding a"
  shows "adapter_wf binding (snd (perform c a))"
proof (cases c)
  case (Accept_Durable_Resume i)
  obtain r where r: "ra_resume_state a = Some r"
    using assms by (auto simp: adapter_wf_def split: option.splits)
  show ?thesis
  proof (cases "ra_state a = Worker_Killed")
    case False
    then have "snd (transition Durable_Token_Valid a) = a"
      by (cases "ra_state a") (auto simp: transition_def ng1_recovery_transition_def invalid_transition_def)
    then show ?thesis
      using False assms by (simp add: Accept_Durable_Resume accept_durable_resume_def r)
  next
    case True
    show ?thesis
    proof (cases "resume_step i r")
      case (Inl e)
      then show ?thesis
        using transition_wf_simple(2) [OF assms, of Durable_Token_Invalid] True
        by (simp add: Accept_Durable_Resume accept_durable_resume_def r)
    next
      case (Inr t)
      have "resume_wf t" "rs_accepted t" "rs_binding t = binding"
        using resume_step_wf [OF _ Inr] resume_step_ok(14) [OF Inr] assms r by (auto simp: adapter_wf_def)
      then show ?thesis
        using Inr True
        by (simp add: Accept_Durable_Resume accept_durable_resume_def r transition_def
            ng1_recovery_transition_def adapter_wf_def)
    qed
  qed
qed (use assms transition_wf_simple [OF assms] in
    \<open>simp_all add: operation_defs reject_durable_resume_def accept_replay_validated_def reject_replay_def
      split: option.splits sum.splits\<close>)

lemma session_reachable_wf: "session_reachable binding a \<Longrightarrow> adapter_wf binding a"
  by (induction rule: session_reachable.induct) (auto simp: session_step_iff perform_wf recovery_create_wf)

section \<open>Runs of calls\<close>

definition perform_all :: "recovery_call list \<Rightarrow> ng1_recovery_adapter \<Rightarrow> ng1_recovery_adapter" where
  "perform_all cs a = fold (\<lambda>c a. snd (perform c a)) cs a"

text \<open>The calls of a run that changed the state.\<close>

fun state_changes :: "recovery_call list \<Rightarrow> ng1_recovery_adapter \<Rightarrow> recovery_call list" where
  "state_changes [] a = []"
| "state_changes (c # cs) a =
    (if ra_state (snd (perform c a)) = ra_state a then state_changes cs (snd (perform c a))
     else c # state_changes cs (snd (perform c a)))"

lemma state_changes_bounded:
  "length (state_changes cs a) + steps_left (ra_state (perform_all cs a)) \<le> steps_left (ra_state a)"
proof (induction cs arbitrary: a)
  case Nil
  then show ?case by (simp add: perform_all_def)
next
  case (Cons c cs)
  let ?b = "snd (perform c a)"
  have "ra_state ?b = ra_state a \<or> steps_left (ra_state ?b) < steps_left (ra_state a)"
    using perform_state [of c a] transition_decreases by blast
  then show ?case
    using Cons [of ?b] by (auto simp: perform_all_def)
qed

lemma perform_all_reachable: "session_reachable binding a \<Longrightarrow> session_reachable binding (perform_all cs a)"
proof (induction cs arbitrary: a)
  case Nil
  then show ?case by (simp add: perform_all_def)
next
  case (Cons c cs)
  have "session_reachable binding (snd (perform c a))"
    by (rule session_reachable.step [OF Cons.prems session_step.called [OF refl]])
  then show ?case
    using Cons.IH by (simp add: perform_all_def)
qed

text \<open>From every state the host can bring the session to an end.\<close>

fun way_out :: "ng1_recovery_state \<Rightarrow> recovery_call list" where
  "way_out Running = [Reject_Heartbeat_Clock]"
| "way_out Heartbeat_Timed_Out = [Confirm_Worker_Kill, Reject_Durable_Resume (Err [] [] [])]"
| "way_out Progress_Rate_Failed = [Confirm_Worker_Kill, Reject_Durable_Resume (Err [] [] [])]"
| "way_out Cancel_Pending = [Acknowledge_Cancel]"
| "way_out Worker_Killed = [Reject_Durable_Resume (Err [] [] [])]"
| "way_out Resume_Replay = [Reject_Replay (Err [] [] [])]"
| "way_out Resumed = [Seal_Output]"
| "way_out Completed = []"
| "way_out Failed = []"

lemma way_out_ends: "ra_state (perform_all (way_out (ra_state a)) a) \<in> {Completed, Failed}"
  by (cases "ra_state a")
    (simp_all add: perform_all_def operation_defs transition_def fail_from_def reject_durable_resume_def
      reject_replay_def ng1_recovery_transition_def)

section \<open>Properties\<close>

text \<open>
  C8: a session makes at most five state changes, whatever calls are made in whatever order; once it is
  completed or failed no call changes it, and at any moment some calls end it.
\<close>

theorem recovery_terminates:
  "length (state_changes cs a) \<le> 5
    \<and> (ra_state a \<in> {Completed, Failed} \<longrightarrow> ra_state (perform_all cs a) = ra_state a)
    \<and> ra_state (perform_all (way_out (ra_state (perform_all cs a))) (perform_all cs a)) \<in> {Completed, Failed}"
proof -
  have "steps_left (ra_state a) \<le> 5"
    by (cases "ra_state a") simp_all
  then have "length (state_changes cs a) \<le> 5"
    using state_changes_bounded [of cs a] by linarith
  moreover have "ra_state (perform_all cs a) = ra_state a" if "ra_state a \<in> {Completed, Failed}"
    using that
  proof (induction cs arbitrary: a)
    case Nil
    then show ?case by (simp add: perform_all_def)
  next
    case (Cons c cs)
    have "ra_state (snd (perform c a)) = ra_state a"
      using perform_state [of c a] Cons.prems by (auto simp: ng1_recovery_transition_def invalid_transition_def)
    then show ?case
      using Cons.IH [of "snd (perform c a)"] Cons.prems by (simp add: perform_all_def)
  qed
  ultimately show ?thesis
    using way_out_ends by blast
qed

lemma recovery_terminates_witness:
  "ra_state (perform_all [Seal_Output, Observe_Worker_Exit] (recovery_default\<lparr>ra_state := Failed\<rparr>)) = Failed"
  using recovery_terminates [of "[Seal_Output, Observe_Worker_Exit]" "recovery_default\<lparr>ra_state := Failed\<rparr>"] by simp

text \<open>
  A durable token is admitted exactly in the state \<open>worker_killed\<close> and when the resume validator
  accepts it; the session then replays. A token the validator refuses there fails the session with the
  validator's own error, and in any other state the call changes nothing.
\<close>

theorem durable_resume_gated:
  "(fst (accept_durable_resume i a) = Inr () \<longleftrightarrow>
      ra_state a = Worker_Killed \<and> (\<exists>r t. ra_resume_state a = Some r \<and> resume_step i r = Inr t
        \<and> snd (accept_durable_resume i a) = \<lparr>ra_resume_state = Some t, ra_state = Resume_Replay\<rparr>))
    \<and> (ra_state a \<noteq> Worker_Killed \<longrightarrow> snd (accept_durable_resume i a) = a)
    \<and> (ra_state a = Worker_Killed \<longrightarrow> (\<forall>r e. ra_resume_state a = Some r \<and> resume_step i r = Inl e
        \<longrightarrow> accept_durable_resume i a = (Inl e, a\<lparr>ra_state := Failed\<rparr>)))"
proof -
  have other: "transition Durable_Token_Valid a = (invalid_transition_unit, a)" if "ra_state a \<noteq> Worker_Killed"
    and "invalid_transition_unit = Inl (ng1_error ''recovery-failed'' ''transition'' ''transition-not-in-matrix'')"
    for invalid_transition_unit :: "unit result"
    using that by (cases "ra_state a") (auto simp: transition_def ng1_recovery_transition_def invalid_transition_def)
  show ?thesis
  proof (cases "ra_state a = Worker_Killed")
    case True
    then show ?thesis
      by (cases a) (auto simp: accept_durable_resume_def transition_def fail_from_def ng1_recovery_transition_def
          split: option.splits sum.splits)
  next
    case False
    then show ?thesis
      using other by (auto simp: accept_durable_resume_def split: option.splits)
  qed
qed

text \<open>
  C7: in every reachable session that replays, the replay authority is a valid durable receipt with the
  provider, protocol session, task and stream of this very session, the replay starts at the sequence right after its acknowledged one (without wrap-around), and
  the replay is accepted exactly when it starts there; any other start fails the session.
\<close>

theorem replay_starts_after_ack:
  assumes "session_reachable binding a" "ra_state a = Resume_Replay"
  shows "\<exists>r receipt start. ra_resume_state a = Some r \<and> rs_binding r = binding
    \<and> rs_last_receipt r = Some receipt \<and> receipt_validate receipt = Inr ()
    \<and> rc_provider_id receipt = rb_provider_id binding
    \<and> rc_protocol_session_id receipt = rb_protocol_session_id binding
    \<and> rc_task_id receipt = rb_task_id binding \<and> rc_stream_id receipt = rb_stream_id binding
    \<and> adapter_replay_start a = Inr start
    \<and> unat start = unat (rc_highest_contiguous_acked_sequence receipt) + 1
    \<and> (\<forall>first. (fst (accept_replay_validated first a) = Inr () \<longleftrightarrow> first = start)
        \<and> ra_state (snd (accept_replay_validated first a)) = (if first = start then Resumed else Failed))"
proof -
  obtain r where r: "ra_resume_state a = Some r" "resume_wf r" "rs_binding r = binding" "rs_accepted r"
    using session_reachable_wf [OF assms(1)] assms(2) by (auto simp: adapter_wf_def split: option.splits)
  then obtain receipt where rc: "rs_last_receipt r = Some receipt" "receipt_validate receipt = Inr ()"
    "rc_highest_contiguous_acked_sequence receipt = rs_last_acked_sequence r" "rs_last_acked_sequence r \<noteq> - 1"
    "receipt_bound binding receipt"
    by (auto simp: resume_wf_def split: option.splits)
  note bound = rc(5) [unfolded receipt_bound_def]
  have start: "replay_start_sequence r = Inr (rs_last_acked_sequence r + 1)"
    using r(4) rc(4) by (simp add: replay_start_sequence_def)
  have "adapter_replay_start a = Inr (rs_last_acked_sequence r + 1)"
    using start assms(2) r(1) by (simp add: adapter_replay_start_def)
  moreover have "unat (rs_last_acked_sequence r + 1) = unat (rc_highest_contiguous_acked_sequence receipt) + 1"
    using rc(3,4) by (simp add: unat_u64_plus_1)
  moreover have "(fst (accept_replay_validated first a) = Inr () \<longleftrightarrow> first = rs_last_acked_sequence r + 1)
      \<and> ra_state (snd (accept_replay_validated first a)) = (if first = rs_last_acked_sequence r + 1 then Resumed else Failed)"
    for first
    using start assms(2) r(1)
    by (simp add: accept_replay_validated_def transition_def fail_from_def ng1_recovery_transition_def)
  ultimately show ?thesis
    using r(1,3) rc(1,2) bound by blast
qed

lemma replay_starts_after_ack_witness:
  "\<exists>a r receipt start. session_reachable example_resume_binding a \<and> ra_state a = Resume_Replay
    \<and> ra_resume_state a = Some r \<and> rs_last_receipt r = Some receipt \<and> rc_protocol_session_id receipt = ''s''
    \<and> adapter_replay_start a = Inr start
    \<and> unat start = unat (rc_highest_contiguous_acked_sequence receipt) + 1"
proof -
  obtain d t where t: "resume_step (example_resume_input d) example_resume = Inr t"
    using example_token_admitted by blast
  let ?start = "\<lparr>ra_resume_state = Some example_resume, ra_state = Running\<rparr>"
  let ?a = "perform_all [Observe_Worker_Exit, Accept_Durable_Resume (example_resume_input d)] ?start"
  have "recovery_create example_resume_binding = Inr ?start"
    by (simp add: recovery_create_def example_resume_created recovery_default_def)
  then have reach: "session_reachable example_resume_binding ?a"
    by (intro perform_all_reachable session_reachable.created)
  have "ra_state ?a = Resume_Replay"
    using t by (simp add: perform_all_def operation_defs transition_def accept_durable_resume_def
        ng1_recovery_transition_def)
  moreover have "rb_protocol_session_id example_resume_binding = ''s''"
    by (simp add: example_resume_binding_def)
  ultimately show ?thesis
    using replay_starts_after_ack [OF reach] reach by metis
qed

lemma durable_resume_gated_witness:
  "\<exists>d. fst (accept_durable_resume (example_resume_input d)
      \<lparr>ra_resume_state = Some example_resume, ra_state = Worker_Killed\<rparr>) = Inr ()"
proof -
  obtain d t where t: "resume_step (example_resume_input d) example_resume = Inr t"
    using example_token_admitted by blast
  let ?a = "\<lparr>ra_resume_state = Some example_resume, ra_state = Worker_Killed\<rparr>"
  have "snd (accept_durable_resume (example_resume_input d) ?a) = \<lparr>ra_resume_state = Some t, ra_state = Resume_Replay\<rparr>"
    using t by (simp add: accept_durable_resume_def transition_def ng1_recovery_transition_def)
  with t show ?thesis
    using durable_resume_gated [of "example_resume_input d" ?a] by auto
qed

end
