(* ===== verification/Ng1_Spill_Codec.thy ===== *)
theory Ng1_Spill_Codec
  imports Cbor Ng1_Resume "HOL-Library.Multiset"
begin

text \<open>
  \<open>src/sdk/provider_ng1_spill_port_internal.cpp\<close>, first half: the deterministic-CBOR form of a spill
  record behind its eight-byte length prefix, and the two metadata files beside the record log (the
  commit and the resume frontier). The source has its own CBOR routines here; they are written out and
  shown to agree with those of the frame codec. The lemmas give the exact wire size, the round trip in
  both directions and the round trip of both metadata files. Allocation failures are not modelled.
\<close>

section \<open>CBOR primitives\<close>

definition spill_length_prefix_bytes :: nat where "spill_length_prefix_bytes = 8"

abbreviation port_error :: "string \<Rightarrow> string \<Rightarrow> sdk_error" where
  "port_error \<equiv> ng1_error ''recovery-failed''"

text \<open>The source's enumeration names four of the eight major types; a cast yields all of them.\<close>

definition append_cbor_head :: "major \<Rightarrow> u64 \<Rightarrow> bytes" where
  "append_cbor_head kind value =
    (let prefix = push_bit 5 (major_code kind)
     in if value < 24 then [prefix OR ucast value]
        else if value \<le> 0xff then (prefix OR 24) # be_bytes 1 value
        else if value \<le> 0xffff then (prefix OR 25) # be_bytes 2 value
        else if value \<le> 0xffffffff then (prefix OR 26) # be_bytes 4 value
        else (prefix OR 27) # be_bytes 8 value)"

definition cbor_text :: "string \<Rightarrow> string \<Rightarrow> bytes result" where
  "cbor_text value field =
    (case validate_utf8_text value of
       Inl e \<Rightarrow> Inl (spill_corrupt field ''invalid-utf8'')
     | Inr _ \<Rightarrow> Inr (append_cbor_head Text_Str (word_of_nat (length value)) @ bytes_of value))"

definition cbor_byte_string :: "bytes \<Rightarrow> bytes" where
  "cbor_byte_string value = append_cbor_head Byte_Str (word_of_nat (length value)) @ value"

section \<open>Wire size of a record\<close>

definition encoded_cbor_head_bytes :: "u64 \<Rightarrow> u64" where
  "encoded_cbor_head_bytes value =
    (if value < 24 then 1 else if value \<le> 0xff then 2 else if value \<le> 0xffff then 3
     else if value \<le> 0xffffffff then 5 else 9)"

definition checked_wire_add :: "u64 \<Rightarrow> u64 \<Rightarrow> string \<Rightarrow> u64 result" where
  "checked_wire_add left right field =
    (if right > - 1 - left then Inl (spill_corrupt field ''size-overflow'') else Inr (left + right))"

definition encoded_string_wire_bytes :: "string \<Rightarrow> string \<Rightarrow> u64 result" where
  "encoded_string_wire_bytes value field =
    (let len = word_of_nat (length value) in checked_wire_add (encoded_cbor_head_bytes len) len field)"

definition wire_text_pair :: "string \<Rightarrow> string \<Rightarrow> u64 \<Rightarrow> u64 result" where
  "wire_text_pair key value so_far =
    and_then (encoded_string_wire_bytes key ''record-key'') (\<lambda>key_bytes.
    and_then (encoded_string_wire_bytes value key) (\<lambda>value_bytes.
    and_then (checked_wire_add so_far key_bytes key) (\<lambda>so_far.
      checked_wire_add so_far value_bytes key)))"

definition wire_uint_pair :: "string \<Rightarrow> u64 \<Rightarrow> u64 \<Rightarrow> u64 result" where
  "wire_uint_pair key value so_far =
    and_then (encoded_string_wire_bytes key ''record-key'') (\<lambda>key_bytes.
    and_then (checked_wire_add so_far key_bytes key) (\<lambda>so_far.
      checked_wire_add so_far (encoded_cbor_head_bytes value) key))"

definition wire_bytes_pair :: "string \<Rightarrow> bytes \<Rightarrow> u64 \<Rightarrow> u64 result" where
  "wire_bytes_pair key value so_far =
    and_then (encoded_string_wire_bytes key ''record-key'') (\<lambda>key_bytes.
    let len = word_of_nat (length value) in
    and_then (checked_wire_add (encoded_cbor_head_bytes len) len key) (\<lambda>value_bytes.
    and_then (checked_wire_add so_far key_bytes key) (\<lambda>so_far.
      checked_wire_add so_far value_bytes key)))"

text \<open>As in \<^const>\<open>spill_record_wire_bytes\<close>, the first failing addition is the one returned.\<close>

definition validate_spill_record_wire_quota :: "ng1_spill_record \<Rightarrow> unit result" where
  "validate_spill_record_wire_quota r =
    and_then (try_fold (\<lambda>add. add)
      [wire_text_pair ''schema'' (sx_schema r),
       wire_uint_pair ''record_ordinal'' (sx_record_ordinal r),
       wire_text_pair ''task_id'' (sx_task_id r),
       wire_text_pair ''dependency_group_id'' (sx_dependency_group_id r),
       wire_text_pair ''atomic_output_group_id'' (sx_atomic_output_group_id r),
       wire_text_pair ''batch_id'' (sx_batch_id r),
       wire_uint_pair ''stream_id'' (sx_stream_id r),
       wire_uint_pair ''sequence'' (sx_sequence r),
       wire_bytes_pair ''payload_bytes'' (sx_payload_bytes r),
       wire_text_pair ''payload_digest'' (sx_payload_digest r),
       wire_text_pair ''record_digest'' (sx_record_digest r)]
      (word_of_nat spill_length_prefix_bytes + encoded_cbor_head_bytes 11)) (\<lambda>wire_total.
    if wire_total > ng1_spill_maximum_record_bytes
    then Inl (spill_corrupt ''record_bytes'' ''record-quota'') else Inr ())"

section \<open>Encoding a record\<close>

type_synonym encoded_fields = "(bytes \<times> bytes) list"

definition add_text :: "string \<Rightarrow> string \<Rightarrow> encoded_fields \<Rightarrow> encoded_fields result" where
  "add_text key value so_far =
    and_then (cbor_text key ''record-key'') (\<lambda>encoded_key.
    and_then (cbor_text value key) (\<lambda>encoded_value. Inr (so_far @ [(encoded_key, encoded_value)])))"

definition add_uint :: "string \<Rightarrow> u64 \<Rightarrow> encoded_fields \<Rightarrow> encoded_fields result" where
  "add_uint key value so_far =
    and_then (cbor_text key ''record-key'') (\<lambda>encoded_key.
      Inr (so_far @ [(encoded_key, append_cbor_head Unsigned_Integer value)]))"

definition add_bytes :: "string \<Rightarrow> bytes \<Rightarrow> encoded_fields \<Rightarrow> encoded_fields result" where
  "add_bytes key value so_far =
    and_then (cbor_text key ''record-key'') (\<lambda>encoded_key.
      Inr (so_far @ [(encoded_key, cbor_byte_string value)]))"

text \<open>The fields in the order the source adds them; the first failing addition is the one returned.\<close>

definition collected_fields :: "ng1_spill_record \<Rightarrow> encoded_fields result" where
  "collected_fields r =
    try_fold (\<lambda>add. add)
       [add_text ''schema'' (sx_schema r),
        add_uint ''record_ordinal'' (sx_record_ordinal r),
        add_text ''task_id'' (sx_task_id r),
        add_text ''dependency_group_id'' (sx_dependency_group_id r),
        add_text ''atomic_output_group_id'' (sx_atomic_output_group_id r),
        add_text ''batch_id'' (sx_batch_id r),
        add_uint ''stream_id'' (sx_stream_id r),
        add_uint ''sequence'' (sx_sequence r),
        add_bytes ''payload_bytes'' (sx_payload_bytes r),
        add_text ''payload_digest'' (sx_payload_digest r),
        add_text ''record_digest'' (sx_record_digest r)] []"

definition encode_spill_record :: "ng1_spill_record \<Rightarrow> bytes result" where
  "encode_spill_record r =
    (if sx_schema r \<noteq> spill_schema then Inl (spill_corrupt ''schema'' ''unexpected'')
     else and_then (validate_spill_record_wire_quota r) (\<lambda>_.
     and_then (ng1_spill_record_digest r) (\<lambda>_.
     and_then (collected_fields r) (\<lambda>encoded.
     let body = append_cbor_head Map_Fields (word_of_nat (length encoded))
           @ concat (map (\<lambda>(key, value). key @ value) (sort_entries encoded))
     in if length body > unat ng1_spill_maximum_record_bytes - spill_length_prefix_bytes
        then Inl (spill_corrupt ''record_bytes'' ''record-quota'')
        else Inr (be_bytes spill_length_prefix_bytes (word_of_nat (length body)) @ body)))))"

section \<open>Decoding a record\<close>

definition decode_argument :: "bytes \<Rightarrow> nat \<Rightarrow> byte \<Rightarrow> (u64 \<times> nat) result" where
  "decode_argument input offset additional =
    (if additional < 24 then Inr (ucast additional, offset)
     else let width = (if additional = 24 then 1 else if additional = 25 then 2
            else if additional = 26 then 4 else if additional = 27 then 8 else 0)
       in if width = 0 \<or> offset > length input \<or> width > length input - offset
          then Inl (spill_corrupt ''cbor'' ''truncated-or-indefinite'')
          else let value = be_value (subspan input offset width);
                   minimum = (if width = 1 then 24 else push_bit (width * 4) 1)
            in if value < minimum then Inl (spill_corrupt ''cbor'' ''non-shortest'')
               else Inr (value, offset + width))"

datatype decoded_scalar = Scalar_Uint u64 | Scalar_Text string | Scalar_Bytes bytes

definition decode_scalar :: "bytes \<Rightarrow> nat \<Rightarrow> (decoded_scalar \<times> nat) result" where
  "decode_scalar input offset =
    (if offset \<ge> length input then Inl (spill_corrupt ''cbor'' ''truncated'')
     else let initial = input ! offset; kind = major_of (drop_bit 5 initial)
       in and_then (decode_argument input (offset + 1) (initial AND 0x1f)) (\<lambda>(argument, begins).
          if kind = Unsigned_Integer then Inr (Scalar_Uint argument, begins)
          else if unat argument > length input - begins then Inl (spill_corrupt ''cbor'' ''value-length'')
          else let ends = begins + unat argument
            in if kind = Text_Str
               then let value = string_of (subspan input begins (unat argument))
                 in (case validate_utf8_text value of
                       Inl e \<Rightarrow> Inl (spill_corrupt ''cbor'' ''invalid-utf8'')
                     | Inr _ \<Rightarrow> Inr (Scalar_Text value, ends))
               else if kind = Byte_Str
               then Inr (Scalar_Bytes (subspan input begins (unat argument)), ends)
               else Inl (spill_corrupt ''cbor'' ''scalar-type'')))"

type_synonym decoded_map = "string \<rightharpoonup> decoded_scalar"

definition spill_key_ordered :: "bytes \<Rightarrow> bytes \<Rightarrow> bool" where
  "spill_key_ordered previous_key encoded_key =
    (length previous_key < length encoded_key
     \<or> length previous_key = length encoded_key \<and> lex_less previous_key encoded_key)"

text \<open>One round of the loop of \<open>decode_map\<close> over the decoded fields, the previous key and the offset.\<close>

definition decode_map_field :: "bytes \<Rightarrow> decoded_map \<times> bytes \<times> nat \<Rightarrow> (decoded_map \<times> bytes \<times> nat) result" where
  "decode_map_field input = (\<lambda>(so_far, previous_key, offset).
    (case decode_scalar input offset of
       Inr (Scalar_Text key_text, after_key) \<Rightarrow>
         (let encoded_key = subspan input offset (after_key - offset)
          in if previous_key \<noteq> [] \<and> \<not> spill_key_ordered previous_key encoded_key
             then Inl (spill_corrupt ''cbor'' ''map-order-or-duplicate'')
             else and_then (decode_scalar input after_key) (\<lambda>(value, after_value).
               if so_far key_text \<noteq> None then Inl (spill_corrupt key_text ''duplicate-key'')
               else Inr (so_far(key_text \<mapsto> value), encoded_key, after_value)))
     | _ \<Rightarrow> Inl (spill_corrupt ''cbor'' ''map-key-type'')))"

definition decode_map :: "bytes \<Rightarrow> decoded_map result" where
  "decode_map input =
    (if input = [] then Inl (spill_corrupt ''cbor'' ''empty'')
     else let initial = hd input
       in if major_of (drop_bit 5 initial) \<noteq> Map_Fields then Inl (spill_corrupt ''cbor'' ''map-type'')
          else and_then (decode_argument input 1 (initial AND 0x1f)) (\<lambda>(count, offset).
            if count \<noteq> 11 then Inl (spill_corrupt ''cbor'' ''field-count'')
            else and_then (repeat_result (unat count) (decode_map_field input) (Map.empty, [], offset))
              (\<lambda>(so_far, previous_key, offset).
                if offset \<noteq> length input then Inl (spill_corrupt ''cbor'' ''trailing'') else Inr so_far)))"

text \<open>\<open>map_field<T>\<close>, one instance for each alternative of the scalar.\<close>

definition map_field :: "(decoded_scalar \<Rightarrow> 'a option) \<Rightarrow> decoded_map \<Rightarrow> string \<Rightarrow> 'a result" where
  "map_field get decoded name =
    (case decoded name of
       None \<Rightarrow> Inl (spill_corrupt name ''missing-field'')
     | Some scalar \<Rightarrow> (case get scalar of
         None \<Rightarrow> Inl (spill_corrupt name ''field-type'') | Some value \<Rightarrow> Inr value))"

definition get_uint :: "decoded_scalar \<Rightarrow> u64 option" where
  "get_uint scalar = (case scalar of Scalar_Uint value \<Rightarrow> Some value | _ \<Rightarrow> None)"

definition get_text :: "decoded_scalar \<Rightarrow> string option" where
  "get_text scalar = (case scalar of Scalar_Text value \<Rightarrow> Some value | _ \<Rightarrow> None)"

definition get_bytes :: "decoded_scalar \<Rightarrow> bytes option" where
  "get_bytes scalar = (case scalar of Scalar_Bytes value \<Rightarrow> Some value | _ \<Rightarrow> None)"

text \<open>The lookups of \<open>decode_spill_record\<close>; the first missing or mistyped field is reported.\<close>

definition spill_record_of_map :: "decoded_map \<Rightarrow> ng1_spill_record result" where
  "spill_record_of_map decoded =
    and_then (map_field get_text decoded ''schema'') (\<lambda>schema.
    and_then (map_field get_uint decoded ''record_ordinal'') (\<lambda>ordinal.
    and_then (map_field get_text decoded ''task_id'') (\<lambda>task.
    and_then (map_field get_text decoded ''dependency_group_id'') (\<lambda>dependency.
    and_then (map_field get_text decoded ''atomic_output_group_id'') (\<lambda>atomic.
    and_then (map_field get_text decoded ''batch_id'') (\<lambda>batch.
    and_then (map_field get_uint decoded ''stream_id'') (\<lambda>stream.
    and_then (map_field get_uint decoded ''sequence'') (\<lambda>sequence.
    and_then (map_field get_bytes decoded ''payload_bytes'') (\<lambda>payload.
    and_then (map_field get_text decoded ''payload_digest'') (\<lambda>payload_digest.
    and_then (map_field get_text decoded ''record_digest'') (\<lambda>record_digest.
      Inr \<lparr>sx_schema = schema, sx_record_ordinal = ordinal, sx_task_id = task,
        sx_dependency_group_id = dependency, sx_atomic_output_group_id = atomic, sx_batch_id = batch,
        sx_stream_id = stream, sx_sequence = sequence, sx_payload_bytes = payload,
        sx_payload_digest = payload_digest, sx_record_digest = record_digest\<rparr>)))))))))))"

definition decode_spill_record :: "bytes \<Rightarrow> ng1_spill_record result" where
  "decode_spill_record body =
    and_then (decode_map body) (\<lambda>decoded.
    and_then (spill_record_of_map decoded) (\<lambda>r.
      if sx_schema r \<noteq> spill_schema then Inl (spill_corrupt ''schema'' ''unexpected'')
      else if ng1_spill_payload_digest (sx_payload_bytes r) \<noteq> Inr (sx_payload_digest r)
      then Inl (spill_corrupt ''payload_digest'' ''mismatch'')
      else if ng1_spill_record_digest r \<noteq> Inr (sx_record_digest r)
      then Inl (spill_corrupt ''record_digest'' ''mismatch'')
      else Inr r))"

text \<open>\<open>decode_framed_record\<close> returns the record and the offset it leaves behind.\<close>

definition decode_framed_record :: "bytes \<Rightarrow> nat \<Rightarrow> (ng1_spill_record \<times> nat) result" where
  "decode_framed_record input offset =
    (if offset > length input \<or> length input - offset < spill_length_prefix_bytes
     then Inl (spill_corrupt ''framing'' ''truncated-length-prefix'')
     else let len = unat (be_value (subspan input offset spill_length_prefix_bytes))
       in if len = 0 \<or> len > unat ng1_spill_maximum_record_bytes - spill_length_prefix_bytes
          then Inl (spill_corrupt ''record_bytes'' ''record-quota'')
          else let offset = offset + spill_length_prefix_bytes
            in if len > length input - offset then Inl (spill_corrupt ''framing'' ''torn-last-record'')
               else and_then (decode_spill_record (subspan input offset len)) (\<lambda>r. Inr (r, offset + len)))"

section \<open>Agreement with the frame codec and the prefix accounting\<close>

lemma append_cbor_head_eq: "append_cbor_head = append_head"
  by (simp add: fun_eq_iff append_cbor_head_def append_head_def)

lemma encoded_cbor_head_bytes_eq: "encoded_cbor_head_bytes = cbor_head_bytes"
  by (simp add: fun_eq_iff encoded_cbor_head_bytes_def cbor_head_bytes_def)

lemma checked_wire_add_eq: "checked_wire_add = checked_spill_size_add"
  by (simp add: fun_eq_iff checked_wire_add_def checked_spill_size_add_def)

lemmas wire_agreement = append_cbor_head_eq encoded_cbor_head_bytes_eq checked_wire_add_eq

lemma wire_pairs_eq:
  "wire_text_pair = add_text_pair" "wire_uint_pair = add_uint_pair" "wire_bytes_pair = add_bytes_pair"
  by (simp_all add: fun_eq_iff wire_text_pair_def wire_uint_pair_def wire_bytes_pair_def add_text_pair_def
      add_uint_pair_def add_bytes_pair_def encoded_string_wire_bytes_def cbor_text_bytes_def
      cbor_bytes_bytes_def wire_agreement Let_def)

lemma wire_quota_eq:
  "validate_spill_record_wire_quota r = and_then (spill_record_wire_bytes r) (\<lambda>n.
     if n > ng1_spill_maximum_record_bytes then Inl (spill_corrupt ''record_bytes'' ''record-quota'') else Inr ())"
  by (simp add: validate_spill_record_wire_quota_def spill_record_wire_bytes_def wire_pairs_eq
      spill_length_prefix_bytes_def encoded_cbor_head_bytes_eq add.commute)

lemma length_append_head: "length (append_head k v) = unat (cbor_head_bytes v)"
  by (simp add: append_head_def cbor_head_bytes_def Let_def)

section \<open>Scalars\<close>

fun scalar_bytes :: "decoded_scalar \<Rightarrow> bytes" where
  "scalar_bytes (Scalar_Uint value) = append_head Unsigned_Integer value"
| "scalar_bytes (Scalar_Text value) = encoded_text value"
| "scalar_bytes (Scalar_Bytes value) = append_head Byte_Str (word_of_nat (length value)) @ value"

fun scalar_ok :: "decoded_scalar \<Rightarrow> bool" where
  "scalar_ok (Scalar_Uint value) = True"
| "scalar_ok (Scalar_Text value) = (length value < 2 ^ 64 \<and> sdk_valid_utf8 (bytes_of value))"
| "scalar_ok (Scalar_Bytes value) = (length value < 2 ^ 64)"

lemma scalar_bytes_nonempty [simp]: "scalar_bytes s \<noteq> []"
  by (cases s) simp_all

lemma additional_cases:
  assumes "\<not> a < (24 :: byte)"
  shows "a = 24 \<or> a = 25 \<or> a = 26 \<or> a = 27 \<or> 28 \<le> a"
  using assms by (auto simp: word_le_nat_alt word_less_nat_alt word_unat_eq_iff)

text \<open>\<open>decode_argument\<close> reads the same heads as the frame codec does.\<close>

lemma decode_argument_iff:
  assumes "offset < length input"
  shows "decode_argument input (offset + 1) (input ! offset AND 0x1f) = Inr (v, b) \<longleftrightarrow>
    offset < b \<and> b \<le> length input
    \<and> read_head (drop offset input) = Inr (major_of (drop_bit 5 (input ! offset)), v, drop b input)"
proof -
  let ?a = "input ! offset AND 0x1f"
  let ?w = "head_width ?a"
  have d: "drop offset input = input ! offset # drop (offset + 1) input"
    using assms by (simp add: Cons_nth_drop_Suc)
  have shift: "drop c (drop (offset + 1) input) = drop b input \<longleftrightarrow> b = offset + 1 + c"
    if "offset < b" "b \<le> length input" "c \<le> length input - (offset + 1)" for c
  proof
    assume "drop c (drop (offset + 1) input) = drop b input"
    then have "length input - (offset + 1 + c) = length input - b"
      by (metis drop_drop add.commute length_drop)
    then show "b = offset + 1 + c" using that assms by linarith
  next
    assume "b = offset + 1 + c"
    then show "drop c (drop (offset + 1) input) = drop b input"
      by (simp add: add.commute)
  qed
  show ?thesis
  proof (cases "?a < 24")
    case True
    then have "\<not> 28 \<le> ?a" by (simp add: word_less_nat_alt word_le_nat_alt)
    then show ?thesis
      using True assms shift [of 0]
      by (auto simp: decode_argument_def read_head_def d Let_def)
  next
    case False
    then consider "28 \<le> ?a" | "?a = 24 \<or> ?a = 25 \<or> ?a = 26 \<or> ?a = 27"
      using additional_cases by blast
    then show ?thesis
    proof cases
      case 1
      then have "?a \<noteq> 24 \<and> ?a \<noteq> 25 \<and> ?a \<noteq> 26 \<and> ?a \<noteq> 27"
        by (auto simp: word_le_nat_alt)
      then show ?thesis
        using 1 False by (simp add: decode_argument_def read_head_def d Let_def)
    next
      case 2
      let ?m = "shortest_for ?w"
      have w: "?w = (if ?a = 24 then 1 else if ?a = 25 then 2 else if ?a = 26 then 4 else if ?a = 27 then 8 else 0)"
        "0 < ?w" "?w \<le> 8" "?m = (if ?w = 1 then 24 else push_bit (?w * 4) 1)"
        using 2 by (auto simp: head_width_def shortest_for_def push_bit_eq_mult)
      have n28: "\<not> 28 \<le> ?a"
        using 2 by (auto simp: word_le_nat_alt)
      have "decode_argument input (offset + 1) ?a = Inr (v, b) \<longleftrightarrow>
          ?w \<le> length input - (offset + 1) \<and> \<not> be_value (take ?w (drop (offset + 1) input)) < ?m
          \<and> v = be_value (take ?w (drop (offset + 1) input)) \<and> b = offset + 1 + ?w"
        using False w(2) assms unfolding decode_argument_def w(1) [symmetric] w(4) [symmetric] Let_def subspan_def
        by (auto simp: not_less)
      moreover have "read_head (drop offset input) = Inr (major_of (drop_bit 5 (input ! offset)), v, drop b input) \<longleftrightarrow>
          ?w \<le> length input - (offset + 1) \<and> \<not> be_value (take ?w (drop (offset + 1) input)) < ?m
          \<and> v = be_value (take ?w (drop (offset + 1) input)) \<and> drop ?w (drop (offset + 1) input) = drop b input"
        using False n28 unfolding read_head_def d by (auto simp: Let_def not_less)
      moreover have "?w \<le> length input - (offset + 1) \<longleftrightarrow> offset + 1 + ?w \<le> length input"
        using assms by linarith
      ultimately show ?thesis
        using shift [of ?w] w(2) assms by (auto simp del: drop_drop)
    qed
  qed
qed

lemma read_head_major: "read_head (b # bs) = Inr (k, v, rest) \<Longrightarrow> k = major_of (drop_bit 5 b)"
  by (auto simp: read_head_def Let_def split: if_splits)

lemma decode_head_iff:
  "offset < length input \<and> major_of (drop_bit 5 (input ! offset)) = k
     \<and> decode_argument input (offset + 1) (input ! offset AND 0x1f) = Inr (v, b)
   \<longleftrightarrow> (\<exists>rest. drop offset input = append_head k v @ rest) \<and> b = offset + length (append_head k v)"
  (is "?L \<longleftrightarrow> ?R")
proof
  assume ?L
  then have l: "offset < b" "b \<le> length input" "read_head (drop offset input) = Inr (k, v, drop b input)"
    using decode_argument_iff [of offset input v b] by auto
  then have split: "drop offset input = append_head k v @ drop b input"
    by (intro read_head_exact)
  then have "length (drop offset input) = length (append_head k v @ drop b input)"
    by (rule arg_cong)
  then have "b = offset + length (append_head k v)"
    using l(1,2) by simp
  then show ?R using split by blast
next
  assume ?R
  then obtain rest where rest: "drop offset input = append_head k v @ rest"
    and b: "b = offset + length (append_head k v)" by blast
  then have off: "offset < length input"
    by (metis Nil_is_append_conv append_head_nonempty drop_all not_less)
  have drop_b: "drop b input = rest"
    unfolding b by (simp add: rest add.commute [of offset] flip: drop_drop)
  have read: "read_head (drop offset input) = Inr (k, v, drop b input)"
    unfolding drop_b rest by (rule read_head_append_head)
  moreover have "drop offset input = input ! offset # drop (offset + 1) input"
    using off by (simp add: Cons_nth_drop_Suc)
  ultimately have k: "k = major_of (drop_bit 5 (input ! offset))"
    using read_head_major by metis
  have "length (drop offset input) = length (append_head k v @ rest)"
    using rest by (rule arg_cong)
  then have "b \<le> length input"
    using b off by simp
  moreover have "offset < b" using b by simp
  ultimately show ?L
    using off k read decode_argument_iff [OF off, of v b] by simp
qed

lemma take_of_append: "xs = as @ bs @ rest \<Longrightarrow> take (length bs) (drop (length as) xs) = bs"
  by simp

lemma content_at:
  assumes "drop offset input = hd_bytes @ rest" "b = offset + length hd_bytes"
  shows "drop b input = rest" "n \<le> length input - b \<longleftrightarrow> n \<le> length rest"
proof -
  show d: "drop b input = rest"
    unfolding assms(2) by (simp add: assms(1) add.commute [of offset] flip: drop_drop)
  then show "n \<le> length input - b \<longleftrightarrow> n \<le> length rest"
    by (metis length_drop)
qed

lemma byte_of_char_comp [simp]: "byte_of_char \<circ> char_of_byte = id"
  by (simp add: fun_eq_iff)

lemma char_of_byte_comp [simp]: "char_of_byte \<circ> byte_of_char = id"
  by (simp add: fun_eq_iff)

lemma validate_utf8_iff: "validate_utf8_text t = Inr u \<longleftrightarrow> sdk_valid_utf8 (bytes_of t)"
  by (simp add: validate_utf8_text_def)

lemma validate_utf8_string_of: "validate_utf8_text (string_of bs) = Inr u \<longleftrightarrow> sdk_valid_utf8 bs"
  by (simp add: validate_utf8_iff del: map_map)

lemma decode_scalar_iff:
  "decode_scalar input offset = Inr (s, e) \<longleftrightarrow>
    scalar_ok s \<and> e = offset + length (scalar_bytes s) \<and> (\<exists>rest. drop offset input = scalar_bytes s @ rest)"
  (is "?L \<longleftrightarrow> ?R")
proof
  assume L: ?L
  then have off: "offset < length input"
    by (cases "offset < length input") (simp_all add: decode_scalar_def)
  define k where "k = major_of (drop_bit 5 (input ! offset))"
  obtain a b where arg: "decode_argument input (offset + 1) (input ! offset AND 0x1f) = Inr (a, b)"
    using L off by (auto simp: decode_scalar_def Let_def result_simps)
  obtain rest where rest: "drop offset input = append_head k a @ rest" and b: "b = offset + length (append_head k a)"
    using decode_head_iff [of offset input k a b] off arg by (auto simp: k_def)
  note c = content_at [OF rest b]
  have len: "length (take (unat a) rest) < 2 ^ 64"
    using unat_u64_less [of a] by simp
  have content: "append_head k (word_of_nat (length (take (unat a) rest))) = append_head k a"
    if "unat a \<le> length rest" using that by (simp add: min_def)
  have sp: "subspan input b (unat a) = take (unat a) rest"
    by (simp add: subspan_drop c)
  have body: "decode_scalar input offset =
      (if k = Unsigned_Integer then Inr (Scalar_Uint a, b)
       else if \<not> unat a \<le> length rest then Inl (spill_corrupt ''cbor'' ''value-length'')
       else if k = Text_Str
       then (case validate_utf8_text (string_of (take (unat a) rest)) of
               Inl e \<Rightarrow> Inl (spill_corrupt ''cbor'' ''invalid-utf8'')
             | Inr _ \<Rightarrow> Inr (Scalar_Text (string_of (take (unat a) rest)), b + unat a))
       else if k = Byte_Str then Inr (Scalar_Bytes (take (unat a) rest), b + unat a)
       else Inl (spill_corrupt ''cbor'' ''scalar-type''))"
    using off unfolding decode_scalar_def Let_def arg c(2) [symmetric] k_def [symmetric] sp [symmetric]
    by (simp add: not_le)
  consider "k = Unsigned_Integer" "s = Scalar_Uint a" "e = b"
    | "k = Text_Str" "unat a \<le> length rest" "s = Scalar_Text (string_of (take (unat a) rest))" "e = b + unat a"
      "sdk_valid_utf8 (take (unat a) rest)"
    | "k = Byte_Str" "unat a \<le> length rest" "s = Scalar_Bytes (take (unat a) rest)" "e = b + unat a"
    using L unfolding body by (auto simp: validate_utf8_string_of split: if_splits sum.splits)
  then show ?R
  proof cases
    case 1
    then show ?thesis using rest b by simp
  next
    case 2
    then have "\<exists>r. rest = take (unat a) rest @ r" by (intro exI [of _ "drop (unat a) rest"]) simp
    then show ?thesis
      using 2 rest b len content by (auto simp: encoded_text_def)
  next
    case 3
    then have "\<exists>r. rest = take (unat a) rest @ r" by (intro exI [of _ "drop (unat a) rest"]) simp
    then show ?thesis
      using 3 rest b len content by auto
  qed
next
  assume ?R
  then obtain rest where ok: "scalar_ok s" and e: "e = offset + length (scalar_bytes s)"
    and rest: "drop offset input = scalar_bytes s @ rest" by blast
  define k where "k = (case s of Scalar_Uint v \<Rightarrow> Unsigned_Integer | Scalar_Text t \<Rightarrow> Text_Str | Scalar_Bytes x \<Rightarrow> Byte_Str)"
  define a where "a = (case s of Scalar_Uint v \<Rightarrow> v | Scalar_Text t \<Rightarrow> word_of_nat (length t) | Scalar_Bytes x \<Rightarrow> word_of_nat (length x))"
  define content where "content = (case s of Scalar_Uint v \<Rightarrow> [] | Scalar_Text t \<Rightarrow> bytes_of t | Scalar_Bytes x \<Rightarrow> x)"
  define b where "b = offset + length (append_head k a)"
  have sb: "scalar_bytes s = append_head k a @ content"
    by (cases s) (simp_all add: k_def a_def content_def encoded_text_def)
  have head: "drop offset input = append_head k a @ (content @ rest)"
    using rest sb by simp
  have l: "offset < length input \<and> major_of (drop_bit 5 (input ! offset)) = k
     \<and> decode_argument input (offset + 1) (input ! offset AND 0x1f) = Inr (a, b)"
    using head by (subst decode_head_iff) (auto simp: b_def)
  note c = content_at [OF head b_def]
  have n: "unat a = length content" if "k \<noteq> Unsigned_Integer"
    using that ok unfolding k_def a_def content_def by (cases s) (simp_all add: unat_of_nat)
  have sp: "subspan input b (length content) = content"
    by (simp add: subspan_drop c)
  show ?L
    using l n c(2) [of "length content"] sp ok e sb
    by (cases s) (auto simp: decode_scalar_def Let_def k_def a_def content_def b_def validate_utf8_text_def not_less)
qed

section \<open>Maps\<close>

type_synonym scalar_fields = "(string \<times> decoded_scalar) list"

definition entry_bytes :: "string \<times> decoded_scalar \<Rightarrow> bytes" where
  "entry_bytes entry = encoded_text (fst entry) @ scalar_bytes (snd entry)"

definition entries_ok :: "scalar_fields \<Rightarrow> bool" where
  "entries_ok fs = (sorted_wrt key_before (map fst fs)
     \<and> list_all (\<lambda>entry. scalar_ok (Scalar_Text (fst entry)) \<and> scalar_ok (snd entry)) fs)"

definition last_entry_key :: "scalar_fields \<Rightarrow> bytes" where
  "last_entry_key fs = (if fs = [] then [] else encoded_text (fst (last fs)))"

lemma spill_key_ordered_iff: "spill_key_ordered (encoded_text j) (encoded_text k) \<longleftrightarrow> key_before j k"
  by (auto simp: spill_key_ordered_def key_before_def)

lemma entries_ok_snoc:
  assumes "entries_ok fs"
  shows "entries_ok (fs @ [(k, v)]) \<longleftrightarrow> scalar_ok (Scalar_Text k) \<and> scalar_ok v
    \<and> (last_entry_key fs = [] \<or> spill_key_ordered (last_entry_key fs) (encoded_text k))"
proof (cases "fs = []")
  case True
  then show ?thesis by (simp add: entries_ok_def last_entry_key_def)
next
  case False
  have "sorted_wrt key_before (map fst fs @ [k]) \<longleftrightarrow> key_before (fst (last fs)) k"
  proof
    assume "sorted_wrt key_before (map fst fs @ [k])"
    then show "key_before (fst (last fs)) k"
      using False by (simp add: sorted_wrt_append)
  next
    assume "key_before (fst (last fs)) k"
    then show "sorted_wrt key_before (map fst fs @ [k])"
      using assms False by (intro sorted_wrt_snoc_last) (simp_all add: entries_ok_def last_map)
  qed
  then show ?thesis
    using assms False by (auto simp: entries_ok_def last_entry_key_def spill_key_ordered_iff)
qed

lemma entries_ok_fresh: "entries_ok (fs @ [(k, v)]) \<Longrightarrow> map_of fs k = None"
  using sorted_keys_distinct [of "map fst fs @ [k]"] by (simp add: entries_ok_def map_of_eq_None_iff)

lemma map_of_snoc: "map_of fs k = None \<Longrightarrow> map_of (fs @ [(k, v)]) = (map_of fs)(k \<mapsto> v)"
  by (auto simp: fun_eq_iff map_add_def split: option.splits)

lemma decode_map_field_iff:
  assumes "entries_ok fs"
  shows "decode_map_field input (map_of fs, last_entry_key fs, offset) = Inr (m, pk, offset') \<longleftrightarrow>
    (\<exists>k v. entries_ok (fs @ [(k, v)]) \<and> m = map_of (fs @ [(k, v)]) \<and> pk = last_entry_key (fs @ [(k, v)])
      \<and> offset' = offset + length (entry_bytes (k, v)) \<and> (\<exists>rest. drop offset input = entry_bytes (k, v) @ rest))"
  (is "?L \<longleftrightarrow> ?R")
proof
  assume ?L
  then obtain k ak where k: "decode_scalar input offset = Inr (Scalar_Text k, ak)"
    by (auto simp: decode_map_field_def split: sum.splits decoded_scalar.splits)
  then obtain rest where kk: "scalar_ok (Scalar_Text k)" "ak = offset + length (encoded_text k)"
    "drop offset input = encoded_text k @ rest"
    by (auto simp: decode_scalar_iff)
  have key: "subspan input offset (ak - offset) = encoded_text k"
    by (simp add: subspan_drop kk(2,3))
  obtain v where order: "last_entry_key fs = [] \<or> spill_key_ordered (last_entry_key fs) (encoded_text k)"
    and v: "decode_scalar input ak = Inr (v, offset')" and fresh: "map_of fs k = None"
    and res: "m = (map_of fs)(k \<mapsto> v)" "pk = encoded_text k"
    using \<open>?L\<close> by (auto simp: decode_map_field_def k key Let_def result_simps split: if_splits)
  obtain rest' where vv: "scalar_ok v" "offset' = ak + length (scalar_bytes v)" "drop ak input = scalar_bytes v @ rest'"
    using v by (auto simp: decode_scalar_iff)
  have "rest = scalar_bytes v @ rest'"
    using content_at(1) [OF kk(3,2)] vv(3) by simp
  moreover have "entries_ok (fs @ [(k, v)])"
    using entries_ok_snoc [OF assms] kk(1) vv(1) order by blast
  ultimately show ?R
    using kk vv res map_of_snoc [OF fresh]
    by (intro exI [of _ k] exI [of _ v]) (simp add: entry_bytes_def last_entry_key_def)
next
  assume ?R
  then obtain k v rest where ok: "entries_ok (fs @ [(k, v)])"
    and res: "m = map_of (fs @ [(k, v)])" "pk = last_entry_key (fs @ [(k, v)])"
      "offset' = offset + length (entry_bytes (k, v))"
    and rest: "drop offset input = encoded_text k @ scalar_bytes v @ rest"
    by (auto simp: entry_bytes_def)
  note fresh = entries_ok_fresh [OF ok]
  have parts: "scalar_ok (Scalar_Text k)" "scalar_ok v"
    "last_entry_key fs = [] \<or> spill_key_ordered (last_entry_key fs) (encoded_text k)"
    using ok entries_ok_snoc [OF assms] by blast+
  define ak where "ak = offset + length (encoded_text k)"
  have "decode_scalar input offset = Inr (Scalar_Text k, ak)"
    using parts(1) rest by (subst decode_scalar_iff) (simp add: ak_def)
  moreover have "decode_scalar input ak = Inr (v, offset')"
    using parts(2) content_at(1) [OF rest ak_def] res(3) by (subst decode_scalar_iff) (simp add: ak_def entry_bytes_def)
  moreover have "subspan input offset (ak - offset) = encoded_text k"
    by (simp add: subspan_drop rest ak_def)
  ultimately show ?L
    using parts(3) res(1,2) fresh map_of_snoc [OF fresh]
    by (auto simp: decode_map_field_def Let_def last_entry_key_def)
qed

lemma decode_map_loop_iff:
  assumes "entries_ok fs0"
  shows "repeat_result n (decode_map_field input) (map_of fs0, last_entry_key fs0, offset) = Inr (m, pk, offset') \<longleftrightarrow>
    (\<exists>fs. length fs = n \<and> entries_ok (fs0 @ fs) \<and> m = map_of (fs0 @ fs) \<and> pk = last_entry_key (fs0 @ fs)
      \<and> offset' = offset + length (concat (map entry_bytes fs))
      \<and> (\<exists>rest. drop offset input = concat (map entry_bytes fs) @ rest))"
  using assms
proof (induction n arbitrary: fs0 offset)
  case 0
  then show ?case by auto
next
  case (Suc n)
  have "repeat_result (Suc n) (decode_map_field input) (map_of fs0, last_entry_key fs0, offset) = Inr (m, pk, offset') \<longleftrightarrow>
    (\<exists>k v. entries_ok (fs0 @ [(k, v)]) \<and> (\<exists>rest. drop offset input = entry_bytes (k, v) @ rest)
      \<and> repeat_result n (decode_map_field input) (map_of (fs0 @ [(k, v)]), last_entry_key (fs0 @ [(k, v)]),
          offset + length (entry_bytes (k, v))) = Inr (m, pk, offset'))"
    using decode_map_field_iff [OF Suc.prems] by (fastforce simp: and_then_Inr_iff)
  also have "\<dots> \<longleftrightarrow> (\<exists>k v fs. length fs = n \<and> entries_ok (fs0 @ (k, v) # fs) \<and> m = map_of (fs0 @ (k, v) # fs)
      \<and> pk = last_entry_key (fs0 @ (k, v) # fs) \<and> offset' = offset + length (concat (map entry_bytes ((k, v) # fs)))
      \<and> (\<exists>rest. drop offset input = concat (map entry_bytes ((k, v) # fs)) @ rest))" (is "?M \<longleftrightarrow> ?R")
  proof
    assume ?M
    then obtain k v rest where kv: "entries_ok (fs0 @ [(k, v)])" "drop offset input = entry_bytes (k, v) @ rest"
      "repeat_result n (decode_map_field input) (map_of (fs0 @ [(k, v)]), last_entry_key (fs0 @ [(k, v)]),
          offset + length (entry_bytes (k, v))) = Inr (m, pk, offset')" by blast
    then show ?R
      using Suc.IH [OF kv(1), of "offset + length (entry_bytes (k, v))"] content_at(1) [OF kv(2) refl] by force
  next
    assume ?R
    then obtain k v fs rest where kv: "length fs = n" "entries_ok (fs0 @ (k, v) # fs)" "m = map_of (fs0 @ (k, v) # fs)"
      "pk = last_entry_key (fs0 @ (k, v) # fs)" "offset' = offset + length (concat (map entry_bytes ((k, v) # fs)))"
      "drop offset input = entry_bytes (k, v) @ (concat (map entry_bytes fs) @ rest)" by auto
    have ok: "entries_ok (fs0 @ [(k, v)])"
      using kv(2) by (auto simp: entries_ok_def sorted_wrt_append)
    have "\<exists>fs. length fs = n \<and> entries_ok ((fs0 @ [(k, v)]) @ fs) \<and> m = map_of ((fs0 @ [(k, v)]) @ fs)
        \<and> pk = last_entry_key ((fs0 @ [(k, v)]) @ fs)
        \<and> offset' = offset + length (entry_bytes (k, v)) + length (concat (map entry_bytes fs))
        \<and> (\<exists>rest. drop (offset + length (entry_bytes (k, v))) input = concat (map entry_bytes fs) @ rest)"
      using kv(1-5) content_at(1) [OF kv(6) refl] by (intro exI [of _ fs]) simp
    then have "repeat_result n (decode_map_field input) (map_of (fs0 @ [(k, v)]), last_entry_key (fs0 @ [(k, v)]),
          offset + length (entry_bytes (k, v))) = Inr (m, pk, offset')"
      using Suc.IH [OF ok] by blast
    then show ?M
      using ok kv(6) by blast
  qed
  also have "\<dots> \<longleftrightarrow> (\<exists>fs. length fs = Suc n \<and> entries_ok (fs0 @ fs) \<and> m = map_of (fs0 @ fs) \<and> pk = last_entry_key (fs0 @ fs)
      \<and> offset' = offset + length (concat (map entry_bytes fs))
      \<and> (\<exists>rest. drop offset input = concat (map entry_bytes fs) @ rest))"
    by (fastforce simp: length_Suc_conv)
  finally show ?case .
qed

lemma decode_map_iff:
  "decode_map input = Inr m \<longleftrightarrow> (\<exists>fs. length fs = 11 \<and> entries_ok fs \<and> m = map_of fs
    \<and> input = append_head Map_Fields 11 @ concat (map entry_bytes fs))" (is "?L \<longleftrightarrow> ?R")
proof -
  have loop: "repeat_result 11 (decode_map_field input) (Map.empty, [], b) = Inr (m, pk, e) \<longleftrightarrow>
      (\<exists>fs. length fs = 11 \<and> entries_ok fs \<and> m = map_of fs \<and> pk = last_entry_key fs
        \<and> e = b + length (concat (map entry_bytes fs)) \<and> (\<exists>rest. drop b input = concat (map entry_bytes fs) @ rest))"
    for b pk e
    using decode_map_loop_iff [of "[]" 11 input b m pk e] by (simp add: entries_ok_def last_entry_key_def)
  show ?thesis
  proof
    assume L: ?L
    then have ne: "input \<noteq> []" and kind: "major_of (drop_bit 5 (input ! 0)) = Map_Fields"
      by (auto simp: decode_map_def Let_def hd_conv_nth split: if_splits)
    obtain b pk e where arg: "decode_argument input 1 (input ! 0 AND 0x1f) = Inr (11, b)"
      and rep: "repeat_result 11 (decode_map_field input) (Map.empty, [], b) = Inr (m, pk, e)" and e: "e = length input"
      using L ne by (auto simp: decode_map_def Let_def hd_conv_nth result_simps split: if_splits)
    have "0 < length input \<and> major_of (drop_bit 5 (input ! 0)) = Map_Fields
       \<and> decode_argument input (0 + 1) (input ! 0 AND 0x1f) = Inr (11, b)"
      using ne kind arg by simp
    then obtain rest where rest: "input = append_head Map_Fields 11 @ rest" "b = length (append_head Map_Fields 11)"
      unfolding decode_head_iff by auto
    obtain fs rest' where fs: "length fs = 11" "entries_ok fs" "m = map_of fs"
      "e = b + length (concat (map entry_bytes fs))" "drop b input = concat (map entry_bytes fs) @ rest'"
      using rep loop by blast
    have "rest = concat (map entry_bytes fs) @ rest'"
      using fs(5) rest by simp
    moreover have "length rest = length (concat (map entry_bytes fs))"
      using e fs(4) rest by simp
    ultimately show ?R
      using fs(1-3) rest(1) by auto
  next
    assume ?R
    then obtain fs where fs: "length fs = 11" "entries_ok fs" "m = map_of fs"
      "input = append_head Map_Fields 11 @ concat (map entry_bytes fs)" by blast
    define b where "b = length (append_head Map_Fields 11)"
    have "0 < length input \<and> major_of (drop_bit 5 (input ! 0)) = Map_Fields
       \<and> decode_argument input (0 + 1) (input ! 0 AND 0x1f) = Inr (11, b)"
      by (subst decode_head_iff) (simp add: fs(4) b_def)
    then have head: "input \<noteq> []" "major_of (drop_bit 5 (input ! 0)) = Map_Fields"
      "decode_argument input 1 (input ! 0 AND 0x1f) = Inr (11, b)" by auto
    have "repeat_result 11 (decode_map_field input) (Map.empty, [], b) = Inr (m, last_entry_key fs, length input)"
      using fs unfolding loop by (intro exI [of _ fs]) (simp add: b_def)
    then show ?L
      using head by (simp add: decode_map_def hd_conv_nth)
  qed
qed

section \<open>Records as maps\<close>

text \<open>The entries of a record in the order of the encoded map.\<close>

definition record_entries :: "ng1_spill_record \<Rightarrow> scalar_fields" where
  "record_entries r =
    [(''schema'', Scalar_Text (sx_schema r)), (''task_id'', Scalar_Text (sx_task_id r)),
     (''batch_id'', Scalar_Text (sx_batch_id r)), (''sequence'', Scalar_Uint (sx_sequence r)),
     (''stream_id'', Scalar_Uint (sx_stream_id r)), (''payload_bytes'', Scalar_Bytes (sx_payload_bytes r)),
     (''record_digest'', Scalar_Text (sx_record_digest r)), (''payload_digest'', Scalar_Text (sx_payload_digest r)),
     (''record_ordinal'', Scalar_Uint (sx_record_ordinal r)),
     (''dependency_group_id'', Scalar_Text (sx_dependency_group_id r)),
     (''atomic_output_group_id'', Scalar_Text (sx_atomic_output_group_id r))]"

definition record_keys :: "string list" where
  "record_keys = [''schema'', ''task_id'', ''batch_id'', ''sequence'', ''stream_id'', ''payload_bytes'',
    ''record_digest'', ''payload_digest'', ''record_ordinal'', ''dependency_group_id'', ''atomic_output_group_id'']"

lemma record_entries_keys: "map fst (record_entries r) = record_keys"
  by (simp add: record_entries_def record_keys_def)

lemma record_keys_sorted: "sorted_wrt key_before record_keys"
  by (simp add: record_keys_def key_before_short) code_simp

lemma record_keys_valid: "list_all (\<lambda>k. sdk_valid_utf8 (bytes_of k)) record_keys"
  by code_simp

lemma record_keys_distinct: "distinct record_keys"
  by (rule sorted_keys_distinct) (rule record_keys_sorted)

lemma map_field_iff [result_simps]:
  "map_field get decoded name = Inr x \<longleftrightarrow> (\<exists>scalar. decoded name = Some scalar \<and> get scalar = Some x)"
  by (auto simp: map_field_def split: option.splits)

lemma get_scalar_iff:
  "get_uint scalar = Some v \<longleftrightarrow> scalar = Scalar_Uint v" "get_text scalar = Some t \<longleftrightarrow> scalar = Scalar_Text t"
  "get_bytes scalar = Some bs \<longleftrightarrow> scalar = Scalar_Bytes bs"
  by (auto simp: get_uint_def get_text_def get_bytes_def split: decoded_scalar.splits)

lemma spill_record_of_map_iff:
  "spill_record_of_map m = Inr r \<longleftrightarrow> list_all (\<lambda>(k, v). m k = Some v) (record_entries r)"
  by (cases r) (auto simp: spill_record_of_map_def result_simps get_scalar_iff record_entries_def)

lemma entries_of_record:
  assumes "length fs = 11" "entries_ok fs" "spill_record_of_map (map_of fs) = Inr r"
  shows "fs = record_entries r"
proof -
  have found: "map_of fs k = Some v" if "(k, v) \<in> set (record_entries r)" for k v
    using assms(3) that by (auto simp: spill_record_of_map_iff list_all_iff)
  have sorted: "sorted_wrt key_before (map fst fs)"
    using assms(2) by (simp add: entries_ok_def)
  have "set record_keys \<subseteq> set (map fst fs)"
  proof
    fix k assume "k \<in> set record_keys"
    then obtain v where "(k, v) \<in> set (record_entries r)"
      using record_entries_keys by (metis imageE prod.collapse set_map)
    then show "k \<in> set (map fst fs)"
      using found by (metis image_eqI map_of_SomeD set_map fst_conv)
  qed
  moreover have "card (set record_keys) = 11" "card (set (map fst fs)) = 11"
    using distinct_card [OF record_keys_distinct] distinct_card [OF sorted_keys_distinct [OF sorted]] assms(1)
    by (simp_all add: record_keys_def)
  ultimately have "set record_keys = set (map fst fs)"
    by (intro card_subset_eq) simp_all
  then have keys: "map fst fs = map fst (record_entries r)"
    using sorted_keys_unique [OF sorted record_keys_sorted] by (simp add: record_entries_keys)
  have "map snd fs = map snd (record_entries r)"
  proof (rule nth_equalityI)
    show len: "length (map snd fs) = length (map snd (record_entries r))"
      using arg_cong [OF keys, of length] by simp
    fix i assume i: "i < length (map snd fs)"
    then have "(fst (fs ! i), snd (record_entries r ! i)) \<in> set (record_entries r)"
      using len arg_cong [OF keys, of "\<lambda>xs. xs ! i"] by (metis length_map nth_map nth_mem prod.collapse)
    moreover have "map_of fs (fst (fs ! i)) = Some (snd (fs ! i))"
      using i sorted_keys_distinct [OF sorted] by (simp add: map_of_is_SomeI)
    ultimately show "map snd fs ! i = map snd (record_entries r) ! i"
      using found i len by auto
  qed
  then show ?thesis
    using keys by (metis zip_map_fst_snd)
qed

text \<open>The body of an encoded record.\<close>

definition record_body :: "ng1_spill_record \<Rightarrow> bytes" where
  "record_body r = append_head Map_Fields 11 @ concat (map entry_bytes (record_entries r))"

lemma record_digest_facts:
  assumes "ng1_spill_record_digest r = Inr d"
  shows "sx_schema r = spill_schema" "ng1_spill_payload_digest (sx_payload_bytes r) = Inr (sx_payload_digest r)"
  using assms by (auto simp: ng1_spill_record_digest_def result_simps split: if_splits)

lemma decode_spill_record_iff:
  "decode_spill_record body = Inr r \<longleftrightarrow> entries_ok (record_entries r)
    \<and> ng1_spill_record_digest r = Inr (sx_record_digest r) \<and> body = record_body r" (is "?L \<longleftrightarrow> ?R")
proof
  assume ?L
  then obtain m where m: "decode_map body = Inr m" "spill_record_of_map m = Inr r"
    and digest: "ng1_spill_record_digest r = Inr (sx_record_digest r)"
    by (auto simp: decode_spill_record_def result_simps split: if_splits)
  then obtain fs where fs: "length fs = 11" "entries_ok fs" "m = map_of fs"
    "body = append_head Map_Fields 11 @ concat (map entry_bytes fs)"
    by (auto simp: decode_map_iff)
  then have "fs = record_entries r"
    using m(2) by (intro entries_of_record) simp_all
  then show ?R
    using fs digest by (simp add: record_body_def)
next
  assume R: ?R
  have "decode_map body = Inr (map_of (record_entries r))"
    using R by (subst decode_map_iff) (intro exI [of _ "record_entries r"], simp add: record_body_def,
        simp add: record_entries_def)
  moreover have "spill_record_of_map (map_of (record_entries r)) = Inr r"
    using R sorted_keys_distinct [of "map fst (record_entries r)"]
    by (auto simp: spill_record_of_map_iff list_all_iff entries_ok_def)
  ultimately show ?L
    using R record_digest_facts [of r] by (simp add: decode_spill_record_def)
qed

lemma add_entry_iff [result_simps]:
  "add_text k t so_far = Inr x \<longleftrightarrow> sdk_valid_utf8 (bytes_of k) \<and> sdk_valid_utf8 (bytes_of t)
     \<and> x = so_far @ [(encoded_text k, scalar_bytes (Scalar_Text t))]"
  "add_uint k v so_far = Inr x \<longleftrightarrow> sdk_valid_utf8 (bytes_of k)
     \<and> x = so_far @ [(encoded_text k, scalar_bytes (Scalar_Uint v))]"
  "add_bytes k bs so_far = Inr x \<longleftrightarrow> sdk_valid_utf8 (bytes_of k)
     \<and> x = so_far @ [(encoded_text k, scalar_bytes (Scalar_Bytes bs))]"
  by (auto simp: add_text_def add_uint_def add_bytes_def cbor_text_def cbor_byte_string_def result_simps
      validate_utf8_text_def append_cbor_head_eq encoded_text_def)

text \<open>The order in which \<open>encode_spill_record\<close> collects the fields, before it sorts them.\<close>

definition source_entries :: "ng1_spill_record \<Rightarrow> scalar_fields" where
  "source_entries r =
    [(''schema'', Scalar_Text (sx_schema r)), (''record_ordinal'', Scalar_Uint (sx_record_ordinal r)),
     (''task_id'', Scalar_Text (sx_task_id r)), (''dependency_group_id'', Scalar_Text (sx_dependency_group_id r)),
     (''atomic_output_group_id'', Scalar_Text (sx_atomic_output_group_id r)),
     (''batch_id'', Scalar_Text (sx_batch_id r)), (''stream_id'', Scalar_Uint (sx_stream_id r)),
     (''sequence'', Scalar_Uint (sx_sequence r)), (''payload_bytes'', Scalar_Bytes (sx_payload_bytes r)),
     (''payload_digest'', Scalar_Text (sx_payload_digest r)), (''record_digest'', Scalar_Text (sx_record_digest r))]"

lemma source_entries_sorted: "sort_key key_rank (source_entries r) = record_entries r"
proof (rule properties_for_sort_key)
  show same: "mset (record_entries r) = mset (source_entries r)"
    by (simp add: record_entries_def source_entries_def)
  have "sorted_wrt key_before (map fst (record_entries r))"
    by (simp add: record_entries_keys record_keys_sorted)
  then have strict: "sorted_wrt (<) (map key_rank (record_entries r))"
    by (simp add: map_rank_sorted)
  then show "sorted (map key_rank (record_entries r))"
    by (simp add: strict_sorted_iff)
  fix k assume "k \<in> set (record_entries r)"
  have one: "filter (\<lambda>x. key_rank k = key_rank x) xs = [k]"
    if "k \<in> set xs" "distinct (map key_rank xs)" for xs :: scalar_fields
    using that by (induction xs) (auto simp: filter_empty_conv rev_image_eqI)
  have "distinct (map key_rank (record_entries r))"
    using strict by (simp add: strict_sorted_iff)
  moreover from this have "distinct (map key_rank (source_entries r))"
    using same by (metis mset_eq_imp_distinct_iff mset_map)
  moreover have "k \<in> set (source_entries r)"
    using \<open>k \<in> set (record_entries r)\<close> by (auto simp: record_entries_def source_entries_def)
  ultimately show "filter (\<lambda>x. key_rank k = key_rank x) (record_entries r)
      = filter (\<lambda>x. key_rank k = key_rank x) (source_entries r)"
    using one \<open>k \<in> set (record_entries r)\<close> by metis
qed

lemma sorted_record_entries:
  "sort_entries (map (\<lambda>entry. (encoded_text (fst entry), scalar_bytes (snd entry))) (source_entries r))
    = map (\<lambda>entry. (encoded_text (fst entry), scalar_bytes (snd entry))) (record_entries r)"
proof -
  have "sort_entries (map (\<lambda>entry. (encoded_text (fst entry), scalar_bytes (snd entry))) (source_entries r))
      = map (\<lambda>entry. (fst entry, scalar_bytes (snd entry)))
          (sort_entries (map (\<lambda>entry. (encoded_text (fst entry), snd entry)) (source_entries r)))"
    unfolding sort_entries_def by (simp add: sort_key_map)
  then show ?thesis
    unfolding sort_entries_fields source_entries_sorted by simp
qed

text \<open>The texts of a record.\<close>

definition record_texts_valid :: "ng1_spill_record \<Rightarrow> bool" where
  "record_texts_valid r = list_all (\<lambda>t. sdk_valid_utf8 (bytes_of t))
     [sx_schema r, sx_task_id r, sx_dependency_group_id r, sx_atomic_output_group_id r, sx_batch_id r,
      sx_payload_digest r, sx_record_digest r]"

lemma collected_entries_iff:
  "collected_fields r = Inr encoded \<longleftrightarrow>
    record_texts_valid r
    \<and> encoded = map (\<lambda>entry. (encoded_text (fst entry), scalar_bytes (snd entry))) (source_entries r)"
proof -
  have keys: "sdk_valid_utf8 (bytes_of k)" if "k \<in> set record_keys" for k
    using record_keys_valid that by (simp add: list_all_iff)
  note valid = keys [unfolded record_keys_def, simplified]
  show ?thesis
    by (simp add: collected_fields_def and_then_Inr_iff add_entry_iff keys record_keys_def record_texts_valid_def source_entries_def
        del: list.map) auto
qed


section \<open>Exact sizes\<close>

lemma length_encoded_text: "length (encoded_text t) = unat (cbor_head_bytes (word_of_nat (length t))) + length t"
  by (simp add: encoded_text_def length_append_head)

lemma head_bytes_small: "unat (cbor_head_bytes v) \<le> 9"
  by (simp add: cbor_head_bytes_def)

text \<open>\<open>add\<close> charges \<open>n\<close> bytes, without wrap-around when the sum fits.\<close>

definition charges :: "(u64 \<Rightarrow> u64 result) \<Rightarrow> nat \<Rightarrow> bool" where
  "charges add n = (\<forall>so_far. unat so_far + n < 2 ^ 64 \<longrightarrow>
     (\<exists>wire_total. add so_far = Inr wire_total \<and> unat wire_total = unat so_far + n))"

lemma checked_add_exact:
  assumes "unat l + unat r < 2 ^ 64"
  shows "checked_spill_size_add l r field = Inr (l + r)" "unat (l + r) = unat l + unat r"
  using assms by (simp_all add: checked_spill_size_add_iff unat_u64_plus)

lemma string_size_exact:
  assumes "unat (cbor_head_bytes (word_of_nat n)) + n < 2 ^ 64"
  shows "\<exists>m. checked_spill_size_add (cbor_head_bytes (word_of_nat n)) (word_of_nat n) field = Inr m
    \<and> unat m = unat (cbor_head_bytes (word_of_nat n)) + n"
proof -
  have n: "unat (word_of_nat n :: u64) = n"
    using assms by (simp add: unat_of_nat)
  then show ?thesis
    using assms by (intro exI [of _ "cbor_head_bytes (word_of_nat n) + word_of_nat n"])
      (simp add: checked_add_exact)
qed

lemma charges_pair:
  assumes "\<And>so_far. add so_far = and_then (cbor_text_bytes key ''record-key'') (\<lambda>key_bytes.
      and_then (value_size so_far) (\<lambda>value_bytes.
      and_then (checked_spill_size_add so_far key_bytes key) (\<lambda>s. checked_spill_size_add s value_bytes key)))"
    and "\<And>so_far. unat so_far + n < 2 ^ 64 \<Longrightarrow> \<exists>m. value_size so_far = Inr m \<and> unat m = n"
  shows "charges add (length (encoded_text key) + n)"
  unfolding charges_def
proof (intro allI impI)
  fix so_far :: u64
  assume fits: "unat so_far + (length (encoded_text key) + n) < 2 ^ 64"
  have "unat (cbor_head_bytes (word_of_nat (length key))) + length key < 2 ^ 64"
    using fits by (simp add: length_encoded_text)
  then obtain k where k: "cbor_text_bytes key ''record-key'' = Inr k" "unat k = length (encoded_text key)"
    using string_size_exact [of "length key" "''record-key''"] by (auto simp: cbor_text_bytes_def Let_def length_encoded_text)
  obtain m where m: "value_size so_far = Inr m" "unat m = n"
    using assms(2) [of so_far] fits by auto
  have "checked_spill_size_add so_far k key = Inr (so_far + k)" "unat (so_far + k) = unat so_far + unat k"
    using k(2) fits by (simp_all add: checked_add_exact)
  moreover from this have "checked_spill_size_add (so_far + k) m key = Inr (so_far + k + m)"
    "unat (so_far + k + m) = unat so_far + unat k + unat m"
    using k(2) m(2) fits by (simp_all add: checked_add_exact)
  ultimately show "\<exists>wire_total. add so_far = Inr wire_total \<and> unat wire_total = unat so_far + (length (encoded_text key) + n)"
    using k m by (simp add: assms(1))
qed

lemma charges_entries:
  "charges (add_text_pair key t) (length (entry_bytes (key, Scalar_Text t)))"
  "charges (add_uint_pair key v) (length (entry_bytes (key, Scalar_Uint v)))"
  "charges (add_bytes_pair key bs) (length (entry_bytes (key, Scalar_Bytes bs)))"
  unfolding entry_bytes_def fst_conv snd_conv length_append scalar_bytes.simps
proof -
  show "charges (add_text_pair key t) (length (encoded_text key) + length (encoded_text t))"
    using string_size_exact [of "length t" key]
    by (intro charges_pair [where value_size = "\<lambda>_. cbor_text_bytes t key"])
      (auto simp: add_text_pair_def cbor_text_bytes_def Let_def length_encoded_text)
  show "charges (add_uint_pair key v) (length (encoded_text key) + length (append_head Unsigned_Integer v))"
    by (intro charges_pair [where value_size = "\<lambda>_. Inr (cbor_head_bytes v)"])
      (auto simp: add_uint_pair_def length_append_head)
  show "charges (add_bytes_pair key bs) (length (encoded_text key)
      + (length (append_head Byte_Str (word_of_nat (length bs))) + length bs))"
    using string_size_exact [of "length bs" key]
    by (intro charges_pair [where value_size = "\<lambda>_. cbor_bytes_bytes bs key"])
      (auto simp: add_bytes_pair_def cbor_bytes_bytes_def Let_def length_append_head)
qed

lemma charges_fold:
  assumes "list_all2 charges adds ns" "unat so_far + sum_list ns < 2 ^ 64"
  shows "\<exists>wire_total. try_fold (\<lambda>add. add) adds so_far = Inr wire_total \<and> unat wire_total = unat so_far + sum_list ns"
  using assms
proof (induction arbitrary: so_far rule: list_all2_induct)
  case Nil
  then show ?case by simp
next
  case (Cons add adds n ns)
  moreover have "unat so_far + n < 2 ^ 64"
    using Cons.prems by simp
  ultimately obtain s where s: "add so_far = Inr s" "unat s = unat so_far + n"
    unfolding charges_def by blast
  then show ?case
    using Cons.IH [of s] Cons.prems by (simp add: add.assoc)
qed

lemma source_entries_size: "sum_list (map (\<lambda>entry. length (entry_bytes entry)) (source_entries r))
    = length (concat (map entry_bytes (record_entries r)))"
  by (simp add: source_entries_def record_entries_def)

text \<open>The size that the prefix charges is the size of the encoding.\<close>

lemma wire_bytes_exact:
  assumes "8 + length (record_body r) < 2 ^ 64"
  shows "\<exists>n. spill_record_wire_bytes r = Inr n \<and> unat n = 8 + length (record_body r)"
proof -
  have head: "length (append_head Map_Fields 11) = 1" "unat (cbor_head_bytes 11 + 8) = 9"
    by code_simp+
  have fits: "unat (cbor_head_bytes 11 + 8) + sum_list (map (\<lambda>entry. length (entry_bytes entry)) (source_entries r)) < 2 ^ 64"
    using assms unfolding source_entries_size by (simp add: record_body_def head)
  have "\<exists>n. spill_record_wire_bytes r = Inr n \<and> unat n = unat (cbor_head_bytes 11 + 8)
      + sum_list (map (\<lambda>entry. length (entry_bytes entry)) (source_entries r))"
    unfolding spill_record_wire_bytes_def
    by (rule charges_fold) (simp add: source_entries_def charges_entries, rule fits)
  then show ?thesis
    unfolding source_entries_size by (simp add: record_body_def head)
qed

section \<open>The framed record format\<close>

lemma length_entry_member: "(k, v) \<in> set fs \<Longrightarrow> length (scalar_bytes v) \<le> length (concat (map entry_bytes fs))"
  by (induction fs) (auto simp: entry_bytes_def)

lemma record_entries_ok:
  assumes "record_texts_valid r" "length (record_body r) < 2 ^ 64"
  shows "entries_ok (record_entries r)"
proof -
  have small: "length (scalar_bytes v) < 2 ^ 64" if "(k, v) \<in> set (record_entries r)" for k v
    using length_entry_member [OF that] assms(2) by (simp add: record_body_def)
  have "scalar_ok v" if "(k, v) \<in> set (record_entries r)" for k v
    using assms(1) small [OF that] that
    by (auto simp: record_entries_def record_texts_valid_def length_encoded_text)
  moreover have "scalar_ok (Scalar_Text k)" if "(k, v) \<in> set (record_entries r)" for k v
  proof -
    have "k \<in> set record_keys"
      using that record_entries_keys [of r] by (metis image_eqI set_map fst_conv)
    then show ?thesis
      using record_keys_valid by (auto simp: record_keys_def)
  qed
  ultimately show ?thesis
    by (auto simp: entries_ok_def record_entries_keys record_keys_sorted list_all_iff)
qed

lemma record_entries_valid: "entries_ok (record_entries r) \<Longrightarrow> record_texts_valid r"
  by (simp add: entries_ok_def record_entries_def record_texts_valid_def)

lemma maximum_record_bytes [simp]: "unat ng1_spill_maximum_record_bytes = 16777216"
  by (simp add: ng1_spill_maximum_record_bytes_def)

lemma encode_spill_record_iff:
  "encode_spill_record r = Inr w \<longleftrightarrow> (\<exists>d. ng1_spill_record_digest r = Inr d) \<and> record_texts_valid r
    \<and> 8 + length (record_body r) \<le> 16777216 \<and> w = be_bytes 8 (word_of_nat (length (record_body r))) @ record_body r"
proof -
  let ?encoded = "map (\<lambda>entry. (encoded_text (fst entry), scalar_bytes (snd entry))) (source_entries r)"
  have body: "append_cbor_head Map_Fields (word_of_nat (length ?encoded))
      @ concat (map (\<lambda>(key, value). key @ value) (sort_entries ?encoded)) = record_body r"
    unfolding sorted_record_entries append_cbor_head_eq record_body_def
    by (simp add: source_entries_def comp_def entry_bytes_def [symmetric])
  have quota: "validate_spill_record_wire_quota r = Inr ()" if "8 + length (record_body r) \<le> 16777216"
    using wire_bytes_exact [of r] that by (auto simp: wire_quota_eq word_less_nat_alt)
  show ?thesis
  proof (cases "record_texts_valid r")
    case True
    then have "collected_fields r = Inr ?encoded"
      by (simp add: collected_entries_iff)
    then have "encode_spill_record r =
      (if sx_schema r \<noteq> spill_schema then Inl (spill_corrupt ''schema'' ''unexpected'')
       else and_then (validate_spill_record_wire_quota r) (\<lambda>_.
       and_then (ng1_spill_record_digest r) (\<lambda>_.
       if length (record_body r) > 16777216 - 8 then Inl (spill_corrupt ''record_bytes'' ''record-quota'')
       else Inr (be_bytes 8 (word_of_nat (length (record_body r))) @ record_body r))))"
      by (simp only: encode_spill_record_def and_then_simps Let_def body maximum_record_bytes
          spill_length_prefix_bytes_def)
    then show ?thesis
      using True record_digest_facts(1) [of r] quota
      by (auto simp: and_then_Inr_iff split: if_splits)
  next
    case False
    then obtain e where "collected_fields r = Inl e"
      using collected_entries_iff [of r] by (cases "collected_fields r") auto
    then show ?thesis
      using False by (auto simp: encode_spill_record_def and_then_Inr_iff split: if_splits)
  qed
qed

lemma record_body_nonempty [simp]: "record_body r \<noteq> []"
  by (simp add: record_body_def)

lemma decode_framed_record_iff:
  "decode_framed_record input off = Inr (r, off') \<longleftrightarrow>
    (\<exists>w rest. encode_spill_record r = Inr w \<and> ng1_spill_record_digest r = Inr (sx_record_digest r)
      \<and> off \<le> length input \<and> drop off input = w @ rest \<and> off' = off + length w)" (is "?L \<longleftrightarrow> ?R")
proof
  let ?n = "unat (be_value (subspan input off 8))"
  assume ?L
  then have l: "off + 8 \<le> length input" "?n \<le> 16777216 - 8" "?n \<le> length input - (off + 8)"
    "decode_spill_record (subspan input (off + 8) ?n) = Inr r" "off' = off + 8 + ?n"
    by (auto simp: decode_framed_record_def spill_length_prefix_bytes_def Let_def result_simps split: if_splits)
  have body: "entries_ok (record_entries r)" "ng1_spill_record_digest r = Inr (sx_record_digest r)"
    "subspan input (off + 8) ?n = record_body r"
    using l(4) by (simp_all add: decode_spill_record_iff)
  have len: "length (record_body r) = ?n"
    using body(3) l(1,3) by (metis add_le_imp_le_diff le_diff_conv2 length_subspan add.commute)
  have prefix: "be_bytes 8 (word_of_nat (length (record_body r))) = subspan input off 8"
    unfolding len using be_bytes_subspan [of off 8 input] l(1) by simp
  have "drop off input = subspan input off 8 @ subspan input (off + 8) ?n @ drop (off + 8 + ?n) input"
    by (simp add: subspan_chain)
  then have "drop off input = (be_bytes 8 (word_of_nat (length (record_body r))) @ record_body r) @ drop (off + 8 + ?n) input"
    by (simp add: prefix body(3))
  then show ?R
    using l(1,2,5) body len record_entries_valid
    by (intro exI [of _ "be_bytes 8 (word_of_nat (length (record_body r))) @ record_body r"]
        exI [of _ "drop (off + 8 + ?n) input"]) (auto simp: encode_spill_record_iff)
next
  assume ?R
  then obtain rest where r: "ng1_spill_record_digest r = Inr (sx_record_digest r)" "record_texts_valid r"
    "8 + length (record_body r) \<le> 16777216" "off \<le> length input"
    "drop off input = be_bytes 8 (word_of_nat (length (record_body r))) @ record_body r @ rest"
    "off' = off + 8 + length (record_body r)"
    by (auto simp: encode_spill_record_iff)
  have len: "length input - off = 8 + length (record_body r) + length rest"
    using arg_cong [OF r(5), of length] by simp
  have n: "unat (be_value (subspan input off 8)) = length (record_body r)"
    using r(3) by (simp add: subspan_drop r(5) unat_of_nat)
  have body: "subspan input (off + 8) (length (record_body r)) = record_body r"
    using content_at(1) [OF r(5), of "off + 8"] by (simp add: subspan_drop)
  have "decode_spill_record (record_body r) = Inr r"
    using r(1-3) record_entries_ok [of r] by (simp add: decode_spill_record_iff)
  then show ?L
    using r(3,4,6) len by (simp add: decode_framed_record_def spill_length_prefix_bytes_def Let_def n body)
qed

lemma semantic_digest_length: "valid_semantic_digest d \<Longrightarrow> length d = 83"
  by (auto simp: valid_semantic_digest_def semantic_digest_prefix_def)

section \<open>An example record\<close>

definition example_record :: "string \<Rightarrow> string \<Rightarrow> ng1_spill_record" where
  "example_record payload_digest record_digest = \<lparr>sx_schema = spill_schema, sx_record_ordinal = 0, sx_task_id = ''t'',
    sx_dependency_group_id = ''g'', sx_atomic_output_group_id = ''a'', sx_batch_id = ''b'', sx_stream_id = 1,
    sx_sequence = 0, sx_payload_bytes = [1, 2, 3], sx_payload_digest = payload_digest,
    sx_record_digest = record_digest\<rparr>"

lemma example_record_sels:
  "sx_schema (example_record pd rd) = spill_schema" "sx_record_ordinal (example_record pd rd) = 0"
  "sx_task_id (example_record pd rd) = ''t''" "sx_dependency_group_id (example_record pd rd) = ''g''"
  "sx_atomic_output_group_id (example_record pd rd) = ''a''" "sx_batch_id (example_record pd rd) = ''b''"
  "sx_stream_id (example_record pd rd) = 1" "sx_sequence (example_record pd rd) = 0"
  "sx_payload_bytes (example_record pd rd) = [1, 2, 3]" "sx_payload_digest (example_record pd rd) = pd"
  "sx_record_digest (example_record pd rd) = rd"
  by (simp_all add: example_record_def)

lemma example_record_digests:
  obtains pd rd where "ng1_spill_record_digest (example_record pd rd) = Inr rd" "valid_semantic_digest pd"
proof -
  have "spill_payload_domain \<noteq> []" "lower_letter (hd spill_payload_domain)" "list_all semantic_domain_char spill_payload_domain"
    by code_simp+
  then obtain pd where pd: "ng1_spill_payload_digest [1, 2, 3] = Inr pd"
    unfolding ng1_spill_payload_digest_def using semantic_digest_total by blast
  then have valid_pd: "valid_semantic_digest pd"
    by (auto simp: ng1_spill_payload_digest_def dest: semantic_digest_valid)
  have fields: "spill_record_fields (example_record pd rd) = spill_record_fields (example_record pd [])" for rd
    by (simp add: spill_record_fields_def example_record_def)
  have ids: "validate_strong_id ''t'' = Inr ()" "validate_strong_id ''g'' = Inr ()" "validate_strong_id ''a'' = Inr ()"
    "validate_strong_id ''b'' = Inr ()"
    by code_simp+
  have texts: "sdk_valid_utf8 (bytes_of spill_schema)" "sdk_valid_utf8 (bytes_of ''t'')" "sdk_valid_utf8 (bytes_of ''g'')"
    "sdk_valid_utf8 (bytes_of ''a'')" "sdk_valid_utf8 (bytes_of ''b'')"
    by code_simp+
  have "\<forall>v \<in> set (spill_record_fields (example_record pd [])). canonical_validate v = Inr ()"
    using texts digest_text_valid [OF valid_pd]
    by (simp add: spill_record_fields_def example_record_def canonical_text_def canonical_u64_def)
  moreover have "spill_record_domain \<noteq> []" "lower_letter (hd spill_record_domain)" "list_all semantic_domain_char spill_record_domain"
    by code_simp+
  ultimately obtain rd where rd: "semantic_tuple_digest spill_record_domain (spill_record_fields (example_record pd [])) = Inr rd"
    using semantic_tuple_digest_total by blast
  then have "semantic_tuple_digest spill_record_domain (spill_record_fields (example_record pd rd)) = Inr rd"
    using fields [of rd] by simp
  then have "ng1_spill_record_digest (example_record pd rd) = Inr rd"
    using pd ids by (simp add: ng1_spill_record_digest_def example_record_sels valid_id_def)
  then show thesis
    using that valid_pd by blast
qed

lemma example_record_encodes:
  obtains pd rd where "ng1_spill_record_digest (example_record pd rd) = Inr rd" "record_texts_valid (example_record pd rd)"
    "8 + length (record_body (example_record pd rd)) \<le> 2000"
proof -
  obtain pd rd where d: "ng1_spill_record_digest (example_record pd rd) = Inr rd" "valid_semantic_digest pd"
    by (rule example_record_digests)
  let ?r = "example_record pd rd"
  have valid_rd: "valid_semantic_digest rd"
    using d(1) by (rule spill_record_digest_valid)
  note lens = semantic_digest_length [OF d(2)] semantic_digest_length [OF valid_rd]
  have texts: "sdk_valid_utf8 (bytes_of spill_schema)" "sdk_valid_utf8 (bytes_of ''t'')" "sdk_valid_utf8 (bytes_of ''g'')"
    "sdk_valid_utf8 (bytes_of ''a'')" "sdk_valid_utf8 (bytes_of ''b'')"
    by code_simp+
  have head: "length (append_head k v) \<le> 9" for k v
    by (simp add: length_append_head head_bytes_small)
  have key: "length (encoded_text t) \<le> 9 + length t" for t
    using head by (simp add: encoded_text_def)
  have sizes: "length (entry_bytes (k, Scalar_Text t)) \<le> 18 + length k + length t"
    "length (entry_bytes (k, Scalar_Uint v)) \<le> 18 + length k"
    "length (entry_bytes (k, Scalar_Bytes bs)) \<le> 18 + length k + length bs" for k t v bs
    using key [of k] key [of t] head [of Unsigned_Integer v] head [of Byte_Str "word_of_nat (length bs)"]
    by (simp_all add: entry_bytes_def)
  have "length (concat (map entry_bytes (record_entries ?r))) \<le> 1000"
    using sizes(1) [of "''schema''" spill_schema] sizes(1) [of "''task_id''" "''t''"] sizes(1) [of "''batch_id''" "''b''"]
      sizes(2) [of "''sequence''" 0] sizes(2) [of "''stream_id''" 1] sizes(3) [of "''payload_bytes''" "[1, 2, 3]"]
      sizes(1) [of "''record_digest''" rd] sizes(1) [of "''payload_digest''" pd] sizes(2) [of "''record_ordinal''" 0]
      sizes(1) [of "''dependency_group_id''" "''g''"] sizes(1) [of "''atomic_output_group_id''" "''a''"]
    by (simp add: record_entries_def example_record_sels lens spill_schema_def)
  then have small: "8 + length (record_body ?r) \<le> 2000"
    using head [of Map_Fields 11] by (simp add: record_body_def)
  have "record_texts_valid ?r"
    using texts digest_text_valid [OF d(2)] digest_text_valid [OF valid_rd]
    by (simp add: record_texts_valid_def example_record_sels)
  then show thesis
    using that d(1) small by blast
qed

section \<open>Properties\<close>

text \<open>
  C27: the framed record format is exact. Reading a record at an offset of the log succeeds with that record
  and that end exactly when the bytes in between are the encoder's output for it and its digest is its own;
  so a log has one reading, and no byte of an accepted record is free.
\<close>

theorem spill_record_framing_exact:
  "decode_framed_record input off = Inr (r, off') \<longleftrightarrow> off \<le> off' \<and> off' \<le> length input
    \<and> encode_spill_record r = Inr (subspan input off (off' - off))
    \<and> ng1_spill_record_digest r = Inr (sx_record_digest r)" (is "?L \<longleftrightarrow> ?R")
proof
  assume ?L
  then obtain w rest where w: "encode_spill_record r = Inr w" "ng1_spill_record_digest r = Inr (sx_record_digest r)"
    "off \<le> length input" "drop off input = w @ rest" "off' = off + length w"
    unfolding decode_framed_record_iff by blast
  have "length input - off = length w + length rest"
    using arg_cong [OF w(4), of length] by simp
  moreover have "subspan input off (off' - off) = w"
    by (simp add: subspan_drop w(4,5))
  ultimately show ?R
    using w by simp
next
  assume R: ?R
  have "drop off input = subspan input off (off' - off) @ drop off' input"
    using R subspan_chain [of input off "off' - off"] by simp
  moreover have "off' = off + length (subspan input off (off' - off))"
    using R by (simp add: length_subspan)
  ultimately show ?L
    using R unfolding decode_framed_record_iff by (metis le_trans)
qed

text \<open>
  C28: the bytes the prefix charges for a record are the bytes the port writes for it. Whenever a record can be
  encoded, the allocation-free size computation, which runs first and on attacker-controlled sizes, returns
  the exact length of the framed encoding, without wrap-around and within the record quota.
\<close>

theorem spill_wire_size_exact:
  assumes "encode_spill_record r = Inr wire"
  shows "spill_record_wire_bytes r = Inr (word_of_nat (length wire)) \<and> length wire \<le> 16777216
    \<and> validate_spill_record_wire_quota r = Inr ()"
proof -
  have size: "length wire = 8 + length (record_body r)" "8 + length (record_body r) \<le> 16777216"
    using assms by (auto simp: encode_spill_record_iff)
  then obtain n where n: "spill_record_wire_bytes r = Inr n" "unat n = length wire"
    using wire_bytes_exact [of r] by auto
  have "n = word_of_nat (length wire)"
    by (simp flip: n(2))
  moreover have "\<not> n > ng1_spill_maximum_record_bytes"
    using n(2) size by (simp add: word_less_nat_alt)
  ultimately show ?thesis
    using n size by (simp add: wire_quota_eq)
qed

lemma spill_wire_size_exact_witness:
  "\<exists>r wire. encode_spill_record r = Inr wire \<and> spill_record_wire_bytes r = Inr (word_of_nat (length wire))"
proof -
  obtain pd rd where d: "ng1_spill_record_digest (example_record pd rd) = Inr rd" "record_texts_valid (example_record pd rd)"
    "8 + length (record_body (example_record pd rd)) \<le> 2000"
    by (rule example_record_encodes)
  then have "\<exists>wire. encode_spill_record (example_record pd rd) = Inr wire"
    by (auto simp: encode_spill_record_iff)
  then show ?thesis
    using spill_wire_size_exact by blast
qed

end
