(* ===== verification/Ng1_Spill_Metadata.thy ===== *)
theory Ng1_Spill_Metadata
  imports Ng1_Spill_Codec
begin

text \<open>
  \<open>src/sdk/provider_ng1_spill_port_internal.cpp\<close>, the two metadata files beside the spill log: the commit
  (how many bytes of the log are durable, and the fsync that made them so) and the resume frontier (the
  last receipt handed out and its resume generation). The lemmas show that each file has exactly one
  spelling per value, and that every valid frontier can be written and read back.
\<close>

section \<open>The commit file\<close>

definition spill_metadata_magic :: string where "spill_metadata_magic = ''CXXLNG1S''"
definition spill_frontier_magic :: string where "spill_frontier_magic = ''CXXLNG1F''"
definition spill_maximum_metadata_bytes :: nat where "spill_maximum_metadata_bytes = 64 * 1024"
definition spill_maximum_metadata_string_bytes :: u64 where "spill_maximum_metadata_string_bytes = 4 * 1024"

definition has_magic :: "bytes \<Rightarrow> string \<Rightarrow> bool" where
  "has_magic input magic =
    (if length input < length magic then False
     else list_all (\<lambda>i. input ! i = byte_of_char (magic ! i)) [0..<length magic])"

definition encode_commit_metadata :: "u64 \<Rightarrow> u64 \<Rightarrow> bytes" where
  "encode_commit_metadata byte_count fsync_sequence =
    bytes_of spill_metadata_magic @ be_bytes 8 byte_count @ be_bytes 8 fsync_sequence"

definition decode_commit_metadata :: "bytes \<Rightarrow> (u64 \<times> u64) result" where
  "decode_commit_metadata input =
    (if length input \<noteq> length spill_metadata_magic + 16 \<or> \<not> has_magic input spill_metadata_magic
     then Inl (spill_corrupt ''commit'' ''header'')
     else let byte_count = be_value (subspan input (length spill_metadata_magic) 8);
              fsync_sequence = be_value (subspan input (length spill_metadata_magic + 8) 8)
       in if byte_count > ng1_spill_maximum_total_bytes then Inl (spill_corrupt ''commit'' ''total-quota'')
          else Inr (byte_count, fsync_sequence))"

section \<open>The frontier file\<close>

definition metadata_string :: "string \<Rightarrow> bytes" where
  "metadata_string value = be_bytes 8 (word_of_nat (length value)) @ bytes_of value"

definition read_metadata_string :: "bytes \<Rightarrow> nat \<Rightarrow> string \<Rightarrow> (string \<times> nat) result" where
  "read_metadata_string input offset field =
    (if offset > length input \<or> length input - offset < 8 then Inl (spill_corrupt field ''length'')
     else let len = be_value (subspan input offset 8); offset = offset + 8
       in if len > spill_maximum_metadata_string_bytes \<or> unat len > length input - offset
          then Inl (spill_corrupt field ''quota'')
          else Inr (string_of (subspan input offset (unat len)), offset + unat len))"

definition read_metadata_u64 :: "bytes \<Rightarrow> nat \<Rightarrow> string \<Rightarrow> (u64 \<times> nat) result" where
  "read_metadata_u64 input offset field =
    (if offset > length input \<or> length input - offset < 8 then Inl (spill_corrupt field ''length'')
     else Inr (be_value (subspan input offset 8), offset + 8))"

definition encode_frontier_metadata :: "ng1_spill_resume_frontier \<Rightarrow> bytes result" where
  "encode_frontier_metadata frontier =
    (let receipt = sf_receipt frontier;
         output = bytes_of spill_frontier_magic
           @ metadata_string (rc_schema receipt)
           @ metadata_string (rc_provider_id receipt)
           @ metadata_string (rc_protocol_session_id receipt)
           @ metadata_string (rc_task_id receipt)
           @ be_bytes 8 (rc_stream_id receipt)
           @ be_bytes 8 (rc_highest_contiguous_acked_sequence receipt)
           @ metadata_string (rc_staged_digest receipt)
           @ metadata_string (rc_spill_digest receipt)
           @ be_bytes 8 (rc_total_bytes receipt)
           @ be_bytes 8 (rc_total_records receipt)
           @ be_bytes 8 (rc_fsync_sequence receipt)
           @ be_bytes 8 (sf_resume_generation frontier)
     in if length output > spill_maximum_metadata_bytes then Inl (spill_corrupt ''resume_frontier'' ''quota'')
        else Inr output)"

text \<open>
  The source reads all twelve fields before it looks at the outcomes; any failure, and any byte left
  over, gives the same error, so the chain may stop at the first one.
\<close>

definition read_frontier_fields :: "bytes \<Rightarrow> nat \<Rightarrow> (ng1_spill_resume_frontier \<times> nat) result" where
  "read_frontier_fields input offset =
    and_then (read_metadata_string input offset ''schema'') (\<lambda>(schema, offset).
    and_then (read_metadata_string input offset ''provider_id'') (\<lambda>(provider, offset).
    and_then (read_metadata_string input offset ''protocol_session_id'') (\<lambda>(session, offset).
    and_then (read_metadata_string input offset ''task_id'') (\<lambda>(task, offset).
    and_then (read_metadata_u64 input offset ''stream_id'') (\<lambda>(stream, offset).
    and_then (read_metadata_u64 input offset ''highest_ack'') (\<lambda>(highest_ack, offset).
    and_then (read_metadata_string input offset ''staged_digest'') (\<lambda>(staged, offset).
    and_then (read_metadata_string input offset ''spill_digest'') (\<lambda>(spill, offset).
    and_then (read_metadata_u64 input offset ''total_bytes'') (\<lambda>(total_bytes, offset).
    and_then (read_metadata_u64 input offset ''total_records'') (\<lambda>(total_records, offset).
    and_then (read_metadata_u64 input offset ''fsync_sequence'') (\<lambda>(fsync_sequence, offset).
    and_then (read_metadata_u64 input offset ''resume_generation'') (\<lambda>(generation, offset).
      Inr (\<lparr>sf_receipt = \<lparr>rc_schema = schema, rc_provider_id = provider, rc_protocol_session_id = session,
          rc_task_id = task, rc_stream_id = stream, rc_highest_contiguous_acked_sequence = highest_ack,
          rc_staged_digest = staged, rc_spill_digest = spill, rc_total_bytes = total_bytes,
          rc_total_records = total_records, rc_fsync_sequence = fsync_sequence\<rparr>,
        sf_resume_generation = generation\<rparr>, offset)))))))))))))"

definition decode_frontier_metadata :: "bytes \<Rightarrow> ng1_spill_resume_frontier result" where
  "decode_frontier_metadata input =
    (if length input > spill_maximum_metadata_bytes \<or> length input < length spill_frontier_magic
       \<or> \<not> has_magic input spill_frontier_magic
     then Inl (spill_corrupt ''resume_frontier'' ''header'')
     else case read_frontier_fields input (length spill_frontier_magic) of
       Inl e \<Rightarrow> Inl (spill_corrupt ''resume_frontier'' ''fields'')
     | Inr (frontier, offset) \<Rightarrow>
         if offset \<noteq> length input then Inl (spill_corrupt ''resume_frontier'' ''fields'')
         else and_then (frontier_validate frontier) (\<lambda>_. Inr frontier))"

section \<open>Reading at an offset\<close>

definition occurs_at :: "bytes \<Rightarrow> nat \<Rightarrow> bytes \<Rightarrow> bool" where
  "occurs_at input offset xs = (offset + length xs \<le> length input \<and> subspan input offset (length xs) = xs)"

lemma subspan_add: "subspan input offset (m + n) = subspan input offset m @ subspan input (offset + m) n"
  by (simp add: subspan_drop take_add add.commute)

lemma occurs_at_append:
  "occurs_at input offset (xs @ ys) \<longleftrightarrow> occurs_at input offset xs \<and> occurs_at input (offset + length xs) ys"
  by (auto simp: occurs_at_def subspan_add length_subspan append_eq_append_conv)

lemma occurs_at_length: "occurs_at input offset xs \<Longrightarrow> offset + length xs \<le> length input"
  by (simp add: occurs_at_def)

lemma occurs_at_whole: "occurs_at input 0 xs \<and> length xs = length input \<longleftrightarrow> input = xs"
  by (auto simp: occurs_at_def subspan_def)

lemma has_magic_iff: "has_magic input magic \<longleftrightarrow> occurs_at input 0 (bytes_of magic)"
proof (cases "length input < length magic")
  case True
  then show ?thesis by (simp add: has_magic_def occurs_at_def)
next
  case False
  then have "subspan input 0 (length magic) = bytes_of magic
      \<longleftrightarrow> (\<forall>i < length magic. input ! i = byte_of_char (magic ! i))"
    by (simp add: subspan_def list_eq_iff_nth_eq)
  then show ?thesis
    using False by (auto simp: has_magic_def occurs_at_def list_all_iff)
qed

lemma be_value_at:
  assumes "offset + 8 \<le> length input"
  shows "be_value (subspan input offset 8) = v \<longleftrightarrow> occurs_at input offset (be_bytes 8 v)"
proof
  assume "be_value (subspan input offset 8) = v"
  then show "occurs_at input offset (be_bytes 8 v)"
    using be_bytes_subspan [OF assms] assms by (simp add: occurs_at_def length_subspan)
next
  assume "occurs_at input offset (be_bytes 8 v)"
  then show "be_value (subspan input offset 8) = v"
    by (simp add: occurs_at_def)
qed

lemma read_metadata_u64_iff:
  "read_metadata_u64 input offset field = Inr (v, offset') \<longleftrightarrow>
    occurs_at input offset (be_bytes 8 v) \<and> offset' = offset + length (be_bytes 8 v)"
proof (cases "offset + 8 \<le> length input")
  case True
  then show ?thesis
    using be_value_at [OF True, of v] by (auto simp: read_metadata_u64_def)
next
  case False
  then show ?thesis
    using occurs_at_length [of input offset "be_bytes 8 v"] by (auto simp: read_metadata_u64_def)
qed

lemma read_metadata_string_iff:
  "read_metadata_string input offset field = Inr (s, offset') \<longleftrightarrow>
    length s \<le> 4096 \<and> occurs_at input offset (metadata_string s) \<and> offset' = offset + length (metadata_string s)"
  (is "?L \<longleftrightarrow> ?R")
proof
  let ?n = "be_value (subspan input offset 8)"
  assume ?L
  then have l: "offset + 8 \<le> length input" "unat ?n \<le> 4096" "offset + 8 + unat ?n \<le> length input"
    "s = string_of (subspan input (offset + 8) (unat ?n))" "offset' = offset + 8 + unat ?n"
    by (auto simp: read_metadata_string_def Let_def not_less word_le_nat_alt spill_maximum_metadata_string_bytes_def
        split: if_splits)
  then have len: "length s = unat ?n"
    by (simp add: length_subspan)
  have "occurs_at input offset (be_bytes 8 (word_of_nat (length s)))"
    unfolding len using be_value_at [OF l(1), of ?n] by simp
  moreover have "occurs_at input (offset + 8) (bytes_of s)"
    unfolding occurs_at_def using l(3,4) len by (simp del: map_map)
  ultimately show ?R
    using l(2,5) len by (simp add: metadata_string_def occurs_at_append)
next
  assume R: ?R
  let ?n = "be_value (subspan input offset 8)"
  have at: "occurs_at input offset (be_bytes 8 (word_of_nat (length s)))" "occurs_at input (offset + 8) (bytes_of s)"
    using R by (simp_all add: metadata_string_def occurs_at_append)
  have o8: "offset + 8 \<le> length input"
    using occurs_at_length [OF at(1)] by simp
  have n: "unat ?n = length s"
    using be_value_at [OF o8, of "word_of_nat (length s)"] at(1) R by (simp add: unat_of_nat)
  show ?L
    using R o8 n at(2) occurs_at_length [OF at(2)]
    by (auto simp: read_metadata_string_def Let_def not_less word_less_nat_alt spill_maximum_metadata_string_bytes_def
        metadata_string_def occurs_at_def)
qed

section \<open>One spelling per value\<close>

lemma maximum_total_bytes [simp]: "unat ng1_spill_maximum_total_bytes = 67108864"
  by (simp add: ng1_spill_maximum_total_bytes_def)

lemma decode_commit_iff:
  "decode_commit_metadata input = Inr (n, s) \<longleftrightarrow> unat n \<le> 67108864 \<and> input = encode_commit_metadata n s"
proof -
  have magic: "length spill_metadata_magic = 8"
    by (simp add: spill_metadata_magic_def)
  show ?thesis
  proof (cases "length input = 24")
    case True
    have "input = encode_commit_metadata n s \<longleftrightarrow> occurs_at input 0 (encode_commit_metadata n s)"
      using occurs_at_whole [of input "encode_commit_metadata n s"] True
      by (auto simp: encode_commit_metadata_def magic)
    then have "input = encode_commit_metadata n s \<longleftrightarrow> has_magic input spill_metadata_magic
        \<and> be_value (subspan input 8 8) = n \<and> be_value (subspan input 16 8) = s"
      using be_value_at [of 8 input n] be_value_at [of 16 input s] True
      by (simp add: encode_commit_metadata_def occurs_at_append has_magic_iff magic)
    then show ?thesis
      using True by (auto simp: decode_commit_metadata_def magic Let_def word_le_nat_alt word_less_nat_alt not_less)
  next
    case False
    then show ?thesis
      by (auto simp: decode_commit_metadata_def encode_commit_metadata_def magic)
  qed
qed

text \<open>The bytes of a frontier after the magic, and the size limit on its texts.\<close>

definition frontier_fields :: "ng1_spill_resume_frontier \<Rightarrow> bytes" where
  "frontier_fields frontier = (let receipt = sf_receipt frontier in
     metadata_string (rc_schema receipt) @ metadata_string (rc_provider_id receipt)
     @ metadata_string (rc_protocol_session_id receipt) @ metadata_string (rc_task_id receipt)
     @ be_bytes 8 (rc_stream_id receipt) @ be_bytes 8 (rc_highest_contiguous_acked_sequence receipt)
     @ metadata_string (rc_staged_digest receipt) @ metadata_string (rc_spill_digest receipt)
     @ be_bytes 8 (rc_total_bytes receipt) @ be_bytes 8 (rc_total_records receipt)
     @ be_bytes 8 (rc_fsync_sequence receipt) @ be_bytes 8 (sf_resume_generation frontier))"

definition frontier_texts_short :: "ng1_spill_resume_frontier \<Rightarrow> bool" where
  "frontier_texts_short frontier = (let receipt = sf_receipt frontier in
     list_all (\<lambda>t. length t \<le> 4096)
       [rc_schema receipt, rc_provider_id receipt, rc_protocol_session_id receipt, rc_task_id receipt,
        rc_staged_digest receipt, rc_spill_digest receipt])"

lemma read_frontier_fields_iff:
  "read_frontier_fields input offset = Inr (f, offset') \<longleftrightarrow> frontier_texts_short f
    \<and> occurs_at input offset (frontier_fields f) \<and> offset' = offset + length (frontier_fields f)"
  by (cases f; cases "sf_receipt f")
    (auto simp: read_frontier_fields_def and_then_Inr_iff read_metadata_u64_iff read_metadata_string_iff
      frontier_fields_def frontier_texts_short_def occurs_at_append Let_def add.assoc)

section \<open>Every valid frontier can be stored\<close>

lemma count_scalars_length:
  "count_scalars bs n = Inr m \<Longrightarrow> length bs + 4 * n \<le> 4 * m"
proof (induction bs n rule: count_scalars.induct)
  case (1 n)
  then show ?case by simp
next
  case (2 b bs n)
  define d where "d = length (drop (scalar_width b) (b # bs))"
  have "scalar_width b \<le> 4" by (simp add: scalar_width_def)
  then have "length (b # bs) \<le> d + 4"
    by (simp add: d_def)
  moreover have "d + 4 * (n + 1) \<le> 4 * m"
    using 2 unfolding d_def by (simp split: if_splits)
  ultimately show ?case by simp
qed

lemma strong_id_length: "validate_strong_id v = Inr u \<Longrightarrow> length v \<le> 2048"
  by (auto simp: validate_strong_id_def result_simps dest!: count_scalars_length split: if_splits)

lemma valid_frontier_lengths:
  assumes "frontier_validate f = Inr ()"
  shows "frontier_texts_short f" "length (frontier_fields f) \<le> 32768"
proof -
  have r: "receipt_validate (sf_receipt f) = Inr ()"
    using assms by (auto simp: frontier_validate_def result_simps split: if_splits)
  then have ids: "length (rc_provider_id (sf_receipt f)) \<le> 2048"
    "length (rc_protocol_session_id (sf_receipt f)) \<le> 2048" "length (rc_task_id (sf_receipt f)) \<le> 2048"
    by (auto simp: receipt_validate_def result_simps receipt_identity_def valid_id_def
        dest!: strong_id_length split: if_splits sum.splits)
  have "length (rc_schema (sf_receipt f)) = 39" "length (rc_staged_digest (sf_receipt f)) = 83"
    "length (rc_spill_digest (sf_receipt f)) = 83"
    using r by (auto simp: receipt_validate_def result_simps valid_digest_def spill_fsync_receipt_schema_def
        dest: semantic_digest_length split: if_splits)
  then show "frontier_texts_short f" "length (frontier_fields f) \<le> 32768"
    using ids by (simp_all add: frontier_texts_short_def frontier_fields_def metadata_string_def Let_def)
qed

lemma encode_frontier_iff:
  "encode_frontier_metadata f = Inr bs \<longleftrightarrow>
    bs = bytes_of spill_frontier_magic @ frontier_fields f \<and> length bs \<le> spill_maximum_metadata_bytes"
  by (auto simp: encode_frontier_metadata_def frontier_fields_def Let_def split: if_splits)

lemma decode_frontier_iff:
  "decode_frontier_metadata input = Inr f \<longleftrightarrow> frontier_validate f = Inr () \<and> encode_frontier_metadata f = Inr input"
proof -
  have magic: "length spill_frontier_magic = 8"
    by (simp add: spill_frontier_magic_def)
  have whole: "input = bytes_of spill_frontier_magic @ frontier_fields f \<longleftrightarrow>
      has_magic input spill_frontier_magic \<and> occurs_at input 8 (frontier_fields f)
      \<and> 8 + length (frontier_fields f) = length input"
    using occurs_at_whole [of input "bytes_of spill_frontier_magic @ frontier_fields f"]
    by (auto simp: occurs_at_append has_magic_iff magic)
  have "decode_frontier_metadata input = Inr f \<longleftrightarrow> length input \<le> spill_maximum_metadata_bytes
      \<and> has_magic input spill_frontier_magic \<and> read_frontier_fields input 8 = Inr (f, length input)
      \<and> frontier_validate f = Inr ()"
    using occurs_at_length [of input 0 "bytes_of spill_frontier_magic"]
    by (auto simp: decode_frontier_metadata_def magic has_magic_iff result_simps split: if_splits sum.splits)
  also have "\<dots> \<longleftrightarrow> length input \<le> spill_maximum_metadata_bytes \<and> frontier_validate f = Inr ()
      \<and> input = bytes_of spill_frontier_magic @ frontier_fields f"
    unfolding read_frontier_fields_iff whole using valid_frontier_lengths(1) [of f] by auto
  finally show ?thesis
    by (auto simp: encode_frontier_iff)
qed

lemma encode_frontier_total:
  assumes "frontier_validate f = Inr ()"
  shows "encode_frontier_metadata f = Inr (bytes_of spill_frontier_magic @ frontier_fields f)"
  using valid_frontier_lengths(2) [OF assms]
  by (simp add: encode_frontier_iff spill_maximum_metadata_bytes_def spill_frontier_magic_def)

interpretation frontier_file: canonical_codec encode_frontier_metadata decode_frontier_metadata
  by unfold_locales (simp add: decode_frontier_iff)

section \<open>Properties\<close>

text \<open>
  C29: every frontier that passes validation, with identities of any admissible text, can be written to the
  frontier file within its size limit, and reading the file returns exactly that frontier.
\<close>

theorem valid_frontier_round_trip:
  assumes "frontier_validate frontier = Inr ()"
  shows "\<exists>file. encode_frontier_metadata frontier = Inr file \<and> length file \<le> spill_maximum_metadata_bytes
    \<and> decode_frontier_metadata file = Inr frontier"
proof -
  have e: "encode_frontier_metadata frontier = Inr (bytes_of spill_frontier_magic @ frontier_fields frontier)"
    using assms by (rule encode_frontier_total)
  then show ?thesis
    using assms decode_frontier_iff [of _ frontier] by (auto simp: encode_frontier_iff)
qed

lemma valid_frontier_round_trip_witness:
  "\<exists>file. encode_frontier_metadata \<lparr>sf_receipt = example_receipt, sf_resume_generation = 1\<rparr> = Inr file
    \<and> decode_frontier_metadata file = Inr \<lparr>sf_receipt = example_receipt, sf_resume_generation = 1\<rparr>"
proof -
  have "validate_strong_id ''p'' = Inr ()" "validate_strong_id ''s'' = Inr ()" "validate_strong_id ''t'' = Inr ()"
    by code_simp+
  then have "receipt_validate example_receipt = Inr ()"
    by (simp add: receipt_validate_def example_receipt_def receipt_identity_def valid_id_def valid_digest_def
        example_digest_valid)
  then have "frontier_validate \<lparr>sf_receipt = example_receipt, sf_resume_generation = 1\<rparr> = Inr ()"
    by (simp add: frontier_validate_def)
  then show ?thesis
    using valid_frontier_round_trip by blast
qed

end
