(* ===== verification/Ng1_Spill_Session.thy ===== *)
theory Ng1_Spill_Session
  imports Ng1_Spill_Metadata
begin

text \<open>
  \<open>ng1_spill_staging_session\<close> (\<open>src/sdk/provider_ng1_spill_port_internal.cpp\<close>): the transaction that stages
  spill records on a storage port, makes them durable and recovers them after a restart. The port is the
  virtual interface \<open>ng1_spill_storage_port\<close>; a call through it returns a value or an error, or throws.
  What a session relies on is the locale \<open>spill_store\<close>: a successful append extends the log, the other
  operations leave it alone, and a persisted frontier is the one read back. Nothing is assumed of a call
  that fails or throws: it poisons the session.
\<close>

section \<open>The storage port\<close>

datatype 'a port_effect = Returned "'a result" | Threw

record 'p spill_port =
  po_append :: "bytes \<Rightarrow> 'p \<Rightarrow> unit port_effect \<times> 'p"
  po_fsync :: "'p \<Rightarrow> u64 port_effect \<times> 'p"
  po_read_all :: "'p \<Rightarrow> bytes port_effect \<times> 'p"
  po_read_resume_frontier :: "'p \<Rightarrow> ng1_spill_resume_frontier option port_effect \<times> 'p"
  po_transfer_cleanup_custody_to :: "'p \<Rightarrow> 'p \<Rightarrow> unit port_effect \<times> 'p \<times> 'p"
  po_persist_resume_frontier :: "ng1_spill_resume_frontier \<Rightarrow> 'p \<Rightarrow> unit port_effect \<times> 'p"
  po_cleanup :: "'p \<Rightarrow> unit port_effect \<times> 'p"

text \<open>
  \<open>result\<close> of one such call for the caller: its error, or the given error when it threw.
\<close>

definition effect_result :: "sdk_error \<Rightarrow> 'a port_effect \<Rightarrow> 'a result" where
  "effect_result thrown effect = (case effect of Returned r \<Rightarrow> r | Threw \<Rightarrow> Inl thrown)"

section \<open>The session\<close>

record 'p staging_session =
  ss_prefix :: ng1_spill_prefix_state
  ss_binding :: ng1_spill_binding
  ss_storage :: "'p option"
  ss_last_fsync_sequence :: u64
  ss_last_resume_generation :: u64
  ss_has_fsync_sequence :: bool
  ss_has_resume_generation :: bool
  ss_poisoned :: bool
  ss_cleaned :: bool

definition staging_create :: "ng1_spill_binding \<Rightarrow> 'p option \<Rightarrow> 'p staging_session result" where
  "staging_create binding storage =
    (case storage of
       None \<Rightarrow> Inl (port_error ''storage'' ''missing-port'')
     | Some p \<Rightarrow> and_then (spill_prefix_create binding) (\<lambda>prefix.
         Inr \<lparr>ss_prefix = prefix, ss_binding = binding, ss_storage = Some p, ss_last_fsync_sequence = 0,
           ss_last_resume_generation = 0, ss_has_fsync_sequence = False, ss_has_resume_generation = False,
           ss_poisoned = False, ss_cleaned = False\<rparr>))"

text \<open>\<open>!storage_ || cleaned_ || poisoned_\<close>, negated: the port the session may still use.\<close>

definition staging_port :: "'p staging_session \<Rightarrow> 'p option" where
  "staging_port s = (if ss_cleaned s \<or> ss_poisoned s then None else ss_storage s)"

definition after_call :: "'p \<Rightarrow> 'p staging_session \<Rightarrow> 'p staging_session" where
  "after_call p s = s\<lparr>ss_storage := Some p\<rparr>"

definition poison :: "'p staging_session \<Rightarrow> 'p staging_session" where
  "poison s = s\<lparr>ss_poisoned := True\<rparr>"

definition staging_append :: "'p spill_port \<Rightarrow> ng1_spill_record \<Rightarrow> 'p staging_session
    \<Rightarrow> unit result \<times> 'p staging_session" where
  "staging_append port r s =
    (case staging_port s of
       None \<Rightarrow> (Inl (port_error ''append'' ''terminal-session''), s)
     | Some p \<Rightarrow>
       (case and_then (validate_spill_record_wire_quota r) (\<lambda>_.
              and_then (spill_append r (ss_prefix s)) (\<lambda>candidate.
              and_then (encode_spill_record r) (\<lambda>wire. Inr (candidate, wire)))) of
          Inl e \<Rightarrow> (Inl e, s)
        | Inr (candidate, wire) \<Rightarrow>
          (let (effect, p') = po_append port wire p; s' = after_call p' s
           in case effect_result (port_error ''append'' ''effect-unknown'') effect of
                Inl e \<Rightarrow> (Inl e, poison s')
              | Inr _ \<Rightarrow> (Inr (), s'\<lparr>ss_prefix := candidate\<rparr>))))"

text \<open>What \<open>fsync\<close> checks before it calls the port.\<close>

definition fsync_admitted :: "'p staging_session \<Rightarrow> u64 \<Rightarrow> u64 \<Rightarrow> string \<Rightarrow> u64 \<Rightarrow> unit result" where
  "fsync_admitted s highest_acked highest_observed staged_digest resume_generation =
    (if resume_generation = 0 \<or> ss_has_resume_generation s \<and> resume_generation \<le> ss_last_resume_generation s
     then Inl (port_error ''resume_generation'' ''not-increasing'')
     else if highest_acked > highest_observed
     then Inl (spill_corrupt ''highest_contiguous_acked_sequence'' ''ahead-of-observed'')
     else and_then (validate_ack_frontier (ss_prefix s) highest_acked) (\<lambda>_.
       if \<not> valid_semantic_digest staged_digest then Inl (spill_corrupt ''staged_digest'' ''semantic-v2'') else Inr ()))"

text \<open>What \<open>fsync\<close> makes of the sequence the port returned, before the frontier is persisted.\<close>

definition fsync_frontier :: "'p staging_session \<Rightarrow> u64 \<Rightarrow> string \<Rightarrow> u64 \<Rightarrow> u64
    \<Rightarrow> ng1_spill_resume_frontier result" where
  "fsync_frontier s highest_acked staged_digest resume_generation sequence =
    (if sequence = 0 \<or> ss_has_fsync_sequence s \<and> sequence \<le> ss_last_fsync_sequence s
     then Inl (port_error ''fsync_sequence'' ''not-increasing'')
     else and_then (observe_host_fsync (ss_prefix s) highest_acked staged_digest sequence) (\<lambda>receipt.
       let frontier = \<lparr>sf_receipt = receipt, sf_resume_generation = resume_generation\<rparr>
       in and_then (frontier_validate frontier) (\<lambda>_. Inr frontier)))"

definition staging_fsync :: "'p spill_port \<Rightarrow> u64 \<Rightarrow> u64 \<Rightarrow> string \<Rightarrow> u64 \<Rightarrow> 'p staging_session
    \<Rightarrow> ng1_spill_fsync_receipt result \<times> 'p staging_session" where
  "staging_fsync port highest_acked highest_observed staged_digest resume_generation s =
    (case staging_port s of
       None \<Rightarrow> (Inl (port_error ''fsync'' ''terminal-session''), s)
     | Some p \<Rightarrow>
       (case fsync_admitted s highest_acked highest_observed staged_digest resume_generation of
          Inl e \<Rightarrow> (Inl e, s)
        | Inr _ \<Rightarrow>
          (let (effect, p') = po_fsync port p; s' = after_call p' s
           in case and_then (effect_result (port_error ''fsync'' ''effect-unknown'') effect)
                (fsync_frontier s highest_acked staged_digest resume_generation) of
                Inl e \<Rightarrow> (Inl e, poison s')
              | Inr frontier \<Rightarrow>
                (let (effect', p'') = po_persist_resume_frontier port frontier p'; s'' = after_call p'' s'
                 in case effect_result (port_error ''resume_frontier'' ''effect-unknown'') effect' of
                      Inl e \<Rightarrow> (Inl e, poison s'')
                    | Inr _ \<Rightarrow> (Inr (sf_receipt frontier),
                        s''\<lparr>ss_last_fsync_sequence := rc_fsync_sequence (sf_receipt frontier),
                            ss_has_fsync_sequence := True,
                            ss_last_resume_generation := resume_generation,
                            ss_has_resume_generation := True\<rparr>)))))"

text \<open>The comparison of a frontier read from the port with the expected one.\<close>

definition frontier_is_latest :: "ng1_spill_resume_frontier \<Rightarrow> ng1_spill_resume_frontier option \<Rightarrow> unit result" where
  "frontier_is_latest expected persisted =
    (case persisted of
       None \<Rightarrow> Inl (token_stale ''resume_frontier'' ''missing'')
     | Some frontier \<Rightarrow> and_then (frontier_validate frontier) (\<lambda>_.
         if frontier \<noteq> expected then Inl (token_stale ''resume_frontier'' ''not-latest'') else Inr ()))"

definition validate_persisted_frontier :: "'p spill_port \<Rightarrow> ng1_spill_fsync_receipt \<Rightarrow> u64 \<Rightarrow> 'p staging_session
    \<Rightarrow> unit result \<times> 'p staging_session" where
  "validate_persisted_frontier port receipt resume_generation s =
    (case staging_port s of
       None \<Rightarrow> (Inl (port_error ''resume_frontier'' ''terminal-session''), s)
     | Some p \<Rightarrow>
       (let expected = \<lparr>sf_receipt = receipt, sf_resume_generation = resume_generation\<rparr>
        in case frontier_validate expected of
             Inl e \<Rightarrow> (Inl e, s)
           | Inr _ \<Rightarrow>
             (let (effect, p') = po_read_resume_frontier port p; s' = after_call p' s
              in case and_then (effect_result (port_error ''resume_frontier'' ''effect-unknown'') effect)
                   (frontier_is_latest expected) of
                   Inl e \<Rightarrow> (Inl e, poison s')
                 | Inr _ \<Rightarrow> (Inr (), s'))))"

section \<open>Recovery\<close>

lemma framed_record_advances:
  assumes "decode_framed_record raw offset = Inr (r, offset')"
  shows "offset < offset'" "offset' \<le> length raw"
proof -
  obtain w rest where w: "encode_spill_record r = Inr w" "drop offset raw = w @ rest" "offset \<le> length raw"
    "offset' = offset + length w"
    using assms unfolding decode_framed_record_iff by blast
  then show "offset < offset'"
    by (auto simp: encode_spill_record_iff)
  have "length raw - offset = length w + length rest"
    using arg_cong [OF w(2), of length] by simp
  then show "offset' \<le> length raw"
    using w(3,4) by simp
qed

text \<open>The loop of \<open>recover\<close> over the bytes read from the port.\<close>

function recover_records :: "bytes \<Rightarrow> nat \<Rightarrow> ng1_spill_prefix_state \<Rightarrow> ng1_spill_prefix_state result" where
  "recover_records raw offset recovered =
    (if offset < length raw
     then case decode_framed_record raw offset of
            Inl e \<Rightarrow> Inl e
          | Inr (r, offset') \<Rightarrow>
            (case spill_append r recovered of
               Inl e \<Rightarrow> Inl e
             | Inr recovered' \<Rightarrow> recover_records raw offset' recovered')
     else Inr recovered)"
  by pat_completeness auto
termination
  by (relation "measure (\<lambda>(raw, offset, recovered). length raw - offset)")
    (auto dest: framed_record_advances(1))

declare recover_records.simps [simp del]

definition recover_prefix :: "ng1_spill_binding \<Rightarrow> bytes \<Rightarrow> ng1_spill_prefix_state result" where
  "recover_prefix binding raw =
    and_then (spill_prefix_create binding) (\<lambda>fresh.
    and_then (recover_records raw 0 fresh) (\<lambda>recovered.
      if px_total_bytes recovered \<noteq> word_of_nat (length raw)
      then Inl (spill_corrupt ''total_bytes'' ''framing-mismatch'') else Inr recovered))"

definition staging_recover :: "'p spill_port \<Rightarrow> 'p staging_session
    \<Rightarrow> ng1_spill_prefix_state result \<times> 'p staging_session" where
  "staging_recover port s =
    (case staging_port s of
       None \<Rightarrow> (Inl (port_error ''recovery'' ''terminal-session''), s)
     | Some p \<Rightarrow>
       (let (effect, p') = po_read_all port p; s' = after_call p' s
        in case and_then (effect_result (port_error ''recovery'' ''effect-unknown'') effect)
             (recover_prefix (ss_binding s)) of
             Inl e \<Rightarrow> (Inl e, poison s')
           | Inr recovered \<Rightarrow> (Inr recovered, s')))"

text \<open>The checks of \<open>restore_from_fsync_receipt\<close> before it reads the port; a failure poisons.\<close>

definition restore_admitted :: "'p staging_session \<Rightarrow> ng1_spill_fsync_receipt \<Rightarrow> unit result" where
  "restore_admitted s receipt =
    (if px_total_bytes (ss_prefix s) \<noteq> 0 \<or> px_record_digests (ss_prefix s) \<noteq> [] \<or> ss_has_fsync_sequence s
     then Inl (port_error ''restore'' ''non-fresh-session'')
     else and_then (receipt_validate receipt) (\<lambda>_.
       if rc_provider_id receipt \<noteq> sp_provider_id (ss_binding s)
         \<or> rc_protocol_session_id receipt \<noteq> sp_protocol_session_id (ss_binding s)
         \<or> rc_task_id receipt \<noteq> sp_task_id (ss_binding s) \<or> rc_stream_id receipt \<noteq> sp_stream_id (ss_binding s)
       then Inl (spill_corrupt ''receipt'' ''binding-mismatch'') else Inr ()))"

definition receipt_of_prefix :: "ng1_spill_prefix_state \<Rightarrow> ng1_spill_fsync_receipt \<Rightarrow> unit result" where
  "receipt_of_prefix recovered receipt =
    and_then (observe_host_fsync recovered (rc_highest_contiguous_acked_sequence receipt)
        (rc_staged_digest receipt) (rc_fsync_sequence receipt)) (\<lambda>expected.
      if expected \<noteq> receipt then Inl (spill_corrupt ''receipt'' ''prefix-mismatch'') else Inr ())"

definition restore_from_fsync_receipt :: "'p spill_port \<Rightarrow> ng1_spill_fsync_receipt \<Rightarrow> u64 \<Rightarrow> 'p staging_session
    \<Rightarrow> unit result \<times> 'p staging_session" where
  "restore_from_fsync_receipt port receipt resume_generation s =
    (case staging_port s of
       None \<Rightarrow> (Inl (port_error ''restore'' ''terminal-session''), s)
     | Some _ \<Rightarrow>
       (case restore_admitted s receipt of
          Inl e \<Rightarrow> (Inl e, poison s)
        | Inr _ \<Rightarrow>
          (case staging_recover port s of
             (Inl e, s') \<Rightarrow> (Inl e, s')
           | (Inr recovered, s') \<Rightarrow>
             (case receipt_of_prefix recovered receipt of
                Inl e \<Rightarrow> (Inl e, poison s')
              | Inr _ \<Rightarrow>
                (case validate_persisted_frontier port receipt resume_generation s' of
                   (Inl e, s'') \<Rightarrow> (Inl e, s'')
                 | (Inr _, s'') \<Rightarrow> (Inr (),
                     s''\<lparr>ss_prefix := recovered, ss_last_fsync_sequence := rc_fsync_sequence receipt,
                         ss_has_fsync_sequence := True, ss_last_resume_generation := resume_generation,
                         ss_has_resume_generation := True\<rparr>))))))"

section \<open>Custody and cleanup\<close>

definition same_frontier :: "'p staging_session \<Rightarrow> 'p staging_session \<Rightarrow> bool" where
  "same_frontier s replacement =
    (px_total_bytes (ss_prefix s) = px_total_bytes (ss_prefix replacement)
     \<and> length (px_record_digests (ss_prefix s)) = length (px_record_digests (ss_prefix replacement))
     \<and> ss_has_fsync_sequence s = ss_has_fsync_sequence replacement
     \<and> (ss_has_fsync_sequence s \<longrightarrow> ss_last_fsync_sequence s = ss_last_fsync_sequence replacement)
     \<and> ss_has_resume_generation s = ss_has_resume_generation replacement
     \<and> (ss_has_resume_generation s \<longrightarrow> ss_last_resume_generation s = ss_last_resume_generation replacement))"

text \<open>
  \<open>handoff_cleanup_custody_to\<close>; \<open>same\<close> says that both references are the same object. The old port is
  released whatever its own cleanup does.
\<close>

definition handoff_cleanup_custody_to :: "'p spill_port \<Rightarrow> bool \<Rightarrow> 'p staging_session \<Rightarrow> 'p staging_session
    \<Rightarrow> unit result \<times> 'p staging_session \<times> 'p staging_session" where
  "handoff_cleanup_custody_to port same s replacement =
    (if same then (Inl (port_error ''cleanup'' ''custody-self-transfer''), s, replacement)
     else case (staging_port s, staging_port replacement) of
       (Some p, Some q) \<Rightarrow>
         (if ss_binding s \<noteq> ss_binding replacement
          then (Inl (spill_corrupt ''cleanup'' ''binding-mismatch''), s, replacement)
          else if \<not> same_frontier s replacement
          then (Inl (spill_corrupt ''cleanup'' ''prefix-frontier-mismatch''), s, replacement)
          else case (spill_digest (ss_prefix s), spill_digest (ss_prefix replacement)) of
            (Inr source_digest, Inr replacement_digest) \<Rightarrow>
              (if source_digest \<noteq> replacement_digest
               then (Inl (spill_corrupt ''cleanup'' ''prefix-mismatch''), s, replacement)
               else let (effect, p', q') = po_transfer_cleanup_custody_to port p q
                 in (case effect_result (port_error ''cleanup'' ''custody-transfer-effect-unknown'') effect of
                       Inl e \<Rightarrow> (Inl e, after_call p' s, after_call q' replacement)
                     | Inr _ \<Rightarrow>
                       (let (retired, p'') = po_cleanup port p';
                            released = s\<lparr>ss_storage := None, ss_cleaned := True\<rparr>
                        in case effect_result (port_error ''cleanup'' ''custody-retire-effect-unknown'') retired of
                             Inl e \<Rightarrow> (Inl e, poison released, after_call q' replacement)
                           | Inr _ \<Rightarrow> (Inr (), released, after_call q' replacement))))
          | _ \<Rightarrow> (Inl (spill_corrupt ''cleanup'' ''prefix-digest''), s, replacement))
     | _ \<Rightarrow> (Inl (port_error ''cleanup'' ''custody-session-terminal''), s, replacement))"

definition staging_cleanup :: "'p spill_port \<Rightarrow> 'p staging_session \<Rightarrow> unit result \<times> 'p staging_session" where
  "staging_cleanup port s =
    (case (ss_storage s, ss_cleaned s) of
       (Some p, False) \<Rightarrow>
         (let (effect, p') = po_cleanup port p;
              released = s\<lparr>ss_storage := None, ss_cleaned := True\<rparr>
          in case effect_result (port_error ''cleanup'' ''effect-unknown'') effect of
               Inl e \<Rightarrow> (Inl e, poison released)
             | Inr _ \<Rightarrow> (Inr (), released))
     | _ \<Rightarrow> (Inl (port_error ''cleanup'' ''already-terminal''), s))"

text \<open>The destructor calls \<open>std::terminate\<close> exactly on a session that still owns its port.\<close>

definition destructor_terminates :: "'p staging_session \<Rightarrow> bool" where
  "destructor_terminates s = (ss_storage s \<noteq> None \<and> \<not> ss_cleaned s)"

text \<open>What a move leaves behind in the source object; its prefix and binding are then unspecified.\<close>

definition moved_from :: "'p staging_session \<Rightarrow> 'p staging_session" where
  "moved_from s = s\<lparr>ss_storage := None, ss_cleaned := True, ss_poisoned := True\<rparr>"

section \<open>Logs of records\<close>

definition wire_of :: "ng1_spill_record \<Rightarrow> bytes" where
  "wire_of r = be_bytes 8 (word_of_nat (length (record_body r))) @ record_body r"

definition log_of :: "ng1_spill_record list \<Rightarrow> bytes" where
  "log_of rs = concat (map wire_of rs)"

definition encodable :: "ng1_spill_record \<Rightarrow> bool" where
  "encodable r = (encode_spill_record r = Inr (wire_of r))"

lemma log_of_simps [simp]:
  "log_of [] = []" "log_of (r # rs) = wire_of r @ log_of rs" "log_of (rs @ rs') = log_of rs @ log_of rs'"
  by (simp_all add: log_of_def)

lemma encode_wire_of: "encode_spill_record r = Inr w \<Longrightarrow> w = wire_of r \<and> encodable r"
  by (auto simp: encodable_def wire_of_def encode_spill_record_iff)

lemma wire_of_nonempty [simp]: "wire_of r \<noteq> []"
  by (simp add: wire_of_def)

lemma encodable_size:
  assumes "encodable r"
  shows "charged_bytes r = length (wire_of r)" "length (wire_of r) \<le> 16777216"
proof -
  have "8 + length (record_body r) \<le> 16777216"
    using assms by (auto simp: encodable_def encode_spill_record_iff)
  then show "charged_bytes r = length (wire_of r)" "length (wire_of r) \<le> 16777216"
    using wire_bytes_exact [of r] by (auto simp: charged_bytes_def wire_of_def)
qed

lemma append_digest: "spill_append r s = Inr t \<Longrightarrow> ng1_spill_record_digest r = Inr (sx_record_digest r)"
  by (erule spill_append_step) blast

lemma recover_records_of_log:
  assumes "list_all encodable rs" "try_fold spill_append rs s = Inr t" "drop offset raw = log_of rs"
    "offset \<le> length raw"
  shows "recover_records raw offset s = Inr t"
  using assms
proof (induction rs arbitrary: offset s)
  case Nil
  then show ?case by (simp add: recover_records.simps)
next
  case (Cons r rs)
  then obtain s' where s': "spill_append r s = Inr s'" "try_fold spill_append rs s' = Inr t"
    by (auto simp: and_then_Inr_iff)
  let ?o = "offset + length (wire_of r)"
  have enc: "encode_spill_record r = Inr (wire_of r)"
    using Cons.prems(1) by (simp add: encodable_def)
  have d: "drop offset raw = wire_of r @ log_of rs"
    using Cons.prems(3) by simp
  have framed: "decode_framed_record raw offset = Inr (r, ?o)"
    unfolding decode_framed_record_iff using enc append_digest [OF s'(1)] d Cons.prems(4) by blast
  have lt: "offset < length raw"
    using d by (metis append_is_Nil_conv drop_all leI wire_of_nonempty)
  have "drop ?o raw = log_of rs"
    using content_at(1) [OF d refl] .
  moreover have "?o \<le> length raw"
    using framed_record_advances [OF framed] by simp
  ultimately have "recover_records raw ?o s' = Inr t"
    using Cons.IH [OF _ s'(2)] Cons.prems(1) by simp
  then show ?case
    by (subst recover_records.simps) (simp add: lt framed s'(1))
qed

lemma log_of_recovered:
  assumes "recover_records raw offset s = Inr t" "offset \<le> length raw"
  shows "\<exists>rs. list_all encodable rs \<and> try_fold spill_append rs s = Inr t \<and> drop offset raw = log_of rs"
  using assms
proof (induction raw offset s arbitrary: t rule: recover_records.induct)
  case (1 raw offset s)
  show ?case
  proof (cases "offset < length raw")
    case False
    then have "s = t" "drop offset raw = []"
      using "1.prems" by (simp_all add: recover_records.simps)
    then show ?thesis by (intro exI [of _ "[]"]) simp
  next
    case True
    obtain r o' where framed: "decode_framed_record raw offset = Inr (r, o')"
      using "1.prems"(1) True by (subst (asm) recover_records.simps) (auto split: sum.splits)
    then obtain s' where s': "spill_append r s = Inr s'"
      using "1.prems"(1) True by (subst (asm) recover_records.simps) (auto split: sum.splits)
    have rest: "recover_records raw o' s' = Inr t"
      using "1.prems"(1) True framed s' by (subst (asm) recover_records.simps) simp
    obtain w rest' where w: "encode_spill_record r = Inr w" "drop offset raw = w @ rest'" "o' = offset + length w"
      using framed unfolding decode_framed_record_iff by blast
    obtain rs where rs: "list_all encodable rs" "try_fold spill_append rs s' = Inr t" "drop o' raw = log_of rs"
      using "1.IH" [OF True framed refl s' rest] framed_record_advances(2) [OF framed] by blast
    then show ?thesis
      using encode_wire_of [OF w(1)] content_at(1) [OF w(2,3)] w(2) s' by (intro exI [of _ "r # rs"]) simp
  qed
qed

lemma log_size:
  assumes "spill_prefix_create binding = Inr s" "try_fold spill_append rs s = Inr t" "list_all encodable rs"
  shows "unat (px_total_bytes t) = length (log_of rs)" "length (log_of rs) \<le> 67108864"
proof -
  have p: "prefix_of_records rs t" "prefix_wf t"
    using spill_run_records [OF assms(2,1)] by simp_all
  have "sum_list (map charged_bytes rs) = length (log_of rs)"
    using assms(3) by (induction rs) (simp_all add: encodable_size(1))
  then show "unat (px_total_bytes t) = length (log_of rs)"
    using p(1) by (simp add: prefix_of_records_def)
  then show "length (log_of rs) \<le> 67108864"
    using p(2) by (simp add: prefix_wf_def word_le_nat_alt flip: maximum_total_bytes)
qed

lemma recover_prefix_iff:
  "recover_prefix binding raw = Inr t \<longleftrightarrow> (\<exists>fresh rs. spill_prefix_create binding = Inr fresh
     \<and> list_all encodable rs \<and> try_fold spill_append rs fresh = Inr t \<and> raw = log_of rs)" (is "?L \<longleftrightarrow> ?R")
proof
  assume ?L
  then obtain fresh where f: "spill_prefix_create binding = Inr fresh" "recover_records raw 0 fresh = Inr t"
    by (auto simp: recover_prefix_def and_then_Inr_iff split: if_splits)
  then show ?R
    using log_of_recovered [of raw 0 fresh t] by auto
next
  assume ?R
  then obtain fresh rs where f: "spill_prefix_create binding = Inr fresh" "list_all encodable rs"
    "try_fold spill_append rs fresh = Inr t" "raw = log_of rs" by blast
  have "recover_records raw 0 fresh = Inr t"
    using recover_records_of_log [OF f(2,3)] f(4) by simp
  moreover have "px_total_bytes t = word_of_nat (length raw)"
    using f(4) by (simp flip: log_size(1) [OF f(1,3,2)])
  ultimately show ?L
    using f(1) by (simp add: recover_prefix_def)
qed

section \<open>What a session relies on\<close>

text \<open>
  \<open>live\<close> says that a port may still be called, \<open>log\<close> is the content of its record log and \<open>stored\<close> its
  resume frontier. Only calls that succeed are constrained.
\<close>

definition session_tracks :: "('p \<Rightarrow> bool) \<Rightarrow> ('p \<Rightarrow> bytes) \<Rightarrow> ng1_spill_record list \<Rightarrow> 'p staging_session \<Rightarrow> bool" where
  "session_tracks live log rs s =
    (list_all encodable rs
     \<and> (\<exists>fresh. spill_prefix_create (ss_binding s) = Inr fresh \<and> try_fold spill_append rs fresh = Inr (ss_prefix s))
     \<and> (\<forall>p. staging_port s = Some p \<longrightarrow> live p \<and> log p = log_of rs))"

text \<open>
  One call of the session's interface that keeps it usable, and the records it admitted. Restoring from a
  receipt is treated on its own; the hand-over of cleanup custody and cleanup are not calls of a run.
\<close>

datatype staging_op =
    Stage_Append ng1_spill_record
  | Stage_Fsync u64 u64 string u64
  | Stage_Validate ng1_spill_fsync_receipt u64
  | Stage_Recover

fun staging_step :: "'p spill_port \<Rightarrow> staging_op \<Rightarrow> 'p staging_session \<Rightarrow> ng1_spill_record list \<times> 'p staging_session" where
  "staging_step port (Stage_Append r) s =
     (case staging_append port r s of (Inr _, s') \<Rightarrow> ([r], s') | (Inl _, s') \<Rightarrow> ([], s'))"
| "staging_step port (Stage_Fsync acked observed staged generation) s =
     ([], snd (staging_fsync port acked observed staged generation s))"
| "staging_step port (Stage_Validate receipt generation) s =
     ([], snd (validate_persisted_frontier port receipt generation s))"
| "staging_step port Stage_Recover s = ([], snd (staging_recover port s))"

fun staging_run :: "'p spill_port \<Rightarrow> staging_op list \<Rightarrow> 'p staging_session \<Rightarrow> ng1_spill_record list \<times> 'p staging_session" where
  "staging_run port [] s = ([], s)"
| "staging_run port (stage # stages) s =
    (let (rs, s') = staging_step port stage s; (rs', s'') = staging_run port stages s' in (rs @ rs', s''))"

lemma staging_port_simps [simp]:
  "staging_port (poison s) = None"
  "staging_port (after_call p s) = (if staging_port s = None then (if ss_cleaned s \<or> ss_poisoned s then None else Some p) else Some p)"
  "ss_prefix (poison s) = ss_prefix s" "ss_binding (poison s) = ss_binding s"
  "ss_prefix (after_call p s) = ss_prefix s" "ss_binding (after_call p s) = ss_binding s"
  by (auto simp: staging_port_def poison_def after_call_def)

lemma staging_port_update [simp]:
  "staging_port (s\<lparr>ss_prefix := x\<rparr>) = staging_port s"
  "staging_port (s\<lparr>ss_last_fsync_sequence := n, ss_has_fsync_sequence := b, ss_last_resume_generation := g,
      ss_has_resume_generation := c\<rparr>) = staging_port s"
  by (simp_all add: staging_port_def)

lemma effect_result_iff [result_simps]: "effect_result e x = Inr v \<longleftrightarrow> x = Returned (Inr v)"
  by (cases x) (auto simp: effect_result_def)

lemma tracks_poison: "session_tracks live log rs s \<Longrightarrow> session_tracks live log rs (poison (after_call p s))"
  by (simp add: session_tracks_def)

lemma tracks_after_call:
  "session_tracks live log rs s \<Longrightarrow> live p \<Longrightarrow> log p = log_of rs \<Longrightarrow> session_tracks live log rs (after_call p s)"
  by (auto simp: session_tracks_def split: if_splits)

lemma no_error_iff [result_simps]: "(\<forall>e. r \<noteq> Inl e) \<longleftrightarrow> r = Inr ()"
  by (cases r) auto

lemma observed_receipt:
  assumes "observe_host_fsync s acked staged n = Inr r"
  shows "rc_fsync_sequence r = n" "rc_highest_contiguous_acked_sequence r = acked" "rc_staged_digest r = staged"
    "receipt_validate r = Inr ()" "rc_provider_id r = sp_provider_id (px_binding s)"
    "rc_protocol_session_id r = sp_protocol_session_id (px_binding s)" "rc_task_id r = sp_task_id (px_binding s)"
    "rc_stream_id r = sp_stream_id (px_binding s)" "rc_total_bytes r = px_total_bytes s"
    "rc_total_records r = word_of_nat (length (px_record_digests s))"
    "spill_digest s = Inr (rc_spill_digest r)"
  using assms by (auto simp: observe_host_fsync_def Let_def and_then_Inr_iff no_error_iff split: if_splits sum.splits)

locale spill_store =
  fixes port :: "'p spill_port"
    and live :: "'p \<Rightarrow> bool"
    and log :: "'p \<Rightarrow> bytes"
    and stored :: "'p \<Rightarrow> ng1_spill_resume_frontier option"
  assumes append_law: "live p \<Longrightarrow> po_append port w p = (Returned (Inr u), p') \<Longrightarrow>
      live p' \<and> log p' = log p @ w \<and> stored p' = stored p"
    and fsync_law: "live p \<Longrightarrow> po_fsync port p = (Returned (Inr n), p') \<Longrightarrow>
      live p' \<and> log p' = log p \<and> stored p' = stored p"
    and read_law: "live p \<Longrightarrow> po_read_all port p = (Returned (Inr bs), p') \<Longrightarrow>
      live p' \<and> log p' = log p \<and> stored p' = stored p \<and> bs = log p"
    and frontier_law: "live p \<Longrightarrow> po_read_resume_frontier port p = (Returned (Inr f), p') \<Longrightarrow>
      live p' \<and> log p' = log p \<and> stored p' = stored p \<and> f = stored p"
    and persist_law: "live p \<Longrightarrow> po_persist_resume_frontier port g p = (Returned (Inr u), p') \<Longrightarrow>
      live p' \<and> log p' = log p \<and> stored p' = Some g"
begin

lemma append_tracks:
  assumes "session_tracks live log rs s" "staging_append port r s = (Inr u, s')"
  shows "session_tracks live log (rs @ [r]) s'"
proof -
  obtain p where p: "staging_port s = Some p"
    using assms(2) by (cases "staging_port s") (auto simp: staging_append_def)
  obtain candidate wire where c: "spill_append r (ss_prefix s) = Inr candidate" "encode_spill_record r = Inr wire"
    "and_then (validate_spill_record_wire_quota r) (\<lambda>_. and_then (spill_append r (ss_prefix s)) (\<lambda>candidate.
        and_then (encode_spill_record r) (\<lambda>wire. Inr (candidate, wire)))) = Inr (candidate, wire)"
    using assms(2) p by (auto simp: staging_append_def and_then_Inr_iff split: sum.splits)
  obtain v p' where call: "po_append port wire p = (Returned (Inr v), p')"
    "s' = (after_call p' s)\<lparr>ss_prefix := candidate\<rparr>"
    using assms(2) p c(3)
    by (auto simp: staging_append_def Let_def effect_result_iff split: sum.splits prod.splits)
  have live: "live p" "log p = log_of rs"
    using assms(1) p by (auto simp: session_tracks_def)
  have laws: "live p'" "log p' = log p @ wire"
    using append_law [OF live(1) call(1)] by simp_all
  show ?thesis
    using assms(1) p c(1) laws live(2) encode_wire_of [OF c(2)] call(2)
    by (auto simp: session_tracks_def try_fold_append and_then_Inr_iff)
qed

lemma append_failed_tracks:
  assumes "session_tracks live log rs s" "staging_append port r s = (Inl e, s')"
  shows "session_tracks live log rs s'"
  using assms
  by (auto simp: staging_append_def Let_def effect_result_iff intro: tracks_poison
      split: option.splits sum.splits prod.splits)

lemma fsync_tracks:
  assumes "session_tracks live log rs s"
  shows "session_tracks live log rs (snd (staging_fsync port acked observed staged generation s))"
proof (cases "staging_port s")
  case None
  then show ?thesis using assms by (simp add: staging_fsync_def)
next
  case (Some p)
  have live: "live p" "log p = log_of rs"
    using assms Some by (auto simp: session_tracks_def)
  obtain eff p' where call: "po_fsync port p = (eff, p')" by fastforce
  show ?thesis
  proof (cases "fsync_admitted s acked observed staged generation")
    case (Inl e)
    then show ?thesis using assms Some by (simp add: staging_fsync_def)
  next
    case (Inr u)
    note adm = this
    show ?thesis
    proof (cases "and_then (effect_result (port_error ''fsync'' ''effect-unknown'') eff) (fsync_frontier s acked staged generation)")
      case (Inl e)
      then show ?thesis
        using assms Some adm call by (simp add: staging_fsync_def tracks_poison)
    next
      case (Inr frontier)
      then obtain n where n: "eff = Returned (Inr n)"
        by (auto simp: and_then_Inr_iff effect_result_iff)
      have one: "live p'" "log p' = log_of rs"
        using fsync_law [OF live(1)] call n live(2) by simp_all
      obtain eff' p'' where call': "po_persist_resume_frontier port frontier p' = (eff', p'')" by fastforce
      have t1: "session_tracks live log rs (after_call p' s)"
        using assms one by (rule tracks_after_call)
      show ?thesis
      proof (cases "effect_result (port_error ''resume_frontier'' ''effect-unknown'') eff'")
        case (Inl e)
        then show ?thesis
          using tracks_poison [OF t1] Some adm call call' Inr by (simp add: staging_fsync_def)
      next
        case (Inr v)
        then have "live p''" "log p'' = log_of rs"
          using persist_law [OF one(1)] call' one(2) by (simp_all add: effect_result_iff)
        with t1 have "session_tracks live log rs (after_call p'' (after_call p' s))"
          by (rule tracks_after_call)
        then show ?thesis
          using Some adm call call' Inr \<open>and_then _ _ = Inr frontier\<close>
          by (simp add: staging_fsync_def session_tracks_def)
      qed
    qed
  qed
qed

lemma validate_tracks:
  assumes "session_tracks live log rs s"
  shows "session_tracks live log rs (snd (validate_persisted_frontier port receipt generation s))"
proof (cases "staging_port s")
  case None
  then show ?thesis using assms by (simp add: validate_persisted_frontier_def)
next
  case (Some p)
  have live: "live p" "log p = log_of rs"
    using assms Some by (auto simp: session_tracks_def)
  obtain eff p' where call: "po_read_resume_frontier port p = (eff, p')" by fastforce
  have "session_tracks live log rs (after_call p' s)" if "eff = Returned (Inr f)" for f
    using assms frontier_law [OF live(1)] call that live(2) by (intro tracks_after_call) simp_all
  then show ?thesis
    using assms Some call tracks_poison [OF assms]
    by (auto simp: validate_persisted_frontier_def Let_def and_then_Inr_iff effect_result_iff split: sum.splits)
qed

lemma recover_tracks:
  assumes "session_tracks live log rs s"
  shows "session_tracks live log rs (snd (staging_recover port s))"
proof (cases "staging_port s")
  case None
  then show ?thesis using assms by (simp add: staging_recover_def)
next
  case (Some p)
  have live: "live p" "log p = log_of rs"
    using assms Some by (auto simp: session_tracks_def)
  obtain eff p' where call: "po_read_all port p = (eff, p')" by fastforce
  have "session_tracks live log rs (after_call p' s)" if "eff = Returned (Inr f)" for f
    using assms read_law [OF live(1)] call that live(2) by (intro tracks_after_call) simp_all
  then show ?thesis
    using assms Some call tracks_poison [OF assms]
    by (auto simp: staging_recover_def Let_def and_then_Inr_iff effect_result_iff split: sum.splits)
qed

lemma step_tracks:
  assumes "session_tracks live log rs s" "staging_step port stage s = (new, s')"
  shows "session_tracks live log (rs @ new) s'"
proof (cases stage)
  case (Stage_Append r)
  then show ?thesis
    using assms append_tracks append_failed_tracks by (auto split: prod.splits sum.splits)
next
  case (Stage_Fsync acked observed staged generation)
  then show ?thesis using assms fsync_tracks by auto
next
  case (Stage_Validate receipt generation)
  then show ?thesis using assms validate_tracks by auto
next
  case Stage_Recover
  then show ?thesis using assms recover_tracks by auto
qed

lemma run_tracks:
  assumes "session_tracks live log rs s" "staging_run port stages s = (new, s')"
  shows "session_tracks live log (rs @ new) s'"
  using assms
proof (induction stages arbitrary: rs s new s')
  case Nil
  then show ?case by simp
next
  case (Cons stage stages)
  obtain new1 s1 where one: "staging_step port stage s = (new1, s1)" by fastforce
  obtain new2 s2 where two: "staging_run port stages s1 = (new2, s2)" by fastforce
  have "session_tracks live log ((rs @ new1) @ new2) s2"
    using step_tracks [OF Cons.prems(1) one] two by (rule Cons.IH)
  then show ?case
    using Cons.prems(2) one two by simp
qed

lemma create_tracks:
  assumes "staging_create binding (Some p) = Inr s" "live p" "log p = []"
  shows "session_tracks live log [] s"
  using assms by (auto simp: staging_create_def and_then_Inr_iff session_tracks_def staging_port_def)

text \<open>Reading back what was staged.\<close>

lemma recover_exact:
  assumes "session_tracks live log rs s" "staging_port s = Some p" "po_read_all port p = (Returned (Inr bs), p')"
  shows "staging_recover port s = (Inr (ss_prefix s), after_call p' s)"
proof -
  have live: "live p" "log p = log_of rs"
    using assms by (auto simp: session_tracks_def)
  have "bs = log_of rs"
    using read_law [OF live(1) assms(3)] live(2) by simp
  moreover have "recover_prefix (ss_binding s) (log_of rs) = Inr (ss_prefix s)"
    using assms(1) by (auto simp: recover_prefix_iff session_tracks_def)
  ultimately show ?thesis
    using assms(2,3) by (simp add: staging_recover_def effect_result_def)
qed

text \<open>
  Restarting from a durability receipt: \<open>q\<close> is the storage the restarted session is given, whose log and
  frontier are those the acknowledged session left.
\<close>

lemma fsync_stores_frontier:
  assumes "session_tracks live log rs s" "staging_fsync port acked observed staged generation s = (Inr receipt, s')"
  obtains p where "staging_port s' = Some p" "live p" "log p = log_of rs"
    "stored p = Some \<lparr>sf_receipt = receipt, sf_resume_generation = generation\<rparr>"
    "ss_prefix s' = ss_prefix s" "ss_binding s' = ss_binding s" "ss_has_fsync_sequence s'"
    "ss_last_fsync_sequence s' = rc_fsync_sequence receipt" "ss_has_resume_generation s'"
    "ss_last_resume_generation s' = generation"
    "observe_host_fsync (ss_prefix s) acked staged (rc_fsync_sequence receipt) = Inr receipt"
    "frontier_validate \<lparr>sf_receipt = receipt, sf_resume_generation = generation\<rparr> = Inr ()"
proof -
  obtain p where p: "staging_port s = Some p"
    using assms(2) by (cases "staging_port s") (auto simp: staging_fsync_def)
  have live: "live p" "log p = log_of rs"
    using assms(1) p by (auto simp: session_tracks_def)
  obtain n p' where call: "po_fsync port p = (Returned (Inr n), p')"
    and adm: "fsync_admitted s acked observed staged generation = Inr ()"
    and f: "fsync_frontier s acked staged generation n = Inr \<lparr>sf_receipt = receipt, sf_resume_generation = generation\<rparr>"
    and rest: "\<exists>v p''. po_persist_resume_frontier port \<lparr>sf_receipt = receipt, sf_resume_generation = generation\<rparr> p' = (Returned (Inr v), p'')
      \<and> s' = (after_call p'' (after_call p' s))\<lparr>ss_last_fsync_sequence := rc_fsync_sequence receipt,
          ss_has_fsync_sequence := True, ss_last_resume_generation := generation, ss_has_resume_generation := True\<rparr>"
    using assms(2) p
    by (auto simp: staging_fsync_def Let_def and_then_Inr_iff effect_result_iff fsync_frontier_def
        split: sum.splits prod.splits if_splits)
  have obs: "observe_host_fsync (ss_prefix s) acked staged n = Inr receipt"
    and valid: "frontier_validate \<lparr>sf_receipt = receipt, sf_resume_generation = generation\<rparr> = Inr ()"
    using f by (auto simp: fsync_frontier_def and_then_Inr_iff Let_def split: if_splits)
  obtain v p'' where persist: "po_persist_resume_frontier port \<lparr>sf_receipt = receipt, sf_resume_generation = generation\<rparr> p'
      = (Returned (Inr v), p'')"
    and s': "s' = (after_call p'' (after_call p' s))\<lparr>ss_last_fsync_sequence := rc_fsync_sequence receipt,
          ss_has_fsync_sequence := True, ss_last_resume_generation := generation, ss_has_resume_generation := True\<rparr>"
    using rest by blast
  have one: "live p'" "log p' = log_of rs"
    using fsync_law [OF live(1) call] live(2) by simp_all
  have two: "live p''" "log p'' = log_of rs"
    "stored p'' = Some \<lparr>sf_receipt = receipt, sf_resume_generation = generation\<rparr>"
    using persist_law [OF one(1) persist] one(2) by simp_all
  show thesis
    by (rule that [of p'']) (use p s' two obs valid observed_receipt [OF obs] in simp_all)
qed

lemma restore_after_fsync:
  assumes "session_tracks live log rs s" "staging_fsync port acked observed staged generation s = (Inr receipt, s')"
    and fresh: "staging_create (ss_binding s) (Some q) = Inr s0"
    and q: "live q" "log q = log_of rs" "stored q = Some \<lparr>sf_receipt = receipt, sf_resume_generation = generation\<rparr>"
    and reads: "po_read_all port q = (Returned (Inr bs), q')" "po_read_resume_frontier port q' = (Returned (Inr f), q'')"
  shows "restore_from_fsync_receipt port receipt generation s0 = (Inr (), s'\<lparr>ss_storage := Some q''\<rparr>)"
proof -
  obtain p where facts: "staging_port s' = Some p" "ss_prefix s' = ss_prefix s" "ss_binding s' = ss_binding s" "ss_has_fsync_sequence s'"
    "ss_last_fsync_sequence s' = rc_fsync_sequence receipt" "ss_has_resume_generation s'"
    "ss_last_resume_generation s' = generation"
    and obs: "observe_host_fsync (ss_prefix s) acked staged (rc_fsync_sequence receipt) = Inr receipt"
    and valid: "frontier_validate \<lparr>sf_receipt = receipt, sf_resume_generation = generation\<rparr> = Inr ()"
    by (rule fsync_stores_frontier [OF assms(1,2)]) blast
  obtain fresh_prefix where fp: "spill_prefix_create (ss_binding s) = Inr fresh_prefix"
    "try_fold spill_append rs fresh_prefix = Inr (ss_prefix s)" "list_all encodable rs"
    using assms(1) by (auto simp: session_tracks_def)
  have bind: "px_binding (ss_prefix s) = ss_binding s"
    using spill_run_records [OF fp(2,1)] by simp
  have s0: "s0 = \<lparr>ss_prefix = fresh_prefix, ss_binding = ss_binding s, ss_storage = Some q, ss_last_fsync_sequence = 0,
       ss_last_resume_generation = 0, ss_has_fsync_sequence = False, ss_has_resume_generation = False,
       ss_poisoned = False, ss_cleaned = False\<rparr>"
    using fresh fp(1) by (simp add: staging_create_def)
  have adm: "restore_admitted s0 receipt = Inr ()"
    using observed_receipt [OF obs] spill_prefix_create_wf [OF fp(1)] bind by (simp add: restore_admitted_def s0)
  have bs: "bs = log_of rs"
    using read_law [OF q(1) reads(1)] q(2) by simp
  have q': "live q'" "stored q' = stored q"
    using read_law [OF q(1) reads(1)] by simp_all
  have f: "f = Some \<lparr>sf_receipt = receipt, sf_resume_generation = generation\<rparr>"
    using frontier_law [OF q'(1) reads(2)] q'(2) q(3) by simp
  have "recover_prefix (ss_binding s) (log_of rs) = Inr (ss_prefix s)"
    using fp by (auto simp: recover_prefix_iff)
  then have rec: "staging_recover port s0 = (Inr (ss_prefix s), after_call q' s0)"
    using reads(1) bs by (simp add: staging_recover_def effect_result_def s0 staging_port_def)
  have "receipt_of_prefix (ss_prefix s) receipt = Inr ()"
    using obs observed_receipt(2,3) [OF obs] by (simp add: receipt_of_prefix_def)
  moreover have "validate_persisted_frontier port receipt generation (after_call q' s0)
      = (Inr (), after_call q'' (after_call q' s0))"
    using valid reads(2) f
    by (simp add: validate_persisted_frontier_def effect_result_def s0 staging_port_def after_call_def frontier_is_latest_def)
  moreover have "ss_poisoned s' = False" "ss_cleaned s' = False"
    using facts(1) by (auto simp: staging_port_def split: if_splits)
  ultimately show ?thesis
    using adm rec facts
    by (cases s') (simp add: restore_from_fsync_receipt_def s0 staging_port_def after_call_def)
qed

end

section \<open>The port of the unit tests\<close>

text \<open>
  \<open>fake_spill_port\<close> of \<open>tests/unit/sdk/provider_ng1_spill_port_test.cpp\<close>: the log and the frontier in
  memory, with failures that a test can inject. Its observer pointers are not modelled.
\<close>

record fake_spill_port =
  fp_fail_append :: bool
  fp_partial_append_bytes :: nat
  fp_fail_fsync :: bool
  fp_fsync_value :: u64
  fp_fail_cleanup :: bool
  fp_cleanup_custody :: bool
  fp_bytes :: bytes
  fp_frontier :: "ng1_spill_resume_frontier option"
  fp_append_calls :: nat
  fp_fsync_calls :: nat
  fp_cleanup_calls :: nat
  fp_transfer_calls :: nat
  fp_read_calls :: nat
  fp_reopen_calls :: nat

definition fresh_fake_port :: fake_spill_port where
  "fresh_fake_port = \<lparr>fp_fail_append = False, fp_partial_append_bytes = 0, fp_fail_fsync = False,
    fp_fsync_value = 1, fp_fail_cleanup = False, fp_cleanup_custody = True, fp_bytes = [], fp_frontier = None,
    fp_append_calls = 0, fp_fsync_calls = 0, fp_cleanup_calls = 0, fp_transfer_calls = 0, fp_read_calls = 0,
    fp_reopen_calls = 0\<rparr>"

definition fake_append :: "bytes \<Rightarrow> fake_spill_port \<Rightarrow> unit port_effect \<times> fake_spill_port" where
  "fake_append input p =
    (let p = p\<lparr>fp_append_calls := fp_append_calls p + 1\<rparr>
     in if fp_fail_append p
        then (Returned (Inl (Err ''provider.recovery-failed'' ''append'' ''injected'')),
              p\<lparr>fp_bytes := fp_bytes p @ take (min (fp_partial_append_bytes p) (length input)) input\<rparr>)
        else (Returned (Inr ()), p\<lparr>fp_bytes := fp_bytes p @ input\<rparr>))"

definition fake_fsync :: "fake_spill_port \<Rightarrow> u64 port_effect \<times> fake_spill_port" where
  "fake_fsync p =
    (let p = p\<lparr>fp_fsync_calls := fp_fsync_calls p + 1\<rparr>
     in if fp_fail_fsync p then (Returned (Inl (Err ''provider.recovery-failed'' ''fsync'' ''injected'')), p)
        else (Returned (Inr (fp_fsync_value p)), p))"

definition fake_read_all :: "fake_spill_port \<Rightarrow> bytes port_effect \<times> fake_spill_port" where
  "fake_read_all p = (Returned (Inr (fp_bytes p)), p\<lparr>fp_read_calls := fp_read_calls p + 1\<rparr>)"

definition fake_read_resume_frontier :: "fake_spill_port \<Rightarrow>
    ng1_spill_resume_frontier option port_effect \<times> fake_spill_port" where
  "fake_read_resume_frontier p = (Returned (Inr (fp_frontier p)), p)"

definition fake_transfer_cleanup_custody_to :: "fake_spill_port \<Rightarrow> fake_spill_port \<Rightarrow>
    unit port_effect \<times> fake_spill_port \<times> fake_spill_port" where
  "fake_transfer_cleanup_custody_to p target =
    (let p = p\<lparr>fp_transfer_calls := fp_transfer_calls p + 1\<rparr>
     in if \<not> fp_cleanup_custody p \<or> fp_cleanup_custody target
        then (Returned (Inl (Err ''provider.recovery-failed'' ''cleanup'' ''injected-custody-mismatch'')), p, target)
        else (Returned (Inr ()), p\<lparr>fp_cleanup_custody := False\<rparr>, target\<lparr>fp_cleanup_custody := True\<rparr>))"

definition persist_frontier :: "ng1_spill_resume_frontier option \<Rightarrow> ng1_spill_resume_frontier
    \<Rightarrow> ng1_spill_resume_frontier option result" where
  "persist_frontier current next_frontier =
    and_then (frontier_validate next_frontier) (\<lambda>_.
      case current of
        None \<Rightarrow> Inr (Some next_frontier)
      | Some c \<Rightarrow>
        (if sf_resume_generation next_frontier \<le> sf_resume_generation c
           \<or> rc_fsync_sequence (sf_receipt next_frontier) \<le> rc_fsync_sequence (sf_receipt c)
         then Inl (token_stale ''resume_frontier'' ''not-increasing'') else Inr (Some next_frontier)))"

definition fake_persist_resume_frontier :: "ng1_spill_resume_frontier \<Rightarrow> fake_spill_port \<Rightarrow>
    unit port_effect \<times> fake_spill_port" where
  "fake_persist_resume_frontier value p =
    (case persist_frontier (fp_frontier p) value of
       Inl e \<Rightarrow> (Returned (Inl e), p)
     | Inr f \<Rightarrow> (Returned (Inr ()), p\<lparr>fp_frontier := f\<rparr>))"

definition fake_cleanup :: "fake_spill_port \<Rightarrow> unit port_effect \<times> fake_spill_port" where
  "fake_cleanup p =
    (let p = p\<lparr>fp_cleanup_calls := fp_cleanup_calls p + 1\<rparr>
     in if fp_fail_cleanup p then (Returned (Inl (Err ''provider.recovery-failed'' ''cleanup'' ''injected'')), p)
        else (Returned (Inr ()), p))"

text \<open>\<open>reopen\<close>: the new port, and the old one whose call was counted.\<close>

definition fake_reopen :: "fake_spill_port \<Rightarrow> fake_spill_port \<times> fake_spill_port" where
  "fake_reopen p =
    (fresh_fake_port\<lparr>fp_bytes := fp_bytes p, fp_frontier := fp_frontier p, fp_fsync_value := fp_fsync_value p,
       fp_cleanup_custody := False\<rparr>, p\<lparr>fp_reopen_calls := fp_reopen_calls p + 1\<rparr>)"

definition fake_port :: "fake_spill_port spill_port" where
  "fake_port = \<lparr>po_append = fake_append, po_fsync = fake_fsync, po_read_all = fake_read_all,
    po_read_resume_frontier = fake_read_resume_frontier,
    po_transfer_cleanup_custody_to = fake_transfer_cleanup_custody_to,
    po_persist_resume_frontier = fake_persist_resume_frontier, po_cleanup = fake_cleanup\<rparr>"

lemmas fake_port_defs = fake_port_def fake_append_def fake_fsync_def fake_read_all_def fake_read_resume_frontier_def
  fake_persist_resume_frontier_def Let_def

interpretation fake: spill_store fake_port "\<lambda>_. True" fp_bytes fp_frontier
  by unfold_locales
    (auto simp: fake_port_defs persist_frontier_def and_then_Inr_iff split: if_splits sum.splits option.splits)

lemma example_record_admitted:
  obtains r t where "encodable r" "spill_append r example_prefix = Inr t" "validate_spill_record_wire_quota r = Inr ()"
    "length (px_record_digests t) = 1"
proof -
  obtain pd rd where d: "ng1_spill_record_digest (example_record pd rd) = Inr rd" "record_texts_valid (example_record pd rd)"
    and small: "8 + length (record_body (example_record pd rd)) \<le> 2000"
    by (rule example_record_encodes)
  let ?r = "example_record pd rd"
  have enc: "encodable ?r"
    using d small by (auto simp: encodable_def encode_spill_record_iff wire_of_def)
  obtain n where n: "spill_record_wire_bytes ?r = Inr n" "unat n = 8 + length (record_body ?r)"
    using wire_bytes_exact [of ?r] small by auto
  then have le: "n \<le> ng1_spill_maximum_record_bytes" "n \<le> ng1_spill_maximum_total_bytes"
    using small by (simp_all add: word_le_nat_alt)
  then have quota: "validate_spill_record_wire_quota ?r = Inr ()"
    using n(1) by (simp add: wire_quota_eq)
  have "\<exists>t. spill_append ?r example_prefix = Inr t \<and> length (px_record_digests t) = 1"
    using n(1) le d(1)
    by (auto simp: spill_append_def example_prefix_def example_spill_binding_def example_record_sels
        ng1_spill_maximum_records_def)
  then show thesis
    using that enc quota by blast
qed

text \<open>The example record is admitted to a fresh prefix once; offered again, it is no longer the next one.\<close>

lemma spill_prefix_exact_witness:
  "\<exists>r. accepted_inputs spill_append [r, r] example_prefix = [r]
    \<and> prefix_of_records [r] (run_machine spill_append [r, r] example_prefix)
    \<and> px_record_digests (run_machine spill_append [r, r] example_prefix) = [sx_record_digest r]"
proof -
  obtain r t where r: "spill_append r example_prefix = Inr t"
    by (rule example_record_admitted)
  have "sx_record_ordinal r = 0" "px_next_record_ordinal t = 1"
    using r by (auto elim!: spill_append_step simp: example_prefix_def)
  then have "spill_append r t \<noteq> Inr u" for u
    by (auto elim!: spill_append_step)
  then obtain e where "spill_append r t = Inl e"
    by (cases "spill_append r t") auto
  then have accepted: "accepted_inputs spill_append [r, r] example_prefix = [r]"
    using r by simp
  then have "prefix_of_records [r] (run_machine spill_append [r, r] example_prefix)"
    using spill_prefix_exact [OF example_prefix_created, of "[r, r]"] by simp
  then show ?thesis
    using accepted by (auto simp: prefix_of_records_def)
qed

section \<open>Properties\<close>

lemma example_session:
  obtains s where "staging_create example_spill_binding (Some fresh_fake_port) = Inr s" "ss_prefix s = example_prefix"
    "staging_port s = Some fresh_fake_port" "ss_binding s = example_spill_binding"
  using example_prefix_created by (auto simp: staging_create_def staging_port_def)

text \<open>
  C24: whatever is asked of a session on storage that keeps its promises, as long as the session is not
  poisoned or cleaned up the log on the port is exactly the encodings of the records it admitted, in
  order; the prefix it reports is the prefix of those records; and a recovery that can read the port
  returns that very prefix. A failed or torn append never shows up, because it poisons the session.
\<close>

theorem staged_log_is_recovered:
  assumes "spill_store port live log stored" "staging_create binding (Some p0) = Inr s" "live p0" "log p0 = []"
    "staging_run port stages s = (rs, s')" "staging_port s' = Some p" "po_read_all port p = (Returned (Inr bs), p')"
  shows "log p = log_of rs \<and> prefix_of_records rs (ss_prefix s')
    \<and> staging_recover port s' = (Inr (ss_prefix s'), after_call p' s')"
proof -
  note store = assms(1)
  have t: "session_tracks live log rs s'"
    using spill_store.run_tracks [OF store spill_store.create_tracks [OF store assms(2-4)] assms(5)] by simp
  obtain fresh where "spill_prefix_create (ss_binding s') = Inr fresh" "try_fold spill_append rs fresh = Inr (ss_prefix s')"
    using t by (auto simp: session_tracks_def)
  then show ?thesis
    using t assms(6) spill_store.recover_exact [OF store t assms(6,7)] spill_run_records
    by (auto simp: session_tracks_def)
qed

lemma staged_log_is_recovered_witness:
  "\<exists>r s s' p. staging_run fake_port [Stage_Append r] s = ([r], s') \<and> staging_port s' = Some p
    \<and> fp_bytes p = log_of [r] \<and> fst (staging_recover fake_port s') = Inr (ss_prefix s')"
proof -
  obtain r t where r: "encodable r" "spill_append r example_prefix = Inr t" "validate_spill_record_wire_quota r = Inr ()"
    by (rule example_record_admitted)
  obtain s where s: "staging_create example_spill_binding (Some fresh_fake_port) = Inr s" "ss_prefix s = example_prefix"
    "staging_port s = Some fresh_fake_port" by (rule example_session)
  define p where "p = fresh_fake_port\<lparr>fp_append_calls := 1, fp_bytes := wire_of r\<rparr>"
  define s' where "s' = (after_call p s)\<lparr>ss_prefix := t\<rparr>"
  have "fake_append (wire_of r) fresh_fake_port = (Returned (Inr ()), p)"
    by (simp add: fake_append_def p_def fresh_fake_port_def)
  then have run: "staging_run fake_port [Stage_Append r] s = ([r], s')"
    using r s by (simp add: staging_append_def encodable_def fake_port_def effect_result_def s'_def)
  have port: "staging_port s' = Some p"
    using s(3) by (simp add: s'_def)
  have "po_read_all fake_port p = (Returned (Inr (fp_bytes p)), p\<lparr>fp_read_calls := fp_read_calls p + 1\<rparr>)"
    by (simp add: fake_port_def fake_read_all_def)
  from staged_log_is_recovered [OF fake.spill_store_axioms s(1) TrueI _ run port this] port run show ?thesis
    by (fastforce simp: fresh_fake_port_def)
qed

text \<open>Operations keep the binding of a session, whatever the port does.\<close>

lemma staging_step_binding: "ss_binding (snd (staging_step port stage s)) = ss_binding s"
  by (cases stage) (auto simp: staging_append_def staging_fsync_def validate_persisted_frontier_def staging_recover_def
      Let_def split: option.splits sum.splits prod.splits)

lemma staging_run_binding: "ss_binding (snd (staging_run port stages s)) = ss_binding s"
proof (induction stages arbitrary: s)
  case Nil
  then show ?case by simp
next
  case (Cons stage stages)
  then show ?case
    using staging_step_binding [of port stage s] by (auto split: prod.splits) (metis snd_conv)
qed

text \<open>
  C25: restart. A session whose fsync handed out a durability receipt can be rebuilt from it: a new session
  over storage with the same log and frontier accepts the receipt and the generation and ends in the very
  state of the acknowledged session (prefix, fsync sequence, generation), only the storage being another.
\<close>

theorem restart_restores_session:
  assumes "spill_store port live log stored" "staging_create binding (Some p0) = Inr s" "live p0" "log p0 = []"
    "staging_run port stages s = (rs, s1)"
    "staging_fsync port acked observed staged generation s1 = (Inr receipt, s2)" "staging_port s2 = Some p"
    "staging_create binding (Some q) = Inr s0" "live q" "log q = log p" "stored q = stored p"
    "po_read_all port q = (Returned (Inr bs), q')" "po_read_resume_frontier port q' = (Returned (Inr f), q'')"
  shows "restore_from_fsync_receipt port receipt generation s0 = (Inr (), s2\<lparr>ss_storage := Some q''\<rparr>)"
proof -
  note store = assms(1)
  have t: "session_tracks live log rs s1"
    using spill_store.run_tracks [OF store spill_store.create_tracks [OF store assms(2-4)] assms(5)] by simp
  obtain p' where p': "staging_port s2 = Some p'" "log p' = log_of rs"
    "stored p' = Some \<lparr>sf_receipt = receipt, sf_resume_generation = generation\<rparr>"
    by (rule spill_store.fsync_stores_frontier [OF store t assms(6)]) blast
  have "ss_binding s1 = binding"
    using staging_run_binding [of port stages s] assms(2,5) by (auto simp: staging_create_def and_then_Inr_iff)
  then show ?thesis
    using p' assms(7-11) spill_store.restore_after_fsync [OF store t assms(6) _ assms(9) _ _ assms(12,13)] by simp
qed

lemma restart_restores_session_witness:
  "\<exists>s1 s2 receipt p s0 q. staging_fsync fake_port 0 0 example_digest 1 s1 = (Inr receipt, s2)
    \<and> staging_port s2 = Some p \<and> q = fst (fake_reopen p)
    \<and> staging_create example_spill_binding (Some q) = Inr s0
    \<and> fst (restore_from_fsync_receipt fake_port receipt 1 s0) = Inr ()"
proof -
  obtain r t where r: "encodable r" "spill_append r example_prefix = Inr t" "validate_spill_record_wire_quota r = Inr ()"
    "length (px_record_digests t) = 1"
    by (rule example_record_admitted)
  obtain s where s: "staging_create example_spill_binding (Some fresh_fake_port) = Inr s" "ss_prefix s = example_prefix"
    "staging_port s = Some fresh_fake_port" "ss_binding s = example_spill_binding" by (rule example_session)
  define p where "p = fresh_fake_port\<lparr>fp_append_calls := 1, fp_bytes := wire_of r\<rparr>"
  define s1 where "s1 = (after_call p s)\<lparr>ss_prefix := t\<rparr>"
  have "fake_append (wire_of r) fresh_fake_port = (Returned (Inr ()), p)"
    by (simp add: fake_append_def p_def fresh_fake_port_def)
  then have run: "staging_run fake_port [Stage_Append r] s = ([r], s1)"
    using r s by (simp add: staging_append_def encodable_def fake_port_def effect_result_def s1_def)
  have port: "staging_port s1 = Some p" "ss_prefix s1 = t"
    using s(3) by (simp_all add: s1_def)
  have wf: "prefix_wf t"
    using spill_append_wf(1) [OF _ r(2)] spill_prefix_create_wf [OF example_prefix_created] by simp
  obtain receipt where obs: "observe_host_fsync t 0 example_digest 1 = Inr receipt"
    using observe_host_fsync_iff [OF wf, of 0 example_digest 1] r(4) example_digest_valid by auto
  have ack: "validate_ack_frontier t 0 = Inr ()"
    using ack_frontier_iff [OF wf] r(4) by simp
  have flags: "\<not> ss_has_fsync_sequence s1" "\<not> ss_has_resume_generation s1"
    using s(1) by (auto simp: s1_def after_call_def staging_create_def and_then_Inr_iff)
  let ?f = "\<lparr>sf_receipt = receipt, sf_resume_generation = 1\<rparr>"
  have valid: "frontier_validate ?f = Inr ()"
    using observed_receipt(4) [OF obs] by (simp add: frontier_validate_def)
  define p1 where "p1 = p\<lparr>fp_fsync_calls := fp_fsync_calls p + 1\<rparr>"
  define p2 where "p2 = p1\<lparr>fp_frontier := Some ?f\<rparr>"
  have fs: "po_fsync fake_port p = (Returned (Inr 1), p1)"
    by (simp add: fake_port_def fake_fsync_def p1_def p_def fresh_fake_port_def)
  have ps: "po_persist_resume_frontier fake_port ?f p1 = (Returned (Inr ()), p2)"
    using valid by (simp add: fake_port_def fake_persist_resume_frontier_def persist_frontier_def p1_def p2_def p_def
        fresh_fake_port_def)
  define s2 where "s2 = (after_call p2 (after_call p1 s1))\<lparr>ss_last_fsync_sequence := 1, ss_has_fsync_sequence := True,
      ss_last_resume_generation := 1, ss_has_resume_generation := True\<rparr>"
  have adm: "fsync_admitted s1 0 0 example_digest 1 = Inr ()"
    using ack flags example_digest_valid port(2) by (simp add: fsync_admitted_def)
  have front: "fsync_frontier s1 0 example_digest 1 1 = Inr ?f"
    using obs valid flags port(2) by (simp add: fsync_frontier_def)
  have fsync: "staging_fsync fake_port 0 0 example_digest 1 s1 = (Inr receipt, s2)"
    using port(1) adm fs ps front observed_receipt(1) [OF obs]
    by (simp add: staging_fsync_def effect_result_def s2_def)
  have port2: "staging_port s2 = Some p2"
    using port(1) by (simp add: s2_def)
  define q where "q = fst (fake_reopen p2)"
  obtain s0 where s0: "staging_create example_spill_binding (Some q) = Inr s0"
    using example_prefix_created by (simp add: staging_create_def)
  have q: "fp_bytes q = fp_bytes p2" "fp_frontier q = fp_frontier p2"
    by (simp_all add: q_def fake_reopen_def)
  have reads: "po_read_all fake_port q = (Returned (Inr (fp_bytes q)), q\<lparr>fp_read_calls := fp_read_calls q + 1\<rparr>)"
    "po_read_resume_frontier fake_port q' = (Returned (Inr (fp_frontier q')), q')" for q'
    by (simp_all add: fake_port_def fake_read_all_def fake_read_resume_frontier_def)
  have empty: "fp_bytes fresh_fake_port = []"
    by (simp add: fresh_fake_port_def)
  have "restore_from_fsync_receipt fake_port receipt 1 s0 = (Inr (), s2\<lparr>ss_storage := Some (q\<lparr>fp_read_calls := fp_read_calls q + 1\<rparr>)\<rparr>)"
    by (rule restart_restores_session [OF fake.spill_store_axioms s(1) TrueI empty run fsync port2 s0 TrueI q reads(1) reads(2)])
  then show ?thesis
    using fsync port2 s0 q_def by (metis fst_conv)
qed

text \<open>
  C26: a failed append is either no effect at all or the end of the session's work: the prefix is the one
  before, and unless nothing was touched every later append, fsync, frontier validation and recovery returns
  without calling the port (cleanup and the custody hand-over still may). This holds for every port, however
  it fails, throws or misbehaves.
\<close>

theorem failed_append_is_final:
  assumes "staging_append port r s = (Inl e, s')"
  shows "ss_prefix s' = ss_prefix s \<and> (s' = s \<or> staging_run port stages s' = ([], s'))"
proof -
  have dead: "staging_run port stages s = ([], s)" if "staging_port s = None" for s :: "'a staging_session"
  proof (induction stages)
    case Nil
    then show ?case by simp
  next
    case (Cons stage stages)
    have "staging_step port stage s = ([], s)"
      using that by (cases stage) (simp_all add: staging_append_def staging_fsync_def
          validate_persisted_frontier_def staging_recover_def)
    then show ?case using Cons by simp
  qed
  have "ss_prefix s' = ss_prefix s \<and> (s' = s \<or> staging_port s' = None)"
    using assms by (auto simp: staging_append_def Let_def split: option.splits sum.splits prod.splits)
  then show ?thesis
    using dead by blast
qed

lemma failed_append_is_final_witness:
  "\<exists>r s s'. staging_append (fake_port\<lparr>po_append := \<lambda>w p. (Threw, p)\<rparr>) r s
      = (Inl (port_error ''append'' ''effect-unknown''), s')
    \<and> staging_run (fake_port\<lparr>po_append := \<lambda>w p. (Threw, p)\<rparr>) [Stage_Recover, Stage_Append r] s' = ([], s')"
proof -
  let ?port = "fake_port\<lparr>po_append := \<lambda>w p. (Threw, p)\<rparr>"
  obtain r t where r: "encodable r" "spill_append r example_prefix = Inr t" "validate_spill_record_wire_quota r = Inr ()"
    by (rule example_record_admitted)
  obtain s where s: "ss_prefix s = example_prefix" "staging_port s = Some fresh_fake_port" by (rule example_session)
  define s' where "s' = poison (after_call fresh_fake_port s)"
  have failed: "staging_append ?port r s = (Inl (port_error ''append'' ''effect-unknown''), s')"
    using r s by (simp add: staging_append_def encodable_def effect_result_def s'_def)
  have "s' \<noteq> s"
    using s(2) by (auto simp: s'_def poison_def after_call_def staging_port_def dest: arg_cong [of _ _ ss_poisoned] split: if_splits)
  then show ?thesis
    using failed_append_is_final [OF failed, of "[Stage_Recover, Stage_Append r]"] failed by blast
qed

end
