(* ===== verification/Relation_Values.thy ===== *)
theory Relation_Values
  imports Sdk_Common "HOL-Library.Char_ord" "HOL-Library.List_Lexorder"
begin

text \<open>
  The values of \<open>src/sdk/relation.cpp\<close> and \<open>include/cxxlens/sdk/relation.hpp\<close>: the text grammars
  of identifiers, digests and versions, the scalar kinds with their parameters, the packed encoding
  of sets, and the detached cells. The grammars written as loops are shown equal to what they
  describe, and the canonical text of a validated cell is shown to determine the cell.
\<close>

section \<open>Enumerations\<close>

text \<open>
  The enumerations have an underlying \<open>std::uint8_t\<close>, so a value outside the enumerators is
  possible; \<open>is_valid\<close> tests for it.
\<close>

datatype scalar_kind = Kind_Boolean | Kind_Signed | Kind_Unsigned | Kind_Utf8 | Kind_Bytes
  | Kind_Digest | Kind_Version | Kind_Typed_Id | Kind_Open_Symbol | Kind_Condition_Ref
  | Kind_Source_Span_Id | Kind_Evidence_Id | Kind_Closed_Symbol | Kind_Set | Kind_Relation_Name
  | Kind_Semantic_Key_Id | Kind_Assertion_Id | Kind_Content_Digest | Kind_Interpretation_Domain_Id
  | Kind_Unlisted byte

definition scalar_kind_valid :: "scalar_kind \<Rightarrow> bool" where
  "scalar_kind_valid k = (case k of Kind_Unlisted b \<Rightarrow> False | _ \<Rightarrow> True)"

datatype cell_state = Present | Absent | Unknown | State_Unlisted byte

definition cell_state_valid :: "cell_state \<Rightarrow> bool" where
  "cell_state_valid s = (case s of State_Unlisted b \<Rightarrow> False | _ \<Rightarrow> True)"

record value_type =
  vt_scalar :: scalar_kind
  vt_parameter :: string
  vt_optional :: bool

text \<open>\<open>std::variant<bool, std::int64_t, std::uint64_t, std::string, std::vector<std::byte>>\<close>\<close>

datatype scalar_value = Bool_Scalar bool | Int_Scalar u64 | Uint_Scalar u64 | Text_Scalar string
  | Bytes_Scalar bytes

record detached_cell =
  cell_type :: value_type
  cell_state :: cell_state
  cell_value :: "scalar_value option"
  cell_unknown_reason :: "string option"

section \<open>Text grammars\<close>

text \<open>\<open>value.ends_with(suffix)\<close>, and \<open>value.find(c, begin)\<close> as an index of the whole string.\<close>

definition ends_with :: "string \<Rightarrow> string \<Rightarrow> bool" where
  "ends_with s p = (length p \<le> length s \<and> drop (length s - length p) s = p)"

definition find_from :: "string \<Rightarrow> char \<Rightarrow> nat \<Rightarrow> nat option" where
  "find_from s c begin =
    (if c \<in> set (drop begin s) then Some (begin + length (takeWhile (\<lambda>d. d \<noteq> c) (drop begin s)))
     else None)"

definition lower_alpha :: "char \<Rightarrow> bool" where
  "lower_alpha c = (let b = byte_of_char c in 0x61 \<le> b \<and> b \<le> 0x7a)"

definition digit :: "char \<Rightarrow> bool" where
  "digit c = (let b = byte_of_char c in 0x30 \<le> b \<and> b \<le> 0x39)"

definition lower_identifier :: "string \<Rightarrow> bool" where
  "lower_identifier s = (s \<noteq> [] \<and> lower_alpha (hd s)
    \<and> list_all (\<lambda>c. lower_alpha c \<or> digit c \<or> c = CHR ''_'') (tl s))"

definition typed_identity_parameter :: "string \<Rightarrow> bool" where
  "typed_identity_parameter s = (lower_identifier s \<and> (ends_with s ''_id'' \<or> s = ''stable_unit_key''))"

text \<open>The loop over the dot-separated segments; the argument is \<open>value.substr(begin)\<close>.\<close>

function relation_name_from :: "bool \<Rightarrow> string \<Rightarrow> bool" where
  "relation_name_from saw_dot rest =
    (if \<not> lower_identifier (takeWhile (\<lambda>c. c \<noteq> CHR ''.'') rest) then False
     else case dropWhile (\<lambda>c. c \<noteq> CHR ''.'') rest of
         [] \<Rightarrow> saw_dot
       | dot # rest' \<Rightarrow> relation_name_from True rest')"
  by pat_completeness auto
termination
proof (relation "measure (\<lambda>(saw_dot, rest). length rest)")
  fix rest rest' :: string and dot saw_dot
  assume "dropWhile (\<lambda>c. c \<noteq> CHR ''.'') rest = dot # rest'"
  then have "length (dot # rest') \<le> length rest"
    by (metis length_dropWhile_le)
  then show "((True, rest'), saw_dot, rest) \<in> measure (\<lambda>(saw_dot, rest). length rest)"
    by simp
qed simp

declare relation_name_from.simps [simp del]

definition relation_name :: "string \<Rightarrow> bool" where
  "relation_name s = relation_name_from False s"

definition stable_id_char :: "char \<Rightarrow> bool" where
  "stable_id_char c = (lower_alpha c \<or> digit c \<or> c = CHR ''_'' \<or> c = CHR ''.'' \<or> c = CHR ''-'')"

definition stable_id :: "string \<Rightarrow> bool" where
  "stable_id s = (s \<noteq> [] \<and> lower_alpha (hd s) \<and> list_all stable_id_char (tl s))"

definition semantics_id :: "string \<Rightarrow> bool" where
  "semantics_id s =
    (case find_from s CHR ''/'' 0 of
       None \<Rightarrow> False
     | Some slash \<Rightarrow>
         if slash < 2 \<or> slash + 1 \<ge> length s \<or> find_from s CHR ''/'' (slash + 1) \<noteq> None then False
         else if \<not> stable_id (take slash s) then False
         else list_all digit (drop (slash + 1) s))"

definition unique_strings :: "string list \<Rightarrow> bool" where
  "unique_strings values = distinct_adj (sort values)"

definition hex_digest :: "string \<Rightarrow> bool" where
  "hex_digest hex = (length hex = 64 \<and> list_all lower_hex hex)"

definition canonical_digest_value :: "string \<Rightarrow> bool" where
  "canonical_digest_value s =
    (let hex = (if starts_with s ''sha256:'' then drop 7 s
                else if starts_with s ''semantic-v2:sha256:'' then drop 19 s else [])
     in hex_digest hex)"

text \<open>\<open>value.find(needle)\<close> for a string.\<close>

fun find_text :: "string \<Rightarrow> string \<Rightarrow> nat option" where
  "find_text needle [] = (if needle = [] then Some 0 else None)"
| "find_text needle (c # s) =
    (if starts_with (c # s) needle then Some 0 else map_option Suc (find_text needle s))"

definition canonical_content_digest_value :: "string \<Rightarrow> bool" where
  "canonical_content_digest_value s =
    (if canonical_digest_value s then True
     else case find_text '':sha256:'' s of
         None \<Rightarrow> False
       | Some separator \<Rightarrow>
           (let domain = take separator s; hex = drop (separator + 8) s
            in domain \<noteq> [] \<and> lower_alpha (hd domain) \<and> list_all stable_id_char domain
               \<and> hex_digest hex))"

text \<open>
  \<open>std::from_chars\<close> into a \<open>std::uint32_t\<close>: the longest run of digits; no digit is
  \<open>invalid_argument\<close>, a value that does not fit is \<open>result_out_of_range\<close>, otherwise the value and
  the characters from \<open>ptr\<close> on.
\<close>

definition digits_value :: "string \<Rightarrow> nat" where
  "digits_value s = foldl (\<lambda>v c. v * 10 + (of_char c - 48)) 0 s"

definition from_chars_u32 :: "string \<Rightarrow> (u32 \<times> string) option" where
  "from_chars_u32 s =
    (let run = takeWhile digit s
     in if run = [] \<or> digits_value run \<ge> 2 ^ 32 then None
        else Some (word_of_nat (digits_value run), dropWhile digit s))"

function version_components :: "string \<Rightarrow> nat \<Rightarrow> nat \<Rightarrow> bool" where
  "version_components value component begin =
    (if component < 3 then
       case (if component = 2 then Some (length value) else find_from value CHR ''.'' begin) of
         None \<Rightarrow> False
       | Some stop \<Rightarrow>
           if stop = begin \<or> (stop - begin > 1 \<and> value ! begin = CHR ''0'') then False
           else case from_chars_u32 (take (stop - begin) (drop begin value)) of
               None \<Rightarrow> False
             | Some (parsed, rest) \<Rightarrow>
                 if rest \<noteq> [] then False else version_components value (component + 1) (stop + 1)
     else begin = length value + 1)"
  by pat_completeness auto
termination by (relation "measure (\<lambda>(value, component, begin). 3 - component)") auto

declare version_components.simps [simp del]

definition canonical_semantic_version :: "string \<Rightarrow> bool" where
  "canonical_semantic_version value = version_components value 0 0"

definition control_free_text :: "string \<Rightarrow> bool" where
  "control_free_text s = (s \<noteq> [] \<and> sdk_valid_utf8 (bytes_of s)
    \<and> \<not> list_ex (\<lambda>c. byte_of_char c < 0x20 \<or> byte_of_char c = 0x7f) s)"

section \<open>Symbols and sets\<close>

definition closed_symbol_contracts :: "(string \<times> string list) list" where
  "closed_symbol_contracts =
    [(''claim-stage/1'', [''assertion'', ''canonical_claim'', ''derived_claim'']),
     (''cc.canonicalization-state/1'',
      [''canonicalized'', ''provider_local'', ''ambiguous_equivalence_set'']),
     (''core.claim-conflict-kind/1'', [''authoritative_payload_mismatch''])]"

definition closed_symbol_value :: "string \<Rightarrow> string \<Rightarrow> bool" where
  "closed_symbol_value contract symbol =
    (case map_of closed_symbol_contracts contract of None \<Rightarrow> False | Some symbols \<Rightarrow> symbol \<in> set symbols)"

text \<open>
  \<open>type.starts_with(prefix) && type.ends_with('>')\<close>, and then the text between them.
\<close>

definition symbol_contract :: "string \<Rightarrow> string \<Rightarrow> string option" where
  "symbol_contract prefix s =
    (if starts_with s prefix \<and> ends_with s ''>''
     then Some (take (length s - length prefix - 1) (drop (length prefix) s)) else None)"

definition supported_set_element_type :: "string \<Rightarrow> bool" where
  "supported_set_element_type t =
    (if t = ''content_digest'' \<or> t = ''digest'' \<or> t = ''assertion_id'' \<or> t = ''source_span_id''
        \<or> t = ''evidence_id'' \<or> t = ''condition_ref'' \<or> ends_with t ''_id''
     then True
     else case symbol_contract ''open_symbol<'' t of
         Some contract \<Rightarrow> semantics_id contract
       | None \<Rightarrow>
           (case symbol_contract ''closed_symbol<'' t of
              Some contract \<Rightarrow>
                semantics_id contract \<and> map_of closed_symbol_contracts contract \<noteq> None
            | None \<Rightarrow> False))"

definition set_element_value :: "string \<Rightarrow> string \<Rightarrow> bool" where
  "set_element_value t v =
    (if t = ''content_digest'' then canonical_content_digest_value v
     else if t = ''digest'' then canonical_digest_value v
     else if t = ''assertion_id'' \<or> t = ''source_span_id'' \<or> t = ''evidence_id''
             \<or> t = ''condition_ref'' \<or> ends_with t ''_id''
     then control_free_text v
     else case symbol_contract ''open_symbol<'' t of
         Some contract \<Rightarrow> semantics_id contract \<and> control_free_text v
       | None \<Rightarrow>
           (case symbol_contract ''closed_symbol<'' t of
              Some contract \<Rightarrow> semantics_id contract \<and> closed_symbol_value contract v
            | None \<Rightarrow> False))"

text \<open>
  The little-endian \<open>length |= byte << (byte_index * 8)\<close>, and the loop over the packed elements; its
  arguments are the bytes from \<open>offset\<close> on and \<open>previous\<close>.
\<close>

definition le_value :: "bytes \<Rightarrow> u32" where
  "le_value bs = foldr (\<lambda>b acc. push_bit 8 acc OR ucast b) bs 0"

function set_elements_from :: "string \<Rightarrow> string \<Rightarrow> bytes \<Rightarrow> bool" where
  "set_elements_from element_type previous rest =
    (if rest = [] then True
     else if length rest < 4 then False
     else
      (let len = le_value (take 4 rest); rest1 = drop 4 rest
       in if len = 0 \<or> unat len > length rest1 then False
          else
           (let v = string_of (take (unat len) rest1)
            in if \<not> set_element_value element_type v \<or> (previous \<noteq> [] \<and> previous \<ge> v) then False
               else set_elements_from element_type v (drop (unat len) rest1))))"
  by pat_completeness auto
termination by (relation "measure (\<lambda>(t, p, rest). length rest)") auto

declare set_elements_from.simps [simp del]

definition canonical_set_bytes :: "string \<Rightarrow> bytes \<Rightarrow> bool" where
  "canonical_set_bytes element_type encoded =
    (if \<not> supported_set_element_type element_type then False
     else if encoded = [] then True
     else set_elements_from element_type [] encoded)"

section \<open>Scalar types\<close>

definition matches_scalar :: "scalar_kind \<Rightarrow> scalar_value \<Rightarrow> bool" where
  "matches_scalar k v =
    (case k of
       Kind_Boolean \<Rightarrow> (case v of Bool_Scalar b \<Rightarrow> True | _ \<Rightarrow> False)
     | Kind_Signed \<Rightarrow> (case v of Int_Scalar i \<Rightarrow> True | _ \<Rightarrow> False)
     | Kind_Unsigned \<Rightarrow> (case v of Uint_Scalar i \<Rightarrow> True | _ \<Rightarrow> False)
     | Kind_Bytes \<Rightarrow> (case v of Bytes_Scalar bs \<Rightarrow> True | _ \<Rightarrow> False)
     | Kind_Set \<Rightarrow> (case v of Bytes_Scalar bs \<Rightarrow> True | _ \<Rightarrow> False)
     | Kind_Unlisted b \<Rightarrow> False
     | _ \<Rightarrow> (case v of Text_Scalar s \<Rightarrow> True | _ \<Rightarrow> False))"

definition valid_scalar_type :: "value_type \<Rightarrow> bool" where
  "valid_scalar_type t =
    (case vt_scalar t of
       Kind_Typed_Id \<Rightarrow> typed_identity_parameter (vt_parameter t)
     | Kind_Open_Symbol \<Rightarrow> semantics_id (vt_parameter t)
     | Kind_Closed_Symbol \<Rightarrow> semantics_id (vt_parameter t)
         \<and> map_of closed_symbol_contracts (vt_parameter t) \<noteq> None
     | Kind_Set \<Rightarrow> supported_set_element_type (vt_parameter t)
     | Kind_Unlisted b \<Rightarrow> False
     | _ \<Rightarrow> vt_parameter t = [])"

text \<open>
  The dereferenced \<open>text\<close> and the \<open>std::get\<close> of the bytes: \<open>matches_scalar\<close> has established the
  alternative by then.
\<close>

definition on_text :: "scalar_value \<Rightarrow> (string \<Rightarrow> bool) \<Rightarrow> bool" where
  "on_text v p = (case v of Text_Scalar s \<Rightarrow> p s | _ \<Rightarrow> False)"

definition on_bytes :: "scalar_value \<Rightarrow> (bytes \<Rightarrow> bool) \<Rightarrow> bool" where
  "on_bytes v p = (case v of Bytes_Scalar bs \<Rightarrow> p bs | _ \<Rightarrow> False)"

definition unless_ok :: "bool \<Rightarrow> string \<Rightarrow> string option" where
  "unless_ok ok detail = (if ok then None else Some detail)"

definition invalid_scalar_detail :: "value_type \<Rightarrow> scalar_value \<Rightarrow> string option" where
  "invalid_scalar_detail t v =
    (if \<not> valid_scalar_type t then Some ''type-parameter''
     else if \<not> matches_scalar (vt_scalar t) v then Some ''type-shape''
     else if (case v of Text_Scalar s \<Rightarrow> \<not> sdk_valid_utf8 (bytes_of s) | _ \<Rightarrow> False)
     then Some ''invalid-utf8''
     else
      (let parameter = vt_parameter t;
           identity = unless_ok (parameter = [] \<and> on_text v control_free_text) ''identity''
       in case vt_scalar t of
            Kind_Digest \<Rightarrow> unless_ok (parameter = [] \<and> on_text v canonical_digest_value) ''digest''
          | Kind_Version \<Rightarrow>
              unless_ok (parameter = [] \<and> on_text v canonical_semantic_version) ''semantic-version''
          | Kind_Typed_Id \<Rightarrow>
              if \<not> typed_identity_parameter parameter then Some ''typed-id-parameter''
              else unless_ok (on_text v control_free_text) ''identity''
          | Kind_Condition_Ref \<Rightarrow> identity
          | Kind_Source_Span_Id \<Rightarrow> identity
          | Kind_Evidence_Id \<Rightarrow> identity
          | Kind_Semantic_Key_Id \<Rightarrow> identity
          | Kind_Assertion_Id \<Rightarrow> identity
          | Kind_Interpretation_Domain_Id \<Rightarrow> identity
          | Kind_Relation_Name \<Rightarrow> unless_ok (parameter = [] \<and> on_text v relation_name) ''relation-name''
          | Kind_Content_Digest \<Rightarrow>
              unless_ok (parameter = [] \<and> on_text v canonical_content_digest_value) ''digest''
          | Kind_Open_Symbol \<Rightarrow>
              unless_ok (semantics_id parameter \<and> on_text v control_free_text) ''open-symbol''
          | Kind_Closed_Symbol \<Rightarrow>
              unless_ok (semantics_id parameter \<and> on_text v (closed_symbol_value parameter))
                ''closed-symbol''
          | Kind_Set \<Rightarrow>
              unless_ok (parameter \<noteq> [] \<and> on_bytes v (canonical_set_bytes parameter)) ''set-encoding''
          | Kind_Unlisted b \<Rightarrow> Some ''scalar-kind''
          | _ \<Rightarrow> unless_ok (parameter = []) ''unexpected-parameter''))"

definition scalar_kind_name :: "scalar_kind \<Rightarrow> string" where
  "scalar_kind_name k =
    (case k of
       Kind_Boolean \<Rightarrow> ''bool'' | Kind_Signed \<Rightarrow> ''int64'' | Kind_Unsigned \<Rightarrow> ''uint64''
     | Kind_Utf8 \<Rightarrow> ''utf8_string'' | Kind_Bytes \<Rightarrow> ''bytes'' | Kind_Digest \<Rightarrow> ''digest''
     | Kind_Version \<Rightarrow> ''semantic_version'' | Kind_Typed_Id \<Rightarrow> ''typed_id''
     | Kind_Open_Symbol \<Rightarrow> ''open_symbol'' | Kind_Condition_Ref \<Rightarrow> ''condition_ref''
     | Kind_Source_Span_Id \<Rightarrow> ''source_span_id'' | Kind_Evidence_Id \<Rightarrow> ''evidence_id''
     | Kind_Relation_Name \<Rightarrow> ''relation_name'' | Kind_Semantic_Key_Id \<Rightarrow> ''semantic_key_id''
     | Kind_Assertion_Id \<Rightarrow> ''assertion_id'' | Kind_Content_Digest \<Rightarrow> ''content_digest''
     | Kind_Interpretation_Domain_Id \<Rightarrow> ''interpretation_domain_id''
     | Kind_Closed_Symbol \<Rightarrow> ''closed_symbol'' | Kind_Set \<Rightarrow> ''set''
     | Kind_Unlisted b \<Rightarrow> ''invalid-scalar-kind:'' @ decimal (unat b))"

definition canonical_name :: "value_type \<Rightarrow> string" where
  "canonical_name t =
    (let output = scalar_kind_name (vt_scalar t);
         output = (if vt_parameter t \<noteq> [] then output @ ''<'' @ vt_parameter t @ ''>'' else output)
     in if vt_optional t then ''optional<'' @ output @ ''>'' else output)"

section \<open>Detached cells\<close>

definition hex_byte :: "byte \<Rightarrow> string" where
  "hex_byte b = [hex_digit (unat (drop_bit 4 b)), hex_digit (unat (b AND 0xf))]"

definition int64_text :: "u64 \<Rightarrow> string" where
  "int64_text i = (if sint i < 0 then CHR ''-'' # decimal (nat (- sint i)) else decimal (nat (sint i)))"

definition scalar_text :: "scalar_value \<Rightarrow> string" where
  "scalar_text v =
    (case v of
       Bool_Scalar b \<Rightarrow> if b then ''true'' else ''false''
     | Int_Scalar i \<Rightarrow> int64_text i
     | Uint_Scalar i \<Rightarrow> decimal (unat i)
     | Text_Scalar s \<Rightarrow> [CHR 0x22] @ canonical_json_escape s @ [CHR 0x22]
     | Bytes_Scalar bs \<Rightarrow> [CHR 0x22] @ concat (map hex_byte bs) @ [CHR 0x22])"

definition cell_boolean :: "bool \<Rightarrow> detached_cell" where
  "cell_boolean v = \<lparr>cell_type = \<lparr>vt_scalar = Kind_Boolean, vt_parameter = [], vt_optional = False\<rparr>,
    cell_state = Present, cell_value = Some (Bool_Scalar v), cell_unknown_reason = None\<rparr>"

definition cell_signed :: "u64 \<Rightarrow> detached_cell" where
  "cell_signed v = \<lparr>cell_type = \<lparr>vt_scalar = Kind_Signed, vt_parameter = [], vt_optional = False\<rparr>,
    cell_state = Present, cell_value = Some (Int_Scalar v), cell_unknown_reason = None\<rparr>"

definition cell_unsigned :: "u64 \<Rightarrow> detached_cell" where
  "cell_unsigned v = \<lparr>cell_type = \<lparr>vt_scalar = Kind_Unsigned, vt_parameter = [], vt_optional = False\<rparr>,
    cell_state = Present, cell_value = Some (Uint_Scalar v), cell_unknown_reason = None\<rparr>"

definition cell_utf8 :: "string \<Rightarrow> detached_cell" where
  "cell_utf8 v = \<lparr>cell_type = \<lparr>vt_scalar = Kind_Utf8, vt_parameter = [], vt_optional = False\<rparr>,
    cell_state = Present, cell_value = Some (Text_Scalar v), cell_unknown_reason = None\<rparr>"

definition cell_bytes :: "bytes \<Rightarrow> detached_cell" where
  "cell_bytes v = \<lparr>cell_type = \<lparr>vt_scalar = Kind_Bytes, vt_parameter = [], vt_optional = False\<rparr>,
    cell_state = Present, cell_value = Some (Bytes_Scalar v), cell_unknown_reason = None\<rparr>"

definition cell_typed :: "string \<Rightarrow> string \<Rightarrow> detached_cell" where
  "cell_typed t v = \<lparr>cell_type = \<lparr>vt_scalar = Kind_Typed_Id, vt_parameter = t, vt_optional = False\<rparr>,
    cell_state = Present, cell_value = Some (Text_Scalar v), cell_unknown_reason = None\<rparr>"

definition cell_absent :: "value_type \<Rightarrow> detached_cell" where
  "cell_absent t = \<lparr>cell_type = t\<lparr>vt_optional := True\<rparr>, cell_state = Absent, cell_value = None,
    cell_unknown_reason = None\<rparr>"

definition cell_unknown :: "value_type \<Rightarrow> string \<Rightarrow> detached_cell" where
  "cell_unknown t reason = \<lparr>cell_type = t, cell_state = Unknown, cell_value = None,
    cell_unknown_reason = Some reason\<rparr>"

abbreviation cell_error :: "string \<Rightarrow> string \<Rightarrow> 'a result" where
  "cell_error field detail \<equiv> Inl (Err ''sdk.cell-invalid'' field detail)"

definition cell_validate :: "detached_cell \<Rightarrow> unit result" where
  "cell_validate c =
    (if \<not> cell_state_valid (cell_state c) then cell_error ''state'' ''closed-enum''
     else if \<not> scalar_kind_valid (vt_scalar (cell_type c)) \<or> \<not> valid_scalar_type (cell_type c)
     then cell_error ''type'' ''type-parameter''
     else if cell_state c = Present then
       (case cell_value c of
          None \<Rightarrow> cell_error ''value'' ''present''
        | Some v \<Rightarrow>
            if cell_unknown_reason c \<noteq> None then cell_error ''value'' ''present''
            else (case invalid_scalar_detail (cell_type c) v of
                Some detail \<Rightarrow> cell_error ''value'' detail
              | None \<Rightarrow> Inr ()))
     else if cell_state c = Absent then
       (if \<not> vt_optional (cell_type c) \<or> cell_value c \<noteq> None \<or> cell_unknown_reason c \<noteq> None
        then cell_error ''state'' ''absent'' else Inr ())
     else
       (case cell_unknown_reason c of
          None \<Rightarrow> cell_error ''state'' ''unknown''
        | Some reason \<Rightarrow>
            if cell_value c \<noteq> None \<or> reason = [] then cell_error ''state'' ''unknown''
            else if \<not> sdk_valid_utf8 (bytes_of reason) then cell_error ''unknown_reason'' ''invalid-utf8''
            else if \<not> control_free_text reason then cell_error ''unknown_reason'' ''control-character''
            else Inr ()))"

definition state_name :: "cell_state \<Rightarrow> string" where
  "state_name s = (case s of Present \<Rightarrow> ''present'' | Absent \<Rightarrow> ''absent'' | Unknown \<Rightarrow> ''unknown''
    | State_Unlisted b \<Rightarrow> [])"

text \<open>A JSON member written as \<open>"name":\<close> after the characters before it.\<close>

definition quoted :: "string \<Rightarrow> string" where
  "quoted s = [CHR 0x22] @ s @ [CHR 0x22]"

definition cell_canonical_form :: "detached_cell \<Rightarrow> string" where
  "cell_canonical_form c =
    ''{'' @ quoted ''state'' @ '':'' @ quoted (state_name (cell_state c))
    @ '','' @ quoted ''type'' @ '':'' @ quoted (canonical_json_escape (canonical_name (cell_type c)))
    @ (case cell_value c of None \<Rightarrow> [] | Some v \<Rightarrow> '','' @ quoted ''value'' @ '':'' @ scalar_text v)
    @ (case cell_unknown_reason c of None \<Rightarrow> []
         | Some r \<Rightarrow> '','' @ quoted ''unknown_reason'' @ '':'' @ quoted (canonical_json_escape r))
    @ ''}''"

section \<open>Decimal numbers\<close>

lemma decimal_small: "n < 10 \<Longrightarrow> decimal n = [hex_digit n]"
  by (subst decimal.simps) simp

lemma decimal_step: "\<not> n < 10 \<Longrightarrow> decimal n = decimal (n div 10) @ [hex_digit (n mod 10)]"
  by (subst decimal.simps) simp

lemma digit_iff: "digit c \<longleftrightarrow> 48 \<le> (of_char c :: nat) \<and> (of_char c :: nat) \<le> 57"
proof -
  have "unat (byte_of_char c) = of_char c"
    by (simp add: byte_of_char_def) (metis of_char_mod_256 of_nat_of_char unat_of_nat_byte)
  then show ?thesis
    by (simp add: digit_def Let_def byte_le_unat)
qed

lemma digit_hex_digit: "n < 10 \<Longrightarrow> digit (hex_digit n) \<and> of_char (hex_digit n) - 48 = n"
  by (simp add: digit_iff hex_digit_def)

lemma hex_digit_of_digit: "digit c \<Longrightarrow> hex_digit (of_char c - 48) = c"
  using linorder_not_less [of "of_char c - 48" "10 :: nat"] by (auto simp: digit_iff hex_digit_def)

lemma digits_value_snoc: "digits_value (s @ [c]) = digits_value s * 10 + (of_char c - 48)"
  by (simp add: digits_value_def)

lemma digits_value_base [simp]: "digits_value [] = 0" "digits_value [c] = of_char c - 48"
  by (simp_all add: digits_value_def)

lemma decimal_digits: "list_all digit (decimal n) \<and> digits_value (decimal n) = n \<and> decimal n \<noteq> []"
proof (induction n rule: decimal.induct)
  case (1 n)
  show ?case
  proof (cases "n < 10")
    case True
    then show ?thesis
      using digit_hex_digit [of n] by (simp add: decimal_small)
  next
    case False
    then show ?thesis
      using 1 digit_hex_digit [of "n mod 10"] by (simp add: decimal_step digits_value_snoc)
  qed
qed

lemma digits_value_pos: "s \<noteq> [] \<Longrightarrow> list_all digit s \<Longrightarrow> hd s \<noteq> CHR ''0'' \<Longrightarrow> 0 < digits_value s"
proof (induction s rule: rev_induct)
  case Nil
  then show ?case by simp
next
  case (snoc c s)
  have "of_char c \<noteq> (48 :: nat)" if "c \<noteq> CHR ''0''"
  proof
    assume "of_char c = (48 :: nat)"
    then have "of_char c = (of_char CHR ''0'' :: nat)" by simp
    then show False using that by (simp only: of_char_eq_iff)
  qed
  then show ?case
    using snoc by (cases "s = []") (auto simp: digits_value_snoc digit_iff hd_append)
qed

text \<open>Digits without a superfluous leading zero are the decimal text of their value.\<close>

lemma decimal_digits_value:
  assumes "s \<noteq> []" "list_all digit s" "\<not> (length s > 1 \<and> hd s = CHR ''0'')"
  shows "decimal (digits_value s) = s"
  using assms
proof (induction s rule: rev_induct)
  case Nil
  then show ?case by simp
next
  case (snoc c s)
  have c: "digit c" "of_char c - 48 < (10 :: nat)" "hex_digit (of_char c - 48) = c"
    using snoc.prems hex_digit_of_digit [of c] by (auto simp: digit_iff)
  show ?case
  proof (cases "s = []")
    case True
    then show ?thesis
      using c by (simp add: decimal_small)
  next
    case False
    then have s: "hd s \<noteq> CHR ''0''" "list_all digit s"
      using snoc.prems by (auto simp: hd_append)
    then have "0 < digits_value s"
      using False by (intro digits_value_pos)
    moreover from s False have "decimal (digits_value s) = s"
      using snoc.IH by simp
    ultimately show ?thesis
      using c by (simp add: digits_value_snoc decimal_step)
  qed
qed

lemma decimal_leading_zero: "\<not> (length (decimal n) > 1 \<and> hd (decimal n) = CHR ''0'')"
proof (induction n rule: decimal.induct)
  case (1 n)
  show ?case
  proof (cases "n < 10")
    case True
    then show ?thesis by (simp add: decimal_small)
  next
    case False
    have "hex_digit 0 = CHR ''0''"
      by code_simp
    then have zero: "hex_digit (n div 10) \<noteq> CHR ''0''" if "n div 10 < 10"
      using that False hex_digit_inject [of "n div 10" 0] by (auto simp: div_eq_0_iff)
    show ?thesis
      using 1 False decimal_digits [of "n div 10"] decimal_digits [of "n div 10 div 10"] zero
      by (cases "n div 10 < 10") (auto simp: decimal_step [of n] decimal_small decimal_step [of "n div 10"] hd_append)
  qed
qed

section \<open>Semantic versions\<close>

lemma take_drop_find:
  assumes "find_from value c begin = Some stop"
  shows "drop begin value = take (stop - begin) (drop begin value) @ c # drop (stop + 1) value"
    and "c \<notin> set (take (stop - begin) (drop begin value))" and "begin \<le> stop" and "stop < length value"
proof -
  let ?run = "takeWhile (\<lambda>d. d \<noteq> c) (drop begin value)"
  have in_set: "c \<in> set (drop begin value)" and stop: "stop = begin + length ?run"
    using assms by (auto simp: find_from_def split: if_splits)
  have take: "take (stop - begin) (drop begin value) = ?run"
    by (simp add: stop flip: takeWhile_eq_take)
  obtain rest where rest: "dropWhile (\<lambda>d. d \<noteq> c) (drop begin value) = c # rest"
    using in_set by (metis (mono_tags, lifting) dropWhile_eq_Nil_conv hd_dropWhile list.collapse)
  have whole: "drop begin value = ?run @ c # rest"
    using takeWhile_dropWhile_id [of "\<lambda>d. d \<noteq> c" "drop begin value"] rest by simp
  have "drop (stop + 1) value = drop (Suc (length ?run)) (drop begin value)"
    by (simp add: stop add.commute)
  also have "\<dots> = rest"
    by (subst whole) simp
  finally show "drop begin value = take (stop - begin) (drop begin value) @ c # drop (stop + 1) value"
    using whole take by simp
  show "c \<notin> set (take (stop - begin) (drop begin value))"
    unfolding take by (metis (mono_tags, lifting) set_takeWhileD)
  show "begin \<le> stop" by (simp add: stop)
  have "length ?run < length (drop begin value)"
    by (subst (2) whole) simp
  then show "stop < length value" by (simp add: stop)
qed

lemma find_fromI:
  assumes "drop begin value = run @ c # rest" "c \<notin> set run"
  shows "find_from value c begin = Some (begin + length run)"
  using assms by (simp add: find_from_def takeWhile_append)

text \<open>What the loop asks of one component.\<close>

definition version_component :: "string \<Rightarrow> bool" where
  "version_component run = (run \<noteq> [] \<and> \<not> (length run > 1 \<and> hd run = CHR ''0'')
    \<and> (\<exists>parsed. from_chars_u32 run = Some (parsed, [])))"

lemma from_chars_complete:
  "(\<exists>parsed. from_chars_u32 run = Some (parsed, [])) \<longleftrightarrow>
     run \<noteq> [] \<and> list_all digit run \<and> digits_value run < 2 ^ 32"
proof (cases "list_all digit run")
  case True
  then have whole: "takeWhile digit run = run" "dropWhile digit run = []"
    by (simp_all add: list_all_iff)
  show ?thesis
    unfolding from_chars_u32_def Let_def whole using True by auto
next
  case False
  then have "dropWhile digit run \<noteq> []"
    by (auto simp: list_all_iff)
  then show ?thesis
    using False by (auto simp: from_chars_u32_def Let_def)
qed

lemma version_component_iff: "version_component run \<longleftrightarrow> (\<exists>w :: u32. run = decimal (unat w))"
proof
  assume "version_component run"
  then have r: "run \<noteq> []" "\<not> (length run > 1 \<and> hd run = CHR ''0'')" "list_all digit run"
    "digits_value run < 2 ^ 32"
    by (simp_all add: version_component_def from_chars_complete)
  have "unat (word_of_nat (digits_value run) :: u32) = digits_value run"
    using r(4) by (simp add: unat_of_nat)
  then show "\<exists>w :: u32. run = decimal (unat w)"
    using decimal_digits_value [OF r(1,3,2)] by metis
next
  assume "\<exists>w :: u32. run = decimal (unat w)"
  then obtain w :: u32 where w: "run = decimal (unat w)" ..
  have "unat w < 2 ^ 32"
    by (rule order_less_le_trans [OF unsigned_less]) simp
  then show "version_component run"
    using decimal_digits [of "unat w"] decimal_leading_zero [of "unat w"]
    unfolding version_component_def from_chars_complete w by simp
qed

lemma version_components_step:
  assumes "component < 2" "begin \<le> length value"
  shows "version_components value component begin \<longleftrightarrow>
    (\<exists>w :: u32. \<exists>rest. drop begin value = decimal (unat w) @ CHR ''.'' # rest
      \<and> version_components value (component + 1) (begin + length (decimal (unat w)) + 1))"
proof
  assume v: "version_components value component begin"
  then obtain stop where stop: "find_from value CHR ''.'' begin = Some stop"
    using assms(1) by (subst (asm) version_components.simps) (auto split: option.splits)
  note found = take_drop_find [OF stop]
  let ?run = "take (stop - begin) (drop begin value)"
  have len: "length ?run = stop - begin"
    using found(3,4) by simp
  have hd_run: "hd ?run = value ! begin" if "stop - begin > 1"
    using that found(3,4) by (simp add: hd_drop_conv_nth)
  have "version_component ?run" and nxt: "version_components value (component + 1) (stop + 1)"
    using v assms(1) stop len hd_run found(3,4)
    by (subst (asm) version_components.simps; force simp: version_component_def split: option.splits if_splits)+
  then obtain w :: u32 where w: "?run = decimal (unat w)"
    by (auto simp: version_component_iff)
  have "begin + length (decimal (unat w)) = stop"
    using len found(3) by (simp flip: w)
  then show "\<exists>w :: u32. \<exists>rest. drop begin value = decimal (unat w) @ CHR ''.'' # rest
      \<and> version_components value (component + 1) (begin + length (decimal (unat w)) + 1)"
    using found(1) nxt unfolding w by auto
next
  assume "\<exists>w :: u32. \<exists>rest. drop begin value = decimal (unat w) @ CHR ''.'' # rest
      \<and> version_components value (component + 1) (begin + length (decimal (unat w)) + 1)"
  then obtain w :: u32 and rest where w: "drop begin value = decimal (unat w) @ CHR ''.'' # rest"
    and nxt: "version_components value (component + 1) (begin + length (decimal (unat w)) + 1)"
    by blast
  let ?run = "decimal (unat w)"
  have "CHR ''.'' \<notin> set ?run"
    using decimal_digits [of "unat w"] by (auto simp: list_all_iff digit_iff)
  then have stop: "find_from value CHR ''.'' begin = Some (begin + length ?run)"
    by (rule find_fromI [OF w])
  have ok: "version_component ?run"
    by (auto simp: version_component_iff)
  moreover have "value ! begin = hd ?run"
    using w assms(2) decimal_digits [of "unat w"] by (metis hd_append hd_drop_conv_nth append_is_Nil_conv drop_all linorder_not_less)
  moreover have "take (length ?run) (drop begin value) = ?run"
    by (simp add: w)
  ultimately show "version_components value component begin"
    using assms(1) stop nxt
    by (subst version_components.simps) (auto simp: version_component_def)
qed

lemma version_components_last:
  assumes "begin \<le> length value"
  shows "version_components value 2 begin \<longleftrightarrow> (\<exists>w :: u32. drop begin value = decimal (unat w))"
proof -
  have "hd (drop begin value) = value ! begin" if "begin < length value"
    using that by (simp add: hd_drop_conv_nth)
  moreover have "version_components value 3 (length value + 1)"
    by (subst version_components.simps) simp
  ultimately have "version_components value 2 begin \<longleftrightarrow> version_component (drop begin value)"
    using assms by (subst version_components.simps)
      (auto simp: version_component_def split: option.splits)
  then show ?thesis by (simp add: version_component_iff)
qed

lemma drop_after:
  assumes "drop i s = d @ c # rest"
  shows "i + length d + 1 \<le> length s" and "drop (i + length d + 1) s = rest"
proof -
  have "length s - i = length d + 1 + length rest"
    using arg_cong [OF assms, of length] by simp
  moreover have "drop (i + length d + 1) s = drop (length d + 1) (drop i s)"
    by (simp add: add.commute add.left_commute)
  ultimately show "i + length d + 1 \<le> length s" "drop (i + length d + 1) s = rest"
    by (simp_all add: assms)
qed

lemma ex_rest: "(\<exists>rest. P rest \<and> (\<exists>w. rest = f w)) \<longleftrightarrow> (\<exists>w. P (f w))"
  by blast

lemma version_components_middle:
  assumes "i \<le> length s"
  shows "version_components s 1 i \<longleftrightarrow>
    (\<exists>v :: u32. \<exists>w :: u32. drop i s = decimal (unat v) @ ''.'' @ decimal (unat w))"
proof -
  have "version_components s 1 i \<longleftrightarrow> (\<exists>v :: u32. \<exists>rest. drop i s = decimal (unat v) @ CHR ''.'' # rest
      \<and> version_components s 2 (i + length (decimal (unat v)) + 1))"
    using version_components_step [of 1 i s] assms by (simp add: numeral_2_eq_2)
  also have "\<dots> \<longleftrightarrow> (\<exists>v :: u32. \<exists>rest. drop i s = decimal (unat v) @ CHR ''.'' # rest
      \<and> (\<exists>w :: u32. rest = decimal (unat w)))"
    by (intro ex_cong1 conj_cong refl) (simp only: version_components_last drop_after)
  finally show ?thesis
    by (simp only: ex_rest append_Cons append_Nil)
qed

text \<open>
  C30: the version grammar accepts exactly the texts that printing a version produces, for every
  version whose components fit 32 bits.
\<close>

theorem semantic_version_grammar_exact:
  "canonical_semantic_version s \<longleftrightarrow> (\<exists>v. s = version_string v)"
proof -
  have "canonical_semantic_version s \<longleftrightarrow> (\<exists>u :: u32. \<exists>rest. drop 0 s = decimal (unat u) @ CHR ''.'' # rest
      \<and> version_components s 1 (0 + length (decimal (unat u)) + 1))"
    using version_components_step [of 0 0 s] by (simp add: canonical_semantic_version_def)
  also have "\<dots> \<longleftrightarrow> (\<exists>u :: u32. \<exists>rest. drop 0 s = decimal (unat u) @ CHR ''.'' # rest
      \<and> (\<exists>v :: u32. \<exists>w :: u32. rest = decimal (unat v) @ ''.'' @ decimal (unat w)))"
    by (intro ex_cong1 conj_cong refl, subst version_components_middle, erule drop_after(1))
      (simp only: drop_after(2))
  also have "\<dots> \<longleftrightarrow> (\<exists>u :: u32. \<exists>v :: u32. \<exists>w :: u32. s = decimal (unat u) @ ''.'' @ decimal (unat v) @ ''.'' @ decimal (unat w))"
    by (simp only: ex_rest drop_0 append_Cons append_Nil) blast
  also have "\<dots> \<longleftrightarrow> (\<exists>v. s = version_string v)"
    unfolding version_string_def by (metis semantic_version.select_convs)
  finally show ?thesis .
qed

section \<open>Relation names\<close>

primrec dotted :: "string \<Rightarrow> string list \<Rightarrow> string" where
  "dotted s [] = s"
| "dotted s (t # ts) = s @ ''.'' @ dotted t ts"

lemma lower_identifier_no_dot: "lower_identifier s \<Longrightarrow> CHR ''.'' \<notin> set s"
proof -
  have no: "\<not> lower_alpha CHR ''.''" "\<not> digit CHR ''.''"
    by code_simp+
  show "lower_identifier s \<Longrightarrow> CHR ''.'' \<notin> set s"
    using no by (cases s) (auto simp: lower_identifier_def list_all_iff)
qed

lemma split_components_at_dot:
  assumes "CHR ''.'' \<notin> set s"
  shows "takeWhile (\<lambda>c. c \<noteq> CHR ''.'') (s @ CHR ''.'' # r) = s"
    "dropWhile (\<lambda>c. c \<noteq> CHR ''.'') (s @ CHR ''.'' # r) = CHR ''.'' # r"
    "takeWhile (\<lambda>c. c \<noteq> CHR ''.'') s = s" "dropWhile (\<lambda>c. c \<noteq> CHR ''.'') s = []"
proof -
  have all: "\<And>c. c \<in> set s \<Longrightarrow> c \<noteq> CHR ''.''"
    using assms by auto
  show "takeWhile (\<lambda>c. c \<noteq> CHR ''.'') (s @ CHR ''.'' # r) = s"
    "dropWhile (\<lambda>c. c \<noteq> CHR ''.'') (s @ CHR ''.'' # r) = CHR ''.'' # r"
    "takeWhile (\<lambda>c. c \<noteq> CHR ''.'') s = s" "dropWhile (\<lambda>c. c \<noteq> CHR ''.'') s = []"
    using all by (simp_all add: takeWhile_append2 dropWhile_append2 takeWhile_eq_all_conv)
qed

lemma relation_name_from_iff:
  "relation_name_from saw rest \<longleftrightarrow>
    (\<exists>s ts. rest = dotted s ts \<and> list_all lower_identifier (s # ts) \<and> (saw \<or> ts \<noteq> []))"
proof (induction saw rest rule: relation_name_from.induct)
  case (1 saw rest)
  let ?seg = "takeWhile (\<lambda>c. c \<noteq> CHR ''.'') rest"
  let ?tail = "dropWhile (\<lambda>c. c \<noteq> CHR ''.'') rest"
  have whole: "rest = ?seg @ ?tail" by simp
  show ?case
  proof
    assume r: "relation_name_from saw rest"
    then have seg: "lower_identifier ?seg"
      by (subst (asm) relation_name_from.simps) (simp split: if_splits)
    show "\<exists>s ts. rest = dotted s ts \<and> list_all lower_identifier (s # ts) \<and> (saw \<or> ts \<noteq> [])"
    proof (cases ?tail)
      case Nil
      have "saw"
        using r seg Nil by (subst (asm) relation_name_from.simps) (simp only: list.case simp_thms if_False)
      moreover have "rest = ?seg"
        using whole unfolding Nil append_Nil2 .
      then have "rest = dotted ?seg []"
        by (simp only: dotted.simps(1))
      moreover have "list_all lower_identifier [?seg]"
        using seg by (simp only: list.pred_inject simp_thms)
      ultimately show ?thesis by blast
    next
      case (Cons d rest')
      have d: "d = CHR ''.''"
        using hd_dropWhile [of "\<lambda>c. c \<noteq> CHR ''.''" rest] Cons by simp
      have "relation_name_from True rest'"
        using r seg Cons by (subst (asm) relation_name_from.simps) simp
      then obtain s ts where st: "rest' = dotted s ts" "list_all lower_identifier (s # ts)"
        using 1 seg Cons by auto
      have "rest = dotted ?seg (s # ts)"
        using whole by (simp add: Cons d st(1))
      then show ?thesis using seg st(2) by (intro exI [of _ ?seg] exI [of _ "s # ts"]) simp
    qed
  next
    assume "\<exists>s ts. rest = dotted s ts \<and> list_all lower_identifier (s # ts) \<and> (saw \<or> ts \<noteq> [])"
    then obtain s ts where st: "rest = dotted s ts" "lower_identifier s" "list_all lower_identifier ts"
      "saw \<or> ts \<noteq> []" by auto
    note dots = split_components_at_dot [OF lower_identifier_no_dot [OF st(2)]]
    show "relation_name_from saw rest"
    proof (cases ts)
      case Nil
      then have "rest = s" using st(1) by simp
      then have "?seg = s" "?tail = []" using dots by (simp_all only:)
      then show ?thesis
        using st(2,4) Nil
        by (subst relation_name_from.simps) (simp only: list.case simp_thms if_False)
    next
      case (Cons t us)
      have rest: "rest = s @ CHR ''.'' # dotted t us" using st(1) Cons by simp
      have "relation_name_from True (dotted t us)"
        using 1 st(2,3) Cons rest dots by fastforce
      then show ?thesis
        using st(2) rest dots by (subst relation_name_from.simps) simp
    qed
  qed
qed

text \<open>A relation name is two or more lower-case identifiers joined by dots.\<close>

lemma relation_name_iff:
  "relation_name s \<longleftrightarrow> (\<exists>t ts. s = dotted t ts \<and> list_all lower_identifier (t # ts) \<and> ts \<noteq> [])"
  by (simp add: relation_name_def relation_name_from_iff)

section \<open>Packed sets\<close>

definition le_bytes :: "u32 \<Rightarrow> bytes" where
  "le_bytes n = [ucast n, ucast (drop_bit 8 n), ucast (drop_bit 16 n), ucast (drop_bit 24 n)]"

lemma le_value_le_bytes [simp]: "le_value (le_bytes n) = n"
proof (rule bit_word_eqI)
  fix i
  assume "i < LENGTH(32)"
  then consider "i < 8" | "8 \<le> i" "i < 16" | "16 \<le> i" "i < 24" | "24 \<le> i" "i < 32"
    by fastforce
  then show "bit (le_value (le_bytes n)) i \<longleftrightarrow> bit n i"
    by cases (auto simp: le_value_def le_bytes_def bit_or_iff bit_push_bit_iff bit_ucast_iff bit_drop_bit_eq)
qed

lemma le_bytes_le_value: "length bs = 4 \<Longrightarrow> le_bytes (le_value bs) = bs"
proof -
  assume "length bs = 4"
  then obtain b c d e where bs: "bs = [b, c, d, e]"
    by (auto simp: numeral_eq_Suc length_Suc_conv)
  show "le_bytes (le_value bs) = bs"
    unfolding bs le_bytes_def le_value_def
    by (simp, intro conjI; rule bit_word_eqI)
      (auto simp: bit_or_iff bit_push_bit_iff bit_ucast_iff bit_drop_bit_eq dest: bit_imp_le_length)
qed

text \<open>One element as the sets hold it: its length in four little-endian bytes, then its text.\<close>

definition packed_element :: "string \<Rightarrow> bytes" where
  "packed_element v = le_bytes (word_of_nat (length v)) @ bytes_of v"

lemma length_le_bytes [simp]: "length (le_bytes n) = 4"
  by (simp add: le_bytes_def)

lemma closed_symbols_plain:
  "list_all (\<lambda>(contract, symbols). list_all (\<lambda>s. s \<noteq> []) symbols) closed_symbol_contracts"
  by code_simp

lemma set_element_nonempty: "set_element_value t v \<Longrightarrow> v \<noteq> []"
proof -
  have "closed_symbol_value contract v \<Longrightarrow> v \<noteq> []" for contract
    using closed_symbols_plain
    by (auto simp: closed_symbol_value_def list_all_iff dest!: map_of_SomeD split: option.splits)
  then show "set_element_value t v \<Longrightarrow> v \<noteq> []"
    by (auto simp: set_element_value_def canonical_content_digest_value_def canonical_digest_value_def
        hex_digest_def starts_with_def control_free_text_def Let_def split: if_splits option.splits)
qed

lemma set_elements_from_iff:
  "set_elements_from t previous bs \<longleftrightarrow>
    (\<exists>vs. bs = concat (map packed_element vs) \<and> (\<forall>v \<in> set vs. set_element_value t v \<and> length v < 2 ^ 32)
      \<and> sorted_wrt (<) vs \<and> (previous \<noteq> [] \<longrightarrow> (\<forall>v \<in> set vs. previous < v)))"
proof (induction t previous bs rule: set_elements_from.induct)
  case (1 t previous bs)
  show ?case
  proof
    assume s: "set_elements_from t previous bs"
    show "\<exists>vs. bs = concat (map packed_element vs) \<and> (\<forall>v \<in> set vs. set_element_value t v \<and> length v < 2 ^ 32)
      \<and> sorted_wrt (<) vs \<and> (previous \<noteq> [] \<longrightarrow> (\<forall>v \<in> set vs. previous < v))"
    proof (cases "bs = []")
      case True
      then show ?thesis by (intro exI [of _ "[]"]) simp
    next
      case False
      let ?len = "le_value (take 4 bs)"
      let ?v = "string_of (take (unat ?len) (drop 4 bs))"
      let ?rest = "drop (unat ?len) (drop 4 bs)"
      have four: "4 \<le> length bs" and fits: "unat ?len \<le> length (drop 4 bs)"
        and v: "set_element_value t ?v" "previous \<noteq> [] \<longrightarrow> previous < ?v"
        and more: "set_elements_from t ?v ?rest"
        using s False by (subst (asm) set_elements_from.simps; auto simp: Let_def not_le split: if_splits)+
      have nz: "?len \<noteq> 0"
        using s False by (subst (asm) set_elements_from.simps) (auto simp: Let_def split: if_splits)
      have lenv: "length ?v = unat ?len" using fits by simp
      have small: "unat ?len < 2 ^ 32" by (rule order_less_le_trans [OF unsigned_less]) simp
      have packed: "packed_element ?v = take 4 bs @ take (unat ?len) (drop 4 bs)"
        using four lenv by (simp add: packed_element_def le_bytes_le_value del: take_map drop_map map_map)
      obtain vs where vs: "?rest = concat (map packed_element vs)"
        "\<forall>v \<in> set vs. set_element_value t v \<and> length v < 2 ^ 32" "sorted_wrt (<) vs"
        "\<forall>v \<in> set vs. ?v < v"
        using 1 [OF False _ refl refl _ refl] four fits nz v more set_element_nonempty [OF v(1)]
        by (auto simp: not_le)
      have "bs = concat (map packed_element (?v # vs))"
        by (simp only: list.map concat.simps packed vs(1) [symmetric] append_assoc append_take_drop_id)
      then show ?thesis
        using v vs lenv small by (intro exI [of _ "?v # vs"]) auto
    qed
  next
    assume "\<exists>vs. bs = concat (map packed_element vs) \<and> (\<forall>v \<in> set vs. set_element_value t v \<and> length v < 2 ^ 32)
      \<and> sorted_wrt (<) vs \<and> (previous \<noteq> [] \<longrightarrow> (\<forall>v \<in> set vs. previous < v))"
    then obtain vs where bs: "bs = concat (map packed_element vs)"
      and vs: "\<forall>v \<in> set vs. set_element_value t v \<and> length v < 2 ^ 32" "sorted_wrt (<) vs"
        "previous \<noteq> [] \<longrightarrow> (\<forall>v \<in> set vs. previous < v)"
      by blast
    show "set_elements_from t previous bs"
    proof (cases vs)
      case Nil
      then show ?thesis using bs by (subst set_elements_from.simps) simp
    next
      case (Cons v us)
      let ?len = "word_of_nat (length v) :: u32"
      have len: "unat ?len = length v"
        using vs(1) Cons by (simp add: unat_of_nat)
      have v: "v \<noteq> []" "set_element_value t v"
        using vs(1) Cons set_element_nonempty by auto
      have nz: "?len \<noteq> 0"
        using len v(1) by (metis length_0_conv unsigned_0)
      have shape: "bs = le_bytes ?len @ bytes_of v @ concat (map packed_element us)"
        by (simp add: bs Cons packed_element_def)
      have parts: "take 4 bs = le_bytes ?len" "drop 4 bs = bytes_of v @ concat (map packed_element us)"
        by (simp_all add: shape)
      have ne: "bs \<noteq> []" using arg_cong [OF parts(1), of length] by auto
      have after: "previous = [] \<or> \<not> v \<le> previous"
        using vs(3) Cons by (auto simp: not_le)
      have conv: "char_of_byte \<circ> byte_of_char = id" by auto
      have "set_elements_from t v (concat (map packed_element us))"
        using 1 [OF ne _ refl refl _ refl, unfolded parts le_value_le_bytes len] after vs v nz Cons len ne
        by (auto simp: shape conv)
      then show ?thesis
        using ne v vs Cons len nz
        by (subst set_elements_from.simps) (auto simp: parts Let_def not_le shape conv)
    qed
  qed
qed

text \<open>
  C31: a set is accepted exactly when its bytes are the packed encoding of a strictly increasing list
  of admissible elements, so each set has one spelling.
\<close>

theorem set_bytes_exact:
  "canonical_set_bytes t bs \<longleftrightarrow> supported_set_element_type t \<and>
    (\<exists>vs. bs = concat (map packed_element vs) \<and> sorted_wrt (<) vs
      \<and> (\<forall>v \<in> set vs. set_element_value t v \<and> length v < 2 ^ 32))"
proof -
  have "canonical_set_bytes t bs \<longleftrightarrow> supported_set_element_type t \<and> set_elements_from t [] bs"
    by (subst set_elements_from.simps) (simp add: canonical_set_bytes_def set_elements_from.simps)
  then show ?thesis
    by (auto simp: set_elements_from_iff)
qed

lemma set_bytes_exact_witness:
  "canonical_set_bytes ''x_id'' (packed_element ''a'' @ packed_element ''b'')
    \<and> \<not> canonical_set_bytes ''x_id'' (packed_element ''b'' @ packed_element ''a'')"
proof -
  have element: "supported_set_element_type ''x_id''" "set_element_value ''x_id'' ''a''" "set_element_value ''x_id'' ''b''"
    by code_simp+
  have "packed_element ''a'' @ packed_element ''b'' = concat (map packed_element [''a'', ''b''])"
    "sorted_wrt (<) [''a'', ''b'']" "\<forall>v \<in> set [''a'', ''b'']. set_element_value ''x_id'' v \<and> length v < 2 ^ 32"
    using element by simp_all
  then have "canonical_set_bytes ''x_id'' (packed_element ''a'' @ packed_element ''b'')"
    using set_bytes_exact [of "''x_id''"] element(1) by blast
  moreover have "\<not> canonical_set_bytes ''x_id'' (packed_element ''b'' @ packed_element ''a'')"
    by code_simp
  ultimately show ?thesis ..
qed

section \<open>JSON fragments that end where they say\<close>

text \<open>A text is read off the front of any longer one.\<close>

definition self_delimiting :: "('a \<Rightarrow> bool) \<Rightarrow> ('a \<Rightarrow> string) \<Rightarrow> bool" where
  "self_delimiting ok enc \<longleftrightarrow>
    (\<forall>a b x y. ok a \<longrightarrow> ok b \<longrightarrow> enc a @ x = enc b @ y \<longrightarrow> a = b \<and> x = y)"

lemma self_delimitingD:
  "self_delimiting ok enc \<Longrightarrow> enc a @ x = enc b @ y \<Longrightarrow> ok a \<Longrightarrow> ok b \<Longrightarrow> a = b \<and> x = y"
  unfolding self_delimiting_def by blast

abbreviation utf8_text :: "string \<Rightarrow> bool" where
  "utf8_text s \<equiv> sdk_valid_utf8 (bytes_of s)"

abbreviation json_text :: "string \<Rightarrow> string" where
  "json_text s \<equiv> quoted (canonical_json_escape s)"

lemma concat_escape_quote_free:
  assumes "concat (map json_escape_char s) @ CHR 0x22 # x = concat (map json_escape_char t) @ CHR 0x22 # y"
  shows "s = t \<and> x = y"
  using assms
proof (induction s arbitrary: t)
  have quote: "json_escape_char c @ z = CHR 0x22 # w \<Longrightarrow> False" for c z w
    by (rule json_escape_char_cases [of c]) (auto simp: json_escape_char_def json_hex_escape_def split: if_splits)
  {
    case Nil
    then show ?case by (cases t) (auto dest: quote [OF sym])
  next
    case (Cons c s)
    show ?case
    proof (cases t)
      case Nil
      then show ?thesis using Cons.prems quote [of c] by auto
    next
      case (Cons d u)
      then show ?thesis
        using Cons.prems Cons.IH json_escape_char_prefix_free [of c _ d] by auto
    qed
  }
qed

lemma json_text_delimiting: "self_delimiting utf8_text json_text"
  unfolding self_delimiting_def
  by (auto simp: quoted_def canonical_json_escape_def dest!: concat_escape_quote_free)

section \<open>Type names\<close>

definition listed_kinds :: "scalar_kind list" where
  "listed_kinds = [Kind_Boolean, Kind_Signed, Kind_Unsigned, Kind_Utf8, Kind_Bytes, Kind_Digest,
    Kind_Version, Kind_Typed_Id, Kind_Open_Symbol, Kind_Condition_Ref, Kind_Source_Span_Id,
    Kind_Evidence_Id, Kind_Closed_Symbol, Kind_Set, Kind_Relation_Name, Kind_Semantic_Key_Id,
    Kind_Assertion_Id, Kind_Content_Digest, Kind_Interpretation_Domain_Id]"

lemma listed_kinds_iff: "k \<in> set listed_kinds \<longleftrightarrow> scalar_kind_valid k"
  by (cases k) (simp_all add: listed_kinds_def scalar_kind_valid_def)

lemma scalar_kind_names_distinct: "distinct (''optional'' # map scalar_kind_name listed_kinds)"
  by code_simp

lemma scalar_kind_names_plain:
  "list_all (\<lambda>k. list_all (\<lambda>c. c \<noteq> CHR ''<'' \<and> byte_of_char c \<le> 0x7f) (scalar_kind_name k)) listed_kinds"
  by code_simp

lemma scalar_kind_name_inject:
  "scalar_kind_valid k \<Longrightarrow> scalar_kind_valid l \<Longrightarrow> scalar_kind_name k = scalar_kind_name l \<Longrightarrow> k = l"
  using scalar_kind_names_distinct by (auto simp: distinct_map inj_on_def listed_kinds_iff)

lemma scalar_kind_name_not_optional: "scalar_kind_valid k \<Longrightarrow> scalar_kind_name k \<noteq> ''optional''"
proof -
  have "\<forall>k \<in> set listed_kinds. scalar_kind_name k \<noteq> ''optional''"
    using scalar_kind_names_distinct by (metis distinct.simps(2) image_eqI set_map)
  then show "scalar_kind_valid k \<Longrightarrow> scalar_kind_name k \<noteq> ''optional''"
    by (simp add: listed_kinds_iff)
qed

lemma scalar_kind_name_plain:
  assumes "scalar_kind_valid k"
  shows "CHR ''<'' \<notin> set (scalar_kind_name k)" and "list_all (\<lambda>b. b \<le> 0x7f) (bytes_of (scalar_kind_name k))"
proof -
  have "k \<in> set listed_kinds"
    using assms by (simp only: listed_kinds_iff)
  then have "list_all (\<lambda>c. c \<noteq> CHR ''<'' \<and> byte_of_char c \<le> 0x7f) (scalar_kind_name k)"
    using scalar_kind_names_plain by (simp only: list_all_iff [of _ listed_kinds])
  then show "CHR ''<'' \<notin> set (scalar_kind_name k)" "list_all (\<lambda>b. b \<le> 0x7f) (bytes_of (scalar_kind_name k))"
    by (auto simp: list_all_iff)
qed

text \<open>The name up to the optional wrapper.\<close>

definition base_name :: "scalar_kind \<Rightarrow> string \<Rightarrow> string" where
  "base_name k p = (if p \<noteq> [] then scalar_kind_name k @ ''<'' @ p @ ''>'' else scalar_kind_name k)"

lemma canonical_name_base:
  "canonical_name t =
    (if vt_optional t then ''optional<'' @ base_name (vt_scalar t) (vt_parameter t) @ ''>''
     else base_name (vt_scalar t) (vt_parameter t))"
  by (simp add: canonical_name_def base_name_def Let_def)

lemma base_name_inject:
  assumes "scalar_kind_valid k" "scalar_kind_valid l" "base_name k p = base_name l q"
  shows "k = l \<and> p = q"
proof -
  have split: "scalar_kind_name k @ CHR ''<'' # x = scalar_kind_name l @ CHR ''<'' # y \<Longrightarrow> k = l \<and> x = y" for x y
    using split_at_delimiter [of "CHR ''<''" "scalar_kind_name k" "scalar_kind_name l" x y] scalar_kind_name_plain(1)
      scalar_kind_name_inject assms(1,2) by blast
  have differ: "scalar_kind_name k \<noteq> scalar_kind_name l @ CHR ''<'' # x" "scalar_kind_name l \<noteq> scalar_kind_name k @ CHR ''<'' # x" for x
    using scalar_kind_name_plain(1) [OF assms(1)] scalar_kind_name_plain(1) [OF assms(2)] by auto
  show ?thesis
  proof (cases "p = []")
    case True
    then show ?thesis
      using assms(3) differ scalar_kind_name_inject [OF assms(1,2)] by (cases "q = []") (simp_all add: base_name_def)
  next
    case False
    show ?thesis
    proof (cases "q = []")
      case True
      then show ?thesis
        using assms(3) False differ(2) [of "p @ ''>''"] by (simp add: base_name_def)
    next
      case q: False
      then have "scalar_kind_name k @ CHR ''<'' # p @ ''>'' = scalar_kind_name l @ CHR ''<'' # q @ ''>''"
        using assms(3) False by (simp add: base_name_def)
      then show ?thesis
        by (auto dest!: split)
    qed
  qed
qed

lemma base_name_not_optional:
  assumes "scalar_kind_valid k"
  shows "base_name k p \<noteq> ''optional'' @ CHR ''<'' # x"
proof
  assume "base_name k p = ''optional'' @ CHR ''<'' # x"
  then have "scalar_kind_name k @ CHR ''<'' # p @ ''>'' = ''optional'' @ CHR ''<'' # x"
    using scalar_kind_name_plain(1) [OF assms] by (auto simp: base_name_def split: if_splits)
  then show False
    using split_at_delimiter [of "CHR ''<''" "scalar_kind_name k" "''optional''" "p @ ''>''" x]
      scalar_kind_name_plain(1) [OF assms] scalar_kind_name_not_optional [OF assms] by auto
qed

lemma canonical_name_inject:
  assumes "scalar_kind_valid (vt_scalar t)" "scalar_kind_valid (vt_scalar u)"
    "canonical_name t = canonical_name u"
  shows "t = (u :: value_type)"
proof -
  note base = base_name_inject [OF assms(1,2), of "vt_parameter t" "vt_parameter u"]
  note no = base_name_not_optional [OF assms(1), of "vt_parameter t"]
    base_name_not_optional [OF assms(2), of "vt_parameter u"]
  show ?thesis
    using assms(3) base no no [THEN not_sym] by (auto simp: canonical_name_base split: if_splits)
qed

section \<open>Values and cells\<close>

lemma hex_digit_plain: "n < 16 \<Longrightarrow> hex_digit n \<noteq> CHR 0x22 \<and> hex_digit n \<noteq> CHR ''}''"
proof -
  have "list_all (\<lambda>n. hex_digit n \<noteq> CHR 0x22 \<and> hex_digit n \<noteq> CHR ''}'') [0..<16]"
    by code_simp
  then show "n < 16 \<Longrightarrow> hex_digit n \<noteq> CHR 0x22 \<and> hex_digit n \<noteq> CHR ''}''"
    by (simp add: list_all_iff del: upt_rec_numeral)
qed

lemma nibbles_less: "unat (drop_bit 4 b) < 16" "unat (b AND 0xf) < 16" for b :: byte
  using byte_unat_less [of b] byte_nibbles [of b] by (simp_all add: div_less_iff_less_mult)

lemma hex_bytes_plain: "c \<in> set (concat (map hex_byte bs)) \<Longrightarrow> c \<noteq> CHR 0x22 \<and> c \<noteq> CHR ''}''"
  by (auto simp: hex_byte_def hex_digit_plain nibbles_less)

lemma hex_byte_inject: "hex_byte b = hex_byte c \<Longrightarrow> b = c"
  using json_hex_escape_inject [of b c] by (simp add: hex_byte_def json_hex_escape_def)

lemma concat_hex_inject: "concat (map hex_byte bs) = concat (map hex_byte cs) \<Longrightarrow> bs = cs"
proof (induction bs arbitrary: cs)
  case Nil
  then show ?case by (cases cs) (simp_all add: hex_byte_def)
next
  case (Cons b bs)
  then show ?case
    using hex_byte_inject [of b] by (cases cs) (auto simp: hex_byte_def)
qed

lemma decimal_plain: "c \<in> set (decimal n) \<Longrightarrow> c \<noteq> CHR ''}'' \<and> c \<noteq> CHR ''-''"
  using decimal_digits [of n] by (auto simp: list_all_iff digit_iff)

lemma int64_text_inject:
  assumes "int64_text i = int64_text j"
  shows "i = j"
proof -
  have sign: "decimal m \<noteq> CHR ''-'' # s" for m s
    using decimal_plain [of "CHR ''-''" m] by auto
  have "sint i = sint j"
    using assms sign sign [THEN not_sym] by (auto simp: int64_text_def dest!: decimal_inject split: if_splits)
  then show ?thesis by (rule signed_word_eqI)
qed

lemma int64_text_plain: "CHR ''}'' \<notin> set (int64_text i)"
  using decimal_plain by (auto simp: int64_text_def)

text \<open>Two values of one scalar kind are of the same alternative.\<close>

lemma matching_scalars [consumes 2, case_names string bool int uint bytes]:
  assumes "matches_scalar k v" "matches_scalar k w"
  obtains s t where "v = Text_Scalar s" "w = Text_Scalar t"
  | a b where "v = Bool_Scalar a" "w = Bool_Scalar b"
  | i j where "v = Int_Scalar i" "w = Int_Scalar j"
  | i j where "v = Uint_Scalar i" "w = Uint_Scalar j"
  | bs cs where "v = Bytes_Scalar bs" "w = Bytes_Scalar cs"
  using assms by (cases k; cases v; cases w) (simp_all add: matches_scalar_def)

text \<open>Within one scalar kind the text of a value, followed by a brace, determines the value.\<close>

lemma scalar_text_delimited:
  assumes "matches_scalar k v" "matches_scalar k w"
    "\<And>s. v = Text_Scalar s \<Longrightarrow> utf8_text s" "\<And>s. w = Text_Scalar s \<Longrightarrow> utf8_text s"
    "scalar_text v @ CHR ''}'' # x = scalar_text w @ CHR ''}'' # y"
  shows "v = w \<and> x = y"
proof -
  have plain: "CHR ''}'' \<notin> set (scalar_text u)" if "\<And>s. u \<noteq> Text_Scalar s" for u
    using that hex_bytes_plain decimal_plain [of "CHR ''}''"] int64_text_plain
    by (cases u) (auto simp: scalar_text_def)
  show ?thesis
    using assms(1,2)
  proof (cases rule: matching_scalars)
    case (string s t)
    then show ?thesis
      using assms(3-5) self_delimitingD [OF json_text_delimiting, of s "CHR ''}'' # x" t "CHR ''}'' # y"]
      by (simp add: scalar_text_def quoted_def)
  next
    case (bool a b)
    then show ?thesis using assms(5) by (cases a; cases b) (simp_all add: scalar_text_def)
  next
    case (int i j)
    then show ?thesis
      using split_at_delimiter [OF plain plain assms(5)] int64_text_inject by (auto simp: scalar_text_def)
  next
    case (uint i j)
    then show ?thesis
      using split_at_delimiter [OF plain plain assms(5)] by (auto simp: scalar_text_def unat_word_inject dest!: decimal_inject)
  next
    case (bytes bs cs)
    then show ?thesis
      using split_at_delimiter [OF plain plain assms(5)] by (auto simp: scalar_text_def dest: concat_hex_inject)
  qed
qed

lemma state_names_distinct: "distinct (map state_name [Present, Absent, Unknown])"
  "list_all (\<lambda>s. CHR 0x22 \<notin> set (state_name s)) [Present, Absent, Unknown]"
  by code_simp+

lemma state_name_delimited:
  assumes "state_name s @ CHR 0x22 # x = state_name t @ CHR 0x22 # y" "cell_state_valid s" "cell_state_valid t"
  shows "s = t \<and> x = y"
proof -
  have in_list: "r \<in> set [Present, Absent, Unknown]" if "cell_state_valid r" for r
    using that by (cases r) (simp_all add: cell_state_valid_def)
  have plain: "CHR 0x22 \<notin> set (state_name r)" if "cell_state_valid r" for r
    using state_names_distinct(2) in_list [OF that] unfolding list_all_iff by (rule bspec)
  have "state_name s = state_name t" "x = y"
    using split_at_delimiter [OF plain plain assms(1)] assms(2,3) by auto
  then show ?thesis
    using state_names_distinct(1) in_list [OF assms(2)] in_list [OF assms(3)]
    by (auto simp only: distinct_map inj_on_def)
qed

lemma cell_validate_type:
  assumes "cell_validate c = Inr u"
  shows "cell_state_valid (cell_state c)" "scalar_kind_valid (vt_scalar (cell_type c))"
    "valid_scalar_type (cell_type c)"
  using assms by (auto simp: cell_validate_def split: if_splits)

lemma cell_validate_cases:
  assumes "cell_validate c = Inr u"
  obtains (present) v where "cell_state c = Present" "cell_value c = Some v" "cell_unknown_reason c = None"
      "invalid_scalar_detail (cell_type c) v = None"
  | (absent) "cell_state c = Absent" "vt_optional (cell_type c)" "cell_value c = None"
      "cell_unknown_reason c = None"
  | (unknown) r where "cell_state c = Unknown" "cell_value c = None" "cell_unknown_reason c = Some r"
      "control_free_text r"
proof (cases "cell_state c")
  case Present
  then show thesis
    using assms present by (auto simp: cell_validate_def split: if_splits option.splits)
next
  case Absent
  then show thesis
    using assms absent by (auto simp: cell_validate_def split: if_splits option.splits)
next
  case Unknown
  then show thesis
    using assms unknown by (auto simp: cell_validate_def split: if_splits option.splits)
next
  case (State_Unlisted b)
  then show thesis
    using assms by (simp add: cell_validate_def cell_state_valid_def)
qed

lemma invalid_scalar_detail_None:
  assumes "invalid_scalar_detail t v = None"
  shows "valid_scalar_type t" "matches_scalar (vt_scalar t) v" "v = Text_Scalar s \<Longrightarrow> utf8_text s"
  using assms by (auto simp: invalid_scalar_detail_def split: if_splits)

text \<open>A cell that validates and whose type parameter is UTF-8.\<close>

definition encodable_cell :: "detached_cell \<Rightarrow> bool" where
  "encodable_cell c = (cell_validate c = Inr () \<and> utf8_text (vt_parameter (cell_type c)))"

lemma cbor_valid_append: "cbor_valid_utf8 bs \<Longrightarrow> cbor_valid_utf8 cs \<Longrightarrow> cbor_valid_utf8 (bs @ cs)"
proof (induction bs rule: length_induct)
  case (1 bs)
  then have IH: "cbor_valid_utf8 r \<Longrightarrow> length r < length bs \<Longrightarrow> cbor_valid_utf8 (r @ cs)" for r
    by blast
  show ?case
  proof (cases bs)
    case Nil
    then show ?thesis using "1.prems" by simp
  next
    case (Cons f rest)
    consider "f \<le> 0x7f" | "0xc2 \<le> f" "f \<le> 0xdf" | "0xe0 \<le> f" "f \<le> 0xef" | "0xf0 \<le> f" "f \<le> 0xf4"
      using "1.prems"(1) Cons no_lead_step(2) [of f rest] by blast
    then show ?thesis
      using "1.prems"(1) Cons by cases (auto simp: ascii_step cbor_seq2 cbor_seq3 cbor_seq4 intro!: IH)
  qed
qed

lemma sdk_valid_append: "sdk_valid_utf8 bs \<Longrightarrow> sdk_valid_utf8 cs \<Longrightarrow> sdk_valid_utf8 (bs @ cs)"
  using cbor_valid_append by (simp add: sdk_valid_utf8_def validators_agree)

lemma canonical_name_utf8:
  assumes "scalar_kind_valid (vt_scalar t)" "utf8_text (vt_parameter t)"
  shows "utf8_text (canonical_name t)"
proof -
  have kind: "utf8_text (scalar_kind_name (vt_scalar t))"
    using scalar_kind_name_plain(2) [OF assms(1)] by (rule ascii_valid_utf8)
  have angle: "utf8_text ''<''" "utf8_text ''>''" "utf8_text ''optional<''"
    by code_simp+
  have base: "utf8_text (base_name (vt_scalar t) (vt_parameter t))"
    using kind angle assms(2) unfolding base_name_def
    by (cases "vt_parameter t = []") (simp_all only: if_P if_not_P map_append sdk_valid_append simp_thms)
  show ?thesis
    using base angle unfolding canonical_name_base
    by (cases "vt_optional t") (simp_all only: if_P if_not_P map_append sdk_valid_append simp_thms)
qed

text \<open>The text of such a cell is read off the front of any longer one, so it determines the cell.\<close>

lemma cell_form_delimiting: "self_delimiting encodable_cell cell_canonical_form"
  unfolding self_delimiting_def
proof (intro allI impI)
  fix c d x y
  assume ok: "encodable_cell c" "encodable_cell d"
    and eq: "cell_canonical_form c @ x = cell_canonical_form d @ y"
  note c = ok(1) [unfolded encodable_cell_def, THEN conjunct1] and d = ok(2) [unfolded encodable_cell_def, THEN conjunct1]
  define rest :: "detached_cell \<Rightarrow> string" where "rest e = (case cell_value e of None \<Rightarrow> [] | Some v \<Rightarrow> '','' @ quoted ''value'' @ '':'' @ scalar_text v)
    @ (case cell_unknown_reason e of None \<Rightarrow> []
         | Some r \<Rightarrow> '','' @ quoted ''unknown_reason'' @ '':'' @ json_text r) @ ''}''" for e
  have form: "cell_canonical_form e = ''{'' @ quoted ''state'' @ '':'' @ [CHR 0x22] @ state_name (cell_state e)
    @ [CHR 0x22] @ '','' @ quoted ''type'' @ '':'' @ json_text (canonical_name (cell_type e)) @ rest e" for e
    by (simp add: cell_canonical_form_def rest_def quoted_def)
  have state_eq: "state_name (cell_state c) @ CHR 0x22 # '','' @ quoted ''type'' @ '':''
      @ json_text (canonical_name (cell_type c)) @ rest c @ x
    = state_name (cell_state d) @ CHR 0x22 # '','' @ quoted ''type'' @ '':''
      @ json_text (canonical_name (cell_type d)) @ rest d @ y"
    using eq unfolding form by simp
  have state: "cell_state c = cell_state d"
    and types: "json_text (canonical_name (cell_type c)) @ rest c @ x
      = json_text (canonical_name (cell_type d)) @ rest d @ y"
    using state_name_delimited [OF state_eq cell_validate_type(1) [OF c] cell_validate_type(1) [OF d]]
    by simp_all
  have "canonical_name (cell_type c) = canonical_name (cell_type d)" and rests: "rest c @ x = rest d @ y"
    using self_delimitingD [OF json_text_delimiting types] ok canonical_name_utf8 cell_validate_type(2)
    by (auto simp: encodable_cell_def)
  then have type: "cell_type c = cell_type d"
    using canonical_name_inject cell_validate_type(2) [OF c] cell_validate_type(2) [OF d] by blast
  show "c = d \<and> x = y"
  proof (rule cell_validate_cases [OF c])
    fix v
    assume v: "cell_state c = Present" "cell_value c = Some v" "cell_unknown_reason c = None"
      "invalid_scalar_detail (cell_type c) v = None"
    obtain w where w: "cell_value d = Some w" "cell_unknown_reason d = None"
      "invalid_scalar_detail (cell_type d) w = None"
      using v(1) state by (auto intro: cell_validate_cases [OF d])
    have "scalar_text v @ CHR ''}'' # x = scalar_text w @ CHR ''}'' # y"
      using rests by (simp add: rest_def v w)
    then have "v = w \<and> x = y"
      using v(4) w(3) type by (intro scalar_text_delimited) (auto dest: invalid_scalar_detail_None)
    then show ?thesis using v w state type by simp
  next
    assume a: "cell_state c = Absent" "cell_value c = None" "cell_unknown_reason c = None"
    have "cell_value d = None" "cell_unknown_reason d = None"
      using a(1) state by (auto intro: cell_validate_cases [OF d])
    then show ?thesis using a state type rests by (simp add: rest_def)
  next
    fix r
    assume r: "cell_state c = Unknown" "cell_value c = None" "cell_unknown_reason c = Some r"
      "control_free_text r"
    obtain s where s: "cell_value d = None" "cell_unknown_reason d = Some s" "control_free_text s"
      using r(1) state by (auto intro: cell_validate_cases [OF d])
    have "json_text r @ CHR ''}'' # x = json_text s @ CHR ''}'' # y"
      using rests by (simp add: rest_def r s)
    then have "r = s \<and> x = y"
      using self_delimitingD [OF json_text_delimiting, of r "CHR ''}'' # x" s "CHR ''}'' # y"] r(4) s(3)
      by (simp add: control_free_text_def)
    then show ?thesis using r s state type by simp
  qed
qed

end
