(* ===== verification/Relation_Descriptor.thy ===== *)
theory Relation_Descriptor
  imports Relation_Values "HOL-Library.Product_Lexorder" "HOL-Library.Multiset"
begin

text \<open>
  The descriptors of \<open>src/sdk/relation.cpp\<close>: columns, references, domain identity, the canonical text
  and the binding digest of a descriptor, and its validation. A validated descriptor resolves each of
  its columns by name and by identifier without confusion, and the text its digest covers determines
  the descriptor up to the order of columns, conflict columns and references.
\<close>

section \<open>Data\<close>

datatype column_role = Claim_Key | Authoritative_Payload | Display | Auxiliary | Role_Unlisted byte

definition column_role_valid :: "column_role \<Rightarrow> bool" where
  "column_role_valid r = (case r of Role_Unlisted b \<Rightarrow> False | _ \<Rightarrow> True)"

datatype merge_mode = Merge_Set | Merge_Multiset | Functional_Assertion | Keyed_Union
  | Merge_Unlisted byte

definition merge_mode_valid :: "merge_mode \<Rightarrow> bool" where
  "merge_mode_valid m = (case m of Merge_Unlisted b \<Rightarrow> False | _ \<Rightarrow> True)"

datatype reference_strength = Hard | Soft_Semantic | Strength_Unlisted byte

definition reference_strength_valid :: "reference_strength \<Rightarrow> bool" where
  "reference_strength_valid s = (case s of Strength_Unlisted b \<Rightarrow> False | _ \<Rightarrow> True)"

record column_descriptor =
  col_id :: string
  col_name :: string
  col_type :: value_type
  col_required :: bool
  col_role :: column_role

record relation_reference =
  ref_source_columns :: "string list"
  ref_target_relation :: string
  ref_target_columns :: "string list"
  ref_strength :: reference_strength
  ref_container_elements :: bool

record domain_identity =
  dom_result_column :: "string option"
  dom_projection :: "string list"
  dom_contract :: string

record relation_descriptor =
  rel_id :: string
  rel_name :: string
  rel_version :: semantic_version
  rel_semantic_major :: u32
  rel_semantics :: string
  rel_owner_namespace :: string
  rel_contract_canonical :: string
  rel_contract_digest :: string
  rel_descriptor_digest :: string
  rel_columns :: "column_descriptor list"
  rel_key_columns :: "string list"
  rel_domain_identity :: domain_identity
  rel_references :: "relation_reference list"
  rel_merge :: merge_mode
  rel_conflict_columns :: "string list"

section \<open>Names and orders\<close>

definition role_name :: "column_role \<Rightarrow> string" where
  "role_name r =
    (case r of
       Claim_Key \<Rightarrow> ''claim_key'' | Authoritative_Payload \<Rightarrow> ''authoritative_payload''
     | Display \<Rightarrow> ''display'' | Auxiliary \<Rightarrow> ''auxiliary''
     | Role_Unlisted b \<Rightarrow> ''invalid-column-role:'' @ decimal (unat b))"

definition merge_name :: "merge_mode \<Rightarrow> string" where
  "merge_name m =
    (case m of
       Merge_Set \<Rightarrow> ''set'' | Merge_Multiset \<Rightarrow> ''multiset''
     | Functional_Assertion \<Rightarrow> ''functional_assertion'' | Keyed_Union \<Rightarrow> ''keyed_union''
     | Merge_Unlisted b \<Rightarrow> ''invalid-merge-mode:'' @ decimal (unat b))"

definition reference_name :: "reference_strength \<Rightarrow> string" where
  "reference_name s =
    (case s of
       Hard \<Rightarrow> ''hard'' | Soft_Semantic \<Rightarrow> ''soft_semantic''
     | Strength_Unlisted b \<Rightarrow> ''invalid-reference-strength:'' @ decimal (unat b))"

text \<open>
  \<open>reference_less\<close> compares a tuple of all five members; enumerators compare by their value.
  Sorting by this key puts the references in that order, and members with equal keys are equal.
\<close>

definition strength_rank :: "reference_strength \<Rightarrow> nat" where
  "strength_rank s = (case s of Hard \<Rightarrow> 0 | Soft_Semantic \<Rightarrow> 1 | Strength_Unlisted b \<Rightarrow> unat b)"

definition reference_key ::
  "relation_reference \<Rightarrow> string list \<times> nat \<times> string \<times> string list \<times> bool" where
  "reference_key r = (ref_source_columns r, strength_rank (ref_strength r), ref_target_relation r,
    ref_target_columns r, ref_container_elements r)"

definition reference_less :: "relation_reference \<Rightarrow> relation_reference \<Rightarrow> bool" where
  "reference_less l r = (reference_key l < reference_key r)"

section \<open>Canonical text\<close>

text \<open>The loops that write \<open>','\<close> before every item but the first.\<close>

fun comma_join :: "string list \<Rightarrow> string" where
  "comma_join [] = []"
| "comma_join [s] = s"
| "comma_join (s # t # ts) = s @ '','' @ comma_join (t # ts)"

definition json_strings :: "string list \<Rightarrow> string" where
  "json_strings items = ''['' @ comma_join (map json_text items) @ '']''"

definition json_member :: "string \<Rightarrow> string" where
  "json_member name = quoted name @ '':''"

definition bool_text :: "bool \<Rightarrow> string" where
  "bool_text b = (if b then ''true'' else ''false'')"

definition column_text :: "column_descriptor \<Rightarrow> string" where
  "column_text c =
    ''{'' @ json_member ''id'' @ json_text (col_id c)
    @ '','' @ json_member ''name'' @ json_text (col_name c)
    @ '','' @ json_member ''required'' @ bool_text (col_required c)
    @ '','' @ json_member ''type'' @ json_text (canonical_name (col_type c))
    @ '','' @ json_member ''role'' @ quoted (role_name (col_role c)) @ ''}''"

definition reference_text :: "relation_reference \<Rightarrow> string" where
  "reference_text r =
    ''{'' @ (if ref_container_elements r then json_member ''container_elements'' @ ''true,'' else [])
    @ json_member ''source'' @ json_strings (ref_source_columns r)
    @ '','' @ json_member ''strength'' @ quoted (reference_name (ref_strength r))
    @ '','' @ json_member ''target_relation'' @ json_text (ref_target_relation r)
    @ '','' @ json_member ''target'' @ json_strings (ref_target_columns r) @ ''}''"

definition domain_text :: "domain_identity \<Rightarrow> string" where
  "domain_text i =
    ''{'' @ json_member ''contract'' @ json_text (dom_contract i)
    @ '','' @ json_member ''projection'' @ json_strings (dom_projection i)
    @ '','' @ json_member ''result_column''
    @ (case dom_result_column i of Some c \<Rightarrow> json_text c | None \<Rightarrow> ''null'') @ ''}''"

definition descriptor_canonical_form :: "relation_descriptor \<Rightarrow> string" where
  "descriptor_canonical_form d =
    ''{'' @ json_member ''columns''
    @ ''['' @ comma_join (map column_text (sort_key col_id (rel_columns d))) @ '']''
    @ '','' @ json_member ''conflict_columns'' @ json_strings (sort (rel_conflict_columns d))
    @ '','' @ json_member ''domain_identity'' @ domain_text (rel_domain_identity d)
    @ '','' @ json_member ''id'' @ json_text (rel_id d)
    @ '','' @ json_member ''key_columns'' @ json_strings (rel_key_columns d)
    @ '','' @ json_member ''merge'' @ quoted (merge_name (rel_merge d))
    @ '','' @ json_member ''name'' @ json_text (rel_name d)
    @ '','' @ json_member ''owner_namespace'' @ json_text (rel_owner_namespace d)
    @ '','' @ json_member ''references''
    @ ''['' @ comma_join (map reference_text (sort_key reference_key (rel_references d))) @ '']''
    @ '','' @ json_member ''semantic_major'' @ decimal (unat (rel_semantic_major d))
    @ '','' @ json_member ''semantics'' @ json_text (rel_semantics d)
    @ '','' @ json_member ''version'' @ quoted (version_string (rel_version d)) @ ''}''"

definition descriptor_binding :: "relation_descriptor \<Rightarrow> string result" where
  "descriptor_binding d = semantic_digest ''cxxlens.relation-descriptor-binding.v2''
    (rel_contract_digest d @ [CHR 0x0a] @ descriptor_canonical_form d)"

section \<open>Lookup\<close>

definition descriptor_column :: "relation_descriptor \<Rightarrow> string \<Rightarrow> column_descriptor result" where
  "descriptor_column d name_or_id =
    (case find (\<lambda>c. col_name c = name_or_id \<or> col_id c = name_or_id) (rel_columns d) of
       None \<Rightarrow> Inl (Err ''sdk.column-not-found'' name_or_id (rel_id d))
     | Some c \<Rightarrow> Inr c)"

definition identity_kind :: "relation_descriptor \<Rightarrow> string result" where
  "identity_kind d =
    (case dom_result_column (rel_domain_identity d) of
       None \<Rightarrow> Inl (Err ''sdk.domain-identity-unavailable'' (rel_id d) [])
     | Some result_column \<Rightarrow>
         (case descriptor_column d result_column of
            Inl e \<Rightarrow> Inl (Err ''sdk.domain-identity-invalid'' result_column [])
          | Inr column \<Rightarrow>
              if vt_scalar (col_type column) \<noteq> Kind_Typed_Id
                 \<or> \<not> ends_with (vt_parameter (col_type column)) ''_id''
              then Inl (Err ''sdk.domain-identity-invalid'' result_column [])
              else Inr (map (\<lambda>c. if c = CHR ''_'' then CHR ''-'' else c)
                (take (length (vt_parameter (col_type column)) - 3) (vt_parameter (col_type column))))))"

section \<open>Validation\<close>

text \<open>\<open>if (bad) return unexpected(...);\<close>, and a loop of such checks.\<close>

definition refuse_if :: "bool \<Rightarrow> string \<Rightarrow> string \<Rightarrow> string \<Rightarrow> unit result" where
  "refuse_if bad code field detail = (if bad then Inl (Err code field detail) else Inr ())"

definition each :: "('a \<Rightarrow> unit result) \<Rightarrow> 'a list \<Rightarrow> unit result" where
  "each check items = first_error (map check items)"

definition validate_enumerations :: "relation_descriptor \<Rightarrow> unit result" where
  "validate_enumerations d = first_error
    [refuse_if (\<not> merge_mode_valid (rel_merge d)) ''sdk.relation-invalid'' ''merge'' ''closed-enum'',
     each (\<lambda>c. refuse_if (\<not> scalar_kind_valid (vt_scalar (col_type c)) \<or> \<not> column_role_valid (col_role c))
       ''sdk.column-invalid'' (col_id c) ''closed-enum'') (rel_columns d),
     each (\<lambda>r. refuse_if (\<not> reference_strength_valid (ref_strength r))
       ''sdk.reference-invalid'' (rel_name d) ''closed-enum'') (rel_references d)]"

definition binding_matches :: "relation_descriptor \<Rightarrow> bool" where
  "binding_matches d =
    (case descriptor_binding d of Inl e \<Rightarrow> False | Inr expected \<Rightarrow> rel_descriptor_digest d = expected)"

definition validate_contract :: "relation_descriptor \<Rightarrow> unit result" where
  "validate_contract d = first_error
    [refuse_if ((rel_contract_canonical d = []) \<noteq> (rel_contract_digest d = []))
       ''sdk.descriptor-digest-mismatch'' ''contract_digest'' [],
     refuse_if (rel_contract_canonical d \<noteq> []
         \<and> rel_contract_digest d \<noteq> content_digest (bytes_of (rel_contract_canonical d)))
       ''sdk.descriptor-digest-mismatch'' ''contract_digest'' [],
     refuse_if (rel_contract_canonical d \<noteq> [] \<and> \<not> binding_matches d)
       ''sdk.descriptor-digest-mismatch'' ''descriptor_digest'' []]"

definition validate_header :: "relation_descriptor \<Rightarrow> unit result" where
  "validate_header d = first_error
    [refuse_if (\<not> relation_name (rel_name d)) ''sdk.relation-invalid'' ''name'' ''relation-name-pattern'',
     refuse_if (rel_semantic_major d = 0) ''sdk.relation-invalid'' ''semantic_major'' ''minimum-1'',
     refuse_if (rel_id d \<noteq> rel_name d @ ''.v'' @ decimal (unat (rel_semantic_major d)))
       ''sdk.relation-invalid'' ''id'' ''semantic-major'',
     refuse_if (version_major (rel_version d) \<noteq> rel_semantic_major d)
       ''sdk.relation-invalid'' ''version'' ''major'',
     refuse_if (rel_columns d = []) ''sdk.relation-invalid'' ''columns'' ''empty'',
     refuse_if (\<not> semantics_id (rel_semantics d)) ''sdk.relation-invalid'' ''semantics'' ''semantics-pattern'',
     refuse_if (\<not> stable_id (rel_owner_namespace d))
       ''sdk.relation-invalid'' ''owner_namespace'' ''namespace-pattern'',
     refuse_if (rel_key_columns d = [] \<or> \<not> unique_strings (rel_key_columns d))
       ''sdk.relation-invalid'' ''key_columns'' ''unique-nonempty'']"

definition validate_result_column :: "relation_descriptor \<Rightarrow> unit result" where
  "validate_result_column d =
    (case dom_result_column (rel_domain_identity d) of
       None \<Rightarrow> Inr ()
     | Some result_column \<Rightarrow>
         refuse_if
           ((case descriptor_column d result_column of Inl e \<Rightarrow> True | Inr c \<Rightarrow> col_role c \<noteq> Claim_Key)
            \<or> result_column \<in> set (dom_projection (rel_domain_identity d))
            \<or> isl (identity_kind d))
           ''sdk.domain-identity-invalid'' result_column ''result'')"

definition validate_domain :: "relation_descriptor \<Rightarrow> unit result" where
  "validate_domain d =
    (let i = rel_domain_identity d
     in if (dom_contract i = []) \<noteq> (dom_projection i = [])
           \<or> (dom_contract i = [] \<and> dom_result_column i \<noteq> None)
        then Inl (Err ''sdk.domain-identity-invalid'' (rel_id d) ''shape'')
        else if dom_contract i \<noteq> [] then
          first_error
            [refuse_if (dom_contract i \<noteq> ''canonical-binary-tuple-v1'' \<or> \<not> unique_strings (dom_projection i))
               ''sdk.domain-identity-invalid'' (rel_id d) ''contract'',
             each (\<lambda>projection. refuse_if (isl (descriptor_column d projection))
               ''sdk.domain-identity-invalid'' projection ''projection'') (dom_projection i),
             validate_result_column d]
        else Inr ())"

definition validate_column :: "relation_descriptor \<Rightarrow> column_descriptor \<Rightarrow> unit result" where
  "validate_column d c = first_error
    [refuse_if (\<not> stable_id (col_id c) \<or> \<not> starts_with (col_id c) (rel_id d @ ''.''))
       ''sdk.column-invalid'' (col_id c) ''identity'',
     refuse_if (\<not> lower_identifier (col_name c)) ''sdk.column-invalid'' (col_name c) ''name-pattern'',
     refuse_if (\<not> col_required c \<and> \<not> vt_optional (col_type c))
       ''sdk.column-invalid'' (col_id c) ''optional-contract'',
     refuse_if (vt_parameter (col_type c) = ''native_pointer'' \<or> vt_parameter (col_type c) = ''native_address'')
       ''sdk.native-address-payload'' (col_id c) (vt_parameter (col_type c)),
     refuse_if (\<not> valid_scalar_type (col_type c)) ''sdk.column-invalid'' (col_id c) ''scalar-type'']"

definition validate_columns :: "relation_descriptor \<Rightarrow> unit result" where
  "validate_columns d = first_error
    [each (validate_column d) (rel_columns d),
     refuse_if (\<not> distinct_adj (sort (map col_id (rel_columns d)))
         \<or> \<not> distinct_adj (sort (map col_name (rel_columns d))))
       ''sdk.duplicate-column'' ''columns'' []]"

definition columns_of_role :: "relation_descriptor \<Rightarrow> column_role \<Rightarrow> string list" where
  "columns_of_role d r = map col_id (filter (\<lambda>c. col_role c = r) (rel_columns d))"

definition validate_keys :: "relation_descriptor \<Rightarrow> unit result" where
  "validate_keys d = first_error
    [each (\<lambda>key. first_error
       [refuse_if (\<not> stable_id key) ''sdk.relation-invalid'' key ''claim-key-pattern'',
        refuse_if (case descriptor_column d key of Inl e \<Rightarrow> True | Inr c \<Rightarrow> col_role c \<noteq> Claim_Key)
          ''sdk.relation-invalid'' key ''claim-key'']) (rel_key_columns d),
     refuse_if (sort (columns_of_role d Claim_Key) \<noteq> sort (rel_key_columns d))
       ''sdk.relation-invalid'' ''key_columns'' ''claim-key-role-parity'']"

definition validate_conflicts :: "relation_descriptor \<Rightarrow> unit result" where
  "validate_conflicts d = first_error
    [refuse_if (\<not> unique_strings (rel_conflict_columns d))
       ''sdk.relation-invalid'' ''conflict_columns'' ''unique'',
     each (\<lambda>conflict. refuse_if (\<not> stable_id conflict \<or> isl (descriptor_column d conflict))
       ''sdk.relation-invalid'' conflict ''conflict-column'') (rel_conflict_columns d),
     refuse_if (rel_merge d = Functional_Assertion
         \<and> sort (columns_of_role d Authoritative_Payload) \<noteq> sort (rel_conflict_columns d))
       ''sdk.relation-invalid'' ''conflict_columns'' ''functional-payload-projection'',
     refuse_if (rel_merge d \<noteq> Functional_Assertion \<and> rel_conflict_columns d \<noteq> [])
       ''sdk.relation-invalid'' ''conflict_columns'' ''nonfunctional-empty'']"

definition validate_reference :: "relation_descriptor \<Rightarrow> relation_reference \<Rightarrow> unit result" where
  "validate_reference d r = first_error
    [refuse_if (ref_source_columns r = []
         \<or> length (ref_source_columns r) \<noteq> length (ref_target_columns r)
         \<or> \<not> relation_name (ref_target_relation r))
       ''sdk.reference-invalid'' (rel_name d) ''shape'',
     refuse_if (\<not> unique_strings (ref_source_columns r))
       ''sdk.reference-invalid'' (rel_name d) ''source-columns-unique'',
     refuse_if (\<not> unique_strings (ref_target_columns r))
       ''sdk.reference-invalid'' (rel_name d) ''target-columns-unique'',
     each (\<lambda>source. refuse_if (\<not> stable_id source \<or> isl (descriptor_column d source))
       ''sdk.reference-invalid'' source ''source-column'') (ref_source_columns r),
     refuse_if (\<not> list_all stable_id (ref_target_columns r))
       ''sdk.reference-invalid'' (rel_name d) ''target-column-pattern'',
     refuse_if (ref_container_elements r
         \<and> (length (ref_source_columns r) \<noteq> 1 \<or> length (ref_target_columns r) \<noteq> 1))
       ''sdk.reference-invalid'' (rel_name d) ''container-shape'',
     refuse_if (ref_container_elements r
         \<and> (case descriptor_column d (hd (ref_source_columns r)) of
              Inl e \<Rightarrow> True | Inr c \<Rightarrow> vt_scalar (col_type c) \<noteq> Kind_Set))
       ''sdk.reference-invalid'' (rel_name d) ''container-source-type'']"

definition descriptor_validate :: "relation_descriptor \<Rightarrow> unit result" where
  "descriptor_validate d = first_error
    [validate_enumerations d, validate_contract d, validate_header d, validate_domain d,
     validate_columns d, validate_keys d, validate_conflicts d,
     each (validate_reference d) (rel_references d),
     refuse_if (rel_contract_canonical d = [] \<and> \<not> binding_matches d)
       ''sdk.descriptor-digest-mismatch'' ''descriptor_digest'' []]"

section \<open>Column handles\<close>

record column_ref =
  cref_descriptor_id :: string
  cref_column_id :: string
  cref_type :: value_type
  cref_source_alias :: string

text \<open>A \<open>dynamic_relation\<close> is a shared pointer to an immutable descriptor.\<close>

definition dynamic_column :: "relation_descriptor \<Rightarrow> string \<Rightarrow> column_ref result" where
  "dynamic_column d name_or_id = and_then (descriptor_column d name_or_id) (\<lambda>found.
    Inr \<lparr>cref_descriptor_id = rel_id d, cref_column_id = col_id found, cref_type = col_type found,
      cref_source_alias = []\<rparr>)"

section \<open>The grammars are ASCII\<close>

lemma ascii_text: "(\<And>c. c \<in> set s \<Longrightarrow> byte_of_char c \<le> 0x7f) \<Longrightarrow> utf8_text s"
  by (rule ascii_valid_utf8) (simp add: list_all_iff)

lemma punctuation_ascii: "list_all (\<lambda>c. byte_of_char c \<le> 0x7f) ''_.-/''"
  by code_simp

lemma stable_id_char_ascii: "stable_id_char c \<Longrightarrow> byte_of_char c \<le> 0x7f"
  using punctuation_ascii
  by (auto simp: stable_id_char_def lower_alpha_def digit_def Let_def byte_le_unat)

lemma lower_identifier_stable: "lower_identifier s \<Longrightarrow> stable_id s"
  by (auto simp: lower_identifier_def stable_id_def stable_id_char_def list_all_iff)

lemma stable_id_chars: "stable_id s \<Longrightarrow> list_all stable_id_char s"
  by (cases s) (auto simp: stable_id_def stable_id_char_def)

lemma stable_id_utf8: "stable_id s \<Longrightarrow> utf8_text s"
  by (rule ascii_text) (auto dest!: stable_id_chars simp: list_all_iff stable_id_char_ascii)

lemma lower_identifier_utf8: "lower_identifier s \<Longrightarrow> utf8_text s"
  by (intro stable_id_utf8 lower_identifier_stable)

lemma dotted_chars:
  "list_all lower_identifier (s # ts) \<Longrightarrow> list_all stable_id_char (dotted s ts)"
proof (induction ts arbitrary: s)
  case Nil
  then show ?case by (simp add: stable_id_chars lower_identifier_stable)
next
  case (Cons t ts)
  then show ?case by (simp add: stable_id_chars lower_identifier_stable) (simp add: stable_id_char_def)
qed

lemma relation_name_utf8: "relation_name s \<Longrightarrow> utf8_text s"
  by (rule ascii_text)
    (auto simp: relation_name_iff list_all_iff stable_id_char_ascii dest!: dotted_chars [unfolded list_all_iff, rule_format, rotated])

lemma semantics_id_utf8:
  assumes "semantics_id s"
  shows "utf8_text s"
proof -
  obtain slash where slash: "find_from s CHR ''/'' 0 = Some slash" "stable_id (take slash s)"
    "list_all digit (drop (slash + 1) s)"
    using assms by (auto simp: semantics_id_def split: option.splits if_splits)
  have "drop 0 s = take (slash - 0) (drop 0 s) @ CHR ''/'' # drop (slash + 1) s"
    by (rule take_drop_find(1) [OF slash(1)])
  then have whole: "s = take slash s @ CHR ''/'' # drop (slash + 1) s"
    by simp
  have "c \<in> set (take slash s) \<Longrightarrow> byte_of_char c \<le> 0x7f" for c
    using stable_id_chars [OF slash(2)] by (auto simp: list_all_iff stable_id_char_ascii)
  moreover have "c \<in> set (drop (slash + 1) s) \<Longrightarrow> byte_of_char c \<le> 0x7f" for c
    using slash(3) by (auto simp: list_all_iff stable_id_char_def intro: stable_id_char_ascii)
  moreover have "byte_of_char CHR ''/'' \<le> 0x7f"
    using punctuation_ascii by simp
  ultimately show ?thesis
    by (intro ascii_text) (metis (no_types) Un_iff set_append set_ConsD whole)
qed

lemma decimal_utf8: "utf8_text (decimal n)"
  using decimal_digits [of n]
  by (intro ascii_text) (auto simp: list_all_iff stable_id_char_def intro: stable_id_char_ascii)

section \<open>What validation establishes\<close>

lemma refuse_if_ok [result_simps]: "refuse_if bad code field detail = Inr u \<longleftrightarrow> \<not> bad"
  by (simp add: refuse_if_def)

lemma each_ok [result_simps]: "each check items = Inr u \<longleftrightarrow> (\<forall>x \<in> set items. check x = Inr ())"
  by (auto simp: each_def first_error_ok_iff)

lemma first_error_unit: "first_error rs = Inr () \<longleftrightarrow> (\<forall>r \<in> set rs. r = Inr ())"
  by (auto simp: first_error_ok_iff)

lemma distinct_adj_sort: "distinct_adj (sort xs) \<longleftrightarrow> distinct xs"
proof -
  have "sorted ys \<Longrightarrow> distinct_adj ys \<Longrightarrow> distinct ys" for ys :: "'a list"
  proof (induction ys)
    case Nil
    then show ?case by simp
  next
    case (Cons y ys)
    have "y \<notin> set ys"
    proof (cases ys)
      case (Cons z zs)
      then have "y < z" "\<forall>w \<in> set ys. z \<le> w"
        using Cons.prems by auto
      then show ?thesis by auto
    qed simp
    then show ?case using Cons by (auto simp: distinct_adj_Cons)
  qed
  moreover have "distinct ys \<Longrightarrow> distinct_adj ys" for ys :: "'a list"
    by (induction ys) (auto simp: distinct_adj_Cons)
  ultimately have "distinct_adj (sort xs) \<longleftrightarrow> distinct (sort xs)"
    by (metis sorted_sort)
  then show ?thesis by simp
qed

lemma unique_strings_iff: "unique_strings xs \<longleftrightarrow> distinct xs"
  by (simp add: unique_strings_def distinct_adj_sort)

lemma validate_column_ok:
  assumes "validate_column d c = Inr ()"
  shows "stable_id (col_id c)" "starts_with (col_id c) (rel_id d @ ''.'')" "lower_identifier (col_name c)"
    "col_required c \<or> vt_optional (col_type c)" "valid_scalar_type (col_type c)"
  using assms by (auto simp: validate_column_def first_error_unit refuse_if_ok simp del: first_error.simps)

lemma descriptor_validate_parts:
  assumes "descriptor_validate d = Inr ()"
  shows "validate_enumerations d = Inr ()" "validate_contract d = Inr ()" "validate_header d = Inr ()"
    "validate_domain d = Inr ()" "validate_columns d = Inr ()" "validate_keys d = Inr ()"
    "validate_conflicts d = Inr ()" "\<And>r. r \<in> set (rel_references d) \<Longrightarrow> validate_reference d r = Inr ()"
    "binding_matches d"
proof -
  note ok = assms [unfolded descriptor_validate_def first_error_unit]
  show "validate_enumerations d = Inr ()" "validate_contract d = Inr ()" "validate_header d = Inr ()"
    "validate_domain d = Inr ()" "validate_columns d = Inr ()" "validate_keys d = Inr ()"
    "validate_conflicts d = Inr ()"
    using ok by simp_all
  show "validate_reference d r = Inr ()" if "r \<in> set (rel_references d)" for r
    using ok that by (simp add: each_ok)
  show "binding_matches d"
    using ok by (cases "rel_contract_canonical d = []")
      (simp_all add: refuse_if_ok validate_contract_def first_error_unit del: first_error.simps)
qed

lemma validate_columns_ok:
  assumes "validate_columns d = Inr ()"
  shows "distinct (map col_id (rel_columns d))" "distinct (map col_name (rel_columns d))"
    "c \<in> set (rel_columns d) \<Longrightarrow> validate_column d c = Inr ()"
  using assms by (simp_all add: validate_columns_def first_error_unit refuse_if_ok each_ok distinct_adj_sort del: first_error.simps)

lemma column_id_has_dot:
  assumes "validate_column d c = Inr ()"
  shows "CHR ''.'' \<in> set (col_id c)"
proof -
  have front: "take (length (rel_id d @ ''.'')) (col_id c) = rel_id d @ ''.''"
    using validate_column_ok(2) [OF assms] unfolding starts_with_def .
  have "CHR ''.'' \<in> set (rel_id d @ ''.'')"
    by simp
  then have "CHR ''.'' \<in> set (take (length (rel_id d @ ''.'')) (col_id c))"
    by (simp only: front)
  then show ?thesis
    by (rule in_set_takeD)
qed

lemma find_unique:
  assumes "x \<in> set xs" "P x" "\<And>y. y \<in> set xs \<Longrightarrow> P y \<Longrightarrow> y = x"
  shows "find P xs = Some x"
proof -
  obtain ys where ys: "find P xs = Some ys"
    using assms(1,2) by (cases "find P xs") (auto simp: find_None_iff)
  then have "ys \<in> set xs" "P ys"
    by (auto simp: find_Some_iff)
  then show ?thesis
    using assms(3) ys by simp
qed

lemma name_not_identifier:
  assumes "validate_columns d = Inr ()" "x \<in> set (rel_columns d)" "y \<in> set (rel_columns d)"
  shows "col_name x \<noteq> col_id y"
proof -
  note cols = validate_columns_ok [OF assms(1)]
  have "CHR ''.'' \<notin> set (col_name x)"
    using lower_identifier_no_dot validate_column_ok(3) cols(3) assms(2) by blast
  moreover have "CHR ''.'' \<in> set (col_id y)"
    using column_id_has_dot cols(3) assms(3) by blast
  ultimately show ?thesis by metis
qed

text \<open>
  In a validated descriptor a name and an identifier are never confused: each column is found under
  both, whatever the other columns are.
\<close>

lemma validated_column_found:
  assumes "validate_columns d = Inr ()" "c \<in> set (rel_columns d)"
  shows "descriptor_column d (col_id c) = Inr c" and "descriptor_column d (col_name c) = Inr c"
proof -
  note cols = validate_columns_ok [OF assms(1)]
  note name_id = name_not_identifier [OF assms(1)]
  have ids: "x = y" if "x \<in> set (rel_columns d)" "y \<in> set (rel_columns d)" "col_id x = col_id y" for x y
    using cols(1) that by (auto simp: distinct_map inj_on_def)
  have names: "x = y" if "x \<in> set (rel_columns d)" "y \<in> set (rel_columns d)" "col_name x = col_name y" for x y
    using cols(2) that by (auto simp: distinct_map inj_on_def)
  have "find (\<lambda>x. col_name x = col_id c \<or> col_id x = col_id c) (rel_columns d) = Some c"
    using assms(2) by (rule find_unique) (use name_id ids assms(2) in blast)+
  then show "descriptor_column d (col_id c) = Inr c"
    by (simp add: descriptor_column_def)
  have "find (\<lambda>x. col_name x = col_name c \<or> col_id x = col_name c) (rel_columns d) = Some c"
    using assms(2)
  proof (rule find_unique)
    fix y
    assume y: "y \<in> set (rel_columns d)" "col_name y = col_name c \<or> col_id y = col_name c"
    moreover have "col_id y \<noteq> col_name c"
      using name_id [OF assms(2) y(1)] by (rule not_sym)
    ultimately show "y = c"
      using names assms(2) by blast
  qed simp
  then show "descriptor_column d (col_name c) = Inr c"
    by (simp add: descriptor_column_def)
qed

lemma descriptor_column_member:
  "descriptor_column d n = Inr c \<Longrightarrow> c \<in> set (rel_columns d) \<and> (col_name c = n \<or> col_id c = n)"
  by (auto simp: descriptor_column_def find_Some_iff split: option.splits)

section \<open>The canonical text determines the descriptor\<close>

lemma self_delimiting_weaken:
  "self_delimiting p enc \<Longrightarrow> (\<And>a. q a \<Longrightarrow> p a) \<Longrightarrow> self_delimiting q enc"
  unfolding self_delimiting_def by blast

definition comma_tail :: "string list \<Rightarrow> string" where
  "comma_tail ss = (if ss = [] then [] else '','' @ comma_join ss)"

lemma comma_join_Cons: "comma_join (s # ss) = s @ comma_tail ss"
  by (cases ss) (simp_all add: comma_tail_def)

text \<open>A bracketed list of items that do not start like a bracket.\<close>

lemma comma_list_delimiting:
  assumes enc: "self_delimiting ok enc"
    and start: "\<And>a. ok a \<Longrightarrow> \<exists>s. enc a = c # s" and c: "c \<noteq> cl" and cl: "cl \<noteq> CHR '',''"
  shows "self_delimiting (list_all ok) (\<lambda>as. opening @ comma_join (map enc as) @ [cl])"
proof -
  have ne: "comma_join (map enc (a # as)) @ x \<noteq> cl # y" if "ok a" for a as x y
    using start [OF that] c by (auto simp: comma_join_Cons)
  have tails: "list_all ok as \<Longrightarrow> list_all ok bs \<Longrightarrow>
      comma_tail (map enc as) @ cl # x = comma_tail (map enc bs) @ cl # y \<Longrightarrow>
      as = bs \<and> x = y" for as bs x y
  proof (induction as arbitrary: bs)
    case Nil
    then show ?case using cl by (cases bs) (simp_all add: comma_tail_def)
  next
    case (Cons a as)
    then obtain b bs' where bs: "bs = b # bs'"
      using cl by (cases bs) (simp_all add: comma_tail_def)
    have step: "enc a @ comma_tail (map enc as) @ cl # x = enc b @ comma_tail (map enc bs') @ cl # y"
      using Cons.prems(3) by (simp add: bs comma_tail_def [of "_ # _"] comma_join_Cons)
    have "a = b" "comma_tail (map enc as) @ cl # x = comma_tail (map enc bs') @ cl # y"
      using self_delimitingD [OF enc step] Cons.prems(1,2) bs by simp_all
    then show ?case
      using Cons.IH Cons.prems(1,2) bs by auto
  qed
  have inner: "as = bs \<and> x = y"
    if "list_all ok as" "list_all ok bs"
      "comma_join (map enc as) @ cl # x = comma_join (map enc bs) @ cl # y" for as bs x y
  proof -
    consider "as = []" "bs = []" | a as' where "as = a # as'" "bs = []" | b bs' where "as = []" "bs = b # bs'"
      | a as' b bs' where "as = a # as'" "bs = b # bs'"
      by (cases as; cases bs) auto
    then show ?thesis
    proof cases
      case 1
      then show ?thesis using that(3) by simp
    next
      case 2
      then show ?thesis using that(1,3) ne [of a as' "cl # x" y] by simp
    next
      case 3
      then show ?thesis using that(2,3) ne [of b bs' "cl # y" x] by simp
    next
      case 4
      then have "comma_tail (map enc as) @ cl # x = comma_tail (map enc bs) @ cl # y"
        using that(3) unfolding comma_tail_def by simp
      then show ?thesis by (rule tails [OF that(1,2)])
    qed
  qed
  show ?thesis
    unfolding self_delimiting_def
  proof (intro allI impI)
    fix as bs x y
    assume "list_all ok as" "list_all ok bs" and
      "(opening @ comma_join (map enc as) @ [cl]) @ x = (opening @ comma_join (map enc bs) @ [cl]) @ y"
    then show "as = bs \<and> x = y"
      by (intro inner) (simp_all only: append_Cons append_Nil append_assoc same_append_eq simp_thms)
  qed
qed

lemma json_text_start: "\<exists>s. json_text t = CHR 0x22 # s"
  by (simp add: quoted_def)

lemma json_strings_delimiting: "self_delimiting (list_all utf8_text) json_strings"
  unfolding json_strings_def [abs_def]
  by (rule comma_list_delimiting [OF json_text_delimiting json_text_start]) simp_all

lemma quoted_delimited:
  "CHR 0x22 \<notin> set s \<Longrightarrow> CHR 0x22 \<notin> set t \<Longrightarrow> quoted s @ x = quoted t @ y \<Longrightarrow> s = t \<and> x = y"
  using split_at_delimiter [of "CHR 0x22" s t x y] by (simp add: quoted_def)

lemma role_names: "distinct (map role_name [Claim_Key, Authoritative_Payload, Display, Auxiliary])"
  "list_all (\<lambda>r. CHR 0x22 \<notin> set (role_name r)) [Claim_Key, Authoritative_Payload, Display, Auxiliary]"
  by code_simp+

lemma merge_names: "distinct (map merge_name [Merge_Set, Merge_Multiset, Functional_Assertion, Keyed_Union])"
  "list_all (\<lambda>m. CHR 0x22 \<notin> set (merge_name m)) [Merge_Set, Merge_Multiset, Functional_Assertion, Keyed_Union]"
  by code_simp+

lemma strength_names: "distinct (map reference_name [Hard, Soft_Semantic])"
  "list_all (\<lambda>s. CHR 0x22 \<notin> set (reference_name s)) [Hard, Soft_Semantic]"
  by code_simp+

lemma listed_delimiting:
  assumes "distinct (map name listed)" "list_all (\<lambda>r. CHR 0x22 \<notin> set (name r)) listed"
  shows "self_delimiting (\<lambda>r. r \<in> set listed) (\<lambda>r. quoted (name r))"
  unfolding self_delimiting_def
proof (intro allI impI)
  fix a b x y
  assume ab: "a \<in> set listed" "b \<in> set listed" and eq: "quoted (name a) @ x = quoted (name b) @ y"
  have "name a = name b \<and> x = y"
    using assms(2) ab by (intro quoted_delimited [OF _ _ eq]) (simp_all add: list_all_iff)
  then show "a = b \<and> x = y"
    using assms(1) ab by (auto simp: distinct_map inj_on_def)
qed

lemma role_delimiting: "self_delimiting column_role_valid (\<lambda>r. quoted (role_name r))"
proof (rule self_delimiting_weaken [OF listed_delimiting [OF role_names]])
  fix r
  assume "column_role_valid r"
  then show "r \<in> set [Claim_Key, Authoritative_Payload, Display, Auxiliary]"
    by (cases r) (simp_all add: column_role_valid_def)
qed

lemma merge_delimiting: "self_delimiting merge_mode_valid (\<lambda>m. quoted (merge_name m))"
proof (rule self_delimiting_weaken [OF listed_delimiting [OF merge_names]])
  fix m
  assume "merge_mode_valid m"
  then show "m \<in> set [Merge_Set, Merge_Multiset, Functional_Assertion, Keyed_Union]"
    by (cases m) (simp_all add: merge_mode_valid_def)
qed

lemma strength_delimiting: "self_delimiting reference_strength_valid (\<lambda>s. quoted (reference_name s))"
proof (rule self_delimiting_weaken [OF listed_delimiting [OF strength_names]])
  fix s
  assume "reference_strength_valid s"
  then show "s \<in> set [Hard, Soft_Semantic]"
    by (cases s) (simp_all add: reference_strength_valid_def)
qed

lemma bool_delimiting: "self_delimiting (\<lambda>b. True) bool_text"
  unfolding self_delimiting_def by (auto simp: bool_text_def split: if_splits)

lemma type_delimiting:
  "self_delimiting (\<lambda>t. scalar_kind_valid (vt_scalar t) \<and> utf8_text (vt_parameter t))
    (\<lambda>t :: value_type. json_text (canonical_name t))"
  unfolding self_delimiting_def
proof (intro allI impI)
  fix t u :: value_type and x y
  assume t: "scalar_kind_valid (vt_scalar t) \<and> utf8_text (vt_parameter t)"
    and u: "scalar_kind_valid (vt_scalar u) \<and> utf8_text (vt_parameter u)"
    and eq: "json_text (canonical_name t) @ x = json_text (canonical_name u) @ y"
  show "t = u \<and> x = y"
    using self_delimitingD [OF json_text_delimiting eq] canonical_name_inject canonical_name_utf8 t u by blast
qed

definition column_encodable :: "column_descriptor \<Rightarrow> bool" where
  "column_encodable c = (utf8_text (col_id c) \<and> utf8_text (col_name c) \<and> column_role_valid (col_role c)
    \<and> scalar_kind_valid (vt_scalar (col_type c)) \<and> utf8_text (vt_parameter (col_type c)))"

lemma delimited_iff:
  "self_delimiting ok enc \<Longrightarrow> ok a \<Longrightarrow> ok b \<Longrightarrow> enc a @ x = enc b @ y \<longleftrightarrow> a = b \<and> x = y"
  unfolding self_delimiting_def by blast

lemmas delimiters = delimited_iff [OF json_text_delimiting] delimited_iff [OF json_strings_delimiting]
  delimited_iff [OF role_delimiting] delimited_iff [OF merge_delimiting] delimited_iff [OF strength_delimiting]
  delimited_iff [OF bool_delimiting] delimited_iff [OF type_delimiting]

lemma column_delimiting: "self_delimiting column_encodable column_text"
  unfolding self_delimiting_def
proof (intro allI impI)
  fix c d :: column_descriptor and x y
  assume "column_encodable c" "column_encodable d" "column_text c @ x = column_text d @ y"
  then show "c = d \<and> x = y"
    unfolding column_encodable_def column_text_def append_assoc same_append_eq
    by (simp only: delimiters same_append_eq simp_thms) simp
qed

definition reference_encodable :: "relation_reference \<Rightarrow> bool" where
  "reference_encodable r = (list_all utf8_text (ref_source_columns r) \<and> reference_strength_valid (ref_strength r)
    \<and> utf8_text (ref_target_relation r) \<and> list_all utf8_text (ref_target_columns r))"

lemma reference_delimiting: "self_delimiting reference_encodable reference_text"
  unfolding self_delimiting_def
proof (intro allI impI)
  fix r s :: relation_reference and x y
  assume ok: "reference_encodable r" "reference_encodable s" and eq: "reference_text r @ x = reference_text s @ y"
  have "ref_container_elements r = ref_container_elements s"
    using eq by (auto simp: reference_text_def json_member_def quoted_def split: if_splits)
  then show "r = s \<and> x = y"
    using ok eq unfolding reference_encodable_def reference_text_def append_assoc same_append_eq
    by (cases "ref_container_elements s"; simp only: delimiters same_append_eq simp_thms append_assoc if_True if_False)
      simp_all
qed

definition domain_encodable :: "domain_identity \<Rightarrow> bool" where
  "domain_encodable i = (utf8_text (dom_contract i) \<and> list_all utf8_text (dom_projection i)
    \<and> (case dom_result_column i of None \<Rightarrow> True | Some c \<Rightarrow> utf8_text c))"

lemma domain_delimiting: "self_delimiting domain_encodable domain_text"
  unfolding self_delimiting_def
proof (intro allI impI)
  fix i j :: domain_identity and x y
  assume ok: "domain_encodable i" "domain_encodable j" and eq: "domain_text i @ x = domain_text j @ y"
  have result: "(case a of Some c \<Rightarrow> json_text c | None \<Rightarrow> ''null'') @ ''}'' @ x
      = (case b of Some c \<Rightarrow> json_text c | None \<Rightarrow> ''null'') @ ''}'' @ y \<longleftrightarrow> a = b \<and> x = y"
    if "case a of None \<Rightarrow> True | Some c \<Rightarrow> utf8_text c" "case b of None \<Rightarrow> True | Some c \<Rightarrow> utf8_text c" for a b
  proof (cases "a = None \<or> b = None")
    case True
    then show ?thesis by (cases a; cases b) (auto simp: quoted_def)
  next
    case False
    then obtain c d where "a = Some c" "b = Some d" by auto
    then show ?thesis
      using that by (simp only: option.case delimiters option.inject same_append_eq)
  qed
  show "i = j \<and> x = y"
    using ok eq unfolding domain_encodable_def domain_text_def append_assoc same_append_eq
    by (simp only: delimiters result same_append_eq simp_thms) simp
qed

lemma column_list_iff:
  assumes "list_all column_encodable cs" "list_all column_encodable ds"
  shows "comma_join (map column_text cs) @ '']'' @ x = comma_join (map column_text ds) @ '']'' @ y
    \<longleftrightarrow> cs = ds \<and> x = y"
proof -
  have "self_delimiting (list_all column_encodable) (\<lambda>as. ''['' @ comma_join (map column_text as) @ '']'')"
    by (rule comma_list_delimiting [OF column_delimiting, where c = "CHR ''{''"]) (simp_all add: column_text_def)
  from delimited_iff [OF this assms, of x y] show ?thesis
    by (simp only: append_assoc same_append_eq)
qed

lemma reference_list_iff:
  assumes "list_all reference_encodable cs" "list_all reference_encodable ds"
  shows "comma_join (map reference_text cs) @ '']'' @ x = comma_join (map reference_text ds) @ '']'' @ y
    \<longleftrightarrow> cs = ds \<and> x = y"
proof -
  have "self_delimiting (list_all reference_encodable) (\<lambda>as. ''['' @ comma_join (map reference_text as) @ '']'')"
    by (rule comma_list_delimiting [OF reference_delimiting, where c = "CHR ''{''"]) (simp_all add: reference_text_def)
  from delimited_iff [OF this assms, of x y] show ?thesis
    by (simp only: append_assoc same_append_eq)
qed

lemma decimal_excludes: "c \<in> set (decimal n) \<Longrightarrow> 48 \<le> (of_char c :: nat) \<and> (of_char c :: nat) \<le> 57"
  using decimal_digits [of n] by (auto simp: list_all_iff digit_iff)

lemma decimal_no_punctuation:
  "CHR '','' \<notin> set (decimal n)" "CHR ''.'' \<notin> set (decimal n)" "CHR 0x22 \<notin> set (decimal n)"
  using decimal_excludes [of "CHR '',''" n] decimal_excludes [of "CHR ''.''" n] decimal_excludes [of "CHR 0x22" n]
  by auto

lemma decimal_comma_iff: "decimal m @ '','' @ x = decimal n @ '','' @ y \<longleftrightarrow> m = n \<and> x = y"
  using split_at_delimiter [of "CHR '',''" "decimal m" "decimal n" x y] decimal_inject decimal_no_punctuation by auto

lemma version_delimiting: "self_delimiting (\<lambda>v. True) (\<lambda>v. quoted (version_string v))"
  unfolding self_delimiting_def
proof (intro allI impI)
  fix v w x y
  assume eq: "quoted (version_string v) @ x = quoted (version_string w) @ y"
  have "version_string v = version_string w \<and> x = y"
    by (rule quoted_delimited [OF _ _ eq]) (simp_all add: version_string_def decimal_no_punctuation)
  then show "v = w \<and> x = y"
    using version_string_inject by blast
qed

text \<open>What the text covers, with the orders it does not distinguish removed.\<close>

definition descriptor_content where
  "descriptor_content d = (sort_key col_id (rel_columns d), sort (rel_conflict_columns d), rel_domain_identity d,
    (rel_id d, rel_key_columns d, rel_merge d, rel_name d, rel_owner_namespace d),
    sort_key reference_key (rel_references d), rel_semantic_major d, rel_semantics d, rel_version d)"

definition descriptor_encodable :: "relation_descriptor \<Rightarrow> bool" where
  "descriptor_encodable d = (list_all column_encodable (rel_columns d) \<and> list_all utf8_text (rel_conflict_columns d)
    \<and> domain_encodable (rel_domain_identity d) \<and> utf8_text (rel_id d) \<and> list_all utf8_text (rel_key_columns d)
    \<and> merge_mode_valid (rel_merge d) \<and> utf8_text (rel_name d) \<and> utf8_text (rel_owner_namespace d)
    \<and> list_all reference_encodable (rel_references d) \<and> utf8_text (rel_semantics d))"

lemma descriptor_form_inject:
  assumes "descriptor_encodable d" "descriptor_encodable e"
    "descriptor_canonical_form d = descriptor_canonical_form e"
  shows "descriptor_content d = descriptor_content e"
proof -
  have eq: "descriptor_canonical_form d @ [] = descriptor_canonical_form e @ []"
    using assms(3) by simp
  have sorted: "list_all column_encodable (sort_key col_id (rel_columns d))"
    "list_all column_encodable (sort_key col_id (rel_columns e))"
    "list_all utf8_text (sort (rel_conflict_columns d))" "list_all utf8_text (sort (rel_conflict_columns e))"
    "list_all reference_encodable (sort_key reference_key (rel_references d))"
    "list_all reference_encodable (sort_key reference_key (rel_references e))"
    using assms(1,2) by (simp_all add: descriptor_encodable_def list_all_iff)
  show ?thesis
    using eq assms(1,2) sorted
    unfolding descriptor_canonical_form_def descriptor_encodable_def append_assoc same_append_eq
    by (simp only: delimiters delimited_iff [OF domain_delimiting] delimited_iff [OF version_delimiting]
        column_list_iff reference_list_iff decimal_comma_iff same_append_eq simp_thms unat_word_inject
        descriptor_content_def)
qed

section \<open>Validated descriptors\<close>

abbreviation types_utf8 :: "relation_descriptor \<Rightarrow> bool" where
  "types_utf8 d \<equiv> (\<forall>c \<in> set (rel_columns d). utf8_text (vt_parameter (col_type c)))"

lemma validated_enumerations:
  assumes "validate_enumerations d = Inr ()"
  shows "merge_mode_valid (rel_merge d)"
    "c \<in> set (rel_columns d) \<Longrightarrow> scalar_kind_valid (vt_scalar (col_type c)) \<and> column_role_valid (col_role c)"
    "r \<in> set (rel_references d) \<Longrightarrow> reference_strength_valid (ref_strength r)"
  using assms
  by (auto simp: validate_enumerations_def first_error_unit refuse_if_ok each_ok simp del: first_error.simps)

lemma validated_header:
  assumes "validate_header d = Inr ()"
  shows "relation_name (rel_name d)" "rel_semantic_major d \<noteq> 0"
    "rel_id d = rel_name d @ ''.v'' @ decimal (unat (rel_semantic_major d))" "semantics_id (rel_semantics d)"
    "stable_id (rel_owner_namespace d)" "rel_key_columns d \<noteq> []" "rel_columns d \<noteq> []"
    "version_major (rel_version d) = rel_semantic_major d"
  using assms by (auto simp: validate_header_def first_error_unit refuse_if_ok simp del: first_error.simps)

lemma isl_column_iff: "isl (descriptor_column d n) \<longleftrightarrow> (\<nexists>c. descriptor_column d n = Inr c)"
  by (cases "descriptor_column d n") auto

lemma column_reference_utf8:
  assumes "validate_columns d = Inr ()" "\<not> isl (descriptor_column d n)"
  shows "utf8_text n"
proof -
  obtain c where c: "descriptor_column d n = Inr c"
    using assms(2) by (auto simp: isl_column_iff)
  note found = descriptor_column_member [OF c]
  have "validate_column d c = Inr ()"
    using found validate_columns_ok(3) [OF assms(1)] by blast
  then have "utf8_text (col_id c)" "utf8_text (col_name c)"
    using validate_column_ok by (auto intro: stable_id_utf8 lower_identifier_utf8)
  then show ?thesis using found by auto
qed

lemma validated_domain:
  assumes "validate_domain d = Inr ()"
  shows "dom_contract (rel_domain_identity d) = [] \<or> dom_contract (rel_domain_identity d) = ''canonical-binary-tuple-v1''"
    "p \<in> set (dom_projection (rel_domain_identity d)) \<Longrightarrow> \<not> isl (descriptor_column d p)"
    "dom_result_column (rel_domain_identity d) = Some c \<Longrightarrow> \<not> isl (descriptor_column d c)"
    "dom_result_column (rel_domain_identity d) = Some c \<Longrightarrow> \<not> isl (identity_kind d)"
  using assms
  by (auto simp: validate_domain_def validate_result_column_def first_error_unit refuse_if_ok each_ok Let_def
      isl_column_iff simp del: first_error.simps split: if_splits sum.splits)

lemma validated_domain_encodable:
  assumes "validate_columns d = Inr ()" "validate_domain d = Inr ()"
  shows "domain_encodable (rel_domain_identity d)"
proof -
  have "utf8_text ''canonical-binary-tuple-v1''" "utf8_text []"
    by code_simp+
  then have "utf8_text (dom_contract (rel_domain_identity d))"
    using validated_domain(1) [OF assms(2)] by auto
  moreover have "list_all utf8_text (dom_projection (rel_domain_identity d))"
    using validated_domain(2) [OF assms(2)] column_reference_utf8 [OF assms(1)] by (simp add: list_all_iff)
  moreover have "case dom_result_column (rel_domain_identity d) of None \<Rightarrow> True | Some c \<Rightarrow> utf8_text c"
    using validated_domain(3) [OF assms(2)] column_reference_utf8 [OF assms(1)] by (simp split: option.splits)
  ultimately show ?thesis by (simp add: domain_encodable_def)
qed

lemma validated_reference:
  assumes "validate_reference d r = Inr ()"
  shows "ref_source_columns r \<noteq> []" "length (ref_source_columns r) = length (ref_target_columns r)"
    "relation_name (ref_target_relation r)" "s \<in> set (ref_source_columns r) \<Longrightarrow> stable_id s \<and> \<not> isl (descriptor_column d s)"
    "list_all stable_id (ref_target_columns r)"
  using assms
  by (auto simp: validate_reference_def first_error_unit refuse_if_ok each_ok simp del: first_error.simps)

lemma validated_keys:
  assumes "validate_keys d = Inr ()" "k \<in> set (rel_key_columns d)"
  shows "stable_id k"
  using assms by (auto simp: validate_keys_def first_error_unit refuse_if_ok each_ok simp del: first_error.simps)

lemma validated_conflicts:
  assumes "validate_conflicts d = Inr ()" "k \<in> set (rel_conflict_columns d)"
  shows "stable_id k"
  using assms by (auto simp: validate_conflicts_def first_error_unit refuse_if_ok each_ok simp del: first_error.simps)

lemma validated_encodable:
  assumes "descriptor_validate d = Inr ()" "types_utf8 d"
  shows "descriptor_encodable d"
proof -
  note parts = descriptor_validate_parts [OF assms(1)]
  note header = validated_header [OF parts(3)]
  note enums = validated_enumerations [OF parts(1)]
  have name: "utf8_text (rel_name d)"
    using header(1) by (rule relation_name_utf8)
  have v: "utf8_text ''.v''" by code_simp
  have rid: "utf8_text (rel_id d)"
    unfolding header(3) map_append by (intro sdk_valid_append name v decimal_utf8)
  have columns: "list_all column_encodable (rel_columns d)"
    unfolding list_all_iff
  proof
    fix c
    assume c: "c \<in> set (rel_columns d)"
    note ok = validate_column_ok [OF validate_columns_ok(3) [OF parts(5) c]]
    show "column_encodable c"
      using enums(2) [OF c] assms(2) c stable_id_utf8 [OF ok(1)] lower_identifier_utf8 [OF ok(3)]
      by (simp add: column_encodable_def)
  qed
  have references: "list_all reference_encodable (rel_references d)"
    unfolding list_all_iff
  proof
    fix r
    assume r: "r \<in> set (rel_references d)"
    note ok = validated_reference [OF parts(8) [OF r]]
    show "reference_encodable r"
      using ok(4,5) relation_name_utf8 [OF ok(3)] enums(3) [OF r] stable_id_utf8
      by (auto simp: reference_encodable_def list_all_iff)
  qed
  have "list_all utf8_text (rel_key_columns d)" "list_all utf8_text (rel_conflict_columns d)"
    using validated_keys [OF parts(6)] validated_conflicts [OF parts(7)] stable_id_utf8 by (auto simp: list_all_iff)
  then show ?thesis
    using columns references name rid enums(1) validated_domain_encodable [OF parts(5,4)]
      semantics_id_utf8 [OF header(4)] stable_id_utf8 [OF header(5)]
    by (simp add: descriptor_encodable_def)
qed

lemma reference_key_inject: "reference_strength_valid (ref_strength r) \<Longrightarrow> reference_strength_valid (ref_strength s) \<Longrightarrow>
    reference_key r = reference_key s \<Longrightarrow> r = (s :: relation_reference)"
  by (cases "ref_strength r"; cases "ref_strength s")
    (auto simp: reference_key_def strength_rank_def reference_strength_valid_def)

text \<open>
  C32: for two validated descriptors whose column type parameters are all UTF-8, the canonical text, which
  the descriptor digest covers, says everything about columns, references, domain identity, names, version,
  merge mode and conflict columns except the order of columns, conflict columns and references. It says
  nothing about the contract text, the contract digest and the descriptor digest itself.
\<close>

theorem descriptor_text_exact:
  assumes "descriptor_validate d = Inr ()" "types_utf8 d" "descriptor_validate e = Inr ()" "types_utf8 e"
  shows "descriptor_canonical_form d = descriptor_canonical_form e \<longleftrightarrow>
    mset (rel_columns d) = mset (rel_columns e) \<and> mset (rel_conflict_columns d) = mset (rel_conflict_columns e)
    \<and> mset (rel_references d) = mset (rel_references e)
    \<and> rel_domain_identity d = rel_domain_identity e \<and> rel_id d = rel_id e \<and> rel_key_columns d = rel_key_columns e
    \<and> rel_merge d = rel_merge e \<and> rel_name d = rel_name e \<and> rel_owner_namespace d = rel_owner_namespace e
    \<and> rel_semantic_major d = rel_semantic_major e \<and> rel_semantics d = rel_semantics e
    \<and> rel_version d = rel_version e" (is "_ \<longleftrightarrow> ?same")
proof
  assume "descriptor_canonical_form d = descriptor_canonical_form e"
  then have "descriptor_content d = descriptor_content e"
    using descriptor_form_inject validated_encodable assms by blast
  then show ?same
    unfolding descriptor_content_def prod.inject by (metis mset_sort)
next
  assume same: ?same
  note d = descriptor_validate_parts [OF assms(1)] and e = descriptor_validate_parts [OF assms(3)]
  have "inj_on col_id (set (rel_columns d))"
    using validate_columns_ok(1) [OF d(5)] by (simp add: distinct_map)
  then have columns: "sort_key col_id (rel_columns d) = sort_key col_id (rel_columns e)"
    using same by (intro sort_key_inj_key_eq) simp_all
  have "inj_on reference_key (set (rel_references d))"
    using validated_enumerations(3) [OF d(1)] reference_key_inject by (intro inj_onI) blast
  then have references: "sort_key reference_key (rel_references d) = sort_key reference_key (rel_references e)"
    using same by (intro sort_key_inj_key_eq) simp_all
  have "sort (rel_conflict_columns d) = sort (rel_conflict_columns e)"
    using same by (intro sort_key_inj_key_eq) simp_all
  then show "descriptor_canonical_form d = descriptor_canonical_form e"
    using same columns references by (simp only: descriptor_canonical_form_def)
qed

section \<open>Sealing a descriptor\<close>

lemma binding_domain: "''cxxlens.relation-descriptor-binding.v2'' \<noteq> []"
  "lower_letter (hd ''cxxlens.relation-descriptor-binding.v2'')"
  "list_all semantic_domain_char ''cxxlens.relation-descriptor-binding.v2''"
  by code_simp+

lemma binding_total: "\<exists>digest. descriptor_binding d = Inr digest"
  unfolding descriptor_binding_def by (rule semantic_digest_total [OF binding_domain])

text \<open>
  \<open>descriptor.descriptor_digest = *descriptor_binding(descriptor)\<close>: the dereference is safe, because
  the binding of a descriptor never fails.
\<close>

definition seal_descriptor :: "relation_descriptor \<Rightarrow> relation_descriptor" where
  "seal_descriptor d = d\<lparr>rel_descriptor_digest := projr (descriptor_binding d)\<rparr>"

lemma seal_fields [simp]:
  "rel_id (seal_descriptor d) = rel_id d" "rel_name (seal_descriptor d) = rel_name d"
  "rel_columns (seal_descriptor d) = rel_columns d" "rel_references (seal_descriptor d) = rel_references d"
  "rel_key_columns (seal_descriptor d) = rel_key_columns d" "rel_merge (seal_descriptor d) = rel_merge d"
  "rel_domain_identity (seal_descriptor d) = rel_domain_identity d" "rel_version (seal_descriptor d) = rel_version d"
  "rel_semantic_major (seal_descriptor d) = rel_semantic_major d" "rel_semantics (seal_descriptor d) = rel_semantics d"
  "rel_owner_namespace (seal_descriptor d) = rel_owner_namespace d"
  "rel_conflict_columns (seal_descriptor d) = rel_conflict_columns d"
  "rel_contract_canonical (seal_descriptor d) = rel_contract_canonical d"
  "rel_contract_digest (seal_descriptor d) = rel_contract_digest d"
  by (simp_all add: seal_descriptor_def)

lemma seal_lookup [simp]:
  "descriptor_column (seal_descriptor d) n = descriptor_column d n" "identity_kind (seal_descriptor d) = identity_kind d"
  "descriptor_canonical_form (seal_descriptor d) = descriptor_canonical_form d"
  "descriptor_binding (seal_descriptor d) = descriptor_binding d"
proof -
  have column: "descriptor_column (seal_descriptor d) n = descriptor_column d n" for n
    unfolding descriptor_column_def seal_fields ..
  then show "descriptor_column (seal_descriptor d) n = descriptor_column d n" .
  show "identity_kind (seal_descriptor d) = identity_kind d"
    unfolding identity_kind_def seal_fields column ..
  show form: "descriptor_canonical_form (seal_descriptor d) = descriptor_canonical_form d"
    unfolding descriptor_canonical_form_def seal_fields ..
  show "descriptor_binding (seal_descriptor d) = descriptor_binding d"
    unfolding descriptor_binding_def seal_fields form ..
qed

lemma binding_matches_seal: "binding_matches (seal_descriptor d)"
  using binding_total [of d] by (auto simp: binding_matches_def) (simp add: seal_descriptor_def)

lemma seal_validates:
  assumes "rel_contract_canonical d = []" "rel_contract_digest d = []" "validate_enumerations d = Inr ()"
    "validate_header d = Inr ()" "validate_domain d = Inr ()" "validate_columns d = Inr ()" "validate_keys d = Inr ()"
    "validate_conflicts d = Inr ()" "each (validate_reference d) (rel_references d) = Inr ()"
  shows "descriptor_validate (seal_descriptor d) = Inr ()"
proof -
  have "validate_enumerations (seal_descriptor d) = validate_enumerations d"
    "validate_header (seal_descriptor d) = validate_header d" "validate_domain (seal_descriptor d) = validate_domain d"
    "validate_columns (seal_descriptor d) = validate_columns d" "validate_keys (seal_descriptor d) = validate_keys d"
    "validate_conflicts (seal_descriptor d) = validate_conflicts d"
    "validate_reference (seal_descriptor d) = validate_reference d"
    by (simp_all only: validate_enumerations_def validate_header_def validate_domain_def validate_columns_def
        validate_keys_def validate_conflicts_def validate_reference_def [abs_def] seal_fields seal_lookup
        validate_column_def [abs_def] columns_of_role_def validate_result_column_def)
  then show ?thesis
    using assms binding_matches_seal [of d]
    by (simp add: descriptor_validate_def validate_contract_def refuse_if_def)
qed

section \<open>A descriptor to evaluate on\<close>

text \<open>One key column, and one set column whose element type is the argument.\<close>

definition sample_body :: "string \<Rightarrow> relation_descriptor" where
  "sample_body element =
    \<lparr>rel_id = ''a.b.v1'', rel_name = ''a.b'',
     rel_version = \<lparr>version_major = 1, version_minor = 0, version_patch = 0\<rparr>, rel_semantic_major = 1,
     rel_semantics = ''cc/1'', rel_owner_namespace = ''a'', rel_contract_canonical = [], rel_contract_digest = [],
     rel_descriptor_digest = [],
     rel_columns =
      [\<lparr>col_id = ''a.b.v1.k'', col_name = ''k'',
        col_type = \<lparr>vt_scalar = Kind_Typed_Id, vt_parameter = ''x_id'', vt_optional = False\<rparr>,
        col_required = True, col_role = Claim_Key\<rparr>,
       \<lparr>col_id = ''a.b.v1.s'', col_name = ''s'',
        col_type = \<lparr>vt_scalar = Kind_Set, vt_parameter = element, vt_optional = False\<rparr>,
        col_required = True, col_role = Display\<rparr>],
     rel_key_columns = [''a.b.v1.k''],
     rel_domain_identity = \<lparr>dom_result_column = Some ''a.b.v1.k'', dom_projection = [''a.b.v1.s''],
       dom_contract = ''canonical-binary-tuple-v1''\<rparr>,
     rel_references = [], rel_merge = Merge_Set, rel_conflict_columns = []\<rparr>"

definition sample_descriptor :: "string \<Rightarrow> relation_descriptor" where
  "sample_descriptor element = seal_descriptor (sample_body element)"

lemma sample_parts:
  "list_all (\<lambda>element. \<not> isl (validate_enumerations (sample_body element))
    \<and> \<not> isl (validate_header (sample_body element)) \<and> \<not> isl (validate_domain (sample_body element))
    \<and> \<not> isl (validate_columns (sample_body element)) \<and> \<not> isl (validate_keys (sample_body element))
    \<and> \<not> isl (validate_conflicts (sample_body element)))
    [''x_id'', ''y_id'', char_of_byte 0xff # ''_id'', char_of_byte 0xfe # ''_id'']"
  by code_simp

lemma sample_validates:
  assumes "element \<in> set [''x_id'', ''y_id'', char_of_byte 0xff # ''_id'', char_of_byte 0xfe # ''_id'']"
  shows "descriptor_validate (sample_descriptor element) = Inr ()"
proof -
  have ok: "\<not> isl r \<Longrightarrow> r = Inr ()" for r :: "unit result"
    by (cases r) auto
  have parts: "\<not> isl (validate_enumerations (sample_body element))
    \<and> \<not> isl (validate_header (sample_body element)) \<and> \<not> isl (validate_domain (sample_body element))
    \<and> \<not> isl (validate_columns (sample_body element)) \<and> \<not> isl (validate_keys (sample_body element))
    \<and> \<not> isl (validate_conflicts (sample_body element))"
    using sample_parts assms unfolding list_all_iff by (rule bspec)
  have "each (validate_reference (sample_body element)) (rel_references (sample_body element)) = Inr ()"
    by (simp add: each_def sample_body_def)
  then show ?thesis
    unfolding sample_descriptor_def using parts
    by (intro seal_validates) (blast intro: ok | simp add: sample_body_def)+
qed

lemma descriptor_text_exact_witness:
  "descriptor_validate (sample_descriptor ''x_id'') = Inr () \<and> descriptor_validate (sample_descriptor ''y_id'') = Inr () \<and>
   descriptor_canonical_form (sample_descriptor ''x_id'') \<noteq> descriptor_canonical_form (sample_descriptor ''y_id'')"
proof -
  have valid: "descriptor_validate (sample_descriptor ''x_id'') = Inr ()"
    "descriptor_validate (sample_descriptor ''y_id'') = Inr ()"
    by (rule sample_validates; simp)+
  have utf8: "utf8_text ''x_id''" "utf8_text ''y_id''"
    by code_simp+
  have "types_utf8 (sample_descriptor ''x_id'')" "types_utf8 (sample_descriptor ''y_id'')"
    using utf8 by (simp_all add: sample_descriptor_def sample_body_def)
  then show ?thesis
    using descriptor_text_exact [OF valid(1) _ valid(2)] valid
    by (simp add: sample_descriptor_def sample_body_def)
qed

section \<open>What the descriptor digest does not cover\<close>

text \<open>Text that is not UTF-8 stays so inside ASCII text.\<close>

lemma cbor_valid_ascii_prefix: "list_all (\<lambda>b. b \<le> 0x7f) as \<Longrightarrow> cbor_valid_utf8 (as @ bs) = cbor_valid_utf8 bs"
  by (induction as) (simp_all add: ascii_step)

lemma cbor_valid_ascii_suffix: "b \<le> 0x7f \<Longrightarrow> cbor_valid_utf8 (bs @ [b]) \<Longrightarrow> cbor_valid_utf8 bs"
proof (induction bs rule: length_induct)
  case (1 bs)
  then have IH: "cbor_valid_utf8 (r @ [b]) \<Longrightarrow> length r < length bs \<Longrightarrow> cbor_valid_utf8 r" for r
    by blast
  have no_cont: "\<not> cont_byte b"
    using "1.prems"(1) by (auto simp: cont_byte_def byte_le_unat)
  show ?case
  proof (cases bs)
    case Nil
    then show ?thesis by simp
  next
    case (Cons f rest)
    consider "f \<le> 0x7f" | "0xc2 \<le> f" "f \<le> 0xdf" | "0xe0 \<le> f" "f \<le> 0xef" | "0xf0 \<le> f" "f \<le> 0xf4"
      using "1.prems"(2) Cons no_lead_step(2) [of f "rest @ [b]"] by (metis append_Cons)
    then show ?thesis
      using "1.prems"(2) Cons no_cont
      by cases (auto simp: ascii_step cbor_seq2 cbor_seq3 cbor_seq4 append_eq_Cons_conv Cons_eq_append_conv,
        (rule IH, assumption, simp)+)
  qed
qed

lemma utf8_inside_ascii:
  assumes "list_all (\<lambda>c. byte_of_char c \<le> 0x7f) as" "byte_of_char z \<le> 0x7f" "utf8_text (as @ s @ [z])"
  shows "utf8_text s"
proof -
  have "cbor_valid_utf8 (bytes_of s @ [byte_of_char z])"
    using assms(1,3) cbor_valid_ascii_prefix [of "bytes_of as" "bytes_of s @ [byte_of_char z]"]
    by (simp add: sdk_valid_utf8_def validators_agree list.pred_map comp_def)
  then show ?thesis
    using cbor_valid_ascii_suffix [OF assms(2)] by (simp add: sdk_valid_utf8_def validators_agree)
qed

lemma set_name_unwritten:
  assumes "vt_scalar t = Kind_Set" "\<not> utf8_text (vt_parameter t)"
  shows "json_text (canonical_name t) = quoted []"
proof -
  have ascii: "list_all (\<lambda>c. byte_of_char c \<le> 0x7f) ''set<''" "list_all (\<lambda>c. byte_of_char c \<le> 0x7f) ''optional<''"
    "byte_of_char CHR ''>'' \<le> 0x7f"
    by code_simp+
  have "vt_parameter t \<noteq> []"
    using assms(2) by (auto simp: sdk_valid_utf8_def)
  then have base: "base_name (vt_scalar t) (vt_parameter t) = ''set<'' @ vt_parameter t @ [CHR ''>'']"
    by (simp add: base_name_def assms(1) scalar_kind_name_def)
  have "\<not> utf8_text (base_name (vt_scalar t) (vt_parameter t))"
    using utf8_inside_ascii [OF ascii(1,3)] assms(2) unfolding base by blast
  then have "\<not> utf8_text (canonical_name t)"
    using utf8_inside_ascii [OF ascii(2,3)] unfolding canonical_name_base by (auto simp del: append.simps)
  then show ?thesis
    by (simp add: canonical_json_escape_def)
qed

definition retype_column :: "string \<Rightarrow> column_descriptor \<Rightarrow> column_descriptor" where
  "retype_column t c = c\<lparr>col_type := (col_type c)\<lparr>vt_parameter := t\<rparr>\<rparr>"

text \<open>The descriptor with another type parameter at the column with identifier \<open>n\<close>, all else kept.\<close>

definition retype :: "string \<Rightarrow> string \<Rightarrow> relation_descriptor \<Rightarrow> relation_descriptor" where
  "retype n t d = d\<lparr>rel_columns := map (\<lambda>c. if col_id c = n then retype_column t c else c) (rel_columns d)\<rparr>"

lemma retype_fields [simp]:
  "rel_id (retype n t d) = rel_id d" "rel_name (retype n t d) = rel_name d"
  "rel_references (retype n t d) = rel_references d"
  "rel_key_columns (retype n t d) = rel_key_columns d" "rel_merge (retype n t d) = rel_merge d"
  "rel_domain_identity (retype n t d) = rel_domain_identity d" "rel_version (retype n t d) = rel_version d"
  "rel_semantic_major (retype n t d) = rel_semantic_major d" "rel_semantics (retype n t d) = rel_semantics d"
  "rel_owner_namespace (retype n t d) = rel_owner_namespace d"
  "rel_conflict_columns (retype n t d) = rel_conflict_columns d"
  "rel_contract_canonical (retype n t d) = rel_contract_canonical d"
  "rel_contract_digest (retype n t d) = rel_contract_digest d"
  "rel_descriptor_digest (retype n t d) = rel_descriptor_digest d"
  by (simp_all add: retype_def)

lemma retype_column_fields [simp]:
  "col_id (retype_column t c) = col_id c" "col_name (retype_column t c) = col_name c"
  "col_required (retype_column t c) = col_required c" "col_role (retype_column t c) = col_role c"
  "vt_scalar (col_type (retype_column t c)) = vt_scalar (col_type c)"
  "vt_optional (col_type (retype_column t c)) = vt_optional (col_type c)"
  "vt_parameter (col_type (retype_column t c)) = t"
  by (simp_all add: retype_column_def)

lemma find_map_same:
  assumes "\<And>x. P (f x) = P x"
  shows "find P (map f xs) = map_option f (find P xs)"
  by (induction xs) (simp_all add: assms)

lemma retype_lookup:
  "descriptor_column (retype n t d) m = and_then (descriptor_column d m)
    (\<lambda>c. Inr (if col_id c = n then retype_column t c else c))"
proof -
  let ?f = "\<lambda>c. if col_id c = n then retype_column t c else c"
  have "find (\<lambda>c. col_name c = m \<or> col_id c = m) (map ?f (rel_columns d))
      = map_option ?f (find (\<lambda>c. col_name c = m \<or> col_id c = m) (rel_columns d))"
    by (rule find_map_same) simp
  then show ?thesis
    by (simp add: descriptor_column_def retype_def and_then_def split: option.split)
qed

lemma sort_key_retyped:
  "sort_key col_id (rel_columns (retype n t d))
    = map (\<lambda>c. if col_id c = n then retype_column t c else c) (sort_key col_id (rel_columns d))"
proof -
  have "(\<lambda>c. col_id (if col_id c = n then retype_column t c else c)) = col_id"
    by auto
  then show ?thesis by (simp add: retype_def sort_key_map)
qed

text \<open>What validation reads of a column is unchanged, a set column having no part in a domain identity.\<close>

lemma retype_checks:
  assumes sets: "\<And>c. c \<in> set (rel_columns d) \<Longrightarrow> col_id c = n \<Longrightarrow> vt_scalar (col_type c) = Kind_Set"
  shows "validate_enumerations (retype n t d) = validate_enumerations d"
    "validate_header (retype n t d) = validate_header d" "validate_domain (retype n t d) = validate_domain d"
    "validate_keys (retype n t d) = validate_keys d" "validate_conflicts (retype n t d) = validate_conflicts d"
    "validate_reference (retype n t d) = validate_reference d"
proof -
  have lookup: "isl (descriptor_column (retype n t d) m) = isl (descriptor_column d m)"
    "(case descriptor_column (retype n t d) m of Inl e \<Rightarrow> True | Inr c \<Rightarrow> col_role c \<noteq> Claim_Key)
      = (case descriptor_column d m of Inl e \<Rightarrow> True | Inr c \<Rightarrow> col_role c \<noteq> Claim_Key)"
    "(case descriptor_column (retype n t d) m of Inl e \<Rightarrow> True | Inr c \<Rightarrow> vt_scalar (col_type c) \<noteq> Kind_Set)
      = (case descriptor_column d m of Inl e \<Rightarrow> True | Inr c \<Rightarrow> vt_scalar (col_type c) \<noteq> Kind_Set)" for m
    by (simp_all add: retype_lookup and_then_def split: sum.split)
  have roles: "columns_of_role (retype n t d) r = columns_of_role d r" for r
    by (simp add: columns_of_role_def retype_def filter_map comp_def if_distrib cong: if_cong)
  have empty: "(rel_columns (retype n t d) = []) = (rel_columns d = [])"
    by (simp add: retype_def)
  have enums: "each (\<lambda>c. refuse_if (\<not> scalar_kind_valid (vt_scalar (col_type c)) \<or> \<not> column_role_valid (col_role c))
       ''sdk.column-invalid'' (col_id c) ''closed-enum'') (rel_columns (retype n t d))
     = each (\<lambda>c. refuse_if (\<not> scalar_kind_valid (vt_scalar (col_type c)) \<or> \<not> column_role_valid (col_role c))
       ''sdk.column-invalid'' (col_id c) ''closed-enum'') (rel_columns d)"
    by (simp add: each_def retype_def comp_def if_distrib cong: if_cong)
  have kind: "identity_kind (retype n t d) = identity_kind d"
  proof -
    have "vt_scalar (col_type c) \<noteq> Kind_Typed_Id" if "descriptor_column d m = Inr c" "col_id c = n" for c m
      using that sets descriptor_column_member [of d m c] by fastforce
    then show ?thesis
      by (auto simp: identity_kind_def retype_lookup split: option.split sum.split)
  qed
  show "validate_enumerations (retype n t d) = validate_enumerations d"
    unfolding validate_enumerations_def retype_fields enums ..
  show "validate_header (retype n t d) = validate_header d"
    unfolding validate_header_def retype_fields empty ..
  show "validate_domain (retype n t d) = validate_domain d"
    unfolding validate_domain_def validate_result_column_def retype_fields lookup kind ..
  show "validate_keys (retype n t d) = validate_keys d"
    unfolding validate_keys_def retype_fields lookup roles ..
  show "validate_conflicts (retype n t d) = validate_conflicts d"
    unfolding validate_conflicts_def retype_fields lookup roles ..
  show "validate_reference (retype n t d) = validate_reference d"
    unfolding validate_reference_def [abs_def] retype_fields lookup ..
qed

lemma retype_columns_valid:
  assumes valid: "validate_columns d = Inr ()" and t: "ends_with t ''_id''" "\<not> utf8_text t"
    and sets: "\<And>c. c \<in> set (rel_columns d) \<Longrightarrow> col_id c = n \<Longrightarrow> vt_scalar (col_type c) = Kind_Set"
  shows "validate_columns (retype n t d) = Inr ()"
proof -
  have names: "map col_id (rel_columns (retype n t d)) = map col_id (rel_columns d)"
    "map col_name (rel_columns (retype n t d)) = map col_name (rel_columns d)"
    by (simp_all add: retype_def comp_def if_distrib cong: if_cong)
  have "utf8_text ''native_pointer''" "utf8_text ''native_address''"
    by code_simp+
  then have native: "t \<noteq> ''native_pointer''" "t \<noteq> ''native_address''"
    using t(2) by blast+
  have supported: "supported_set_element_type t"
    using t(1) by (simp add: supported_set_element_type_def)
  have "validate_column (retype n t d) (retype_column t c) = Inr ()"
    if "validate_column d c = Inr ()" "vt_scalar (col_type c) = Kind_Set" for c
    using that native supported
    by (auto simp: validate_column_def first_error_unit refuse_if_ok valid_scalar_type_def simp del: first_error.simps)
  moreover have "validate_column (retype n t d) c = validate_column d c" for c
    unfolding validate_column_def retype_fields ..
  ultimately have "each (validate_column (retype n t d)) (rel_columns (retype n t d)) = Inr ()"
    using validate_columns_ok(3) [OF valid] sets by (auto simp: each_ok retype_def)
  then show ?thesis
    using valid by (simp add: validate_columns_def first_error_unit names del: first_error.simps)
qed

lemma retype_form:
  assumes t: "\<not> utf8_text t"
    and sets: "\<And>c. c \<in> set (rel_columns d) \<Longrightarrow> col_id c = n \<Longrightarrow>
      vt_scalar (col_type c) = Kind_Set \<and> \<not> utf8_text (vt_parameter (col_type c))"
  shows "descriptor_canonical_form (retype n t d) = descriptor_canonical_form d"
    "descriptor_binding (retype n t d) = descriptor_binding d"
proof -
  have spelling: "column_text (retype_column t c) = column_text c" if "c \<in> set (rel_columns d)" "col_id c = n" for c
  proof -
    have "json_text (canonical_name (col_type (retype_column t c))) = json_text (canonical_name (col_type c))"
      using sets [OF that] t by (simp add: set_name_unwritten)
    then show ?thesis
      by (simp only: column_text_def retype_column_fields)
  qed
  then have columns: "map column_text (sort_key col_id (rel_columns (retype n t d)))
      = map column_text (sort_key col_id (rel_columns d))"
    unfolding sort_key_retyped by (simp add: spelling)
  show form: "descriptor_canonical_form (retype n t d) = descriptor_canonical_form d"
    unfolding descriptor_canonical_form_def retype_fields columns by (rule refl)
  show "descriptor_binding (retype n t d) = descriptor_binding d"
    unfolding descriptor_binding_def retype_fields form ..
qed

text \<open>
  Without that proviso it does not. The element type of a set column may be any bytes ending in
  \<open>_id\<close>, and the escape writes a text that is not UTF-8 as nothing: exchanging one such element type of a
  validated descriptor for any other leaves the canonical text, the digest over it and hence the
  validity of the descriptor unchanged, while the column now has the other type.
\<close>

theorem descriptor_digest_misses_set_type:
  assumes "descriptor_validate d = Inr ()" "c \<in> set (rel_columns d)" "vt_scalar (col_type c) = Kind_Set"
    "\<not> utf8_text (vt_parameter (col_type c))" "ends_with t ''_id''" "\<not> utf8_text t"
  shows "descriptor_validate (retype (col_id c) t d) = Inr ()
    \<and> rel_descriptor_digest (retype (col_id c) t d) = rel_descriptor_digest d
    \<and> descriptor_canonical_form (retype (col_id c) t d) = descriptor_canonical_form d
    \<and> descriptor_column (retype (col_id c) t d) (col_id c)
        = Inr (c\<lparr>col_type := (col_type c)\<lparr>vt_parameter := t\<rparr>\<rparr>)"
proof -
  note parts = descriptor_validate_parts [OF assms(1)]
  have only: "e = c" if "e \<in> set (rel_columns d)" "col_id e = col_id c" for e
    using validate_columns_ok(1) [OF parts(5)] that assms(2) by (auto simp: distinct_map inj_on_def)
  note checks = retype_checks [of d "col_id c" t] and same = retype_form [OF assms(6), of d "col_id c"]
  have sets: "vt_scalar (col_type e) = Kind_Set" "\<not> utf8_text (vt_parameter (col_type e))"
    if "e \<in> set (rel_columns d)" "col_id e = col_id c" for e
    using only [OF that] assms(3,4) by simp_all
  have columns: "validate_columns (retype (col_id c) t d) = Inr ()"
    using retype_columns_valid [OF parts(5) assms(5,6)] sets by blast
  have binding: "descriptor_binding (retype (col_id c) t d) = descriptor_binding d"
    and form: "descriptor_canonical_form (retype (col_id c) t d) = descriptor_canonical_form d"
    using same sets by blast+
  have matches: "binding_matches (retype (col_id c) t d) = binding_matches d"
    unfolding binding_matches_def binding retype_fields ..
  have contract: "validate_contract (retype (col_id c) t d) = validate_contract d"
    unfolding validate_contract_def retype_fields matches ..
  have found: "descriptor_column d (col_id c) = Inr c"
    using validated_column_found [OF parts(5) assms(2)] by blast
  have "descriptor_validate (retype (col_id c) t d) = Inr ()"
    using assms(1) columns parts(5) checks [OF sets(1)]
    by (simp add: descriptor_validate_def contract matches)
  then show ?thesis
    using form found by (simp add: retype_lookup retype_column_def)
qed

lemma descriptor_digest_misses_set_type_witness:
  "\<exists>d e. descriptor_validate d = Inr () \<and> descriptor_validate e = Inr ()
    \<and> rel_descriptor_digest d = rel_descriptor_digest e
    \<and> map (\<lambda>c. vt_parameter (col_type c)) (rel_columns d) = [''x_id'', char_of_byte 0xff # ''_id'']
    \<and> map (\<lambda>c. vt_parameter (col_type c)) (rel_columns e) = [''x_id'', char_of_byte 0xfe # ''_id'']"
proof -
  let ?d = "sample_descriptor (char_of_byte 0xff # ''_id'')"
  let ?c = "rel_columns ?d ! 1" and ?t = "char_of_byte 0xfe # ''_id''"
  have c: "?c \<in> set (rel_columns ?d)" "col_id ?c = ''a.b.v1.s''" "vt_scalar (col_type ?c) = Kind_Set"
    "vt_parameter (col_type ?c) = char_of_byte 0xff # ''_id''"
    by (simp_all add: sample_descriptor_def sample_body_def)
  have bad: "\<not> utf8_text (char_of_byte 0xff # ''_id'')" "\<not> utf8_text ?t" "ends_with ?t ''_id''"
    by code_simp+
  have valid: "descriptor_validate ?d = Inr ()"
    by (rule sample_validates) simp
  note same = descriptor_digest_misses_set_type [OF valid c(1,3) _ bad(3,2), unfolded c(2,4), OF bad(1)]
  show ?thesis
    using valid same
    by (intro exI [of _ ?d] exI [of _ "retype ''a.b.v1.s'' ?t ?d"])
      (simp add: retype_def sample_descriptor_def sample_body_def)
qed

text \<open>
  Looking a column up by name or identifier in a validated descriptor is exact: a column is found
  precisely under its own name and its own identifier, whatever the order of the columns.
\<close>

theorem column_lookup_exact:
  assumes "descriptor_validate d = Inr ()"
  shows "descriptor_column d n = Inr c \<longleftrightarrow> c \<in> set (rel_columns d) \<and> (col_name c = n \<or> col_id c = n)"
  using validated_column_found [OF descriptor_validate_parts(5) [OF assms]] descriptor_column_member by blast

lemma column_lookup_exact_witness:
  "descriptor_column (sample_descriptor ''x_id'') ''s'' = Inr (rel_columns (sample_descriptor ''x_id'') ! 1)"
proof -
  have "descriptor_validate (sample_descriptor ''x_id'') = Inr ()"
    by (rule sample_validates) simp
  from column_lookup_exact [OF this, of "''s''" "rel_columns (sample_descriptor ''x_id'') ! 1"]
  show ?thesis by (simp add: sample_descriptor_def sample_body_def)
qed

end
