(* ===== verification/Ordered_Map.thy ===== *)
theory Ordered_Map
  imports Prelude
begin

text \<open>
  \<open>std::map\<close> as an association list in the order of its keys, which is the order in which the sources
  iterate over it, and the interface its clients rely on: what a lookup returns after an
  \<open>emplace\<close>, which never replaces an entry.
\<close>

type_synonym ('k, 'v) omap = "('k \<times> 'v) list"

definition omap_ordered :: "('k::linorder, 'v) omap \<Rightarrow> bool" where
  "omap_ordered m = sorted_wrt (<) (map fst m)"

text \<open>\<open>map.emplace(key, value)\<close>: inserts unless the key is present.\<close>

fun omap_emplace :: "'k::linorder \<Rightarrow> 'v \<Rightarrow> ('k, 'v) omap \<Rightarrow> ('k, 'v) omap" where
  "omap_emplace k v [] = [(k, v)]"
| "omap_emplace k v ((a, b) # m) =
    (if k < a then (k, v) # (a, b) # m else if k = a then (a, b) # m else (a, b) # omap_emplace k v m)"

section \<open>Interface: a store that keeps the first value of a key\<close>

locale emplace_store =
  fixes find_key :: "'m \<Rightarrow> 'k \<Rightarrow> 'v option"
    and emplace :: "'k \<Rightarrow> 'v \<Rightarrow> 'm \<Rightarrow> 'm"
    and well_formed :: "'m \<Rightarrow> bool"
  assumes find_emplace: "well_formed m \<Longrightarrow>
      find_key (emplace k v m) l = (if l = k \<and> find_key m k = None then Some v else find_key m l)"
    and emplace_well_formed: "well_formed m \<Longrightarrow> well_formed (emplace k v m)"
begin

lemma emplaced_found: "well_formed m \<Longrightarrow> find_key m k = None \<Longrightarrow> find_key (emplace k v m) k = Some v"
  by (simp add: find_emplace)

lemma entry_kept: "well_formed m \<Longrightarrow> find_key m l = Some w \<Longrightarrow> find_key (emplace k v m) l = Some w"
  by (auto simp: find_emplace)

text \<open>Every entry after an insertion is the new one or was there before.\<close>

lemma emplace_cases:
  assumes "well_formed m" "find_key (emplace k v m) l = Some w"
  shows "(l = k \<and> w = v \<and> find_key m k = None) \<or> find_key m l = Some w"
  using assms by (auto simp: find_emplace split: if_splits)

end

section \<open>The association list provides it\<close>

lemma omap_emplace_keys: "set (map fst (omap_emplace k v m)) = insert k (set (map fst m))"
  by (induction k v m rule: omap_emplace.induct) auto

lemma omap_emplace_ordered: "omap_ordered m \<Longrightarrow> omap_ordered (omap_emplace k v m)"
  unfolding omap_ordered_def
proof (induction k v m rule: omap_emplace.induct)
  case (1 k v)
  then show ?case by simp
next
  case (2 k v a b m)
  then show ?case
    using omap_emplace_keys [of k v m] by (auto dest: order.strict_trans)
qed

lemma omap_ordered_distinct: "omap_ordered m \<Longrightarrow> distinct (map fst m)"
  unfolding omap_ordered_def by (simp add: strict_sorted_iff)

lemma map_of_omap_emplace:
  "omap_ordered m \<Longrightarrow>
    map_of (omap_emplace k v m) l = (if l = k \<and> map_of m k = None then Some v else map_of m l)"
proof (induction k v m rule: omap_emplace.induct)
  case (1 k v)
  then show ?case by simp
next
  case (2 k v a b m)
  have below: "map_of m k = None" if "k < a"
    using 2(2) that by (force simp: omap_ordered_def map_of_eq_None_iff)
  have "omap_ordered m"
    using 2(2) by (simp add: omap_ordered_def)
  then show ?case
    using 2(1) below by auto
qed

interpretation ordered_map: emplace_store map_of omap_emplace omap_ordered
  by unfold_locales (simp_all add: map_of_omap_emplace omap_emplace_ordered)

lemma omap_entry_iff: "omap_ordered m \<Longrightarrow> (k, v) \<in> set m \<longleftrightarrow> map_of m k = Some v"
  using omap_ordered_distinct [of m] by simp

lemma omap_ball:
  "omap_ordered m \<Longrightarrow> (\<forall>(k, v) \<in> set m. P k v) \<longleftrightarrow> (\<forall>k v. map_of m k = Some v \<longrightarrow> P k v)"
  by (auto simp flip: omap_entry_iff)

text \<open>Two ordered maps with the same entries are the same list.\<close>

lemma omap_equalI:
  assumes "omap_ordered m" "omap_ordered n" "map_of m = map_of n"
  shows "m = n"
proof -
  have "set (map fst m) = set (map fst n)"
    using assms(3) by (metis dom_map_of_conv_image_fst image_set)
  then have keys: "map fst m = map fst n"
    using assms(1,2) unfolding omap_ordered_def by (intro strict_sorted_equal)
  have "map (\<lambda>k. (k, the (map_of l k))) (map fst l) = l" if "omap_ordered l" for l :: "('a, 'b) omap"
    using omap_ordered_distinct [OF that] by (auto simp: o_def intro: map_idI)
  then show ?thesis
    using assms keys by metis
qed

end
