(* ===== verification/Relation_Rows.thy ===== *)
theory Relation_Rows
  imports Relation_Descriptor Ordered_Map
begin

text \<open>
  Rows of \<open>src/sdk/relation.cpp\<close>: the descriptor-aware row builder, the independent row validation,
  the canonical text of a row and its domain identity. A finished builder hands out only rows whose
  every cell validates, and the text of such a row determines it; the independent validation accepts
  rows with cells it never looked at.
\<close>

section \<open>Rows\<close>

text \<open>\<open>cells\<close> is a \<open>std::map\<close> keyed by column.\<close>

record detached_row =
  row_descriptor_id :: string
  row_cells :: "(string, detached_cell) omap"

definition cell_entry_text :: "string \<times> detached_cell \<Rightarrow> string" where
  "cell_entry_text = (\<lambda>(key, cell). json_text key @ '':'' @ cell_canonical_form cell)"

definition row_canonical_form :: "detached_row \<Rightarrow> string" where
  "row_canonical_form row =
    ''{'' @ json_member ''cells'' @ ''{'' @ comma_join (map cell_entry_text (row_cells row)) @ ''}''
    @ '','' @ json_member ''descriptor_id'' @ json_text (row_descriptor_id row) @ ''}''"

definition validate_row_column :: "detached_row \<Rightarrow> column_descriptor \<Rightarrow> unit result" where
  "validate_row_column row column =
    (case map_of (row_cells row) (col_id column) of
       None \<Rightarrow> refuse_if (col_required column) ''sdk.required-cell-missing'' (col_id column) []
     | Some cell \<Rightarrow>
         if cell_type cell \<noteq> col_type column then Inl (Err ''sdk.cell-type-mismatch'' (col_id column) [])
         else cell_validate cell)"

definition validate_row :: "relation_descriptor \<Rightarrow> detached_row \<Rightarrow> unit result" where
  "validate_row d row = first_error
    [refuse_if (row_descriptor_id row \<noteq> rel_id d) ''sdk.row-descriptor-mismatch'' ''descriptor_id'' [],
     each (validate_row_column row) (rel_columns d),
     each (\<lambda>(key, cell). refuse_if (isl (descriptor_column d key)) ''sdk.unknown-cell'' key [])
       (row_cells row)]"

section \<open>The row builder\<close>

record row_builder =
  builder_descriptor :: relation_descriptor
  builder_row :: detached_row

definition row_builder_new :: "relation_descriptor \<Rightarrow> row_builder" where
  "row_builder_new d = \<lparr>builder_descriptor = d,
    builder_row = \<lparr>row_descriptor_id = rel_id d, row_cells = []\<rparr>\<rparr>"

definition row_builder_set :: "column_ref \<times> detached_cell \<Rightarrow> row_builder \<Rightarrow> row_builder result" where
  "row_builder_set = (\<lambda>(column, cell) b.
    (let d = builder_descriptor b; row = builder_row b; key = cref_column_id column
     in if cref_descriptor_id column \<noteq> rel_id d then Inl (Err ''sdk.foreign-column'' key [])
        else and_then (descriptor_column d key) (\<lambda>expected.
          if cref_type column \<noteq> col_type expected \<or> cell_type cell \<noteq> col_type expected
          then Inl (Err ''sdk.cell-type-mismatch'' key [])
          else and_then (cell_validate cell) (\<lambda>_.
            if map_of (row_cells row) key \<noteq> None then Inl (Err ''sdk.duplicate-cell'' key [])
            else Inr (b\<lparr>builder_row := row\<lparr>row_cells := omap_emplace key cell (row_cells row)\<rparr>\<rparr>)))))"

definition row_builder_finish :: "row_builder \<Rightarrow> detached_row result" where
  "row_builder_finish b =
    and_then (validate_row (builder_descriptor b) (builder_row b)) (\<lambda>_. Inr (builder_row b))"

text \<open>\<open>static_row_view::get\<close> for a relation with descriptor \<open>d\<close> and a column with handle \<open>reference\<close>.\<close>

definition static_row_get :: "relation_descriptor \<Rightarrow> column_ref \<Rightarrow> detached_row \<Rightarrow> detached_cell result" where
  "static_row_get d reference row =
    (if row_descriptor_id row \<noteq> rel_id d
     then Inl (Err ''sdk.row-descriptor-mismatch'' ''descriptor_id'' (row_descriptor_id row))
     else if cref_descriptor_id reference \<noteq> rel_id d
     then Inl (Err ''sdk.foreign-column'' (cref_column_id reference) [])
     else and_then (descriptor_column d (cref_column_id reference)) (\<lambda>expected.
       if cref_type reference \<noteq> col_type expected
       then Inl (Err ''sdk.cell-type-mismatch'' (cref_column_id reference) [])
       else and_then (validate_row d row) (\<lambda>_.
         case map_of (row_cells row) (cref_column_id reference) of
           Some cell \<Rightarrow> Inr cell
         | None \<Rightarrow>
             if vt_optional (cref_type reference) then Inr (cell_absent (cref_type reference))
             else Inl (Err ''sdk.required-cell-missing'' (cref_column_id reference) []))))"

section \<open>Domain identity\<close>

definition identity_value :: "detached_cell \<Rightarrow> string \<Rightarrow> canonical_value result" where
  "identity_value cell column =
    (if cell_state cell = Absent then Inr canonical_null
     else if cell_state cell \<noteq> Present \<or> cell_value cell = None
     then Inl (Err ''sdk.domain-identity-unresolved'' column [])
     else case the (cell_value cell) of
         Bool_Scalar b \<Rightarrow> Inr (from_boolean b)
       | Int_Scalar i \<Rightarrow> Inr (from_integer i)
       | Uint_Scalar i \<Rightarrow>
           if i > int64_max then Inl (Err ''sdk.domain-identity-out-of-range'' column [])
           else Inr (from_integer i)
       | Text_Scalar s \<Rightarrow> Inr (from_string s)
       | Bytes_Scalar bs \<Rightarrow> Inr (from_bytes bs))"

definition projected_value :: "relation_descriptor \<Rightarrow> detached_row \<Rightarrow> string \<Rightarrow> canonical_value result" where
  "projected_value d row column_id =
    and_then (descriptor_column d column_id) (\<lambda>column.
      case map_of (row_cells row) column_id of
        None \<Rightarrow>
          if \<not> vt_optional (col_type column) then Inl (Err ''sdk.domain-identity-missing'' column_id [])
          else Inr canonical_null
      | Some cell \<Rightarrow>
          if cell_type cell \<noteq> col_type column then Inl (Err ''sdk.cell-type-mismatch'' column_id [])
          else and_then (cell_validate cell) (\<lambda>_. identity_value cell column_id))"

text \<open>The loop that fills \<open>projection\<close>.\<close>

fun projected_values :: "relation_descriptor \<Rightarrow> detached_row \<Rightarrow> string list \<Rightarrow> canonical_value list result" where
  "projected_values d row [] = Inr []"
| "projected_values d row (column_id # ids) =
    and_then (projected_value d row column_id) (\<lambda>v.
      and_then (projected_values d row ids) (\<lambda>vs. Inr (v # vs)))"

definition derive_domain_identity :: "relation_descriptor \<Rightarrow> detached_row \<Rightarrow> string result" where
  "derive_domain_identity d row =
    (if row_descriptor_id row \<noteq> rel_id d
        \<or> dom_contract (rel_domain_identity d) \<noteq> ''canonical-binary-tuple-v1''
     then Inl (Err ''sdk.domain-identity-invalid'' (rel_id d) ''authority'')
     else and_then (identity_kind d) (\<lambda>kind.
       and_then (projected_values d row (dom_projection (rel_domain_identity d))) (\<lambda>projection.
         canonical_identity_digest kind projection)))"

definition validate_domain_identity :: "relation_descriptor \<Rightarrow> detached_row \<Rightarrow> unit result" where
  "validate_domain_identity d row =
    and_then (derive_domain_identity d row) (\<lambda>expected.
      case dom_result_column (rel_domain_identity d) of
        None \<Rightarrow> Inl (Err ''sdk.domain-identity-unavailable'' (rel_id d) [])
      | Some result_column \<Rightarrow>
          (case map_of (row_cells row) result_column of
             None \<Rightarrow> Inl (Err ''sdk.domain-identity-missing'' result_column [])
           | Some cell \<Rightarrow>
               if cell_state cell \<noteq> Present then Inl (Err ''sdk.domain-identity-missing'' result_column [])
               else (case cell_value cell of
                   None \<Rightarrow> Inl (Err ''sdk.domain-identity-missing'' result_column [])
                 | Some (Text_Scalar actual) \<Rightarrow>
                     if actual \<noteq> expected then Inl (Err ''sdk.domain-identity-mismatch'' result_column [])
                     else Inr ()
                 | Some other \<Rightarrow> Inl (Err ''sdk.domain-identity-mismatch'' result_column []))))"

section \<open>Rows a builder hands out\<close>

text \<open>
  What every builder satisfies: its row is ordered, belongs to the descriptor, and each cell is a valid
  one of the type of the column it is stored under.
\<close>

definition cells_checked :: "relation_descriptor \<Rightarrow> detached_row \<Rightarrow> bool" where
  "cells_checked d row = (omap_ordered (row_cells row) \<and> row_descriptor_id row = rel_id d
    \<and> (\<forall>(key, cell) \<in> set (row_cells row). cell_validate cell = Inr ()
        \<and> (\<exists>c. descriptor_column d key = Inr c \<and> cell_type cell = col_type c)))"

lemma cells_checked_iff:
  "cells_checked d row \<longleftrightarrow> omap_ordered (row_cells row) \<and> row_descriptor_id row = rel_id d
    \<and> (\<forall>key cell. map_of (row_cells row) key = Some cell \<longrightarrow> cell_validate cell = Inr ()
        \<and> (\<exists>c. descriptor_column d key = Inr c \<and> cell_type cell = col_type c))"
  unfolding cells_checked_def by (intro conj_cong refl omap_ball)

lemma row_builder_set_ok:
  assumes "row_builder_set (column, cell) b = Inr b'"
  obtains c where "descriptor_column (builder_descriptor b) (cref_column_id column) = Inr c"
    "cell_type cell = col_type c" "cell_validate cell = Inr ()"
    "map_of (row_cells (builder_row b)) (cref_column_id column) = None"
    "b' = b\<lparr>builder_row := (builder_row b)\<lparr>row_cells :=
      omap_emplace (cref_column_id column) cell (row_cells (builder_row b))\<rparr>\<rparr>"
  using assms by (auto simp: row_builder_set_def Let_def and_then_Inr_iff split: if_splits)

interpretation builder: guarded_machine row_builder_set
  "\<lambda>b. builder_descriptor b = d \<and> cells_checked d (builder_row b)"
  for d
proof
  fix b b' and i :: "column_ref \<times> detached_cell"
  assume inv: "builder_descriptor b = d \<and> cells_checked d (builder_row b)" and step: "row_builder_set i b = Inr b'"
  obtain column cell where i: "i = (column, cell)"
    by (cases i)
  from inv have ordered: "omap_ordered (row_cells (builder_row b))"
    by (simp add: cells_checked_iff)
  from step [unfolded i] show "builder_descriptor b' = d \<and> cells_checked d (builder_row b')"
  proof (rule row_builder_set_ok)
    fix c
    assume set: "descriptor_column (builder_descriptor b) (cref_column_id column) = Inr c"
      "cell_type cell = col_type c" "cell_validate cell = Inr ()"
      "b' = b\<lparr>builder_row := (builder_row b)\<lparr>row_cells :=
        omap_emplace (cref_column_id column) cell (row_cells (builder_row b))\<rparr>\<rparr>"
    then show ?thesis
      using inv ordered_map.emplace_cases [OF ordered] ordered_map.emplace_well_formed [OF ordered]
      by (simp add: cells_checked_iff) blast
  qed
qed

lemma cells_checked_new: "cells_checked d (builder_row (row_builder_new d))"
  by (simp add: cells_checked_def row_builder_new_def omap_ordered_def)

lemma built_row_checked:
  assumes "row_builder_finish (run_machine row_builder_set sets (row_builder_new d)) = Inr row"
  shows "cells_checked d row" "validate_row d row = Inr ()"
proof -
  let ?b = "run_machine row_builder_set sets (row_builder_new d)"
  have "builder_descriptor ?b = d \<and> cells_checked d (builder_row ?b)"
    using cells_checked_new by (intro builder.run_inv) (simp add: row_builder_new_def)
  then show "cells_checked d row" "validate_row d row = Inr ()"
    using assms by (auto simp: row_builder_finish_def and_then_Inr_iff)
qed

text \<open>
  C34: whatever cells are offered to a builder in whatever order, the row it finishes with validates, and
  every one of its cells is itself valid and has the type of the column it is stored under.
\<close>

theorem built_rows_are_valid:
  assumes "row_builder_finish (run_machine row_builder_set sets (row_builder_new d)) = Inr row"
  shows "validate_row d row = Inr () \<and> (\<forall>(key, cell) \<in> set (row_cells row). cell_validate cell = Inr ()
    \<and> (\<exists>c \<in> set (rel_columns d). (col_id c = key \<or> col_name c = key) \<and> cell_type cell = col_type c))"
proof -
  have "\<forall>(key, cell) \<in> set (row_cells row). cell_validate cell = Inr ()
    \<and> (\<exists>c \<in> set (rel_columns d). (col_id c = key \<or> col_name c = key) \<and> cell_type cell = col_type c)"
    using built_row_checked(1) [OF assms] unfolding cells_checked_def
    by (auto dest!: descriptor_column_member)
  then show ?thesis
    using built_row_checked(2) [OF assms] by blast
qed

section \<open>Rows to evaluate on\<close>

definition sample_set_cell :: "bytes \<Rightarrow> detached_cell" where
  "sample_set_cell bs = \<lparr>cell_type = \<lparr>vt_scalar = Kind_Set, vt_parameter = ''x_id'', vt_optional = False\<rparr>,
    cell_state = Present, cell_value = Some (Bytes_Scalar bs), cell_unknown_reason = None\<rparr>"

definition sample_row :: "string \<Rightarrow> bytes \<Rightarrow> detached_row" where
  "sample_row key bs = \<lparr>row_descriptor_id = ''a.b.v1'',
    row_cells = [(''a.b.v1.k'', cell_typed ''x_id'' key), (''a.b.v1.s'', sample_set_cell bs)]\<rparr>"

definition sample_sets :: "string \<Rightarrow> bytes \<Rightarrow> (column_ref \<times> detached_cell) list" where
  "sample_sets key bs =
    [(\<lparr>cref_descriptor_id = ''a.b.v1'', cref_column_id = ''a.b.v1.s'',
       cref_type = cell_type (sample_set_cell bs), cref_source_alias = []\<rparr>, sample_set_cell bs),
     (\<lparr>cref_descriptor_id = ''a.b.v1'', cref_column_id = ''a.b.v1.k'',
       cref_type = cell_type (cell_typed ''x_id'' key), cref_source_alias = []\<rparr>, cell_typed ''x_id'' key)]"

lemma sample_built:
  "row_builder_finish (run_machine row_builder_set (sample_sets ''v'' []) (row_builder_new (sample_body ''x_id'')))
    = Inr (sample_row ''v'' [])"
  "row_builder_finish (run_machine row_builder_set (sample_sets ''w'' []) (row_builder_new (sample_body ''x_id'')))
    = Inr (sample_row ''w'' [])"
  by code_simp+

lemma built_rows_are_valid_witness:
  "validate_row (sample_body ''x_id'') (sample_row ''v'' []) = Inr ()"
  using built_rows_are_valid [OF sample_built(1)] by blast

text \<open>
  C36: the independent row validation, exactly. It passes a row of a validated descriptor when the row names
  that descriptor, every required column has a cell under its identifier, and every key is either the
  identifier of a column whose type the cell has and whose cell validates, or the name of a column. Of a
  cell stored under a column's name it checks nothing, neither type nor value.
\<close>

theorem row_validation_exact:
  assumes "descriptor_validate d = Inr ()" "omap_ordered (row_cells row)"
  shows "validate_row d row = Inr () \<longleftrightarrow> row_descriptor_id row = rel_id d
    \<and> (\<forall>c \<in> set (rel_columns d). col_required c \<longrightarrow> col_id c \<in> fst ` set (row_cells row))
    \<and> (\<forall>(key, cell) \<in> set (row_cells row).
        (\<exists>c \<in> set (rel_columns d). key = col_id c \<and> cell_type cell = col_type c \<and> cell_validate cell = Inr ())
        \<or> key \<in> col_name ` set (rel_columns d))" (is "_ \<longleftrightarrow> ?id \<and> ?present \<and> ?keys")
proof -
  note columns = descriptor_validate_parts(5) [OF assms(1)]
  note found = validated_column_found [OF columns]
  have entry: "(key, cell) \<in> set (row_cells row) \<longleftrightarrow> map_of (row_cells row) key = Some cell" for key cell
    by (rule omap_entry_iff [OF assms(2)])
  have distinct: "c = e" if "c \<in> set (rel_columns d)" "e \<in> set (rel_columns d)" "col_id c = col_id e" for c e
    using validate_columns_ok(1) [OF columns] that by (auto simp: distinct_map inj_on_def)
  have known: "\<not> isl (descriptor_column d key) \<longleftrightarrow>
      key \<in> col_id ` set (rel_columns d) \<or> key \<in> col_name ` set (rel_columns d)" for key
  proof
    assume "\<not> isl (descriptor_column d key)"
    then obtain c where "descriptor_column d key = Inr c"
      by (cases "descriptor_column d key") auto
    then show "key \<in> col_id ` set (rel_columns d) \<or> key \<in> col_name ` set (rel_columns d)"
      using descriptor_column_member [of d key c] by blast
  qed (use found in auto)
  have "validate_row d row = Inr () \<longleftrightarrow> ?id \<and> (\<forall>c \<in> set (rel_columns d). validate_row_column row c = Inr ())
      \<and> (\<forall>(key, cell) \<in> set (row_cells row). \<not> isl (descriptor_column d key))"
    by (auto simp: validate_row_def first_error_unit refuse_if_ok each_ok simp del: first_error.simps)
  also have "(\<forall>c \<in> set (rel_columns d). validate_row_column row c = Inr ()) \<longleftrightarrow> ?present
      \<and> (\<forall>c \<in> set (rel_columns d). \<forall>cell. (col_id c, cell) \<in> set (row_cells row)
          \<longrightarrow> cell_type cell = col_type c \<and> cell_validate cell = Inr ())"
    unfolding validate_row_column_def entry
    by (auto simp: refuse_if_ok map_of_eq_None_iff split: option.splits if_splits dest: map_of_SomeD)
  finally have checks: "validate_row d row = Inr () \<longleftrightarrow> ?id \<and> (?present
      \<and> (\<forall>c \<in> set (rel_columns d). \<forall>cell. (col_id c, cell) \<in> set (row_cells row)
          \<longrightarrow> cell_type cell = col_type c \<and> cell_validate cell = Inr ()))
      \<and> (\<forall>(key, cell) \<in> set (row_cells row). \<not> isl (descriptor_column d key))" .
  have "(\<forall>c \<in> set (rel_columns d). \<forall>cell. (col_id c, cell) \<in> set (row_cells row)
          \<longrightarrow> cell_type cell = col_type c \<and> cell_validate cell = Inr ())
      \<and> (\<forall>(key, cell) \<in> set (row_cells row). \<not> isl (descriptor_column d key)) \<longleftrightarrow> ?keys" (is "?named \<longleftrightarrow> _")
  proof
    assume ?named
    then show ?keys unfolding known by fast
  next
    assume keys: ?keys
    have "cell_type cell = col_type c \<and> cell_validate cell = Inr ()"
      if c: "c \<in> set (rel_columns d)" and cell: "(col_id c, cell) \<in> set (row_cells row)" for c cell
      using bspec [OF keys cell] distinct [OF c] name_not_identifier [OF columns _ c] by fastforce
    moreover have "\<not> isl (descriptor_column d key)" if "(key, cell) \<in> set (row_cells row)" for key cell
      using bspec [OF keys that] unfolding known by auto
    ultimately show ?named by blast
  qed
  with checks show ?thesis by blast
qed

text \<open>A row with a valid set cell, and one whose unvalidated cell hides under the column's name.\<close>

definition hidden_row :: "bytes \<Rightarrow> bytes \<Rightarrow> detached_row" where
  "hidden_row bs hidden = (sample_row ''v'' bs)\<lparr>row_cells := row_cells (sample_row ''v'' bs) @ [(''s'', sample_set_cell hidden)]\<rparr>"

lemma row_validation_exact_witness:
  "validate_row (sample_descriptor ''x_id'') (hidden_row [] [0]) = Inr ()
    \<and> validate_row (sample_descriptor ''x_id'') (hidden_row [0] []) \<noteq> Inr ()"
proof -
  have d: "descriptor_validate (sample_descriptor ''x_id'') = Inr ()"
    by (rule sample_validates) simp
  have row: "omap_ordered (row_cells (hidden_row bs hidden))" for bs hidden
    unfolding hidden_row_def sample_row_def omap_ordered_def by simp
  have cells: "cell_validate (sample_set_cell []) = Inr ()" "cell_validate (sample_set_cell [0]) \<noteq> Inr ()"
    "cell_validate (cell_typed ''x_id'' ''v'') = Inr ()"
    by code_simp+
  show ?thesis
    using row_validation_exact [OF d row, of "[]" "[0]"] row_validation_exact [OF d row, of "[0]" "[]"] cells
    by (simp add: hidden_row_def sample_row_def sample_set_cell_def cell_typed_def sample_descriptor_def sample_body_def)
qed

section \<open>The text of a row\<close>

definition entry_encodable :: "string \<times> detached_cell \<Rightarrow> bool" where
  "entry_encodable = (\<lambda>(key, cell). utf8_text key \<and> encodable_cell cell)"

lemma entry_delimiting: "self_delimiting entry_encodable cell_entry_text"
  unfolding self_delimiting_def
proof (intro allI impI)
  fix p q :: "string \<times> detached_cell" and x y
  assume "entry_encodable p" "entry_encodable q" "cell_entry_text p @ x = cell_entry_text q @ y"
  then show "p = q \<and> x = y"
    unfolding entry_encodable_def cell_entry_text_def
    by (cases p; cases q)
      (simp only: prod.case append_assoc delimiters delimited_iff [OF cell_form_delimiting] same_append_eq prod.inject simp_thms)
qed

lemma entries_iff:
  assumes "list_all entry_encodable ps" "list_all entry_encodable qs"
  shows "comma_join (map cell_entry_text ps) @ ''}'' @ x = comma_join (map cell_entry_text qs) @ ''}'' @ y
    \<longleftrightarrow> ps = qs \<and> x = y"
proof -
  have start: "\<exists>s. cell_entry_text a = CHR 0x22 # s" for a
    by (cases a) (simp add: cell_entry_text_def quoted_def)
  have "self_delimiting (list_all entry_encodable) (\<lambda>as. [] @ comma_join (map cell_entry_text as) @ ''}'')"
    by (rule comma_list_delimiting [OF entry_delimiting start]) simp_all
  from delimited_iff [OF this assms, of x y] show ?thesis
    by (simp only: append_assoc append_Nil)
qed

lemma checked_row_encodable:
  assumes "descriptor_validate d = Inr ()" "types_utf8 d" "cells_checked d row"
  shows "list_all entry_encodable (row_cells row)" "utf8_text (row_descriptor_id row)"
proof -
  note parts = descriptor_validate_parts [OF assms(1)]
  show "list_all entry_encodable (row_cells row)"
    unfolding list_all_iff
  proof
    fix entry
    assume "entry \<in> set (row_cells row)"
    moreover obtain key cell where entry: "entry = (key, cell)" by (cases entry)
    ultimately obtain c where c: "cell_validate cell = Inr ()" "descriptor_column d key = Inr c"
      "cell_type cell = col_type c"
      using assms(3) by (auto simp: cells_checked_def)
    have "utf8_text key"
      using column_reference_utf8 [OF parts(5), of key] c(2) by simp
    moreover have "c \<in> set (rel_columns d)"
      using descriptor_column_member [OF c(2)] ..
    ultimately show "entry_encodable entry"
      using c assms(2) by (simp add: entry_encodable_def entry encodable_cell_def)
  qed
  have "descriptor_encodable d"
    using assms(1,2) by (rule validated_encodable)
  then show "utf8_text (row_descriptor_id row)"
    using assms(3) by (simp add: descriptor_encodable_def cells_checked_def)
qed

text \<open>
  C35: two rows finished by builders of validated descriptors have the same canonical text only if they
  are the same row.
\<close>

theorem row_text_determines_row:
  assumes "descriptor_validate d = Inr ()" "types_utf8 d" "descriptor_validate e = Inr ()" "types_utf8 e"
    "row_builder_finish (run_machine row_builder_set sets (row_builder_new d)) = Inr row"
    "row_builder_finish (run_machine row_builder_set other_sets (row_builder_new e)) = Inr other"
    "row_canonical_form row = row_canonical_form other"
  shows "row = other"
proof -
  note row = checked_row_encodable [OF assms(1,2) built_row_checked(1) [OF assms(5)]]
  note other = checked_row_encodable [OF assms(3,4) built_row_checked(1) [OF assms(6)]]
  show ?thesis
    using assms(7) row other
    unfolding row_canonical_form_def same_append_eq
    by (simp only: entries_iff delimiters simp_thms same_append_eq) simp
qed

lemma seal_finish: "row_builder_finish (run_machine row_builder_set sets (row_builder_new d)) = Inr row \<Longrightarrow>
    row_builder_finish (run_machine row_builder_set sets (row_builder_new (seal_descriptor d))) = Inr row"
proof -
  let ?seal = "\<lambda>b. b\<lparr>builder_descriptor := seal_descriptor (builder_descriptor b)\<rparr>"
  have step: "row_builder_set i (?seal b) = map_sum id ?seal (row_builder_set i b)" for i b
    by (cases i; cases "descriptor_column (builder_descriptor b) (cref_column_id (fst i))")
      (auto simp: row_builder_set_def Let_def and_then_def split: sum.splits)
  have run: "run_machine row_builder_set sets (?seal b) = ?seal (run_machine row_builder_set sets b)" for sets b
    by (induction sets arbitrary: b) (auto simp: step split: sum.splits)
  have "row_builder_new (seal_descriptor d) = ?seal (row_builder_new d)"
    by (simp add: row_builder_new_def)
  then show "row_builder_finish (run_machine row_builder_set sets (row_builder_new d)) = Inr row \<Longrightarrow>
    row_builder_finish (run_machine row_builder_set sets (row_builder_new (seal_descriptor d))) = Inr row"
    by (auto simp: run row_builder_finish_def and_then_Inr_iff validate_row_def)
qed

lemma row_text_determines_row_witness:
  "row_canonical_form (sample_row ''v'' []) \<noteq> row_canonical_form (sample_row ''w'' [])
    \<and> (\<exists>row. row_builder_finish (run_machine row_builder_set (sample_sets ''v'' []) (row_builder_new (sample_descriptor ''x_id'')))
          = Inr row
        \<and> row_builder_finish (run_machine row_builder_set (rev (sample_sets ''v'' [])) (row_builder_new (sample_descriptor ''x_id'')))
          = Inr row)"
proof -
  have valid: "descriptor_validate (sample_descriptor ''x_id'') = Inr ()"
    by (rule sample_validates) simp
  have "utf8_text ''x_id''"
    by code_simp
  then have "types_utf8 (sample_descriptor ''x_id'')"
    by (simp add: sample_descriptor_def sample_body_def)
  note exact = row_text_determines_row [OF valid this valid this
      sample_built(1) [THEN seal_finish, folded sample_descriptor_def]]
  have "row_builder_finish (run_machine row_builder_set (rev (sample_sets ''v'' [])) (row_builder_new (sample_body ''x_id'')))
      = Inr (sample_row ''v'' [])"
    by code_simp
  note reversed = this [THEN seal_finish, folded sample_descriptor_def]
  have "row_canonical_form (sample_row ''v'' []) \<noteq> row_canonical_form (sample_row ''w'' [])"
    using exact [OF sample_built(2) [THEN seal_finish, folded sample_descriptor_def]]
    by (auto simp: sample_row_def cell_typed_def)
  then show ?thesis
    using exact [OF reversed refl] reversed sample_built(1) [THEN seal_finish, folded sample_descriptor_def] by blast
qed

section \<open>What a domain identity commits to\<close>

text \<open>The bytes hashed into the identity, and what a row holds in a column.\<close>

definition identity_message :: "relation_descriptor \<Rightarrow> detached_row \<Rightarrow> bytes" where
  "identity_message d row = bytes_of (identity_domain (projr (identity_kind d)))
    @ append_canonical (from_tuple (projr (projected_values d row (dom_projection (rel_domain_identity d)))))"

definition cell_content :: "detached_row \<Rightarrow> string \<Rightarrow> scalar_value option" where
  "cell_content row column_id =
    (case map_of (row_cells row) column_id of None \<Rightarrow> None | Some cell \<Rightarrow> cell_value cell)"

lemma derive_ok:
  assumes "derive_domain_identity d row = Inr i"
  obtains kind vs where "identity_kind d = Inr kind"
    "projected_values d row (dom_projection (rel_domain_identity d)) = Inr vs"
    "canonical_binary (from_tuple vs) = Inr (append_canonical (from_tuple vs))"
    "i = kind @ '':'' @ content_digest (identity_message d row)"
  using assms
  by (fastforce simp: derive_domain_identity_def canonical_identity_digest_def identity_message_def
      canonical_binary_def and_then_Inr_iff split: if_splits sum.splits)

lemma projected_values_ok:
  "projected_values d row ids = Inr vs \<longleftrightarrow> list_all2 (\<lambda>i v. projected_value d row i = Inr v) ids vs"
  by (induction ids arbitrary: vs) (auto simp: and_then_Inr_iff list_all2_Cons1)

lemma projected_value_ok:
  assumes "projected_value d row p = Inr v"
  obtains (missing) "cell_content row p = None" "v = canonical_null"
  | (present) c cell w where "descriptor_column d p = Inr c" "cell_type cell = col_type c"
      "cell_value cell = Some w" "cell_content row p = Some w" "matches_scalar (vt_scalar (col_type c)) w"
      "identity_value cell p = Inr v" "cell_state cell = Present"
proof -
  obtain c where c: "descriptor_column d p = Inr c"
    using assms by (auto simp: projected_value_def and_then_Inr_iff)
  show thesis
  proof (cases "map_of (row_cells row) p")
    case None
    then show thesis
      using assms c missing by (simp add: projected_value_def cell_content_def split: if_splits)
  next
    case (Some cell)
    then have cell: "cell_type cell = col_type c" "cell_validate cell = Inr ()" "identity_value cell p = Inr v"
      using assms c by (auto simp: projected_value_def and_then_Inr_iff split: if_splits)
    show thesis
    proof (rule cell_validate_cases [OF cell(2)])
      fix w
      assume w: "cell_state cell = Present" "cell_value cell = Some w" "invalid_scalar_detail (cell_type cell) w = None"
      then show thesis
        using present [OF c cell(1) w(2) _ _ cell(3) w(1)] Some invalid_scalar_detail_None(2) [OF w(3)] cell(1)
        by (simp add: cell_content_def)
    next
      assume "cell_state cell = Absent" "cell_value cell = None"
      then show thesis
        using missing cell(3) Some by (simp add: cell_content_def identity_value_def)
    next
      assume "cell_state cell = Unknown"
      then show thesis using cell(3) by (simp add: identity_value_def)
    qed
  qed
qed

lemma identity_value_inject:
  assumes "cell_state a = Present" "cell_value a = Some v" "cell_state b = Present" "cell_value b = Some w"
    "matches_scalar k v" "matches_scalar k w" "identity_value a p = Inr x" "identity_value b p = Inr y"
  shows "x = y \<longleftrightarrow> v = w" and "x \<noteq> canonical_null"
proof -
  note defs = identity_value_def from_boolean_def from_integer_def from_string_def from_bytes_def canonical_null_def
  have "(x = y \<longleftrightarrow> v = w) \<and> x \<noteq> canonical_null"
    using assms(5,6)
    by (cases rule: matching_scalars) (use assms(1-4,7,8) in \<open>auto simp: defs split: if_splits\<close>)
  then show "x = y \<longleftrightarrow> v = w" "x \<noteq> canonical_null"
    by auto
qed

lemma projected_value_content:
  assumes "projected_value d row p = Inr v" "projected_value d other p = Inr w"
  shows "v = w \<longleftrightarrow> cell_content row p = cell_content other p"
  using assms(1)
proof (rule projected_value_ok)
  assume l: "cell_content row p = None" "v = canonical_null"
  show ?thesis
    using assms(2) by (rule projected_value_ok) (use l identity_value_inject(2) in force)+
next
  fix c cell x
  assume l: "descriptor_column d p = Inr c" "cell_value cell = Some x" "cell_content row p = Some x"
    "matches_scalar (vt_scalar (col_type c)) x" "identity_value cell p = Inr v" "cell_state cell = Present"
  show ?thesis
    using assms(2)
  proof (rule projected_value_ok)
    assume "cell_content other p = None" "w = canonical_null"
    then show ?thesis
      using l identity_value_inject(2) [OF l(6,2,6,2,4,4,5,5)] by simp
  next
    fix c' cell' y
    assume r: "descriptor_column d p = Inr c'" "cell_value cell' = Some y" "cell_content other p = Some y"
      "matches_scalar (vt_scalar (col_type c')) y" "identity_value cell' p = Inr w" "cell_state cell' = Present"
    then have "c' = c" using l(1) by simp
    then show ?thesis
      using identity_value_inject(1) [OF l(6,2) r(6,2) l(4) _ l(5) r(5)] r(3,4) l(3) by simp
  qed
qed

text \<open>
  C37: for two rows whose domain identity is derived, the identities are equal exactly when the rows hold
  the same values in the projected columns, as far as SHA-256 separates the two byte strings hashed
  (each shorter than the address space).
\<close>

theorem domain_identity_commits_to_projection:
  assumes "derive_domain_identity d row = Inr i" "derive_domain_identity d other = Inr j"
    and sha: "content_digest (identity_message d row) = content_digest (identity_message d other) \<longrightarrow>
      identity_message d row = identity_message d other"
    and memory: "length (identity_message d row) < 2 ^ 64"
  shows "i = j \<longleftrightarrow>
    (\<forall>p \<in> set (dom_projection (rel_domain_identity d)). cell_content row p = cell_content other p)"
proof -
  let ?ids = "dom_projection (rel_domain_identity d)"
  obtain kind vs where kind: "identity_kind d = Inr kind" and vs: "projected_values d row ?ids = Inr vs"
    "canonical_binary (from_tuple vs) = Inr (append_canonical (from_tuple vs))"
    "i = kind @ '':'' @ content_digest (identity_message d row)"
    by (rule derive_ok [OF assms(1)])
  obtain kind' ws where kind': "identity_kind d = Inr kind'" and ws: "projected_values d other ?ids = Inr ws"
    "canonical_binary (from_tuple ws) = Inr (append_canonical (from_tuple ws))"
    "j = kind' @ '':'' @ content_digest (identity_message d other)"
    by (rule derive_ok [OF assms(2)])
  have message: "identity_message d r = bytes_of (identity_domain kind) @ append_canonical (from_tuple xs)"
    if "projected_values d r ?ids = Inr xs" for r xs
    using that by (simp add: identity_message_def kind)
  have "i = j \<longleftrightarrow> identity_message d row = identity_message d other"
    using sha kind kind' vs(3) ws(3) by auto
  also have "\<dots> \<longleftrightarrow> append_canonical (from_tuple vs) = append_canonical (from_tuple ws)"
    by (simp add: message [OF vs(1)] message [OF ws(1)])
  also have "\<dots> \<longleftrightarrow> from_tuple vs = from_tuple ws"
    using canonical_binary_injective [of "from_tuple vs" "from_tuple ws" "append_canonical (from_tuple vs)"]
      vs(2) ws(2) memory message [OF vs(1)] by (cases "from_tuple vs = from_tuple ws") simp_all
  also have "\<dots> \<longleftrightarrow> vs = ws"
    by (simp add: from_tuple_def)
  also have "\<dots> \<longleftrightarrow> (\<forall>p \<in> set ?ids. cell_content row p = cell_content other p)"
  proof -
    have l: "list_all2 (\<lambda>p v. projected_value d row p = Inr v) ?ids vs"
      and r: "list_all2 (\<lambda>p v. projected_value d other p = Inr v) ?ids ws"
      using vs(1) ws(1) by (simp_all add: projected_values_ok)
    have "vs = ws \<longleftrightarrow> (\<forall>p \<in> set ids. cell_content row p = cell_content other p)"
      if "list_all2 (\<lambda>p v. projected_value d row p = Inr v) ids vs"
        "list_all2 (\<lambda>p v. projected_value d other p = Inr v) ids ws" for ids vs ws
      using that
    proof (induction ids arbitrary: vs ws)
      case Nil
      then show ?case by simp
    next
      case (Cons p ids)
      then obtain v vs' w ws' where "vs = v # vs'" "ws = w # ws'"
        and p: "projected_value d row p = Inr v" "projected_value d other p = Inr w"
        and rest: "list_all2 (\<lambda>p v. projected_value d row p = Inr v) ids vs'"
          "list_all2 (\<lambda>p v. projected_value d other p = Inr v) ids ws'"
        by (auto simp: list_all2_Cons1)
      then show ?case
        using projected_value_content [OF p] Cons.IH [OF rest] by simp
    qed
    from this [OF l r] show ?thesis .
  qed
  finally show ?thesis .
qed

lemma sample_identity:
  "projected_values (sample_body ''x_id'') (sample_row key []) [''a.b.v1.s''] = Inr [from_bytes []]"
  "identity_kind (sample_body ''x_id'') = Inr ''x''"
proof -
  have column: "descriptor_column (sample_body ''x_id'') ''a.b.v1.s'' = Inr (rel_columns (sample_body ''x_id'') ! 1)"
    and cell: "cell_validate (sample_set_cell []) = Inr ()"
    by code_simp+
  show "projected_values (sample_body ''x_id'') (sample_row key []) [''a.b.v1.s''] = Inr [from_bytes []]"
    by (simp add: projected_value_def column, simp add: sample_row_def sample_body_def cell)
      (simp add: sample_set_cell_def identity_value_def)
  show "identity_kind (sample_body ''x_id'') = Inr ''x''"
    by code_simp
qed

lemma domain_identity_commits_to_projection_witness:
  "\<exists>i. derive_domain_identity (sample_body ''x_id'') (sample_row ''v'' []) = Inr i
    \<and> derive_domain_identity (sample_body ''x_id'') (sample_row ''w'' []) = Inr i"
proof -
  have x: "utf8_text ''x''" by code_simp
  have tuple: "canonical_validate (from_tuple [from_bytes []]) = Inr ()"
    by (simp add: canonical_validate_items_ok_iff from_bytes_def kind_is_valid_def)
  have fields: "row_descriptor_id (sample_row key []) = rel_id (sample_body ''x_id'')"
    "dom_contract (rel_domain_identity (sample_body ''x_id'')) = ''canonical-binary-tuple-v1''"
    "dom_projection (rel_domain_identity (sample_body ''x_id'')) = [''a.b.v1.s'']" for key
    by (simp_all add: sample_row_def sample_body_def)
  have derive: "\<exists>i. derive_domain_identity (sample_body ''x_id'') (sample_row key []) = Inr i" for key
    unfolding derive_domain_identity_def fields sample_identity canonical_identity_digest_def
      canonical_binary_def and_then_simps tuple using x by simp
  have message: "identity_message (sample_body ''x_id'') (sample_row key [])
      = bytes_of (identity_domain ''x'') @ append_canonical (from_tuple [from_bytes []])" for key
    unfolding identity_message_def fields sample_identity by simp
  obtain i j where ij: "derive_domain_identity (sample_body ''x_id'') (sample_row ''v'' []) = Inr i"
    "derive_domain_identity (sample_body ''x_id'') (sample_row ''w'' []) = Inr j"
    using derive by blast
  have "length (identity_message (sample_body ''x_id'') (sample_row ''v'' [])) < 2 ^ 64"
    unfolding message by (simp add: identity_domain_def from_tuple_def from_bytes_def)
  moreover have "\<forall>p \<in> set (dom_projection (rel_domain_identity (sample_body ''x_id''))).
      cell_content (sample_row ''v'' []) p = cell_content (sample_row ''w'' []) p"
    by (simp add: sample_body_def cell_content_def sample_row_def)
  ultimately have "i = j"
    using domain_identity_commits_to_projection [OF ij] message by simp
  then show ?thesis
    using ij by blast
qed

end
