(* ===== verification/Relation_Registry.thy ===== *)
theory Relation_Registry
  imports Relation_Descriptor Ordered_Map
begin

text \<open>
  \<open>relation_registry\<close> and \<open>relation_engine\<close> of \<open>src/sdk/relation.cpp\<close>: adding descriptors, and
  building an immutable engine from them after the references have been resolved and the depth-first
  search over hard references has found no cycle. The search is shown to be a decision procedure for
  acyclicity, and \<open>build\<close> to succeed exactly when the registry is coherent.
\<close>

section \<open>State and simple operations\<close>

text \<open>
  The descriptors by name, and the shared flag, which is null in a moved-from registry. The flag is
  shared by the copies of a registry; the model follows one of them.
\<close>

record relation_registry =
  reg_descriptors :: "(string, relation_descriptor) omap"
  reg_frozen_flag :: "bool option"

definition registry_new :: relation_registry where
  "registry_new = \<lparr>reg_descriptors = [], reg_frozen_flag = Some False\<rparr>"

definition registry_frozen :: "relation_registry \<Rightarrow> bool" where
  "registry_frozen r = (case reg_frozen_flag r of None \<Rightarrow> True | Some frozen \<Rightarrow> frozen)"

definition registry_add :: "relation_descriptor \<Rightarrow> relation_registry \<Rightarrow> relation_registry result" where
  "registry_add descriptor r =
    (if registry_frozen r then Inl (Err ''sdk.registry-frozen'' (rel_name descriptor) [])
     else if rel_descriptor_digest descriptor = [] \<and> rel_contract_canonical descriptor \<noteq> []
     then Inl (Err ''sdk.descriptor-digest-mismatch'' ''descriptor_digest'' [])
     else
      (let d = (if rel_descriptor_digest descriptor = [] then seal_descriptor descriptor else descriptor)
       in and_then (descriptor_validate d) (\<lambda>_.
            case map_of (reg_descriptors r) (rel_name d) of
              Some found \<Rightarrow>
                if found = d then Inl (Err ''sdk.duplicate-descriptor'' (rel_name d) [])
                else Inl (Err ''sdk.descriptor-conflict'' (rel_name d) (rel_id found))
            | None \<Rightarrow> Inr (r\<lparr>reg_descriptors := omap_emplace (rel_name d) d (reg_descriptors r)\<rparr>))))"

definition registry_require :: "relation_registry \<Rightarrow> string \<Rightarrow> u32 \<Rightarrow> relation_descriptor result" where
  "registry_require r name semantic_major =
    (case map_of (reg_descriptors r) name of
       None \<Rightarrow> Inl (Err ''sdk.relation-not-found'' name [])
     | Some d \<Rightarrow>
         if rel_semantic_major d \<noteq> semantic_major
         then Inl (Err ''sdk.relation-major-mismatch'' name (decimal (unat (rel_semantic_major d))))
         else Inr d)"

definition registry_descriptors :: "relation_registry \<Rightarrow> relation_descriptor list" where
  "registry_descriptors r = map snd (reg_descriptors r)"

record relation_engine =
  eng_descriptors :: "(string, relation_descriptor) omap"
  eng_registry_digest :: string
  eng_generation :: string

definition engine_require :: "relation_engine \<Rightarrow> string \<Rightarrow> u32 \<Rightarrow> relation_descriptor result" where
  "engine_require e name semantic_major =
    (case map_of (eng_descriptors e) name of
       None \<Rightarrow> Inl (Err ''sdk.relation-not-found'' name [])
     | Some d \<Rightarrow>
         if rel_semantic_major d \<noteq> semantic_major then Inl (Err ''sdk.relation-major-mismatch'' name [])
         else Inr d)"

definition engine_require_id :: "relation_engine \<Rightarrow> string \<Rightarrow> relation_descriptor result" where
  "engine_require_id e descriptor_id =
    (case find (\<lambda>(name, d). rel_id d = descriptor_id) (eng_descriptors e) of
       Some (name, d) \<Rightarrow> Inr d
     | None \<Rightarrow> Inl (Err ''sdk.relation-not-found'' descriptor_id []))"

definition engine_descriptors :: "relation_engine \<Rightarrow> relation_descriptor list" where
  "engine_descriptors e = map snd (eng_descriptors e)"

section \<open>References\<close>

definition container_target_type_matches :: "value_type \<Rightarrow> value_type \<Rightarrow> bool" where
  "container_target_type_matches source target =
    (vt_scalar source = Kind_Set \<and> \<not> vt_optional target
     \<and> (if vt_scalar target = Kind_Typed_Id then vt_parameter target = vt_parameter source
        else canonical_name target = vt_parameter source))"

definition reference_column_bad ::
  "relation_descriptor \<Rightarrow> relation_descriptor \<Rightarrow> bool \<Rightarrow> string \<times> string \<Rightarrow> bool" where
  "reference_column_bad d target container = (\<lambda>(source_id, target_id).
    case (descriptor_column d source_id, descriptor_column target target_id) of
      (Inr source_column, Inr target_column) \<Rightarrow>
        if container then \<not> container_target_type_matches (col_type source_column) (col_type target_column)
        else vt_scalar (col_type source_column) \<noteq> vt_scalar (col_type target_column)
          \<or> vt_parameter (col_type source_column) \<noteq> vt_parameter (col_type target_column)
    | _ \<Rightarrow> True)"

text \<open>
  The columns are compared index by index; a validated reference has equally many on both sides.
\<close>

definition check_reference ::
  "(string, relation_descriptor) omap \<Rightarrow> string \<Rightarrow> relation_descriptor \<Rightarrow> relation_reference \<Rightarrow> unit result" where
  "check_reference m name d r =
    (case map_of m (ref_target_relation r) of
       None \<Rightarrow> refuse_if (ref_strength r = Hard)
         ''sdk.registry-reference-missing'' name (ref_target_relation r)
     | Some target \<Rightarrow>
         each (\<lambda>columns. refuse_if (reference_column_bad d target (ref_container_elements r) columns)
             ''sdk.reference-invalid'' name (ref_target_relation r))
           (zip (ref_source_columns r) (ref_target_columns r)))"

definition check_references :: "(string, relation_descriptor) omap \<Rightarrow> unit result" where
  "check_references m = each (\<lambda>(name, d). each (check_reference m name d) (rel_references d)) m"

section \<open>The search for hard cycles\<close>

datatype visit_state = Unvisited | Visiting | Visited

definition hard_targets :: "(string, relation_descriptor) omap \<Rightarrow> relation_descriptor \<Rightarrow> string list" where
  "hard_targets m d = map ref_target_relation
    (filter (\<lambda>r. ref_strength r = Hard \<and> map_of m (ref_target_relation r) \<noteq> None) (rel_references d))"

text \<open>
  The recursive lambda \<open>visit\<close>, applied to the names of a list one after the other: the hard targets
  of a relation, or all relations. The states are those of the captured map; \<open>descriptors_.at\<close> throws
  for a name that is not there, which the callers exclude.
\<close>

definition unvisited :: "(string, relation_descriptor) omap \<Rightarrow> (string \<Rightarrow> visit_state) \<Rightarrow> nat" where
  "unvisited m states = length (filter (\<lambda>n. states n = Unvisited) (map fst m))"

function visit_all :: "(string, relation_descriptor) omap \<Rightarrow> string list \<Rightarrow> (string \<Rightarrow> visit_state) \<Rightarrow>
    (string \<Rightarrow> visit_state) result" where
  "visit_all m [] states = Inr states"
| "visit_all m (name # names) states =
    (if states name = Visiting then Inl (Err ''sdk.hard-reference-cycle'' name [])
     else if states name = Visited then visit_all m names states
     else case map_of m name of
         None \<Rightarrow> Inl (Err ''std::out_of_range'' name [])
       | Some d \<Rightarrow>
           (case visit_all m (hard_targets m d) (states(name := Visiting)) of
              Inl e \<Rightarrow> Inl e
            | Inr states' \<Rightarrow> visit_all m names (states'(name := Visited))))"
  by pat_completeness auto

lemma unvisited_mono: "(\<And>n. t n = Unvisited \<Longrightarrow> s n = Unvisited) \<Longrightarrow> unvisited m t \<le> unvisited m s"
  unfolding unvisited_def by (induction m) auto

lemma unvisited_visit:
  assumes "map_of m name = Some d" "states name = Unvisited"
  shows "unvisited m (states(name := Visiting)) < unvisited m states"
proof -
  have "name \<in> set (map fst m)"
    using assms(1) by (force dest: map_of_SomeD)
  moreover have "length (filter (\<lambda>n. (states(name := Visiting)) n = Unvisited) ns)
      < length (filter (\<lambda>n. states n = Unvisited) ns)" if "name \<in> set ns" for ns
    using that
  proof (induction ns)
    case (Cons n ns)
    have "length (filter (\<lambda>n. (states(name := Visiting)) n = Unvisited) ns)
        \<le> length (filter (\<lambda>n. states n = Unvisited) ns)"
      by (induction ns) auto
    then show ?case using Cons assms(2) by (cases "n = name") auto
  qed simp
  ultimately show ?thesis
    unfolding unvisited_def by blast
qed

lemma visit_all_unvisited:
  "visit_all_dom (m, names, states) \<Longrightarrow> visit_all m names states = Inr t \<Longrightarrow>
    t n = Unvisited \<Longrightarrow> states n = Unvisited"
proof (induction m names states arbitrary: t n rule: visit_all.pinduct)
  case (1 m states)
  then show ?case by (simp add: visit_all.psimps)
next
  case (2 m name names states)
  show ?case
  proof (cases "states name")
    case Unvisited
    then obtain d states' where d: "map_of m name = Some d"
      and inner: "visit_all m (hard_targets m d) (states(name := Visiting)) = Inr states'"
      and rest: "visit_all m names (states'(name := Visited)) = Inr t"
      using 2 by (auto simp: visit_all.psimps split: option.splits sum.splits)
    have "(states'(name := Visited)) n = Unvisited"
      using 2(4) [OF _ _ d inner rest] 2(6) Unvisited by auto
    then have "states' n = Unvisited" "n \<noteq> name"
      by (auto split: if_splits)
    then have "(states(name := Visiting)) n = Unvisited"
      using 2(3) [OF _ _ d inner \<open>states' n = Unvisited\<close>] Unvisited by simp
    then show ?thesis using \<open>n \<noteq> name\<close> by simp
  next
    case Visiting
    then show ?thesis using 2 by (simp add: visit_all.psimps)
  next
    case Visited
    then show ?thesis using 2 by (simp add: visit_all.psimps)
  qed
qed

termination visit_all
proof (relation "inv_image (less_than <*lex*> less_than) (\<lambda>(m, names, states). (unvisited m states, length names))",
    goal_cases)
  case 1
  then show ?case by auto
next
  case (2 m name names states)
  then show ?case by simp
next
  case (3 m name names states d)
  then have "states name = Unvisited" by (cases "states name") simp_all
  then show ?case using unvisited_visit [of m name d states] 3(3) by simp
next
  case (4 m name names states d states')
  then have u: "states name = Unvisited" by (cases "states name") simp_all
  have "unvisited m (states'(name := Visited)) \<le> unvisited m (states(name := Visiting))"
  proof (rule unvisited_mono)
    fix n
    assume "(states'(name := Visited)) n = Unvisited"
    then have "states' n = Unvisited"
      by (simp split: if_splits)
    then show "(states(name := Visiting)) n = Unvisited"
      by (rule visit_all_unvisited [OF 4(5,4)])
  qed
  then show ?case using unvisited_visit [of m name d states, OF 4(3) u] by simp
qed

declare visit_all.simps(2) [simp del]

section \<open>Building an engine\<close>

definition registry_inventory :: "(string, relation_descriptor) omap \<Rightarrow> (string \<times> string) list" where
  "registry_inventory m = sort_key fst (map (\<lambda>(name, d). (rel_id d, rel_descriptor_digest d)) m)"

fun check_inventory :: "(string \<times> string) list \<Rightarrow> unit result" where
  "check_inventory ((first_id, first_digest) # (second_id, second_digest) # rest) =
    (if first_id = second_id then Inl (Err ''sdk.duplicate-descriptor'' second_id [])
     else check_inventory ((second_id, second_digest) # rest))"
| "check_inventory short = Inr ()"

definition inventory_text :: "(string \<times> string) list \<Rightarrow> string" where
  "inventory_text inventory = concat (map (\<lambda>(descriptor_id, digest). descriptor_id @ ''='' @ digest @ [CHR 0x0a]) inventory)"

text \<open>\<open>build\<close> returns the engine and freezes the registry; the digest is dereferenced unchecked.\<close>

definition registry_build :: "string \<Rightarrow> relation_registry \<Rightarrow> (relation_engine \<times> relation_registry) result" where
  "registry_build generation r =
    (let m = reg_descriptors r; inventory = registry_inventory m
     in if registry_frozen r then Inl (Err ''sdk.registry-frozen'' ''registry'' [])
        else if generation = [] then Inl (Err ''sdk.engine-generation-invalid'' ''generation'' [])
        else if m = [] then Inl (Err ''sdk.registry-empty'' ''registry'' [])
        else and_then (check_inventory inventory) (\<lambda>_.
          and_then (check_references m) (\<lambda>_.
            and_then (visit_all m (map fst m) (\<lambda>name. Unvisited)) (\<lambda>_.
              Inr (\<lparr>eng_descriptors = m,
                    eng_registry_digest = projr (semantic_digest ''cxxlens.relation-registry.v1'' (inventory_text inventory)),
                    eng_generation = generation\<rparr>,
                   r\<lparr>reg_frozen_flag := Some True\<rparr>)))))"

section \<open>The search decides acyclicity\<close>

definition hard_edges :: "(string, relation_descriptor) omap \<Rightarrow> (string \<times> string) set" where
  "hard_edges m = {(a, b). \<exists>d. map_of m a = Some d \<and> b \<in> set (hard_targets m d)}"

lemma visit_unvisited:
  assumes "visit_all m (name # names) states = Inr t" "states name = Unvisited"
  obtains d states' where "map_of m name = Some d"
    "visit_all m (hard_targets m d) (states(name := Visiting)) = Inr states'"
    "visit_all m names (states'(name := Visited)) = Inr t"
  using assms by (auto simp: visit_all.simps(2) split: option.splits sum.splits)

lemma visiting_preserved: "visit_all m names states = Inr t \<Longrightarrow> t n = Visiting \<longleftrightarrow> states n = Visiting"
proof (induction m names states arbitrary: t n rule: visit_all.induct)
  case (1 m states)
  then show ?case by simp
next
  case (2 m name names states)
  show ?case
  proof (cases "states name")
    case Unvisited
    show ?thesis
    proof (rule visit_unvisited [OF "2.prems" Unvisited])
      fix d states'
      assume d: "map_of m name = Some d"
        and inner: "visit_all m (hard_targets m d) (states(name := Visiting)) = Inr states'"
        and rest: "visit_all m names (states'(name := Visited)) = Inr t"
      have "t n = Visiting \<longleftrightarrow> (states'(name := Visited)) n = Visiting"
        using 2(3) [OF _ _ d inner rest] Unvisited by simp
      moreover have "states' n = Visiting \<longleftrightarrow> (states(name := Visiting)) n = Visiting"
        using 2(2) [OF _ _ d inner] Unvisited by simp
      ultimately show ?thesis using Unvisited by auto
    qed
  next
    case Visiting
    then show ?thesis using "2.prems" by (simp add: visit_all.simps(2))
  next
    case Visited
    then have "visit_all m names states = Inr t"
      using "2.prems" by (simp add: visit_all.simps(2))
    then show ?thesis using 2(1) Visited by simp
  qed
qed

text \<open>What holds of the visited relations: their hard targets are visited, and none is on a cycle.\<close>

definition settled :: "(string, relation_descriptor) omap \<Rightarrow> (string \<Rightarrow> visit_state) \<Rightarrow> bool" where
  "settled m states = (\<forall>a. states a = Visited \<longrightarrow>
    (\<forall>b. (a, b) \<in> hard_edges m \<longrightarrow> states b = Visited) \<and> (a, a) \<notin> (hard_edges m)\<^sup>+)"

lemma settled_closed:
  assumes "settled m states" "states a = Visited" "(a, b) \<in> (hard_edges m)\<^sup>*"
  shows "states b = Visited"
  using assms(3,2) by (induction rule: rtrancl_induct) (use assms(1) in \<open>auto simp: settled_def\<close>)

lemma visit_all_sound:
  "visit_all m names states = Inr t \<Longrightarrow> settled m states \<Longrightarrow>
    settled m t \<and> (\<forall>n \<in> set names. t n = Visited) \<and> (\<forall>n. states n = Visited \<longrightarrow> t n = Visited)"
proof (induction m names states arbitrary: t rule: visit_all.induct)
  case (1 m states)
  then show ?case by simp
next
  case (2 m name names states)
  show ?case
  proof (cases "states name")
    case Unvisited
    show ?thesis
    proof (rule visit_unvisited [OF "2.prems"(1) Unvisited])
      fix d states'
      assume d: "map_of m name = Some d"
        and inner: "visit_all m (hard_targets m d) (states(name := Visiting)) = Inr states'"
        and rest: "visit_all m names (states'(name := Visited)) = Inr t"
      have "settled m (states(name := Visiting))"
        using "2.prems"(2) Unvisited unfolding settled_def by (metis fun_upd_other fun_upd_same visit_state.distinct(1,3,5))
      then have s': "settled m states'" "\<forall>n \<in> set (hard_targets m d). states' n = Visited"
        "\<forall>n. (states(name := Visiting)) n = Visited \<longrightarrow> states' n = Visited"
        using 2(2) [OF _ _ d inner] Unvisited by (simp_all del: fun_upd_apply)
      have grey: "states' name = Visiting"
        using visiting_preserved [OF inner, of name] by simp
      have edges: "(name, b) \<in> hard_edges m \<longleftrightarrow> b \<in> set (hard_targets m d)" for b
        by (simp add: hard_edges_def d)
      have "(name, name) \<notin> (hard_edges m)\<^sup>+"
      proof
        assume "(name, name) \<in> (hard_edges m)\<^sup>+"
        then obtain b where "(name, b) \<in> hard_edges m" "(b, name) \<in> (hard_edges m)\<^sup>*"
          by (metis tranclD)
        then have "states' name = Visited"
          using settled_closed [OF s'(1)] s'(2) edges by blast
        then show False using grey by simp
      qed
      then have "settled m (states'(name := Visited))"
        using s'(1,2) edges unfolding settled_def by simp
      then have "settled m t \<and> (\<forall>n \<in> set names. t n = Visited) \<and> (\<forall>n. (states'(name := Visited)) n = Visited \<longrightarrow> t n = Visited)"
        using 2(3) [OF _ _ d inner rest] Unvisited by (simp del: fun_upd_apply)
      then show ?thesis
        using s'(3) Unvisited by (auto split: if_splits)
    qed
  next
    case Visiting
    then show ?thesis using 2 by (simp add: visit_all.simps(2))
  next
    case Visited
    then have "visit_all m names states = Inr t"
      using "2.prems"(1) by (simp add: visit_all.simps(2))
    then show ?thesis using 2(1) Visited "2.prems"(2) by auto
  qed
qed

lemma visit_all_complete:
  "acyclic (hard_edges m) \<Longrightarrow> (\<forall>g. states g = Visiting \<longrightarrow> (\<forall>n \<in> set names. (g, n) \<in> (hard_edges m)\<^sup>+)) \<Longrightarrow>
    (\<forall>n \<in> set names. map_of m n \<noteq> None) \<Longrightarrow> \<exists>t. visit_all m names states = Inr t"
proof (induction m names states rule: visit_all.induct)
  case (1 m states)
  then show ?case by simp
next
  case (2 m name names states)
  obtain d where d: "map_of m name = Some d"
    using "2.prems"(3) by auto
  show ?case
  proof (cases "states name")
    case Unvisited
    have edges: "(name, n) \<in> hard_edges m" if "n \<in> set (hard_targets m d)" for n
      using that d by (auto simp: hard_edges_def)
    have "\<exists>s. visit_all m (hard_targets m d) (states(name := Visiting)) = Inr s"
    proof (rule 2(2) [OF _ _ d "2.prems"(1)])
      show "\<forall>g. (states(name := Visiting)) g = Visiting \<longrightarrow> (\<forall>n \<in> set (hard_targets m d). (g, n) \<in> (hard_edges m)\<^sup>+)"
        using "2.prems"(2) edges by (auto intro: trancl_into_trancl)
      show "\<forall>n \<in> set (hard_targets m d). map_of m n \<noteq> None"
        by (auto simp: hard_targets_def)
    qed (use Unvisited in simp_all)
    then obtain s where inner: "visit_all m (hard_targets m d) (states(name := Visiting)) = Inr s" ..
    have "\<exists>t. visit_all m names (s(name := Visited)) = Inr t"
    proof (rule 2(3) [OF _ _ d inner "2.prems"(1)])
      show "\<forall>g. (s(name := Visited)) g = Visiting \<longrightarrow> (\<forall>n \<in> set names. (g, n) \<in> (hard_edges m)\<^sup>+)"
        using "2.prems"(2) visiting_preserved [OF inner] by (auto split: if_splits)
    qed (use Unvisited "2.prems"(3) in simp_all)
    then show ?thesis
      using Unvisited d inner by (auto simp: visit_all.simps(2))
  next
    case Visiting
    then show ?thesis using "2.prems"(1,2) by (auto simp: acyclic_def)
  next
    case Visited
    then show ?thesis using 2 by (simp add: visit_all.simps(2))
  qed
qed

lemma hard_edges_domain: "(a, b) \<in> hard_edges m \<Longrightarrow> a \<in> set (map fst m)"
  by (force simp: hard_edges_def dest: map_of_SomeD)

text \<open>
  The search over all relations succeeds exactly when the hard references have no cycle, for
  every map of descriptors.
\<close>

lemma cycle_search_exact:
  "(\<exists>t. visit_all m (map fst m) (\<lambda>name. Unvisited) = Inr t) \<longleftrightarrow> acyclic (hard_edges m)"
proof
  assume "\<exists>t. visit_all m (map fst m) (\<lambda>name. Unvisited) = Inr t"
  then obtain t where "visit_all m (map fst m) (\<lambda>name. Unvisited) = Inr t" ..
  then have t: "settled m t" "\<forall>n \<in> set (map fst m). t n = Visited"
    using visit_all_sound [of m "map fst m" "\<lambda>name. Unvisited" t] by (simp_all add: settled_def [of m "\<lambda>name. Unvisited"])
  have "(a, a) \<notin> (hard_edges m)\<^sup>+" for a
  proof
    assume cycle: "(a, a) \<in> (hard_edges m)\<^sup>+"
    then obtain b where "(a, b) \<in> hard_edges m"
      by (metis tranclD)
    then have "t a = Visited"
      using hard_edges_domain t(2) by blast
    then show False
      using t(1) cycle by (simp add: settled_def)
  qed
  then show "acyclic (hard_edges m)"
    by (simp add: acyclic_def)
next
  assume "acyclic (hard_edges m)"
  then show "\<exists>t. visit_all m (map fst m) (\<lambda>name. Unvisited) = Inr t"
    by (rule visit_all_complete) (auto simp: map_of_eq_None_iff)
qed

section \<open>The registry's invariant\<close>

text \<open>Descriptors are valid and stored under their own name.\<close>

definition registry_ok :: "relation_registry \<Rightarrow> bool" where
  "registry_ok r = (omap_ordered (reg_descriptors r)
    \<and> (\<forall>(name, d) \<in> set (reg_descriptors r). rel_name d = name \<and> descriptor_validate d = Inr ()))"

datatype registry_call = Add_Descriptor relation_descriptor | Build_Engine string

definition registry_step :: "registry_call \<Rightarrow> relation_registry \<Rightarrow> relation_registry result" where
  "registry_step call r =
    (case call of
       Add_Descriptor d \<Rightarrow> registry_add d r
     | Build_Engine generation \<Rightarrow> and_then (registry_build generation r) (\<lambda>(engine, r'). Inr r'))"

lemma registry_add_ok:
  assumes "registry_add descriptor r = Inr r'"
  obtains d where "descriptor_validate d = Inr ()" "map_of (reg_descriptors r) (rel_name d) = None"
    "r' = r\<lparr>reg_descriptors := omap_emplace (rel_name d) d (reg_descriptors r)\<rparr>" "\<not> registry_frozen r"
  using assms by (auto simp: registry_add_def Let_def and_then_Inr_iff split: if_splits option.splits)

lemma registry_build_ok:
  assumes "registry_build generation r = Inr (engine, r')"
  shows "r' = r\<lparr>reg_frozen_flag := Some True\<rparr>" "eng_descriptors engine = reg_descriptors r"
    "eng_generation engine = generation" "\<not> registry_frozen r"
  using assms by (auto simp: registry_build_def Let_def and_then_Inr_iff split: if_splits)

lemma registry_ok_iff: "registry_ok r \<longleftrightarrow> omap_ordered (reg_descriptors r)
    \<and> (\<forall>name d. map_of (reg_descriptors r) name = Some d \<longrightarrow> rel_name d = name \<and> descriptor_validate d = Inr ())"
  unfolding registry_ok_def by (intro conj_cong refl omap_ball)

interpretation registry: guarded_machine registry_step registry_ok
proof
  fix r r' call
  assume ok: "registry_ok r" and step: "registry_step call r = Inr r'"
  then have ordered: "omap_ordered (reg_descriptors r)"
    by (simp add: registry_ok_def)
  show "registry_ok r'"
  proof (cases call)
    case (Add_Descriptor descriptor)
    then have "registry_add descriptor r = Inr r'"
      using step by (simp add: registry_step_def)
    then show ?thesis
    proof (rule registry_add_ok)
      fix d
      assume "descriptor_validate d = Inr ()" "r' = r\<lparr>reg_descriptors := omap_emplace (rel_name d) d (reg_descriptors r)\<rparr>"
      then show ?thesis
        using ok ordered_map.emplace_cases [OF ordered] ordered_map.emplace_well_formed [OF ordered]
        by (simp add: registry_ok_iff) blast
    qed
  next
    case (Build_Engine generation)
    then obtain engine where "registry_build generation r = Inr (engine, r')"
      using step by (auto simp: registry_step_def and_then_Inr_iff)
    from registry_build_ok(1) [OF this] show ?thesis
      using ok by (simp add: registry_ok_def)
  qed
qed

lemma registry_new_ok: "registry_ok registry_new"
  by (simp add: registry_ok_def registry_new_def omap_ordered_def)

lemma reachable_ok: "registry_ok (run_machine registry_step calls registry_new)"
  by (rule registry.run_inv [OF registry_new_ok])

section \<open>When build succeeds\<close>

lemma validated_id_name:
  assumes "descriptor_validate d = Inr ()" "descriptor_validate e = Inr ()" "rel_id d = rel_id e"
  shows "rel_name d = rel_name e"
proof -
  note d = validated_header(3) [OF descriptor_validate_parts(3) [OF assms(1)]]
    and e = validated_header(3) [OF descriptor_validate_parts(3) [OF assms(2)]]
  have eq: "rev (''v'' @ decimal (unat (rel_semantic_major d))) @ CHR ''.'' # rev (rel_name d)
      = rev (''v'' @ decimal (unat (rel_semantic_major e))) @ CHR ''.'' # rev (rel_name e)"
    using arg_cong [OF assms(3), of rev] unfolding d e by simp
  have "rev (rel_name d) = rev (rel_name e)"
    using split_at_delimiter [OF _ _ eq] decimal_no_punctuation(2) by simp
  then show ?thesis by simp
qed

lemma check_inventory_iff: "check_inventory inventory = Inr () \<longleftrightarrow> distinct_adj (map fst inventory)"
  by (induction inventory rule: check_inventory.induct) auto

lemma registry_ids_distinct:
  assumes "registry_ok r"
  shows "check_inventory (registry_inventory (reg_descriptors r)) = Inr ()"
proof -
  let ?m = "reg_descriptors r"
  have "inj_on (\<lambda>(name, d). rel_id d) (set ?m)"
  proof (rule inj_onI)
    fix p q
    assume p: "p \<in> set ?m" and q: "q \<in> set ?m" and eq: "(case p of (name, d) \<Rightarrow> rel_id d) = (case q of (name, d) \<Rightarrow> rel_id d)"
    obtain n d where nd: "p = (n, d)" by (cases p)
    obtain k e where ke: "q = (k, e)" by (cases q)
    have ordered: "omap_ordered ?m" using assms by (simp add: registry_ok_def)
    have found: "map_of ?m n = Some d" "map_of ?m k = Some e"
      using p q unfolding nd ke omap_entry_iff [OF ordered] .
    have "rel_name d = n" "rel_name e = k" "descriptor_validate d = Inr ()" "descriptor_validate e = Inr ()"
      using assms found by (simp_all add: registry_ok_iff)
    moreover from this have "rel_name d = rel_name e"
      using eq by (intro validated_id_name) (simp_all add: nd ke)
    ultimately show "p = q"
      using found by (simp add: nd ke)
  qed
  moreover have "distinct ?m"
    using assms omap_ordered_distinct [of ?m] by (simp add: registry_ok_def distinct_map)
  ultimately have "distinct (map (\<lambda>(name, d). rel_id d) ?m)"
    by (simp add: distinct_map)
  then have "distinct (map fst (map (\<lambda>(name, d). (rel_id d, rel_descriptor_digest d)) ?m))"
    by (simp add: comp_def case_prod_unfold)
  then have "distinct (map fst (registry_inventory ?m))"
    unfolding registry_inventory_def by (simp only: distinct_map distinct_sort set_sort)
  moreover have "distinct ys \<Longrightarrow> distinct_adj ys" for ys :: "string list"
    by (induction ys) (auto simp: distinct_adj_Cons)
  ultimately show ?thesis
    unfolding check_inventory_iff by blast
qed

text \<open>Hard references have a target, and present targets have columns of matching types.\<close>

definition references_resolve :: "(string, relation_descriptor) omap \<Rightarrow> bool" where
  "references_resolve m = (\<forall>(name, d) \<in> set m. \<forall>r \<in> set (rel_references d).
    case map_of m (ref_target_relation r) of
      None \<Rightarrow> ref_strength r \<noteq> Hard
    | Some target \<Rightarrow> \<forall>(s, t) \<in> set (zip (ref_source_columns r) (ref_target_columns r)).
        \<exists>source_column target_column. descriptor_column d s = Inr source_column
          \<and> descriptor_column target t = Inr target_column
          \<and> (if ref_container_elements r
             then container_target_type_matches (col_type source_column) (col_type target_column)
             else vt_scalar (col_type source_column) = vt_scalar (col_type target_column)
               \<and> vt_parameter (col_type source_column) = vt_parameter (col_type target_column)))"

lemma reference_column_good: "\<not> reference_column_bad d target container (s, t) \<longleftrightarrow>
    (\<exists>source_column target_column. descriptor_column d s = Inr source_column
      \<and> descriptor_column target t = Inr target_column
      \<and> (if container then container_target_type_matches (col_type source_column) (col_type target_column)
         else vt_scalar (col_type source_column) = vt_scalar (col_type target_column)
           \<and> vt_parameter (col_type source_column) = vt_parameter (col_type target_column)))"
  by (cases "descriptor_column d s"; cases "descriptor_column target t") (auto simp: reference_column_bad_def)

lemma check_references_iff: "check_references m = Inr () \<longleftrightarrow> references_resolve m"
proof -
  have one: "check_reference m name d r = Inr () \<longleftrightarrow>
    (case map_of m (ref_target_relation r) of
      None \<Rightarrow> ref_strength r \<noteq> Hard
    | Some target \<Rightarrow> \<forall>(s, t) \<in> set (zip (ref_source_columns r) (ref_target_columns r)).
        \<not> reference_column_bad d target (ref_container_elements r) (s, t))" for name d r
    by (auto simp: check_reference_def refuse_if_ok each_ok split: option.splits)
  show ?thesis
    unfolding check_references_def references_resolve_def reference_column_good [symmetric] each_ok
    by (intro ball_cong refl) (fastforce simp: one each_ok split: option.splits)
qed

text \<open>
  C38: in every state a registry can reach, \<open>build\<close> succeeds exactly when the registry is not frozen, the
  generation and the registry are not empty, every reference resolves, and the hard references have no
  cycle.
\<close>

theorem registry_build_exact:
  "let r = run_machine registry_step calls registry_new; m = reg_descriptors r
   in (\<exists>engine frozen. registry_build generation r = Inr (engine, frozen)) \<longleftrightarrow>
     \<not> registry_frozen r \<and> generation \<noteq> [] \<and> m \<noteq> [] \<and> references_resolve m \<and> acyclic (hard_edges m)"
proof -
  let ?r = "run_machine registry_step calls registry_new"
  have refs: "check_references (reg_descriptors ?r) = Inr u \<longleftrightarrow> references_resolve (reg_descriptors ?r)" for u
    by (simp add: check_references_iff)
  show ?thesis
    using registry_ids_distinct [OF reachable_ok, of calls] cycle_search_exact [of "reg_descriptors ?r"]
    by (auto simp: registry_build_def Let_def and_then_Inr_iff refs)
qed

section \<open>After build\<close>

lemma frozen_step: "registry_frozen r \<Longrightarrow> \<exists>e. registry_step call r = Inl e"
  by (cases call) (simp_all add: registry_step_def registry_add_def registry_build_def Let_def)

lemma frozen_run: "registry_frozen r \<Longrightarrow> run_machine registry_step calls r = r"
proof (induction calls)
  case Nil
  then show ?case by simp
next
  case (Cons call calls)
  then obtain e where "registry_step call r = Inl e"
    using frozen_step by blast
  then show ?case using Cons by simp
qed

text \<open>
  A build freezes the registry for good: no later call changes it, and the engine holds exactly the
  descriptors the registry had and keeps.
\<close>

theorem build_freezes_registry:
  assumes "registry_build generation r = Inr (engine, frozen)"
  shows "run_machine registry_step calls frozen = frozen \<and> registry_frozen frozen
    \<and> engine_descriptors engine = registry_descriptors frozen \<and> registry_descriptors frozen = registry_descriptors r"
proof -
  note build = registry_build_ok [OF assms]
  have "registry_frozen frozen"
    by (simp add: build(1) registry_frozen_def)
  then show ?thesis
    using frozen_run build(1,2) by (simp add: engine_descriptors_def registry_descriptors_def)
qed

definition sample_registry :: relation_registry where
  "sample_registry = \<lparr>reg_descriptors = [(''a.b'', sample_body ''x_id'')], reg_frozen_flag = Some False\<rparr>"

lemma build_freezes_registry_witness:
  "\<exists>engine frozen. registry_build ''g'' sample_registry = Inr (engine, frozen)
    \<and> run_machine registry_step [Add_Descriptor (sample_body ''x_id'')] frozen = frozen"
proof -
  have "\<not> registry_frozen sample_registry" "reg_descriptors sample_registry \<noteq> []"
    "check_inventory (registry_inventory (reg_descriptors sample_registry)) = Inr ()"
    "check_references (reg_descriptors sample_registry) = Inr ()"
    by code_simp+
  moreover have "\<exists>t. visit_all (reg_descriptors sample_registry) (map fst (reg_descriptors sample_registry)) (\<lambda>name. Unvisited) = Inr t"
    by (simp add: sample_registry_def visit_all.simps(2) hard_targets_def sample_body_def)
  ultimately obtain engine frozen where build: "registry_build ''g'' sample_registry = Inr (engine, frozen)"
    by (auto simp: registry_build_def Let_def)
  then show ?thesis
    using build_freezes_registry [OF build, of "[Add_Descriptor (sample_body ''x_id'')]"] by blast
qed

section \<open>Looking descriptors up in an engine\<close>

lemma find_SomeD: "find P xs = Some x \<Longrightarrow> x \<in> set xs \<and> P x"
  by (induction xs) (auto split: if_splits)

lemma engine_require_iff:
  assumes "registry_ok r" "eng_descriptors engine = reg_descriptors r"
  shows "engine_require engine name major = Inr d \<longleftrightarrow>
    d \<in> set (engine_descriptors engine) \<and> rel_name d = name \<and> rel_semantic_major d = major"
proof -
  have ordered: "omap_ordered (reg_descriptors r)"
    using assms(1) by (simp add: registry_ok_def)
  have named: "map_of (reg_descriptors r) n = Some e \<Longrightarrow> rel_name e = n" for n e
    using assms(1) by (simp add: registry_ok_iff)
  have entry: "d \<in> set (engine_descriptors engine) \<longleftrightarrow> map_of (reg_descriptors r) (rel_name d) = Some d"
  proof -
    have "d \<in> set (engine_descriptors engine) \<longleftrightarrow> (\<exists>n. map_of (reg_descriptors r) n = Some d)"
      using omap_entry_iff [OF ordered] by (force simp: engine_descriptors_def assms(2))
    then show ?thesis
      using named by blast
  qed
  show ?thesis
    unfolding entry
    by (cases "map_of (reg_descriptors r) name") (auto simp: engine_require_def assms(2) dest: named)
qed

lemma engine_require_id_iff:
  assumes "registry_ok r" "eng_descriptors engine = reg_descriptors r"
  shows "engine_require_id engine descriptor_id = Inr d \<longleftrightarrow>
    d \<in> set (engine_descriptors engine) \<and> rel_id d = descriptor_id"
proof -
  have ordered: "omap_ordered (reg_descriptors r)"
    using assms(1) by (simp add: registry_ok_def)
  have entry: "rel_name e = n \<and> descriptor_validate e = Inr ()" if "(n, e) \<in> set (reg_descriptors r)" for n e
    using that assms(1) by (auto simp: registry_ok_def)
  have unique: "(n, e) = (k, f)"
    if "(n, e) \<in> set (reg_descriptors r)" "(k, f) \<in> set (reg_descriptors r)" "rel_id e = rel_id f" for n e k f
  proof -
    have "n = k"
      using entry [OF that(1)] entry [OF that(2)] validated_id_name [OF _ _ that(3)] by simp
    then show ?thesis
      using that(1,2) unfolding omap_entry_iff [OF ordered] by simp
  qed
  show ?thesis
  proof
    assume "engine_require_id engine descriptor_id = Inr d"
    then obtain n where "find (\<lambda>(name, d). rel_id d = descriptor_id) (reg_descriptors r) = Some (n, d)"
      by (auto simp: engine_require_id_def assms(2) split: option.splits prod.splits)
    then have "(n, d) \<in> set (reg_descriptors r)" "rel_id d = descriptor_id"
      by (auto dest!: find_SomeD)
    then show "d \<in> set (engine_descriptors engine) \<and> rel_id d = descriptor_id"
      by (force simp: engine_descriptors_def assms(2))
  next
    assume d: "d \<in> set (engine_descriptors engine) \<and> rel_id d = descriptor_id"
    then obtain n where n: "(n, d) \<in> set (reg_descriptors r)"
      by (auto simp: engine_descriptors_def assms(2))
    have "find (\<lambda>(name, d). rel_id d = descriptor_id) (reg_descriptors r) = Some (n, d)"
      using n
    proof (rule find_unique)
      fix p
      assume p: "p \<in> set (reg_descriptors r)" "case p of (name, d) \<Rightarrow> rel_id d = descriptor_id"
      then show "p = (n, d)"
        using unique n d by (cases p) auto
    qed (use d in simp)
    then show "engine_require_id engine descriptor_id = Inr d"
      by (simp add: engine_require_id_def assms(2))
  qed
qed

text \<open>
  An engine built from a registry that any calls produced finds a descriptor by identifier, and by
  name and semantic major, exactly when it holds one with them.
\<close>

theorem engine_lookup_exact:
  assumes "registry_build generation (run_machine registry_step calls registry_new) = Inr (engine, frozen)"
  shows "(engine_require_id engine i = Inr d \<longleftrightarrow> d \<in> set (engine_descriptors engine) \<and> rel_id d = i)
    \<and> (engine_require engine n major = Inr d \<longleftrightarrow>
        d \<in> set (engine_descriptors engine) \<and> rel_name d = n \<and> rel_semantic_major d = major)"
  using engine_require_iff [OF reachable_ok registry_build_ok(2) [OF assms]]
    engine_require_id_iff [OF reachable_ok registry_build_ok(2) [OF assms]] by blast

lemma sample_fields:
  "rel_descriptor_digest (sample_body e) = []" "rel_contract_canonical (sample_body e) = []"
  "rel_name (sample_descriptor e) = ''a.b''" "rel_id (sample_descriptor e) = ''a.b.v1''"
  "rel_references (sample_descriptor e) = []"
  by (simp_all add: sample_body_def sample_descriptor_def)

lemma sample_reachable:
  "run_machine registry_step [Add_Descriptor (sample_body ''x_id'')] registry_new
    = registry_new\<lparr>reg_descriptors := [(''a.b'', sample_descriptor ''x_id'')]\<rparr>"
proof -
  have "descriptor_validate (sample_descriptor ''x_id'') = Inr ()"
    by (rule sample_validates) simp
  then have "registry_step (Add_Descriptor (sample_body ''x_id'')) registry_new
      = Inr (registry_new\<lparr>reg_descriptors := [(''a.b'', sample_descriptor ''x_id'')]\<rparr>)"
    by (simp add: registry_step_def registry_add_def sample_fields flip: sample_descriptor_def)
      (simp add: registry_new_def registry_frozen_def Let_def sample_fields)
  then show ?thesis by simp
qed

lemma engine_lookup_exact_witness:
  "\<exists>engine frozen. registry_build ''g'' (run_machine registry_step [Add_Descriptor (sample_body ''x_id'')] registry_new)
      = Inr (engine, frozen)
    \<and> engine_require_id engine ''a.b.v1'' = Inr (sample_descriptor ''x_id'')"
proof -
  let ?m = "[(''a.b'', sample_descriptor ''x_id'')]"
  let ?r = "registry_new\<lparr>reg_descriptors := ?m\<rparr>"
  have "check_inventory (registry_inventory ?m) = Inr ()" "check_references ?m = Inr ()"
    by (simp_all add: registry_inventory_def check_references_def each_def sample_fields)
  moreover have "\<exists>t. visit_all ?m (map fst ?m) (\<lambda>name. Unvisited) = Inr t"
    by (simp add: visit_all.simps(2) hard_targets_def sample_fields)
  ultimately obtain engine frozen where build: "registry_build ''g'' ?r = Inr (engine, frozen)"
    by (auto simp: registry_build_def registry_frozen_def registry_new_def Let_def)
  have engine: "eng_descriptors engine = ?m"
    using registry_build_ok(2) [OF build] by simp
  have "sample_descriptor ''x_id'' \<in> set (engine_descriptors engine)"
    by (simp add: engine_descriptors_def engine)
  then have "engine_require_id engine ''a.b.v1'' = Inr (sample_descriptor ''x_id'')"
    using engine_lookup_exact [OF build [folded sample_reachable], THEN conjunct1] sample_fields(4) by simp
  moreover have "registry_build ''g'' (run_machine registry_step [Add_Descriptor (sample_body ''x_id'')] registry_new)
      = Inr (engine, frozen)"
    using build by (simp only: sample_reachable)
  ultimately show ?thesis by blast
qed

section \<open>What the registry digest covers\<close>

lemma lower_hex_printable: "lower_hex c \<Longrightarrow> c \<noteq> CHR 0x0a"
proof -
  have "\<not> lower_hex CHR 0x0a" by code_simp
  then show "lower_hex c \<Longrightarrow> c \<noteq> CHR 0x0a" by auto
qed

lemma validated_inventory_entry:
  assumes "descriptor_validate d = Inr ()"
  shows "CHR ''='' \<notin> set (rel_id d)" and "CHR 0x0a \<notin> set (rel_descriptor_digest d)"
proof -
  note parts = descriptor_validate_parts [OF assms]
  note header = validated_header [OF parts(3)]
  have no: "\<not> stable_id_char CHR ''=''" by code_simp
  obtain t ts where name: "rel_name d = dotted t ts" "list_all lower_identifier (t # ts)"
    using header(1) by (auto simp: relation_name_iff)
  have "list_all stable_id_char (rel_name d)"
    unfolding name(1) by (rule dotted_chars [OF name(2)])
  then have "CHR ''='' \<notin> set (rel_name d)"
    using no by (auto simp: list_all_iff)
  moreover have "CHR ''='' \<notin> set (decimal n)" for n
    using decimal_excludes [of "CHR ''=''" n] by auto
  ultimately show "CHR ''='' \<notin> set (rel_id d)"
    by (simp add: header(3))
  obtain expected where "descriptor_binding d = Inr expected" "rel_descriptor_digest d = expected"
    using parts(9) by (auto simp: binding_matches_def split: sum.splits)
  then have "semantic_digest ''cxxlens.relation-descriptor-binding.v2''
      (rel_contract_digest d @ [CHR 0x0a] @ descriptor_canonical_form d) = Inr (rel_descriptor_digest d)"
    by (simp only: descriptor_binding_def)
  from semantic_digest_shape [OF this]
  obtain hex where "rel_descriptor_digest d = ''semantic-v2:sha256:'' @ hex" "list_all lower_hex hex"
    by blast
  then show "CHR 0x0a \<notin> set (rel_descriptor_digest d)"
    using lower_hex_printable by (auto simp: list_all_iff)
qed

lemma inventory_text_inject:
  "(\<And>i g. (i, g) \<in> set xs \<union> set ys \<Longrightarrow> CHR ''='' \<notin> set i \<and> CHR 0x0a \<notin> set g) \<Longrightarrow>
    inventory_text xs = inventory_text ys \<Longrightarrow> xs = ys"
proof (induction xs arbitrary: ys)
  case Nil
  then show ?case by (cases ys) (auto simp: inventory_text_def)
next
  case (Cons p xs)
  obtain i g where p: "p = (i, g)" by (cases p)
  obtain j h ys' where ys: "ys = (j, h) # ys'"
    using Cons.prems(2) by (cases ys) (auto simp: inventory_text_def p)
  have plain: "CHR ''='' \<notin> set i" "CHR 0x0a \<notin> set g" "CHR ''='' \<notin> set j" "CHR 0x0a \<notin> set h"
    using Cons.prems(1) [of i g] Cons.prems(1) [of j h] by (auto simp: p ys)
  have "i @ CHR ''='' # g @ CHR 0x0a # inventory_text xs = j @ CHR ''='' # h @ CHR 0x0a # inventory_text ys'"
    using Cons.prems(2) by (simp add: p ys inventory_text_def)
  note ids = split_at_delimiter [OF plain(1,3) this]
  note digests = split_at_delimiter [OF plain(2,4) ids [THEN conjunct2]]
  have "xs = ys'"
    using Cons.IH [of ys'] Cons.prems(1) digests by (auto simp: ys)
  then show ?case using ids digests by (simp add: p ys)
qed

lemma registry_inventory_set:
  "set (registry_inventory m) = (\<lambda>d. (rel_id d, rel_descriptor_digest d)) ` set (map snd m)"
  by (auto simp: registry_inventory_def image_image case_prod_unfold)

lemma registry_inventory_distinct:
  assumes "registry_ok r"
  shows "distinct (map fst (registry_inventory (reg_descriptors r)))"
proof -
  have "sorted (map fst (registry_inventory (reg_descriptors r)))"
    by (simp add: registry_inventory_def)
  then show ?thesis
    using registry_ids_distinct [OF assms] unfolding check_inventory_iff
    by (metis distinct_adj_sort sort_key_id_if_sorted map_ident)
qed

text \<open>
  The text hashed into an engine's registry digest determines, and is determined by, the identifiers
  and descriptor digests of the registry, in whatever order the descriptors were added.
\<close>

theorem registry_digest_covers_inventory:
  "let r = run_machine registry_step calls registry_new; s = run_machine registry_step other_calls registry_new;
       entry = (\<lambda>d. (rel_id d, rel_descriptor_digest d))
   in inventory_text (registry_inventory (reg_descriptors r)) = inventory_text (registry_inventory (reg_descriptors s))
     \<longleftrightarrow> entry ` set (registry_descriptors r) = entry ` set (registry_descriptors s)"
proof -
  let ?r = "run_machine registry_step calls registry_new" and ?s = "run_machine registry_step other_calls registry_new"
  let ?x = "registry_inventory (reg_descriptors ?r)" and ?y = "registry_inventory (reg_descriptors ?s)"
  have plain: "CHR ''='' \<notin> set i \<and> CHR 0x0a \<notin> set g" if member: "(i, g) \<in> set ?x \<union> set ?y" for i g
  proof -
    have valid: "descriptor_validate d = Inr ()" if "registry_ok t" "d \<in> set (map snd (reg_descriptors t))" for t d
      using that by (auto simp: registry_ok_def)
    obtain d where "descriptor_validate d = Inr ()" "i = rel_id d" "g = rel_descriptor_digest d"
      using member valid [OF reachable_ok [of calls]] valid [OF reachable_ok [of other_calls]]
      unfolding registry_inventory_set by blast
    then show ?thesis using validated_inventory_entry by simp
  qed
  have "?x = ?y" if "set ?x = set ?y"
  proof -
    have inj: "inj_on fst (set ?x)" and distinct: "distinct ?x" "distinct ?y"
      using registry_inventory_distinct [OF reachable_ok] by (auto simp: distinct_map)
    have "mset ?x = mset ?y"
      using that unfolding set_eq_iff_mset_eq_distinct [OF distinct] .
    moreover have "sorted (map fst ?y)"
      by (simp add: registry_inventory_def)
    ultimately have "sort_key fst ?x = ?y"
      using inj by (intro sort_key_inj_key_eq)
    moreover have "sort_key fst ?x = ?x"
      by (rule sort_key_id_if_sorted) (simp add: registry_inventory_def)
    ultimately show ?thesis by simp
  qed
  moreover have "inventory_text ?x = inventory_text ?y \<Longrightarrow> ?x = ?y"
    by (rule inventory_text_inject [OF plain])
  ultimately have "inventory_text ?x = inventory_text ?y \<longleftrightarrow> set ?x = set ?y"
    by metis
  then show ?thesis
    by (simp add: registry_inventory_set registry_descriptors_def Let_def)
qed

end
