(* ===== verification/Claim_Condition.thy ===== *)
theory Claim_Condition
  imports Relation_Descriptor
begin

text \<open>
  What a claim of \<open>src/sdk/claim.cpp\<close> states beside its row: the condition under which it holds (a
  finite set of fragments of a universe), the stage it was produced in, the guarantee it carries and
  the basis of inputs it was made from, with their validation and their digests. The text of a
  condition determines it, and the overlap of two conditions is the set of their common fragments.
\<close>

section \<open>Checks of texts and digests\<close>

definition sorted_unique :: "string list \<Rightarrow> bool" where
  "sorted_unique xs = (sorted xs \<and> distinct_adj xs)"

definition claim_strong_id :: "string \<Rightarrow> string \<Rightarrow> unit result" where
  "claim_strong_id s field =
    (case validate_strong_id s of
       Inl e \<Rightarrow> Inl (Err ''sdk.text-invalid'' field (err_detail e))
     | Inr u \<Rightarrow> Inr ())"

definition claim_registered_symbol :: "string \<Rightarrow> string \<Rightarrow> unit result" where
  "claim_registered_symbol s field =
    (case validate_registered_symbol s of
       Inl e \<Rightarrow> Inl (Err ''sdk.text-invalid'' field (err_detail e))
     | Inr u \<Rightarrow> Inr ())"

definition sha256_digest :: "string \<Rightarrow> bool" where
  "sha256_digest s =
    (let hex = (if starts_with s ''sha256:'' then drop 7 s
                else if starts_with s ''semantic-v2:sha256:'' then drop 19 s else [])
     in length hex = 64 \<and> list_all (\<lambda>c. digit c \<or> (0x61 \<le> byte_of_char c \<and> byte_of_char c \<le> 0x66)) hex)"

definition typed_sha256_digest :: "string \<Rightarrow> bool" where
  "typed_sha256_digest s =
    (case find_from s CHR '':'' 0 of
       None \<Rightarrow> False
     | Some separator \<Rightarrow> separator \<noteq> 0 \<and> starts_with (drop (separator + 1) s) ''sha256:''
         \<and> sha256_digest (drop (separator + 1) s))"

definition partition_content_digest :: "string \<Rightarrow> bool" where
  "partition_content_digest s = (starts_with s ''partition-content:'' \<and> typed_sha256_digest s)"

section \<open>Conditions\<close>

record claim_condition =
  cond_universe :: string
  cond_fragments :: "string list"

definition condition_validate :: "claim_condition \<Rightarrow> unit result" where
  "condition_validate c =
    (if cond_fragments c = [] \<or> \<not> sorted_unique (cond_fragments c)
     then Inl (Err ''sdk.claim-condition-invalid'' ''condition'' [])
     else and_then (claim_strong_id (cond_universe c) ''condition.universe'') (\<lambda>_.
       each (\<lambda>fragment. claim_strong_id fragment ''condition.fragment'') (cond_fragments c)))"

definition sized_text :: "string \<Rightarrow> string" where
  "sized_text s = decimal (length s) @ '':'' @ s"

definition condition_canonical_form :: "claim_condition \<Rightarrow> string" where
  "condition_canonical_form c =
    sized_text (cond_universe c) @ concat (map (\<lambda>fragment. '';'' @ sized_text fragment) (cond_fragments c))"

text \<open>\<open>id\<close> is empty when the condition is not valid.\<close>

definition condition_id :: "claim_condition \<Rightarrow> string" where
  "condition_id c =
    (if isl (condition_validate c) then []
     else case canonical_identity_digest ''condition'' [from_string (condition_canonical_form c)] of
         Inl e \<Rightarrow> []
       | Inr identity \<Rightarrow> identity)"

text \<open>\<open>std::ranges::set_intersection\<close>, which reads sorted ranges.\<close>

fun set_intersection :: "'a::linorder list \<Rightarrow> 'a list \<Rightarrow> 'a list" where
  "set_intersection (x # xs) (y # ys) =
    (if x < y then set_intersection xs (y # ys)
     else if y < x then set_intersection (x # xs) ys
     else x # set_intersection xs ys)"
| "set_intersection xs ys = []"

definition condition_overlap :: "claim_condition \<Rightarrow> claim_condition \<Rightarrow> string list result" where
  "condition_overlap c other =
    and_then (condition_validate c) (\<lambda>_. and_then (condition_validate other) (\<lambda>_.
      if cond_universe c \<noteq> cond_universe other
      then Inl (Err ''sdk.condition-universe-mismatch'' (cond_universe c) (cond_universe other))
      else Inr (set_intersection (cond_fragments c) (cond_fragments other))))"

section \<open>Stages, producers, guarantees\<close>

datatype claim_stage = Stage_Assertion | Stage_Canonical | Stage_Derived | Stage_Unlisted byte

definition claim_stage_valid :: "claim_stage \<Rightarrow> bool" where
  "claim_stage_valid s = (case s of Stage_Unlisted b \<Rightarrow> False | _ \<Rightarrow> True)"

record claim_producer =
  prod_id :: string
  prod_semantic_contract :: string

record claim_guarantee =
  guar_approximation :: string
  guar_scope :: string
  guar_assumptions :: string
  guar_modalities :: "string list"

definition guarantee_validate :: "claim_guarantee \<Rightarrow> unit result" where
  "guarantee_validate g =
    and_then (claim_registered_symbol (guar_approximation g) ''guarantee.approximation'') (\<lambda>_.
      if guar_approximation g \<notin> {''unknown'', ''under_approximation'', ''over_approximation'', ''exact''}
         \<or> \<not> sorted_unique (guar_modalities g)
      then Inl (Err ''sdk.claim-guarantee-invalid'' ''guarantee'' [])
      else first_error
        [claim_strong_id (guar_scope g) ''guarantee.scope'',
         claim_strong_id (guar_assumptions g) ''guarantee.assumptions'',
         each (\<lambda>modality. claim_registered_symbol modality ''guarantee.verification_modality'')
           (guar_modalities g)])"

section \<open>Input bases\<close>

text \<open>\<open>std::variant<direct_claim_basis, derived_claim_basis>\<close>\<close>

record derived_claim_basis =
  der_input_snapshot :: string
  der_consumed :: "string list"
  der_transform_semantics :: string

datatype claim_input_basis = Direct_Basis string | Derived_Basis derived_claim_basis

definition check_derived :: "derived_claim_basis \<Rightarrow> unit result" where
  "check_derived d = first_error
    [claim_strong_id (der_input_snapshot d) ''input_snapshot'',
     each (\<lambda>digest. claim_strong_id digest ''consumed_partition_content_digest'') (der_consumed d),
     claim_strong_id (der_transform_semantics d) ''transform_semantics'',
     refuse_if (der_consumed d = [] \<or> \<not> sorted_unique (der_consumed d)
         \<or> \<not> list_all partition_content_digest (der_consumed d) \<or> \<not> sha256_digest (der_transform_semantics d))
       ''sdk.claim-basis-invalid'' ''derived'' []]"

definition validate_basis :: "claim_input_basis \<Rightarrow> claim_stage \<Rightarrow> unit result" where
  "validate_basis basis stage =
    (if \<not> claim_stage_valid stage then Inl (Err ''sdk.claim-basis-invalid'' ''stage'' ''closed-enum'')
     else case basis of
         Direct_Basis digest \<Rightarrow>
           and_then (claim_strong_id digest ''basis_digest'') (\<lambda>_.
             refuse_if (stage = Stage_Derived \<or> \<not> sha256_digest digest) ''sdk.claim-basis-invalid'' ''direct'' [])
       | Derived_Basis d \<Rightarrow>
           if stage = Stage_Assertion then Inl (Err ''sdk.claim-basis-invalid'' ''derived'' [])
           else check_derived d)"

text \<open>\<open>typed->substr(typed->find(':') + 1U)\<close>; a missing separator (\<open>npos + 1 == 0\<close>) keeps the text.\<close>

definition after_separator :: "string \<Rightarrow> string" where
  "after_separator s = (case find_from s CHR '':'' 0 of None \<Rightarrow> s | Some separator \<Rightarrow> drop (separator + 1) s)"

definition claim_input_basis_digest :: "claim_input_basis \<Rightarrow> string result" where
  "claim_input_basis_digest basis =
    (case basis of
       Direct_Basis digest \<Rightarrow>
         and_then (claim_strong_id digest ''basis_digest'') (\<lambda>_.
           if \<not> sha256_digest digest then Inl (Err ''sdk.claim-basis-invalid'' ''direct'' [])
           else and_then (canonical_identity_digest ''producer-input-direct'' [from_string digest]) (\<lambda>typed.
             Inr (after_separator typed)))
     | Derived_Basis d \<Rightarrow>
         and_then (check_derived d) (\<lambda>_.
           and_then (canonical_identity_digest ''producer-input-derived''
               [from_string (der_input_snapshot d), from_tuple (map from_string (der_consumed d)),
                from_string (der_transform_semantics d)]) (\<lambda>typed.
             Inr (after_separator typed))))"

section \<open>The checks say what they mean\<close>

lemma sorted_unique_iff: "sorted_unique xs \<longleftrightarrow> sorted_wrt (<) xs"
proof (induction xs rule: induct_list012)
  case (3 x y zs)
  then show ?case by (auto simp: sorted_unique_def)
qed (simp_all add: sorted_unique_def)

lemma sha256_digest_iff: "sha256_digest s \<longleftrightarrow> canonical_digest_value s"
proof -
  have "digit c \<or> (0x61 \<le> byte_of_char c \<and> byte_of_char c \<le> 0x66) \<longleftrightarrow> lower_hex c" for c
    by (simp add: digit_def lower_hex_def Let_def)
  then show ?thesis
    by (simp add: sha256_digest_def canonical_digest_value_def hex_digest_def Let_def)
qed

lemma claim_strong_id_ok [result_simps]: "claim_strong_id s field = Inr u \<longleftrightarrow> validate_strong_id s = Inr ()"
  by (auto simp: claim_strong_id_def split: sum.splits)

lemma claim_registered_symbol_ok [result_simps]:
  "claim_registered_symbol s field = Inr u \<longleftrightarrow> validate_registered_symbol s = Inr ()"
  by (auto simp: claim_registered_symbol_def split: sum.splits)

lemma strong_id_utf8: "validate_strong_id s = Inr () \<Longrightarrow> utf8_text s"
  by (simp add: validate_strong_id_iff)

lemma registered_symbol_utf8: "validate_registered_symbol s = Inr () \<Longrightarrow> utf8_text s"
  by (auto simp: validate_registered_symbol_def and_then_Inr_iff dest: strong_id_utf8)

lemma condition_validate_iff: "condition_validate c = Inr () \<longleftrightarrow>
    cond_fragments c \<noteq> [] \<and> sorted_wrt (<) (cond_fragments c) \<and> validate_strong_id (cond_universe c) = Inr ()
    \<and> (\<forall>f \<in> set (cond_fragments c). validate_strong_id f = Inr ())"
  by (auto simp: condition_validate_def sorted_unique_iff and_then_Inr_iff result_simps)

lemma condition_result_unit: "condition_validate c = Inr u \<longleftrightarrow> condition_validate c = Inr ()"
  by simp

section \<open>The text of a condition\<close>

lemma sized_text_delimiting: "sized_text s @ x = sized_text t @ y \<Longrightarrow> s = t \<and> x = y"
proof -
  assume eq: "sized_text s @ x = sized_text t @ y"
  have colon: "CHR '':'' \<notin> set (decimal n)" for n
    using decimal_excludes [of "CHR '':''" n] by auto
  have "decimal (length s) @ CHR '':'' # s @ x = decimal (length t) @ CHR '':'' # t @ y"
    using eq by (simp add: sized_text_def)
  from split_at_delimiter [OF colon colon this]
  have "length s = length t" "s @ x = t @ y"
    by (auto dest: decimal_inject)
  then show ?thesis by simp
qed

text \<open>
  The canonical text of a condition determines it, whatever characters its universe and its
  fragments contain: every part is preceded by its length.
\<close>

theorem condition_text_injective:
  "condition_canonical_form c = condition_canonical_form d \<longleftrightarrow> c = d"
proof
  assume eq: "condition_canonical_form c = condition_canonical_form d"
  have fragments: "concat (map (\<lambda>f. '';'' @ sized_text f) fs) = concat (map (\<lambda>f. '';'' @ sized_text f) gs) \<Longrightarrow> fs = gs"
    for fs gs
  proof (induction fs arbitrary: gs)
    case Nil
    then show ?case by (cases gs) simp_all
  next
    case (Cons f fs)
    then obtain g gs' where gs: "gs = g # gs'" by (cases gs) auto
    have "sized_text f @ concat (map (\<lambda>f. '';'' @ sized_text f) fs)
        = sized_text g @ concat (map (\<lambda>f. '';'' @ sized_text f) gs')"
      using Cons.prems by (simp add: gs)
    from sized_text_delimiting [OF this] show ?case
      using Cons.IH by (simp add: gs)
  qed
  have "cond_universe c = cond_universe d \<and> cond_fragments c = cond_fragments d"
    using sized_text_delimiting [OF eq [unfolded condition_canonical_form_def]] fragments by blast
  then show "c = d" by simp
qed simp

section \<open>Overlap\<close>

lemma set_intersection_strict:
  "sorted_wrt (<) xs \<Longrightarrow> sorted_wrt (<) ys \<Longrightarrow>
    sorted_wrt (<) (set_intersection xs ys) \<and> set (set_intersection xs ys) = set xs \<inter> set ys"
proof (induction xs ys rule: set_intersection.induct)
  case (1 x xs y ys)
  then show ?case by (cases x y rule: linorder_cases) auto
qed simp_all

lemma set_intersection_commute:
  "sorted_wrt (<) xs \<Longrightarrow> sorted_wrt (<) ys \<Longrightarrow> set_intersection xs ys = set_intersection ys xs"
  using set_intersection_strict [of xs ys] set_intersection_strict [of ys xs]
  by (metis inf_commute strict_sorted_equal)

text \<open>
  The overlap of two conditions is the strictly increasing list of their common fragments; it is
  computed exactly for valid conditions of one universe.
\<close>

theorem condition_overlap_exact:
  "condition_overlap c d = Inr fs \<longleftrightarrow> condition_validate c = Inr () \<and> condition_validate d = Inr ()
    \<and> cond_universe c = cond_universe d \<and> sorted_wrt (<) fs \<and> set fs = set (cond_fragments c) \<inter> set (cond_fragments d)"
proof (cases "condition_validate c = Inr () \<and> condition_validate d = Inr ()")
  case True
  then have sorted: "sorted_wrt (<) (cond_fragments c)" "sorted_wrt (<) (cond_fragments d)"
    by (simp_all add: condition_validate_iff)
  have "set_intersection (cond_fragments c) (cond_fragments d) = fs \<longleftrightarrow>
      sorted_wrt (<) fs \<and> set fs = set (cond_fragments c) \<inter> set (cond_fragments d)"
    using set_intersection_strict [OF sorted] strict_sorted_equal by metis
  then show ?thesis
    using True by (simp add: condition_overlap_def)
next
  case False
  then show ?thesis
    by (auto simp: condition_overlap_def and_then_Inr_iff)
qed

end
