(* ===== verification/Claim_Identity.thy ===== *)
theory Claim_Identity
  imports Claim_Condition Relation_Rows Relation_Registry
begin

text \<open>
  The claims of \<open>src/sdk/claim.cpp\<close>: a row with the condition, interpretation, producer, basis and
  guarantee it is stated with, under three identities derived from them. What the constructors return
  validates, the constructors accept exactly what the checks allow, and a content identity stands for
  everything it is derived from.
\<close>

section \<open>Claims\<close>

record claim =
  clm_row :: detached_row
  clm_descriptor :: string
  clm_semantic_key :: string
  clm_assertion :: string
  clm_content :: string
  clm_presence :: claim_condition
  clm_interpretation :: string
  clm_stage :: claim_stage
  clm_producer :: claim_producer
  clm_input_basis :: claim_input_basis
  clm_provenance_root :: string
  clm_guarantee :: claim_guarantee

text \<open>\<open>obs_input_basis\<close> is the digest of the \<open>direct_claim_basis\<close>.\<close>

record observation =
  obs_row :: detached_row
  obs_presence :: claim_condition
  obs_interpretation :: string
  obs_producer :: claim_producer
  obs_input_basis :: string
  obs_provenance_root :: string
  obs_guarantee :: claim_guarantee

section \<open>Identities\<close>

text \<open>The function \<open>cell_value\<close>.\<close>

definition claim_cell_value :: "detached_cell \<Rightarrow> canonical_value" where
  "claim_cell_value cell =
    (if cell_state cell = Absent then canonical_null
     else if cell_state cell = Unknown
     then from_tuple [from_string ''unknown'',
       from_string (case cell_unknown_reason cell of None \<Rightarrow> ''unspecified'' | Some reason \<Rightarrow> reason)]
     else case cell_value cell of
         None \<Rightarrow> canonical_null
       | Some v \<Rightarrow>
           (case v of
              Bool_Scalar b \<Rightarrow> from_boolean b
            | Int_Scalar i \<Rightarrow> from_integer i
            | Uint_Scalar i \<Rightarrow> from_tuple [from_string ''unsigned'', from_string (decimal (unat i))]
            | Text_Scalar s \<Rightarrow> from_string s
            | Bytes_Scalar bs \<Rightarrow> from_bytes bs))"

definition column_value :: "detached_row \<Rightarrow> string \<Rightarrow> canonical_value" where
  "column_value row column =
    (case map_of (row_cells row) column of None \<Rightarrow> canonical_null | Some cell \<Rightarrow> claim_cell_value cell)"

definition row_tuple :: "detached_row \<Rightarrow> string list \<Rightarrow> canonical_value result" where
  "row_tuple row columns = Inr (from_tuple (map (column_value row) columns))"

definition payload_columns :: "relation_descriptor \<Rightarrow> string list" where
  "payload_columns d = sort (columns_of_role d Authoritative_Payload)"

text \<open>What is checked before anything is hashed.\<close>

definition check_claim_parts ::
  "relation_descriptor \<Rightarrow> detached_row \<Rightarrow> claim_condition \<Rightarrow> string \<Rightarrow> claim_stage \<Rightarrow> claim_producer \<Rightarrow>
    claim_input_basis \<Rightarrow> string \<Rightarrow> claim_guarantee \<Rightarrow> unit result" where
  "check_claim_parts d row presence interpretation stage producer basis provenance guarantee = first_error
    [validate_row d row, condition_validate presence,
     claim_strong_id (prod_id producer) ''producer.id'',
     claim_strong_id (prod_semantic_contract producer) ''producer.semantic_contract'',
     claim_strong_id interpretation ''interpretation'',
     claim_strong_id provenance ''provenance_root'',
     guarantee_validate guarantee, validate_basis basis stage]"

definition encode_claim ::
  "relation_descriptor \<Rightarrow> detached_row \<Rightarrow> claim_condition \<Rightarrow> string \<Rightarrow> claim_stage \<Rightarrow> claim_producer \<Rightarrow>
    claim_input_basis \<Rightarrow> string \<Rightarrow> claim_guarantee \<Rightarrow> claim result" where
  "encode_claim d row presence interpretation stage producer basis provenance guarantee =
    and_then (check_claim_parts d row presence interpretation stage producer basis provenance guarantee) (\<lambda>_.
    and_then (row_tuple row (rel_key_columns d)) (\<lambda>key_tuple.
    and_then (row_tuple row (payload_columns d)) (\<lambda>payload_tuple.
    and_then (canonical_identity_digest ''semantic-key''
        [from_string (rel_id d), from_integer (ucast (rel_semantic_major d)), key_tuple]) (\<lambda>semantic_key.
    and_then (canonical_identity_digest ''assertion''
        [from_string semantic_key, from_string (cond_universe presence),
         from_string (condition_canonical_form presence), from_string interpretation,
         from_string (prod_semantic_contract producer)]) (\<lambda>assertion.
    and_then (canonical_identity_digest ''claim-content'' [from_string assertion, payload_tuple]) (\<lambda>content.
      Inr \<lparr>clm_row = row, clm_descriptor = rel_id d, clm_semantic_key = semantic_key, clm_assertion = assertion,
           clm_content = content, clm_presence = presence, clm_interpretation = interpretation,
           clm_stage = stage, clm_producer = producer, clm_input_basis = basis,
           clm_provenance_root = provenance, clm_guarantee = guarantee\<rparr>))))))"

section \<open>Constructors and validation\<close>

definition descriptor_for :: "relation_engine \<Rightarrow> claim \<Rightarrow> relation_descriptor result" where
  "descriptor_for engine c = engine_require_id engine (clm_descriptor c)"

definition validate_claim :: "relation_engine \<Rightarrow> claim \<Rightarrow> unit result" where
  "validate_claim engine c =
    and_then (descriptor_for engine c) (\<lambda>d.
    and_then (encode_claim d (clm_row c) (clm_presence c) (clm_interpretation c) (clm_stage c)
        (clm_producer c) (clm_input_basis c) (clm_provenance_root c) (clm_guarantee c)) (\<lambda>rebuilt.
      refuse_if (clm_semantic_key rebuilt \<noteq> clm_semantic_key c \<or> clm_assertion rebuilt \<noteq> clm_assertion c
          \<or> clm_content rebuilt \<noteq> clm_content c \<or> clm_descriptor c \<noteq> row_descriptor_id (clm_row c))
        ''sdk.claim-identity-mismatch'' ''claim'' []))"

definition validate_claim_inputs :: "relation_engine \<Rightarrow> claim list \<Rightarrow> unit result" where
  "validate_claim_inputs engine inputs = each (validate_claim engine) inputs"

definition make_assertion :: "relation_engine \<Rightarrow> observation \<Rightarrow> claim result" where
  "make_assertion engine obs =
    and_then (engine_require_id engine (row_descriptor_id (obs_row obs))) (\<lambda>d.
      encode_claim d (obs_row obs) (obs_presence obs) (obs_interpretation obs) Stage_Assertion
        (obs_producer obs) (Direct_Basis (obs_input_basis obs)) (obs_provenance_root obs) (obs_guarantee obs))"

text \<open>The basis digest is dereferenced unchecked: the domain is a constant.\<close>

definition make_canonical_claim ::
  "relation_engine \<Rightarrow> claim \<Rightarrow> claim_producer \<Rightarrow> detached_row \<Rightarrow> string \<Rightarrow> claim result" where
  "make_canonical_claim engine input canonicalizer canonical_row transform_semantics =
    and_then (validate_claim_inputs engine [input]) (\<lambda>_.
      if clm_stage input \<noteq> Stage_Assertion \<or> \<not> sha256_digest transform_semantics
      then Inl (Err ''sdk.claim-stage-invalid'' ''canonical_claim'' [])
      else and_then (descriptor_for engine input) (\<lambda>d.
        if row_descriptor_id canonical_row \<noteq> clm_descriptor input
        then Inl (Err ''sdk.row-descriptor-mismatch'' ''descriptor'' [])
        else encode_claim d canonical_row (clm_presence input) (clm_interpretation input) Stage_Canonical
          canonicalizer
          (Direct_Basis (projr (semantic_digest ''cxxlens.canonical-input-basis.v1''
            (clm_content input @ [CHR 0x0a] @ transform_semantics))))
          (clm_provenance_root input) (clm_guarantee input)))"

definition make_derived_claim ::
  "relation_engine \<Rightarrow> claim list \<Rightarrow> observation \<Rightarrow> string \<Rightarrow> string list \<Rightarrow> string \<Rightarrow> claim result" where
  "make_derived_claim engine inputs out input_snapshot consumed transform_semantics =
    (if inputs = [] then Inl (Err ''sdk.claim-basis-invalid'' ''inputs'' [])
     else and_then (validate_claim_inputs engine inputs) (\<lambda>_.
       and_then (engine_require_id engine (row_descriptor_id (obs_row out))) (\<lambda>d.
         encode_claim d (obs_row out) (obs_presence out) (obs_interpretation out) Stage_Derived
           (obs_producer out)
           (Derived_Basis \<lparr>der_input_snapshot = input_snapshot, der_consumed = remdups_adj (sort consumed),
             der_transform_semantics = transform_semantics\<rparr>)
           (obs_provenance_root out) (obs_guarantee out))))"

section \<open>What the constructors return validates\<close>

lemma engine_require_id_id: "engine_require_id engine i = Inr d \<Longrightarrow> rel_id d = i"
  by (auto simp: engine_require_id_def find_Some_iff split: option.splits)

lemma encode_claim_ok:
  assumes "encode_claim d row presence interpretation stage producer basis provenance guarantee = Inr c"
  shows "clm_row c = row" "clm_descriptor c = rel_id d" "clm_presence c = presence"
    "clm_interpretation c = interpretation" "clm_stage c = stage" "clm_producer c = producer"
    "clm_input_basis c = basis" "clm_provenance_root c = provenance" "clm_guarantee c = guarantee"
    "row_descriptor_id row = rel_id d"
    "check_claim_parts d row presence interpretation stage producer basis provenance guarantee = Inr ()"
proof -
  show checked: "check_claim_parts d row presence interpretation stage producer basis provenance guarantee = Inr ()"
    using assms by (simp add: encode_claim_def and_then_Inr_iff)
  then have "validate_row d row = Inr ()"
    by (simp add: check_claim_parts_def and_then_Inr_iff)
  then show "row_descriptor_id row = rel_id d"
    by (simp add: validate_row_def and_then_Inr_iff refuse_if_ok)
qed (use assms in \<open>auto simp: encode_claim_def and_then_Inr_iff\<close>)

lemma encoded_claim_validates:
  assumes "encode_claim d row presence interpretation stage producer basis provenance guarantee = Inr c"
    "engine_require_id engine (rel_id d) = Inr d"
  shows "validate_claim engine c = Inr ()"
  using assms encode_claim_ok [OF assms(1)]
  by (simp add: validate_claim_def descriptor_for_def refuse_if_ok)

text \<open>
  Every claim that a constructor returns, whether an assertion, a canonical claim or a derived claim,
  passes the independent validation against the same engine.
\<close>

theorem made_claims_validate:
  assumes "make_assertion engine obs = Inr c
    \<or> make_canonical_claim engine input canonicalizer canonical_row transform_semantics = Inr c
    \<or> make_derived_claim engine inputs obs input_snapshot consumed transform_semantics = Inr c"
  shows "validate_claim engine c = Inr ()"
  using assms
proof (elim disjE)
  assume "make_assertion engine obs = Inr c"
  then show ?thesis
    using engine_require_id_id
    by (auto simp: make_assertion_def and_then_Inr_iff intro: encoded_claim_validates)
next
  assume "make_canonical_claim engine input canonicalizer canonical_row transform_semantics = Inr c"
  then show ?thesis
    using engine_require_id_id
    by (auto simp: make_canonical_claim_def and_then_Inr_iff descriptor_for_def split: if_splits
        intro: encoded_claim_validates)
next
  assume "make_derived_claim engine inputs obs input_snapshot consumed transform_semantics = Inr c"
  then show ?thesis
    using engine_require_id_id
    by (auto simp: make_derived_claim_def and_then_Inr_iff split: if_splits intro: encoded_claim_validates)
qed

section \<open>What is hashed\<close>

definition identity_bytes :: "string \<Rightarrow> canonical_value list \<Rightarrow> bytes" where
  "identity_bytes kind parts = bytes_of (identity_domain kind) @ append_canonical (from_tuple parts)"

lemma identity_digest_iff:
  "canonical_identity_digest kind parts = Inr s \<longleftrightarrow> kind \<noteq> [] \<and> utf8_text kind
    \<and> (\<forall>v \<in> set parts. canonical_validate v = Inr ()) \<and> s = kind @ '':'' @ content_digest (identity_bytes kind parts)"
proof (cases "canonical_validate (from_tuple parts) = Inr ()")
  case True
  then show ?thesis
    by (auto simp: canonical_identity_digest_def identity_bytes_def canonical_binary_ok)
next
  case False
  then have "\<not> (\<forall>v \<in> set parts. canonical_validate v = Inr ())"
    by (simp only: canonical_validate_tuple) simp
  moreover obtain e where "canonical_validate (from_tuple parts) = Inl e"
    using False by (cases "canonical_validate (from_tuple parts)") auto
  ultimately show ?thesis
    by (auto simp: canonical_identity_digest_def canonical_binary_def)
qed

lemma identity_bytes_inject:
  assumes "\<forall>v \<in> set parts. canonical_validate v = Inr ()" "\<forall>v \<in> set others. canonical_validate v = Inr ()"
    "identity_bytes kind parts = identity_bytes kind others" "length (identity_bytes kind parts) < 2 ^ 64"
  shows "parts = others"
proof -
  have "append_canonical (from_tuple parts) = append_canonical (from_tuple others)"
    "length (append_canonical (from_tuple parts)) < 2 ^ 64"
    using assms(3,4) by (simp_all add: identity_bytes_def)
  then have "from_tuple parts = from_tuple others"
    using canonical_binary_injective [of "from_tuple parts" "from_tuple others"] assms(1,2)
    by (metis canonical_binary_ok canonical_validate_tuple)
  then show ?thesis by (simp add: from_tuple_def)
qed

lemma content_digest_utf8: "utf8_text (content_digest bs)"
proof (rule ascii_text)
  fix c
  assume c: "c \<in> set (content_digest bs)"
  have "list_all (\<lambda>c. byte_of_char c \<le> 0x7f) ''sha256:''"
    by code_simp
  moreover have "list_all (\<lambda>c. byte_of_char c \<le> 0x7f) (concat (map hex_word (sha256_words bs)))"
    using lower_hex_concat_hex_words lower_hex_ascii by (auto simp: list_all_iff)
  ultimately show "byte_of_char c \<le> 0x7f"
    using c unfolding content_digest_def list_all_iff set_append by blast
qed

lemma identity_digest_utf8: "canonical_identity_digest kind parts = Inr s \<Longrightarrow> utf8_text s"
proof -
  assume "canonical_identity_digest kind parts = Inr s"
  then have "s = kind @ '':'' @ content_digest (identity_bytes kind parts)" "utf8_text kind"
    by (simp_all only: identity_digest_iff)
  moreover have "utf8_text '':''" by code_simp
  ultimately show ?thesis
    by (simp only: map_append) (intro sdk_valid_append content_digest_utf8)
qed

section \<open>The constructors accept what the checks allow\<close>

lemma utf8_concat: "\<forall>s \<in> set ss. utf8_text s \<Longrightarrow> utf8_text (concat ss)"
proof (induction ss)
  case Nil
  then show ?case by code_simp
next
  case (Cons s ss)
  then have "sdk_valid_utf8 (bytes_of s @ bytes_of (concat ss))"
    by (intro sdk_valid_append) simp_all
  then show ?case by simp
qed

lemma condition_text_utf8:
  assumes "condition_validate c = Inr ()"
  shows "utf8_text (condition_canonical_form c)"
proof -
  have punctuation: "utf8_text '':''" "utf8_text '';''"
    by code_simp+
  have sized: "utf8_text (sized_text s)" if "utf8_text s" for s
    unfolding sized_text_def map_append using that punctuation(1) by (intro sdk_valid_append decimal_utf8)
  have "utf8_text (cond_universe c)" "\<forall>f \<in> set (cond_fragments c). utf8_text f"
    using assms strong_id_utf8 by (auto simp: condition_validate_iff)
  then show ?thesis
    unfolding condition_canonical_form_def map_append
    by (intro sdk_valid_append sized utf8_concat) (auto simp: sized intro: sdk_valid_append [OF punctuation(2), simplified])
qed

lemma claim_cell_value_valid:
  assumes "cell_validate cell = Inr ()"
  shows "canonical_validate (claim_cell_value cell) = Inr ()"
  using assms
proof (rule cell_validate_cases)
  fix v
  assume v: "cell_state cell = Present" "cell_value cell = Some v" "invalid_scalar_detail (cell_type cell) v = None"
  have "utf8_text ''unsigned''" by code_simp
  then show ?thesis
    using v invalid_scalar_detail_None(3) [OF v(3)]
    by (cases v) (auto simp: claim_cell_value_def intro: decimal_utf8)
next
  assume "cell_state cell = Absent"
  then show ?thesis by (simp add: claim_cell_value_def)
next
  fix r
  assume "cell_state cell = Unknown" "cell_unknown_reason cell = Some r" "control_free_text r"
  moreover have "utf8_text ''unknown''" by code_simp
  ultimately show ?thesis
    by (simp add: claim_cell_value_def control_free_text_def)
qed

lemma validate_row_cell:
  assumes "validate_row d row = Inr ()" "c \<in> set (rel_columns d)" "map_of (row_cells row) (col_id c) = Some cell"
  shows "cell_type cell = col_type c" "cell_validate cell = Inr ()"
proof -
  have "validate_row_column row c = Inr ()"
    using assms(1,2) by (simp add: validate_row_def and_then_Inr_iff each_ok)
  then show "cell_type cell = col_type c" "cell_validate cell = Inr ()"
    using assms(3) by (simp_all add: validate_row_column_def split: if_splits)
qed

lemma column_value_valid:
  assumes "validate_row d row = Inr ()" "p \<in> col_id ` set (rel_columns d)"
  shows "canonical_validate (column_value row p) = Inr ()"
  using assms validate_row_cell(2) claim_cell_value_valid
  by (auto simp: column_value_def split: option.splits)

lemma columns_of_role_ids: "set (columns_of_role d r) = col_id ` {c \<in> set (rel_columns d). col_role c = r}"
  by (auto simp: columns_of_role_def)

lemma key_columns_ids:
  assumes "descriptor_validate d = Inr ()"
  shows "set (rel_key_columns d) = set (columns_of_role d Claim_Key)"
proof -
  have "sort (columns_of_role d Claim_Key) = sort (rel_key_columns d)"
    using descriptor_validate_parts(6) [OF assms]
    by (simp add: validate_keys_def first_error_unit refuse_if_ok del: first_error.simps)
  then show ?thesis by (metis set_sort)
qed

lemma identity_columns_valid:
  assumes "descriptor_validate d = Inr ()" "validate_row d row = Inr ()"
    "p \<in> set (rel_key_columns d) \<union> set (payload_columns d)"
  shows "canonical_validate (column_value row p) = Inr ()"
proof (rule column_value_valid [OF assms(2)])
  have "set (columns_of_role d r) \<subseteq> col_id ` set (rel_columns d)" for r
    by (auto simp: columns_of_role_ids)
  then show "p \<in> col_id ` set (rel_columns d)"
    using assms(3) key_columns_ids [OF assms(1)] by (auto simp: payload_columns_def)
qed

lemma validated_id_utf8: "descriptor_validate d = Inr () \<Longrightarrow> utf8_text (rel_id d)"
proof -
  assume "descriptor_validate d = Inr ()"
  note header = validated_header [OF descriptor_validate_parts(3) [OF this]]
  have "utf8_text ''.v''" by code_simp
  then show ?thesis
    unfolding header(3) map_append by (intro sdk_valid_append relation_name_utf8 [OF header(1)] decimal_utf8)
qed

text \<open>The three identities.\<close>

definition semantic_key_parts :: "relation_descriptor \<Rightarrow> detached_row \<Rightarrow> canonical_value list" where
  "semantic_key_parts d row = [from_string (rel_id d), from_integer (ucast (rel_semantic_major d)),
    from_tuple (map (column_value row) (rel_key_columns d))]"

definition assertion_parts :: "string \<Rightarrow> claim_condition \<Rightarrow> string \<Rightarrow> string \<Rightarrow> canonical_value list" where
  "assertion_parts semantic_key presence interpretation contract =
    [from_string semantic_key, from_string (cond_universe presence), from_string (condition_canonical_form presence),
     from_string interpretation, from_string contract]"

definition content_parts :: "relation_descriptor \<Rightarrow> detached_row \<Rightarrow> string \<Rightarrow> canonical_value list" where
  "content_parts d row assertion = [from_string assertion, from_tuple (map (column_value row) (payload_columns d))]"

lemma encode_claim_parts: "encode_claim d row presence interpretation stage producer basis provenance guarantee =
    and_then (check_claim_parts d row presence interpretation stage producer basis provenance guarantee) (\<lambda>_.
    and_then (canonical_identity_digest ''semantic-key'' (semantic_key_parts d row)) (\<lambda>semantic_key.
    and_then (canonical_identity_digest ''assertion''
        (assertion_parts semantic_key presence interpretation (prod_semantic_contract producer))) (\<lambda>assertion.
    and_then (canonical_identity_digest ''claim-content'' (content_parts d row assertion)) (\<lambda>content.
      Inr \<lparr>clm_row = row, clm_descriptor = rel_id d, clm_semantic_key = semantic_key, clm_assertion = assertion,
           clm_content = content, clm_presence = presence, clm_interpretation = interpretation,
           clm_stage = stage, clm_producer = producer, clm_input_basis = basis,
           clm_provenance_root = provenance, clm_guarantee = guarantee\<rparr>))))"
  by (simp add: encode_claim_def row_tuple_def semantic_key_parts_def assertion_parts_def content_parts_def)

lemma check_claim_parts_ok:
  assumes "check_claim_parts d row presence interpretation stage producer basis provenance guarantee = Inr ()"
  shows "validate_row d row = Inr ()" "condition_validate presence = Inr ()" "utf8_text interpretation"
    "utf8_text (prod_semantic_contract producer)" "utf8_text (prod_id producer)" "utf8_text provenance"
    "guarantee_validate guarantee = Inr ()" "validate_basis basis stage = Inr ()"
  using assms strong_id_utf8
  by (auto simp: check_claim_parts_def first_error_unit claim_strong_id_ok simp del: first_error.simps)

lemma identity_kinds_utf8: "utf8_text ''semantic-key''" "utf8_text ''assertion''" "utf8_text ''claim-content''"
  by code_simp+

lemma encode_claim_total:
  assumes "descriptor_validate d = Inr ()"
    "check_claim_parts d row presence interpretation stage producer basis provenance guarantee = Inr ()"
  shows "\<exists>c. encode_claim d row presence interpretation stage producer basis provenance guarantee = Inr c"
proof -
  note ok = check_claim_parts_ok [OF assms(2)]
  have columns: "canonical_validate (from_tuple (map (column_value row) ps)) = Inr ()"
    if "set ps \<subseteq> set (rel_key_columns d) \<union> set (payload_columns d)" for ps
    using that identity_columns_valid [OF assms(1) ok(1)] by auto
  have "\<forall>v \<in> set (semantic_key_parts d row). canonical_validate v = Inr ()"
    using validated_id_utf8 [OF assms(1)] columns [of "rel_key_columns d"] by (simp add: semantic_key_parts_def)
  then obtain semantic_key where key: "canonical_identity_digest ''semantic-key'' (semantic_key_parts d row) = Inr semantic_key"
    using identity_kinds_utf8 by (simp add: identity_digest_iff)
  have "\<forall>v \<in> set (assertion_parts semantic_key presence interpretation (prod_semantic_contract producer)).
      canonical_validate v = Inr ()"
    using identity_digest_utf8 [OF key] ok(2-4) condition_text_utf8 strong_id_utf8
    by (auto simp: assertion_parts_def condition_validate_iff)
  then obtain assertion where assertion: "canonical_identity_digest ''assertion''
      (assertion_parts semantic_key presence interpretation (prod_semantic_contract producer)) = Inr assertion"
    using identity_kinds_utf8 by (simp add: identity_digest_iff)
  have "\<forall>v \<in> set (content_parts d row assertion). canonical_validate v = Inr ()"
    using identity_digest_utf8 [OF assertion] columns [of "payload_columns d"] by (simp add: content_parts_def)
  then obtain content where "canonical_identity_digest ''claim-content'' (content_parts d row assertion) = Inr content"
    using identity_kinds_utf8 by (simp add: identity_digest_iff)
  then show ?thesis
    using assms(2) key assertion by (simp add: encode_claim_parts)
qed

lemma built_engine_validated:
  assumes "registry_build generation (run_machine registry_step calls registry_new) = Inr (engine, frozen)"
    "engine_require_id engine i = Inr d"
  shows "descriptor_validate d = Inr ()"
proof -
  have "d \<in> set (engine_descriptors engine)"
    using engine_lookup_exact [OF assms(1), THEN conjunct1] assms(2) by blast
  then show ?thesis
    using reachable_ok [of calls] registry_build_ok(2) [OF assms(1)]
    by (auto simp: registry_ok_def engine_descriptors_def)
qed

text \<open>
  C19: with an engine built from a registry that any calls produced, an observation becomes an assertion
  exactly when the engine has its descriptor and its row, condition, texts, guarantee and basis digest
  pass their checks: the identities can always be computed then.
\<close>

theorem assertion_accepted_exact:
  assumes "registry_build generation (run_machine registry_step calls registry_new) = Inr (engine, frozen)"
  shows "(\<exists>c. make_assertion engine obs = Inr c) \<longleftrightarrow>
    (\<exists>d. engine_require_id engine (row_descriptor_id (obs_row obs)) = Inr d \<and> validate_row d (obs_row obs) = Inr ())
    \<and> condition_validate (obs_presence obs) = Inr () \<and> guarantee_validate (obs_guarantee obs) = Inr ()
    \<and> (\<forall>s \<in> {prod_id (obs_producer obs), prod_semantic_contract (obs_producer obs), obs_interpretation obs,
          obs_provenance_root obs, obs_input_basis obs}. validate_strong_id s = Inr ())
    \<and> canonical_digest_value (obs_input_basis obs)"
proof (cases "engine_require_id engine (row_descriptor_id (obs_row obs))")
  case (Inl e)
  then show ?thesis by (simp add: make_assertion_def)
next
  case (Inr d)
  note total = encode_claim_total [OF built_engine_validated [OF assms Inr]]
  have checks: "check_claim_parts d (obs_row obs) (obs_presence obs) (obs_interpretation obs) Stage_Assertion
      (obs_producer obs) (Direct_Basis (obs_input_basis obs)) (obs_provenance_root obs) (obs_guarantee obs) = Inr ()
    \<longleftrightarrow> validate_row d (obs_row obs) = Inr () \<and> condition_validate (obs_presence obs) = Inr ()
      \<and> guarantee_validate (obs_guarantee obs) = Inr ()
      \<and> (\<forall>s \<in> {prod_id (obs_producer obs), prod_semantic_contract (obs_producer obs), obs_interpretation obs,
          obs_provenance_root obs, obs_input_basis obs}. validate_strong_id s = Inr ())
      \<and> canonical_digest_value (obs_input_basis obs)"
    by (auto simp: check_claim_parts_def first_error_unit validate_basis_def claim_stage_valid_def
        claim_strong_id_ok refuse_if_ok and_then_Inr_iff sha256_digest_iff simp del: first_error.simps)
  have "(\<exists>c. make_assertion engine obs = Inr c) \<longleftrightarrow> check_claim_parts d (obs_row obs) (obs_presence obs)
      (obs_interpretation obs) Stage_Assertion (obs_producer obs) (Direct_Basis (obs_input_basis obs))
      (obs_provenance_root obs) (obs_guarantee obs) = Inr ()"
    using total encode_claim_ok(11) by (auto simp: make_assertion_def Inr)
  then show ?thesis
    using checks Inr by simp
qed

section \<open>What a content identity stands for\<close>

text \<open>The cell a row states in a column; an absent cell states as little as a missing one.\<close>

definition stated_cell :: "detached_row \<Rightarrow> string \<Rightarrow> detached_cell option" where
  "stated_cell row p = (case map_of (row_cells row) p of
     None \<Rightarrow> None
   | Some cell \<Rightarrow> if cell_state cell = Absent then None else Some cell)"

lemma claim_cell_value_inject:
  assumes "cell_validate a = Inr ()" "cell_validate b = Inr ()" "cell_type a = cell_type b"
  shows "claim_cell_value a = claim_cell_value b \<longleftrightarrow> a = b"
proof -
  note defs = claim_cell_value_def canonical_null_def from_boolean_def from_integer_def from_string_def
    from_bytes_def from_tuple_def
  have equal: "a = b" if "cell_state a = cell_state b" "cell_value a = cell_value b"
      "cell_unknown_reason a = cell_unknown_reason b"
    using that assms(3) by (cases a; cases b) simp
  show ?thesis
  proof
    assume eq: "claim_cell_value a = claim_cell_value b"
    show "a = b"
      using assms(1)
    proof (cases rule: cell_validate_cases)
      case (present v)
      note a = this
      show ?thesis
        using assms(2)
      proof (cases rule: cell_validate_cases)
        case b: (present w)
        have "matches_scalar (vt_scalar (cell_type a)) v" "matches_scalar (vt_scalar (cell_type a)) w"
          using a(4) b(4) assms(3) by (simp_all add: invalid_scalar_detail_None(2))
        then have "v = w"
          by (cases rule: matching_scalars) (use eq a b in \<open>auto simp: defs unat_word_inject dest: decimal_inject\<close>)
        then show ?thesis using equal a b by simp
      next
        case absent
        then show ?thesis using eq a by (cases v) (simp_all add: defs)
      next
        case (unknown r)
        then show ?thesis using eq a by (cases v) (simp_all add: defs)
      qed
    next
      case absent
      note a = this
      show ?thesis
        using assms(2)
      proof (cases rule: cell_validate_cases)
        case (present v)
        then show ?thesis using eq a by (cases v) (simp_all add: defs)
      next
        case absent
        then show ?thesis using equal a by simp
      next
        case (unknown r)
        then show ?thesis using eq a by (simp add: defs)
      qed
    next
      case (unknown r)
      note a = this
      show ?thesis
        using assms(2)
      proof (cases rule: cell_validate_cases)
        case (present v)
        then show ?thesis using eq a by (cases v) (simp_all add: defs)
      next
        case absent
        then show ?thesis using eq a by (simp add: defs)
      next
        case (unknown s)
        then show ?thesis using eq a equal by (simp add: defs)
      qed
    qed
  qed simp
qed

lemma claim_cell_value_null:
  "cell_validate a = Inr () \<Longrightarrow> claim_cell_value a = canonical_null \<longleftrightarrow> cell_state a = Absent"
  by (rule cell_validate_cases, assumption)
    (auto simp: claim_cell_value_def canonical_null_def from_boolean_def from_integer_def from_string_def
      from_bytes_def from_tuple_def split: scalar_value.splits)

lemma column_value_stated:
  assumes "validate_row d row = Inr ()" "validate_row d other = Inr ()" "p \<in> col_id ` set (rel_columns d)"
  shows "column_value row p = column_value other p \<longleftrightarrow> stated_cell row p = stated_cell other p"
proof -
  obtain c where c: "c \<in> set (rel_columns d)" "p = col_id c" using assms(3) by blast
  note left = validate_row_cell [OF assms(1) c(1), folded c(2)]
    and right = validate_row_cell [OF assms(2) c(1), folded c(2)]
  show ?thesis
  proof (cases "map_of (row_cells row) p")
    case l: None
    show ?thesis
    proof (cases "map_of (row_cells other) p")
      case None
      then show ?thesis using l by (simp add: column_value_def stated_cell_def)
    next
      case (Some b)
      then show ?thesis
        using l claim_cell_value_null [OF right(2) [OF Some]] by (auto simp: column_value_def stated_cell_def)
    qed
  next
    case l: (Some a)
    show ?thesis
    proof (cases "map_of (row_cells other) p")
      case None
      then show ?thesis
        using l claim_cell_value_null [OF left(2) [OF l]] by (auto simp: column_value_def stated_cell_def)
    next
      case (Some b)
      have "a = b" if "cell_state a = Absent" "cell_state b = Absent"
        using that claim_cell_value_null [OF left(2) [OF l]] claim_cell_value_null [OF right(2) [OF Some]]
          claim_cell_value_inject [OF left(2) [OF l] right(2) [OF Some]] left(1) [OF l] right(1) [OF Some] by simp
      then show ?thesis
        using l Some claim_cell_value_inject [OF left(2) [OF l] right(2) [OF Some]] left(1) [OF l] right(1) [OF Some]
        by (auto simp: column_value_def stated_cell_def)
    qed
  qed
qed

text \<open>The messages hashed into the identities of a claim.\<close>

definition key_message :: "relation_engine \<Rightarrow> claim \<Rightarrow> bytes" where
  "key_message engine c =
    identity_bytes ''semantic-key'' (semantic_key_parts (projr (descriptor_for engine c)) (clm_row c))"

definition assertion_message :: "relation_engine \<Rightarrow> claim \<Rightarrow> bytes" where
  "assertion_message engine c = identity_bytes ''assertion''
    (assertion_parts (clm_semantic_key c) (clm_presence c) (clm_interpretation c) (prod_semantic_contract (clm_producer c)))"

definition content_message :: "relation_engine \<Rightarrow> claim \<Rightarrow> bytes" where
  "content_message engine c =
    identity_bytes ''claim-content'' (content_parts (projr (descriptor_for engine c)) (clm_row c) (clm_assertion c))"

text \<open>The key columns and the authoritative payload columns of a claim's relation.\<close>

definition identity_columns :: "relation_engine \<Rightarrow> claim \<Rightarrow> string set" where
  "identity_columns engine c =
    (case descriptor_for engine c of
       Inl e \<Rightarrow> {}
     | Inr d \<Rightarrow> set (rel_key_columns d) \<union> set (columns_of_role d Authoritative_Payload))"

lemma validated_claim_parts:
  assumes "validate_claim engine c = Inr ()"
  obtains d where "descriptor_for engine c = Inr d" "rel_id d = clm_descriptor c"
    "check_claim_parts d (clm_row c) (clm_presence c) (clm_interpretation c) (clm_stage c) (clm_producer c)
      (clm_input_basis c) (clm_provenance_root c) (clm_guarantee c) = Inr ()"
    "canonical_identity_digest ''semantic-key'' (semantic_key_parts d (clm_row c)) = Inr (clm_semantic_key c)"
    "canonical_identity_digest ''assertion'' (assertion_parts (clm_semantic_key c) (clm_presence c)
      (clm_interpretation c) (prod_semantic_contract (clm_producer c))) = Inr (clm_assertion c)"
    "canonical_identity_digest ''claim-content'' (content_parts d (clm_row c) (clm_assertion c)) = Inr (clm_content c)"
    "row_descriptor_id (clm_row c) = clm_descriptor c"
proof -
  obtain d rebuilt where d: "descriptor_for engine c = Inr d"
    and rebuilt: "encode_claim d (clm_row c) (clm_presence c) (clm_interpretation c) (clm_stage c) (clm_producer c)
      (clm_input_basis c) (clm_provenance_root c) (clm_guarantee c) = Inr rebuilt"
    and same: "clm_semantic_key rebuilt = clm_semantic_key c" "clm_assertion rebuilt = clm_assertion c"
      "clm_content rebuilt = clm_content c" "clm_descriptor c = row_descriptor_id (clm_row c)"
    using assms by (auto simp: validate_claim_def and_then_Inr_iff refuse_if_ok)
  have id: "rel_id d = clm_descriptor c"
    using d unfolding descriptor_for_def by (rule engine_require_id_id)
  have ids: "canonical_identity_digest ''semantic-key'' (semantic_key_parts d (clm_row c)) = Inr (clm_semantic_key rebuilt)"
    "canonical_identity_digest ''assertion'' (assertion_parts (clm_semantic_key rebuilt) (clm_presence c)
      (clm_interpretation c) (prod_semantic_contract (clm_producer c))) = Inr (clm_assertion rebuilt)"
    "canonical_identity_digest ''claim-content'' (content_parts d (clm_row c) (clm_assertion rebuilt)) = Inr (clm_content rebuilt)"
    using rebuilt by (auto simp: encode_claim_parts and_then_Inr_iff)
  show thesis
    by (rule that [OF d id encode_claim_ok(11) [OF rebuilt] ids [unfolded same(1-3)] same(4) [symmetric]])
qed

lemma digest_identity_parts:
  assumes "canonical_identity_digest kind parts = Inr s" "canonical_identity_digest kind others = Inr t"
    "content_digest (identity_bytes kind parts) = content_digest (identity_bytes kind others) \<longrightarrow>
      identity_bytes kind parts = identity_bytes kind others"
    "length (identity_bytes kind parts) < 2 ^ 64"
  shows "s = t \<longleftrightarrow> parts = others"
proof
  assume "s = t"
  moreover have "s = kind @ '':'' @ content_digest (identity_bytes kind parts)"
    "t = kind @ '':'' @ content_digest (identity_bytes kind others)"
    using assms(1,2) by (simp_all only: identity_digest_iff)
  ultimately have "identity_bytes kind parts = identity_bytes kind others"
    using assms(3) by simp
  with assms(4) show "parts = others"
    using assms(1,2) identity_bytes_inject unfolding identity_digest_iff by blast
qed (use assms(1,2) in simp)

text \<open>
  C33: two claims that validate against an engine have the same content identity exactly when they belong
  to the same relation, hold under the same condition and interpretation, have the same semantic
  contract and state the same cells in the key and payload columns, as far as SHA-256 separates the
  messages hashed (each shorter than the address space).
\<close>

theorem content_identity_exact:
  assumes "registry_build generation (run_machine registry_step calls registry_new) = Inr (engine, frozen)"
    "validate_claim engine c = Inr ()" "validate_claim engine other = Inr ()"
    and hash: "\<forall>message \<in> {key_message engine, assertion_message engine, content_message engine}.
      (content_digest (message c) = content_digest (message other) \<longrightarrow> message c = message other)
      \<and> length (message c) < 2 ^ 64"
  shows "clm_content c = clm_content other \<longleftrightarrow> clm_descriptor c = clm_descriptor other
    \<and> clm_presence c = clm_presence other \<and> clm_interpretation c = clm_interpretation other
    \<and> prod_semantic_contract (clm_producer c) = prod_semantic_contract (clm_producer other)
    \<and> (\<forall>p \<in> identity_columns engine c. stated_cell (clm_row c) p = stated_cell (clm_row other) p)"
proof -
  obtain d where d: "descriptor_for engine c = Inr d" "rel_id d = clm_descriptor c"
    "check_claim_parts d (clm_row c) (clm_presence c) (clm_interpretation c) (clm_stage c) (clm_producer c)
      (clm_input_basis c) (clm_provenance_root c) (clm_guarantee c) = Inr ()"
    and id: "canonical_identity_digest ''semantic-key'' (semantic_key_parts d (clm_row c)) = Inr (clm_semantic_key c)"
    "canonical_identity_digest ''assertion'' (assertion_parts (clm_semantic_key c) (clm_presence c)
      (clm_interpretation c) (prod_semantic_contract (clm_producer c))) = Inr (clm_assertion c)"
    "canonical_identity_digest ''claim-content'' (content_parts d (clm_row c) (clm_assertion c)) = Inr (clm_content c)"
    by (rule validated_claim_parts [OF assms(2)])
  obtain e where e: "descriptor_for engine other = Inr e" "rel_id e = clm_descriptor other"
    "check_claim_parts e (clm_row other) (clm_presence other) (clm_interpretation other) (clm_stage other) (clm_producer other)
      (clm_input_basis other) (clm_provenance_root other) (clm_guarantee other) = Inr ()"
    and id': "canonical_identity_digest ''semantic-key'' (semantic_key_parts e (clm_row other)) = Inr (clm_semantic_key other)"
    "canonical_identity_digest ''assertion'' (assertion_parts (clm_semantic_key other) (clm_presence other)
      (clm_interpretation other) (prod_semantic_contract (clm_producer other))) = Inr (clm_assertion other)"
    "canonical_identity_digest ''claim-content'' (content_parts e (clm_row other) (clm_assertion other)) = Inr (clm_content other)"
    by (rule validated_claim_parts [OF assms(3)])
  note messages = key_message_def assertion_message_def content_message_def
  have key: "clm_semantic_key c = clm_semantic_key other \<longleftrightarrow>
      semantic_key_parts d (clm_row c) = semantic_key_parts e (clm_row other)"
    using hash by (intro digest_identity_parts [OF id(1) id'(1)]) (simp_all add: messages d(1) e(1))
  have assertion: "clm_assertion c = clm_assertion other \<longleftrightarrow> clm_semantic_key c = clm_semantic_key other
      \<and> clm_presence c = clm_presence other \<and> clm_interpretation c = clm_interpretation other
      \<and> prod_semantic_contract (clm_producer c) = prod_semantic_contract (clm_producer other)"
    using hash by (subst digest_identity_parts [OF id(2) id'(2)])
      (auto simp: messages assertion_parts_def from_string_def condition_text_injective)
  have content: "clm_content c = clm_content other \<longleftrightarrow>
      content_parts d (clm_row c) (clm_assertion c) = content_parts e (clm_row other) (clm_assertion other)"
    using hash by (intro digest_identity_parts [OF id(3) id'(3)]) (simp_all add: messages d(1) e(1))
  have same: "d = e \<longleftrightarrow> clm_descriptor c = clm_descriptor other"
    using d(1,2) e(1,2) by (auto simp: descriptor_for_def)
  have valid: "descriptor_validate d = Inr ()"
    using built_engine_validated [OF assms(1)] d(1) unfolding descriptor_for_def by blast
  have stated: "column_value (clm_row c) p = column_value (clm_row other) p \<longleftrightarrow>
      stated_cell (clm_row c) p = stated_cell (clm_row other) p" if "d = e" "p \<in> identity_columns engine c" for p
  proof (rule column_value_stated)
    show "validate_row d (clm_row c) = Inr ()" "validate_row d (clm_row other) = Inr ()"
      using check_claim_parts_ok(1) [OF d(3)] check_claim_parts_ok(1) [OF e(3)] that(1) by simp_all
    show "p \<in> col_id ` set (rel_columns d)"
      using that(2) key_columns_ids [OF valid] by (auto simp: identity_columns_def d(1) columns_of_role_ids)
  qed
  have columns: "set (rel_key_columns d) \<union> set (payload_columns d) = identity_columns engine c"
    by (simp add: identity_columns_def d(1) payload_columns_def)
  have parts: "semantic_key_parts d (clm_row c) = semantic_key_parts e (clm_row other)
        \<and> content_parts d (clm_row c) a = content_parts e (clm_row other) a
      \<longleftrightarrow> d = e \<and> (\<forall>p \<in> identity_columns engine c. stated_cell (clm_row c) p = stated_cell (clm_row other) p)" for a
  proof (cases "d = e")
    case True
    then show ?thesis
      using stated unfolding columns [symmetric]
      by (auto simp: semantic_key_parts_def content_parts_def from_tuple_def)
  next
    case False
    then show ?thesis
      using d(2) e(2) same by (auto simp: semantic_key_parts_def from_string_def)
  qed
  have "clm_content c = clm_content other \<longleftrightarrow> clm_assertion c = clm_assertion other
      \<and> content_parts d (clm_row c) (clm_assertion c) = content_parts e (clm_row other) (clm_assertion c)"
    unfolding content by (auto simp: content_parts_def from_string_def)
  then show ?thesis
    using parts [of "clm_assertion c"] assertion key same by blast
qed

section \<open>Claims to evaluate on\<close>

definition sample_digest :: string where
  "sample_digest = ''sha256:'' @ replicate 64 CHR ''0''"

definition sample_observation :: "string \<Rightarrow> observation" where
  "sample_observation provenance =
    \<lparr>obs_row = sample_row ''v'' [], obs_presence = \<lparr>cond_universe = ''u'', cond_fragments = [''f'', ''g'']\<rparr>,
     obs_interpretation = ''i'', obs_producer = \<lparr>prod_id = ''p'', prod_semantic_contract = ''c''\<rparr>,
     obs_input_basis = sample_digest, obs_provenance_root = provenance,
     obs_guarantee = \<lparr>guar_approximation = ''exact'', guar_scope = ''s'', guar_assumptions = ''a'', guar_modalities = []\<rparr>\<rparr>"

lemma sample_row_valid: "validate_row (sample_descriptor ''x_id'') (sample_row ''v'' []) = Inr ()"
proof -
  have "\<not> isl (validate_row (sample_body ''x_id'') (sample_row ''v'' []))"
    by code_simp
  then show ?thesis
    by (cases "validate_row (sample_body ''x_id'') (sample_row ''v'' [])") (auto simp: validate_row_def sample_descriptor_def)
qed

lemma sample_observation_checks:
  "list_all (\<lambda>provenance. \<not> isl (condition_validate (obs_presence (sample_observation provenance)))
    \<and> \<not> isl (guarantee_validate (obs_guarantee (sample_observation provenance)))
    \<and> list_all (\<lambda>s. \<not> isl (validate_strong_id s)) [''p'', ''c'', ''i'', provenance, sample_digest]
    \<and> sha256_digest sample_digest) [''r'', ''q'']"
  by code_simp

lemma sample_parts_checked:
  assumes "provenance \<in> set [''r'', ''q'']"
  shows "check_claim_parts (sample_descriptor ''x_id'') (sample_row ''v'' []) (obs_presence (sample_observation provenance)) ''i''
    Stage_Assertion \<lparr>prod_id = ''p'', prod_semantic_contract = ''c''\<rparr> (Direct_Basis sample_digest) provenance
    (obs_guarantee (sample_observation provenance)) = Inr ()"
proof -
  have ok: "\<not> isl r \<Longrightarrow> r = Inr ()" for r :: "unit result"
    by (cases r) auto
  have checks: "\<not> isl (condition_validate (obs_presence (sample_observation provenance)))
    \<and> \<not> isl (guarantee_validate (obs_guarantee (sample_observation provenance)))
    \<and> list_all (\<lambda>s. \<not> isl (validate_strong_id s)) [''p'', ''c'', ''i'', provenance, sample_digest]
    \<and> sha256_digest sample_digest"
    using sample_observation_checks assms unfolding list_all_iff [of _ "[''r'', ''q'']"] by (rule bspec)
  have strong: "validate_strong_id s = Inr ()" if "s \<in> set [''p'', ''c'', ''i'', provenance, sample_digest]" for s
    using checks that ok unfolding list_all_iff by blast
  have "validate_basis (Direct_Basis sample_digest) Stage_Assertion = Inr ()"
    using checks strong [of sample_digest]
    by (simp add: validate_basis_def claim_stage_valid_def refuse_if_def claim_strong_id_def)
  moreover have "condition_validate (obs_presence (sample_observation provenance)) = Inr ()"
    "guarantee_validate (obs_guarantee (sample_observation provenance)) = Inr ()"
    using ok checks by blast+
  ultimately show ?thesis
    using strong [of "''p''"] strong [of "''c''"] strong [of "''i''"] strong [of provenance] sample_row_valid
    by (simp add: check_claim_parts_def claim_strong_id_def)
qed

lemma sample_assertion:
  assumes "engine_require_id engine ''a.b.v1'' = Inr (sample_descriptor ''x_id'')" "provenance \<in> set [''r'', ''q'']"
  shows "\<exists>c. make_assertion engine (sample_observation provenance) = Inr c"
proof -
  have valid: "descriptor_validate (sample_descriptor ''x_id'') = Inr ()"
    by (rule sample_validates) simp
  have "row_descriptor_id (sample_row ''v'' []) = ''a.b.v1''"
    by (simp add: sample_row_def)
  then show ?thesis
    using encode_claim_total [OF valid sample_parts_checked [OF assms(2)]] assms(1)
    by (simp add: make_assertion_def sample_observation_def)
qed

lemma made_claims_validate_witness:
  "\<exists>engine frozen c. registry_build ''g'' (run_machine registry_step [Add_Descriptor (sample_body ''x_id'')] registry_new)
      = Inr (engine, frozen)
    \<and> make_assertion engine (sample_observation ''r'') = Inr c \<and> validate_claim engine c = Inr ()"
proof -
  obtain engine frozen where engine: "registry_build ''g'' (run_machine registry_step [Add_Descriptor (sample_body ''x_id'')] registry_new)
      = Inr (engine, frozen)" "engine_require_id engine ''a.b.v1'' = Inr (sample_descriptor ''x_id'')"
    using engine_lookup_exact_witness by blast
  obtain c where "make_assertion engine (sample_observation ''r'') = Inr c"
    using sample_assertion [OF engine(2), of "''r''"] by auto
  then show ?thesis
    using engine(1) made_claims_validate by blast
qed

lemma assertion_accepted_exact_witness:
  "\<exists>engine frozen. registry_build ''g'' (run_machine registry_step [Add_Descriptor (sample_body ''x_id'')] registry_new)
      = Inr (engine, frozen)
    \<and> (\<exists>c. make_assertion engine (sample_observation ''r'') = Inr c)
    \<and> \<not> (\<exists>c. make_assertion engine (sample_observation ''r''\<lparr>obs_input_basis := ''r''\<rparr>) = Inr c)"
proof -
  obtain engine frozen where engine: "registry_build ''g'' (run_machine registry_step [Add_Descriptor (sample_body ''x_id'')] registry_new)
      = Inr (engine, frozen)" "engine_require_id engine ''a.b.v1'' = Inr (sample_descriptor ''x_id'')"
    using engine_lookup_exact_witness by blast
  have "\<not> canonical_digest_value ''r''"
    by code_simp
  then have "\<not> (\<exists>c. make_assertion engine (sample_observation ''r''\<lparr>obs_input_basis := ''r''\<rparr>) = Inr c)"
    using assertion_accepted_exact [OF engine(1), of "sample_observation ''r''\<lparr>obs_input_basis := ''r''\<rparr>"] by simp
  then show ?thesis
    using sample_assertion [OF engine(2), of "''r''"] engine(1) by auto
qed


lemma length_append_canonical:
  "length (append_canonical canonical_null) = 1"
  "length (append_canonical (from_string s)) = 9 + length s"
  "length (append_canonical (from_bytes bs)) = 9 + length bs"
  "length (append_canonical (from_tuple vs)) = 9 + sum_list (map (\<lambda>v. 8 + length (append_canonical v)) vs)"
proof -
  show "length (append_canonical (from_tuple vs)) = 9 + sum_list (map (\<lambda>v. 8 + length (append_canonical v)) vs)"
    by (simp add: append_canonical_tuple length_concat comp_def Let_def)
qed (simp_all add: canonical_null_def from_string_def from_bytes_def Let_def)

lemma length_content_digest [simp]: "length (content_digest bs) = 71"
  using content_digest_shape [of bs] by blast

lemma length_integer_canonical: "length (append_canonical (from_integer i)) \<le> 18"
  using magnitude_width_le_8 [of "integer_magnitude i"] by (simp add: from_integer_def Let_def)

lemma length_identity_bytes: "length (identity_bytes kind parts) =
    21 + length kind + sum_list (map (\<lambda>v. 8 + length (append_canonical v)) parts)"
  by (simp add: identity_bytes_def identity_domain_def length_append_canonical)

lemma made_assertion_validates: "make_assertion engine obs = Inr c \<Longrightarrow> validate_claim engine c = Inr ()"
  using engine_require_id_id
  by (auto simp: make_assertion_def and_then_Inr_iff intro: encoded_claim_validates)

lemma content_identity_exact_witness:
  "\<exists>engine frozen c other. registry_build ''g'' (run_machine registry_step [Add_Descriptor (sample_body ''x_id'')] registry_new)
      = Inr (engine, frozen)
    \<and> make_assertion engine (sample_observation ''r'') = Inr c \<and> make_assertion engine (sample_observation ''q'') = Inr other
    \<and> clm_provenance_root c \<noteq> clm_provenance_root other \<and> clm_content c = clm_content other"
proof -
  obtain engine frozen where build: "registry_build ''g'' (run_machine registry_step [Add_Descriptor (sample_body ''x_id'')] registry_new)
      = Inr (engine, frozen)" and found: "engine_require_id engine ''a.b.v1'' = Inr (sample_descriptor ''x_id'')"
    using engine_lookup_exact_witness by blast
  obtain c where c: "make_assertion engine (sample_observation ''r'') = Inr c"
    using sample_assertion [OF found, of "''r''"] by auto
  obtain other where other: "make_assertion engine (sample_observation ''q'') = Inr other"
    using sample_assertion [OF found, of "''q''"] by auto
  let ?d = "sample_descriptor ''x_id''" and ?row = "sample_row ''v'' []"
  have row: "row_descriptor_id ?row = ''a.b.v1''"
    by (simp add: sample_row_def)
  have fields: "clm_row c = ?row \<and> clm_descriptor c = ''a.b.v1'' \<and> clm_presence c = obs_presence (sample_observation ''r'')
      \<and> clm_interpretation c = ''i'' \<and> prod_semantic_contract (clm_producer c) = ''c'' \<and> clm_provenance_root c = provenance"
    if "make_assertion engine (sample_observation provenance) = Inr c" for c provenance
  proof -
    have "encode_claim ?d ?row (obs_presence (sample_observation ''r'')) ''i'' Stage_Assertion
        \<lparr>prod_id = ''p'', prod_semantic_contract = ''c''\<rparr> (Direct_Basis sample_digest) provenance
        (obs_guarantee (sample_observation ''r'')) = Inr c"
      using that by (simp add: make_assertion_def sample_observation_def row found)
    from encode_claim_ok [OF this] show ?thesis
      by (simp add: sample_fields)
  qed
  note l = fields [OF c] and r = fields [OF other]
  have valid: "validate_claim engine c = Inr ()" "validate_claim engine other = Inr ()"
    using c other by (simp_all add: made_assertion_validates)
  have descriptor: "descriptor_for engine c = Inr ?d" "descriptor_for engine other = Inr ?d"
    using l r found by (simp_all add: descriptor_for_def)
  have parts: "canonical_identity_digest ''semantic-key'' (semantic_key_parts ?d ?row) = Inr (clm_semantic_key x)"
    "canonical_identity_digest ''assertion'' (assertion_parts (clm_semantic_key x) (clm_presence x)
      (clm_interpretation x) (prod_semantic_contract (clm_producer x))) = Inr (clm_assertion x)"
    if "validate_claim engine x = Inr ()" "descriptor_for engine x = Inr ?d" "clm_row x = ?row" for x
    using that by (auto elim!: validated_claim_parts)
  have key: "clm_semantic_key c = clm_semantic_key other"
    using parts(1) [OF valid(1) descriptor(1)] parts(1) [OF valid(2) descriptor(2)] l r by simp
  have assertion: "clm_assertion c = clm_assertion other"
    using parts(2) [OF valid(1) descriptor(1)] parts(2) [OF valid(2) descriptor(2)] l r key by simp
  have same: "key_message engine c = key_message engine other" "assertion_message engine c = assertion_message engine other"
    "content_message engine c = content_message engine other"
    using l r key assertion by (simp_all add: key_message_def assertion_message_def content_message_def descriptor)
  have key_cell: "column_value ?row ''a.b.v1.k'' = from_string ''v''"
    by (simp add: column_value_def sample_row_def cell_typed_def claim_cell_value_def)
  have columns: "rel_key_columns ?d = [''a.b.v1.k'']" "payload_columns ?d = []" "rel_id ?d = ''a.b.v1''"
    by (simp_all add: sample_descriptor_def sample_body_def payload_columns_def columns_of_role_def)
  have "length (clm_semantic_key c) = 84" "length (clm_assertion c) = 81"
    using parts [OF valid(1) descriptor(1)] l by (auto simp: identity_digest_iff)
  then have "length (key_message engine c) < 2 ^ 64" "length (assertion_message engine c) < 2 ^ 64"
    "length (content_message engine c) < 2 ^ 64"
    using l length_integer_canonical [of "ucast (rel_semantic_major ?d)"]
    by (simp_all add: key_message_def assertion_message_def content_message_def descriptor length_identity_bytes
        semantic_key_parts_def assertion_parts_def content_parts_def length_append_canonical columns key_cell
        sample_observation_def condition_canonical_form_def sized_text_def decimal_small)
  then have "clm_content c = clm_content other"
    using content_identity_exact [OF build valid] same l r by simp
  then show ?thesis
    using build c other l r by auto
qed

end
