(* ===== verification/Project_Catalog.thy ===== *)
theory Project_Catalog
  imports Relation_Descriptor
begin

text \<open>
  The project catalog of \<open>src/sdk/relation.cpp\<close>: the compile units of a project in canonical order
  under an identity derived from their exact contents. \<open>make\<close> and \<open>validate\<close> are shown to agree,
  and the bytes behind the catalog's identity to determine the catalog.
\<close>

section \<open>Compile units\<close>

record catalog_compile_unit =
  unit_compile_unit_id :: string
  unit_effective_invocation_digest :: string
  unit_source_digest :: string
  unit_environment_digest :: string

abbreviation catalog_error :: "string \<Rightarrow> string \<Rightarrow> sdk_error" where
  "catalog_error field detail \<equiv> Err ''sdk.project-catalog-invalid'' field detail"

definition check_digest_field :: "string \<Rightarrow> string \<Rightarrow> unit result" where
  "check_digest_field field digest =
    (if \<not> canonical_digest_value digest then Inl (catalog_error field ''digest'') else Inr ())"

definition compile_unit_validate :: "catalog_compile_unit \<Rightarrow> unit result" where
  "compile_unit_validate u =
    (if \<not> control_free_text (unit_compile_unit_id u) then Inl (catalog_error ''compile_unit_id'' ''identity'')
     else first_error
       [check_digest_field ''effective_invocation_digest'' (unit_effective_invocation_digest u),
        check_digest_field ''source_digest'' (unit_source_digest u),
        check_digest_field ''environment_digest'' (unit_environment_digest u)])"

section \<open>Catalogs\<close>

record project_catalog =
  cat_catalog_id :: string
  cat_catalog_digest :: string
  cat_logical_root :: string
  cat_environment_digest :: string
  cat_compile_units :: "catalog_compile_unit list"

definition unit_value :: "catalog_compile_unit \<Rightarrow> canonical_value" where
  "unit_value u = from_tuple [from_string (unit_compile_unit_id u),
    from_string (unit_effective_invocation_digest u), from_string (unit_source_digest u),
    from_string (unit_environment_digest u)]"

text \<open>The loop over the units; \<open>previous_id\<close> is empty before the first.\<close>

fun catalog_entries :: "string \<Rightarrow> catalog_compile_unit list \<Rightarrow> canonical_value list result" where
  "catalog_entries previous_id [] = Inr []"
| "catalog_entries previous_id (u # units) =
    and_then (compile_unit_validate u) (\<lambda>_.
      if previous_id \<noteq> [] \<and> previous_id = unit_compile_unit_id u
      then Inl (catalog_error ''compile_units'' ''duplicate-or-conflict'')
      else and_then (catalog_entries (unit_compile_unit_id u) units) (\<lambda>entries.
        Inr (unit_value u # entries)))"

definition catalog_value :: "string \<Rightarrow> string \<Rightarrow> canonical_value list \<Rightarrow> canonical_value" where
  "catalog_value root environment entries = from_tuple [from_string ''cxxlens.project-catalog.v1'',
    from_string root, from_string environment, from_tuple entries]"

definition canonical_projection :: "project_catalog \<Rightarrow> bytes result" where
  "canonical_projection c =
    (if \<not> control_free_text (cat_logical_root c) then Inl (catalog_error ''logical_root'' ''identity'')
     else if \<not> canonical_digest_value (cat_environment_digest c)
     then Inl (catalog_error ''environment_digest'' ''digest'')
     else if \<not> sorted (map unit_compile_unit_id (cat_compile_units c))
     then Inl (catalog_error ''compile_units'' ''canonical-order'')
     else and_then (catalog_entries [] (cat_compile_units c)) (\<lambda>entries.
       canonical_binary (catalog_value (cat_logical_root c) (cat_environment_digest c) entries)))"

definition catalog_make :: "string \<Rightarrow> string \<Rightarrow> catalog_compile_unit list \<Rightarrow> project_catalog result" where
  "catalog_make root environment units =
    (let output = \<lparr>cat_catalog_id = [], cat_catalog_digest = [], cat_logical_root = root,
           cat_environment_digest = environment, cat_compile_units = sort_key unit_compile_unit_id units\<rparr>
     in and_then (canonical_projection output) (\<lambda>projection.
          and_then (semantic_digest ''cxxlens.project-catalog.v1'' (string_of projection)) (\<lambda>digest.
            Inr (output\<lparr>cat_catalog_digest := digest, cat_catalog_id := ''catalog:'' @ digest\<rparr>))))"

definition catalog_validate :: "project_catalog \<Rightarrow> unit result" where
  "catalog_validate c =
    (if \<not> canonical_digest_value (cat_catalog_digest c) then Inl (catalog_error ''catalog_digest'' ''digest'')
     else and_then (canonical_projection c) (\<lambda>projection.
       case semantic_digest ''cxxlens.project-catalog.v1'' (string_of projection) of
         Inl e \<Rightarrow> Inl (catalog_error ''catalog_digest'' ''mismatch'')
       | Inr expected \<Rightarrow>
           if cat_catalog_digest c \<noteq> expected then Inl (catalog_error ''catalog_digest'' ''mismatch'')
           else if cat_catalog_id c \<noteq> ''catalog:'' @ expected then Inl (catalog_error ''catalog_id'' ''mismatch'')
           else Inr ()))"

section \<open>Make and validate agree\<close>

lemma semantic_digest_canonical:
  assumes "semantic_digest domain bs = Inr s"
  shows "canonical_digest_value s"
proof -
  obtain hex where s: "s = ''semantic-v2:sha256:'' @ hex" and hex: "length hex = 64" "list_all lower_hex hex"
    using semantic_digest_shape [OF assms] by blast
  have "starts_with s ''semantic-v2:sha256:''" "\<not> starts_with s ''sha256:''" "drop 19 s = hex"
    by (simp_all add: s starts_with_def)
  then show ?thesis
    using hex by (simp add: canonical_digest_value_def hex_digest_def)
qed

lemma projection_fields:
  "canonical_projection (c\<lparr>cat_catalog_digest := x, cat_catalog_id := y\<rparr>) = canonical_projection c"
  by (simp add: canonical_projection_def)

lemma sorted_units_stable: "sorted (map unit_compile_unit_id us) \<Longrightarrow> sort_key unit_compile_unit_id us = us"
  by (rule sort_key_id_if_sorted)

text \<open>
  C40: a catalog validates exactly when making one from its own root, environment and units returns it,
  and its units are in canonical order.
\<close>

theorem catalog_validate_iff_made:
  "catalog_validate c = Inr () \<longleftrightarrow>
    catalog_make (cat_logical_root c) (cat_environment_digest c) (cat_compile_units c) = Inr c"
proof -
  let ?blank = "c\<lparr>cat_catalog_digest := [], cat_catalog_id := []\<rparr>"
  show ?thesis
  proof (cases "sorted (map unit_compile_unit_id (cat_compile_units c))")
    case True
    have make: "catalog_make (cat_logical_root c) (cat_environment_digest c) (cat_compile_units c)
        = and_then (canonical_projection c) (\<lambda>projection.
            and_then (semantic_digest ''cxxlens.project-catalog.v1'' (string_of projection)) (\<lambda>digest.
              Inr (?blank\<lparr>cat_catalog_digest := digest, cat_catalog_id := ''catalog:'' @ digest\<rparr>)))"
      using True by (cases c) (simp add: catalog_make_def sorted_units_stable canonical_projection_def)
    show ?thesis
    proof (cases "canonical_projection c")
      case (Inl e)
      then show ?thesis by (simp add: make catalog_validate_def)
    next
      case projection: (Inr p)
      show ?thesis
      proof (cases "semantic_digest ''cxxlens.project-catalog.v1'' (string_of p)")
        case (Inl e)
        then show ?thesis by (simp add: make catalog_validate_def projection)
      next
        case (Inr s)
        have "catalog_validate c = Inr () \<longleftrightarrow> cat_catalog_digest c = s \<and> cat_catalog_id c = ''catalog:'' @ s"
          using semantic_digest_canonical [OF Inr] by (auto simp: catalog_validate_def projection Inr)
        also have "\<dots> \<longleftrightarrow> c\<lparr>cat_catalog_digest := s, cat_catalog_id := ''catalog:'' @ s\<rparr> = c"
          by (cases c) auto
        finally show ?thesis by (simp add: make projection Inr)
      qed
    qed
  next
    case False
    then have "catalog_validate c \<noteq> Inr ()"
      by (auto simp: catalog_validate_def canonical_projection_def and_then_Inr_iff)
    moreover have "cat_compile_units c \<noteq> sort_key unit_compile_unit_id (cat_compile_units c)"
      using False sorted_sort_key by metis
    then have "catalog_make (cat_logical_root c) (cat_environment_digest c) (cat_compile_units c) \<noteq> Inr c"
      by (cases c) (auto simp: catalog_make_def Let_def and_then_Inr_iff)
    ultimately show ?thesis by blast
  qed
qed
section \<open>What the identity covers\<close>

lemma compile_unit_validate_ok:
  assumes "compile_unit_validate u = Inr x"
  shows "unit_compile_unit_id u \<noteq> []" "utf8_text (unit_compile_unit_id u)"
  using assms by (auto simp: compile_unit_validate_def control_free_text_def split: if_splits)

text \<open>Accepted units are distinct, and their values are listed in order.\<close>

lemma catalog_entries_ok:
  "catalog_entries previous units = Inr entries \<Longrightarrow> sorted (map unit_compile_unit_id units) \<Longrightarrow>
    entries = map unit_value units \<and> distinct (map unit_compile_unit_id units)
    \<and> (\<forall>u \<in> set units. compile_unit_validate u = Inr ()) \<and> (previous \<noteq> [] \<longrightarrow> units \<noteq> [] \<longrightarrow> previous \<noteq> unit_compile_unit_id (hd units))"
proof (induction units arbitrary: previous entries)
  case Nil
  then show ?case by simp
next
  case (Cons u units)
  then obtain rest where rest: "catalog_entries (unit_compile_unit_id u) units = Inr rest" "entries = unit_value u # rest"
    and u: "compile_unit_validate u = Inr ()" "previous \<noteq> [] \<longrightarrow> previous \<noteq> unit_compile_unit_id u"
    by (auto simp: and_then_Inr_iff split: if_splits)
  have sorted: "sorted (map unit_compile_unit_id units)"
    using Cons.prems(2) by simp
  note IH = Cons.IH [OF rest(1) sorted]
  have "unit_compile_unit_id u \<notin> unit_compile_unit_id ` set units"
  proof (cases units)
    case Nil
    then show ?thesis by simp
  next
    case (Cons v vs)
    then have "unit_compile_unit_id u < unit_compile_unit_id v"
      using IH Cons.prems(2) compile_unit_validate_ok(1) [OF u(1)] by auto
    then show ?thesis
      using sorted Cons by auto
  qed
  then show ?case
    using IH rest(2) u by simp
qed

lemma catalog_entries_distinct:
  "distinct (map unit_compile_unit_id units) \<Longrightarrow> (\<forall>u \<in> set units. compile_unit_validate u = Inr ()) \<Longrightarrow>
    (units \<noteq> [] \<longrightarrow> previous \<noteq> unit_compile_unit_id (hd units)) \<Longrightarrow>
    catalog_entries previous units = Inr (map unit_value units)"
proof (induction units arbitrary: previous)
  case Nil
  then show ?case by simp
next
  case (Cons u units)
  then have "units \<noteq> [] \<longrightarrow> unit_compile_unit_id u \<noteq> unit_compile_unit_id (hd units)"
    by (cases units) auto
  then show ?case
    using Cons by simp
qed

lemma unit_value_inject: "unit_value u = unit_value v \<longleftrightarrow> u = v"
  by (cases u; cases v) (auto simp: unit_value_def from_tuple_def from_string_def)

lemma catalog_value_inject:
  "catalog_value r e (map unit_value us) = catalog_value s f (map unit_value vs) \<longleftrightarrow> r = s \<and> e = f \<and> us = vs"
  using unit_value_inject by (auto simp: catalog_value_def from_tuple_def from_string_def map_eq_conv inj_map_eq_map inj_def)

lemma projection_ok:
  assumes "canonical_projection c = Inr bytes"
  shows "canonical_binary (catalog_value (cat_logical_root c) (cat_environment_digest c) (map unit_value (cat_compile_units c))) = Inr bytes"
  using assms by (auto simp: canonical_projection_def and_then_Inr_iff dest!: catalog_entries_ok split: if_splits)

text \<open>
  The bytes hashed into a catalog's identity determine its root, its environment and its compile
  units (for byte strings that fit the address space).
\<close>

lemma catalog_projection_injective:
  assumes "canonical_projection c = Inr bytes" "canonical_projection d = Inr bytes" "length bytes < 2 ^ 64"
  shows "cat_logical_root c = cat_logical_root d \<and> cat_environment_digest c = cat_environment_digest d
    \<and> cat_compile_units c = cat_compile_units d"
  using canonical_binary_injective [OF _ projection_ok [OF assms(1)] assms(3)] projection_ok [OF assms(2)]
  by (metis catalog_value_inject)

section \<open>When a catalog is made\<close>

lemma starts_with_split: "starts_with s p \<Longrightarrow> n = length p \<Longrightarrow> s = p @ drop n s"
  by (metis append_take_drop_id starts_with_def)

lemma digest_value_utf8: "canonical_digest_value s \<Longrightarrow> utf8_text s"
proof -
  assume s: "canonical_digest_value s"
  have prefixes: "list_all (\<lambda>c. byte_of_char c \<le> 0x7f) ''sha256:''"
    "list_all (\<lambda>c. byte_of_char c \<le> 0x7f) ''semantic-v2:sha256:''"
    by code_simp+
  obtain p hex where "s = p @ hex" "list_all lower_hex hex" "list_all (\<lambda>c. byte_of_char c \<le> 0x7f) p"
  proof (cases "starts_with s ''sha256:''")
    case True
    then have "s = ''sha256:'' @ drop 7 s"
      by (rule starts_with_split) simp
    moreover have "list_all lower_hex (drop 7 s)"
      using s True by (simp add: canonical_digest_value_def hex_digest_def)
    ultimately show thesis
      using that prefixes(1) by blast
  next
    case False
    then have "starts_with s ''semantic-v2:sha256:''" "list_all lower_hex (drop 19 s)"
      using s by (auto simp: canonical_digest_value_def hex_digest_def Let_def split: if_splits)
    moreover from this have "s = ''semantic-v2:sha256:'' @ drop 19 s"
      by (intro starts_with_split) simp_all
    ultimately show thesis
      using that prefixes(2) by blast
  qed
  then have "c \<in> set s \<Longrightarrow> byte_of_char c \<le> 0x7f" for c
    using lower_hex_ascii by (auto simp: list_all_iff)
  then show "utf8_text s"
    by (intro ascii_valid_utf8) (simp add: list_all_iff)
qed

lemma unit_value_valid:
  assumes "compile_unit_validate u = Inr ()"
  shows "canonical_validate (unit_value u) = Inr ()"
proof -
  have "canonical_digest_value (unit_effective_invocation_digest u)" "canonical_digest_value (unit_source_digest u)"
    "canonical_digest_value (unit_environment_digest u)"
    using assms by (auto simp: compile_unit_validate_def check_digest_field_def split: if_splits)
  then show ?thesis
    using compile_unit_validate_ok(2) [OF assms]
    by (simp add: unit_value_def canonical_validate_items_ok_iff digest_value_utf8)
qed

text \<open>
  C39: a catalog is made exactly from a printable root, a canonical environment digest and valid units
  with distinct identifiers, and it is the same whatever the order the units are given in.
\<close>

theorem catalog_make_exact:
  assumes "mset units = mset other_units"
  shows "((\<exists>c. catalog_make root environment units = Inr c) \<longleftrightarrow>
      control_free_text root \<and> canonical_digest_value environment
      \<and> (\<forall>u \<in> set units. compile_unit_validate u = Inr ()) \<and> distinct (map unit_compile_unit_id units))
    \<and> (\<forall>c. catalog_make root environment units = Inr c \<longrightarrow> catalog_make root environment other_units = Inr c)"
proof -
  let ?sorted = "sort_key unit_compile_unit_id units"
  let ?blank = "\<lparr>cat_catalog_id = [], cat_catalog_digest = [], cat_logical_root = root,
    cat_environment_digest = environment, cat_compile_units = ?sorted\<rparr>"
  have distinct_sorted: "distinct (map unit_compile_unit_id ?sorted) \<longleftrightarrow> distinct (map unit_compile_unit_id units)"
    by (simp add: distinct_map)
  have necessary: "control_free_text root \<and> canonical_digest_value environment
      \<and> (\<forall>u \<in> set units. compile_unit_validate u = Inr ()) \<and> distinct (map unit_compile_unit_id units)"
    if made: "catalog_make root environment units = Inr c" for c
  proof -
    obtain entries where "control_free_text root" "canonical_digest_value environment"
      "catalog_entries [] ?sorted = Inr entries"
      using made by (auto simp: catalog_make_def Let_def and_then_Inr_iff canonical_projection_def split: if_splits)
    moreover from catalog_entries_ok [OF this(3)]
    have "distinct (map unit_compile_unit_id ?sorted)" "\<forall>u \<in> set units. compile_unit_validate u = Inr ()"
      by simp_all
    ultimately show ?thesis by (simp only: distinct_sorted)
  qed
  have sufficient: "\<exists>c. catalog_make root environment units = Inr c"
    if ok: "control_free_text root" "canonical_digest_value environment"
      "\<forall>u \<in> set units. compile_unit_validate u = Inr ()" "distinct (map unit_compile_unit_id units)"
  proof -
    have first: "?sorted \<noteq> [] \<longrightarrow> [] \<noteq> unit_compile_unit_id (hd ?sorted)"
    proof
      assume "?sorted \<noteq> []"
      then have "hd ?sorted \<in> set units" by (metis hd_in_set set_sort)
      then show "[] \<noteq> unit_compile_unit_id (hd ?sorted)"
        using ok(3) compile_unit_validate_ok(1) by metis
    qed
    have entries: "catalog_entries [] ?sorted = Inr (map unit_value ?sorted)"
      using ok(3,4) first by (intro catalog_entries_distinct) (simp_all only: distinct_sorted set_sort)
    have names: "utf8_text ''cxxlens.project-catalog.v1''" by code_simp
    have "canonical_validate (catalog_value root environment (map unit_value ?sorted)) = Inr ()"
      using ok names unit_value_valid
      by (simp add: catalog_value_def canonical_validate_items_ok_iff digest_value_utf8 control_free_text_def)
    then have "\<exists>bytes. canonical_projection ?blank = Inr bytes"
      using ok(1,2) entries by (simp add: canonical_projection_def canonical_binary_def)
    moreover have "\<exists>digest. semantic_digest ''cxxlens.project-catalog.v1'' bytes = Inr digest" for bytes
    proof -
      have "lower_letter (hd ''cxxlens.project-catalog.v1'')" "list_all semantic_domain_char ''cxxlens.project-catalog.v1''"
        by code_simp+
      then show ?thesis
        by (intro semantic_digest_total) simp_all
    qed
    ultimately show ?thesis
      by (auto simp: catalog_make_def Let_def) (metis and_then_simps(2))
  qed
  have order: "catalog_make root environment other_units = Inr c" if "catalog_make root environment units = Inr c" for c
  proof -
    have "inj_on unit_compile_unit_id (set units)"
      using necessary [OF that] by (simp add: distinct_map)
    then have "?sorted = sort_key unit_compile_unit_id other_units"
      using assms by (intro sort_key_inj_key_eq) simp_all
    then show ?thesis using that by (simp only: catalog_make_def)
  qed
  show ?thesis
    using necessary sufficient order by blast
qed

definition sample_unit :: "string \<Rightarrow> catalog_compile_unit" where
  "sample_unit name = (let digest = ''sha256:'' @ replicate 64 CHR ''0'' in
    \<lparr>unit_compile_unit_id = name, unit_effective_invocation_digest = digest, unit_source_digest = digest,
     unit_environment_digest = digest\<rparr>)"

lemma catalog_make_exact_witness:
  "\<exists>c. catalog_make ''r'' (''sha256:'' @ replicate 64 CHR ''0'') [sample_unit ''x'', sample_unit ''y''] = Inr c
     \<and> catalog_make ''r'' (''sha256:'' @ replicate 64 CHR ''0'') [sample_unit ''y'', sample_unit ''x''] = Inr c"
proof -
  have "control_free_text ''r''" "canonical_digest_value (''sha256:'' @ replicate 64 CHR ''0'')"
    "\<not> isl (compile_unit_validate (sample_unit ''x''))" "\<not> isl (compile_unit_validate (sample_unit ''y''))"
    by code_simp+
  moreover from this have "\<forall>u \<in> set [sample_unit ''x'', sample_unit ''y'']. compile_unit_validate u = Inr ()"
    by (auto simp: isl_def) (metis old.unit.exhaust sum.exhaust)+
  moreover have "distinct (map unit_compile_unit_id [sample_unit ''x'', sample_unit ''y''])"
    by (simp add: sample_unit_def Let_def)
  moreover have "mset [sample_unit ''x'', sample_unit ''y''] = mset [sample_unit ''y'', sample_unit ''x'']"
    by simp
  ultimately show ?thesis
    using catalog_make_exact [of "[sample_unit ''x'', sample_unit ''y'']" "[sample_unit ''y'', sample_unit ''x'']"
        "''r''" "''sha256:'' @ replicate 64 CHR ''0''"] by blast
qed

end
