(* ===== verification/Spec2Isabelle.thy ===== *)
theory Spec2Isabelle
  imports Closure_Delivery Ng1_Recovery Ng1_Spill_Session Relation_Rows Relation_Registry Claim_Identity Project_Catalog
begin

text \<open>
  Verification development for cxxlens: the wire formats, the session state machines and the typed
  relations on which the host of a semantic provider relies.

  The program. cxxlens runs semantic providers (analysers of C++ code) as separate processes and adopts
  their output only when every byte of it is accounted for. A provider speaks \<^emph>\<open>protocol 2\<close>: frames of a
  fixed big-endian header, a canonical-CBOR control and a payload, each with a SHA-256 digest
  (\<open>src/protocol_v2\<close>). The host checks the order and the credit of a transcript, watches the liveness
  and the progress of the provider, spills what it staged into an append-only record log, and resumes a
  killed worker from a durable receipt of it (\<open>src/sdk/provider_ng1_*\<close>). What a provider reports are
  rows of \<^emph>\<open>relations\<close> with typed columns, declared in a registry (\<open>src/sdk/relation.cpp\<close>), and a row becomes
  a \<^emph>\<open>claim\<close> with the condition and the guarantee it is stated under (\<open>src/sdk/claim.cpp\<close>). All
  identities are digests of canonical values (\<open>src/sdk/common.cpp\<close>). Those are the parts modelled here,
  each definition from the source it names.

  The theories, in the order of their dependencies:

    \<^item> \<open>Prelude\<close>: machine words, results (an error record or a value), loops with early returns, big-endian
      integers, and the two interfaces: \<open>canonical_codec\<close> (every accepted byte string is the encoding of
      its value) and \<open>guarded_machine\<close>/\<open>monotone_machine\<close> (an object whose operations fail without effect
      or return the next object, with an invariant and a quantity that never falls).
    \<^item> \<open>Utf8\<close>: the two strict UTF-8 validators (\<open>json_internal.hpp\<close>, \<open>cbor.cpp\<close>), shown to agree.
    \<^item> \<open>Sha256\<close>: the one-shot digest of \<open>common.cpp\<close> and the fixed-workspace streaming digest of
      \<open>codec.cpp\<close>, shown to agree on every input.
    \<^item> \<open>Sdk_Common\<close>: the canonical tuple algebra with its encoder and strict decoder (an instance of
      \<open>canonical_codec\<close>), text and identifier validation, canonical JSON text, the digests.
    \<^item> \<open>Cbor\<close> and \<open>Cbor_Scan\<close>: the deterministic CBOR subset of \<open>src/protocol_v2/cbor.cpp\<close>: encoder,
      validator, decoder (an instance of \<open>canonical_codec\<close>) and the allocation-free scanner, shown to
      accept exactly what the decoder accepts within its own shape limits.
    \<^item> \<open>Codec\<close>: \<open>src/protocol_v2/codec.cpp\<close>: header validation, frames (an instance of \<open>canonical_codec\<close>),
      single-use prepared decoding, transcripts, the sequence guard (a \<open>monotone_machine\<close>), the credit
      window and the transactional transcript guard.
    \<^item> \<open>Closure_Control\<close>: the six source-closure controls of \<open>src/protocol_v2/closure.cpp\<close>, their validation,
      encoder, parser over the scanned bytes, move-only token and memory accounting. \<open>Closure_Wire\<close> shows
      that the parser inverts the encoder (an instance of \<open>canonical_codec\<close>).
    \<^item> \<open>Closure_Transfer\<close>: the transfer state machine over frames and the prepared acknowledgement.
      \<open>Closure_Assembly\<close> follows the bytes of the accepted frames through it; \<open>Closure_Delivery\<close> has the
      properties: a sealed transfer is complete, every valid control and its frame encode, an
      acknowledgement commits once and reaches the peer.
    \<^item> \<open>Ng1_Liveness\<close>: the heartbeat validator (an inductive step relation with traces) and the progress
      validator (a \<open>monotone_machine\<close>), with the exact 128-bit product of the rate test.
    \<^item> \<open>Ng1_Resume\<close>: resume tokens, spill records, the spill prefix and the resume validator (both
      \<open>monotone_machine\<close>s) of \<open>provider_ng1_validation.cpp\<close>.
    \<^item> \<open>Ng1_Recovery\<close>: the recovery matrix and the adapter of \<open>provider_ng1_recovery.cpp\<close>, as an inductive
      step relation over arbitrary calls with the states reachable by it.
    \<^item> \<open>Ng1_Spill_Codec\<close>: the framed CBOR record of the spill log in \<open>provider_ng1_spill_port_internal.cpp\<close>,
      its allocation-free size quota, encoder and decoder.
    \<^item> \<open>Ng1_Spill_Metadata\<close>: the commit and resume-frontier files of the Linux port (instances of
      \<open>canonical_codec\<close>).
    \<^item> \<open>Ng1_Spill_Session\<close>: the staging session over an abstract storage port: append, fsync, recovery,
      restore, handing over of cleanup custody, cleanup. What a session relies on of a port is the locale
      \<open>spill_store\<close>; the port the unit tests use (\<open>fake_spill_port\<close>) is shown to provide it.

    \<^item> \<open>Ordered_Map\<close>: the \<open>std::map\<close>s of the relation code as association lists in key order, and the interface
      \<open>emplace_store\<close> of what their clients use.
    \<^item> \<open>Relation_Values\<close>: the text grammars of \<open>src/sdk/relation.cpp\<close> (names, identifiers, versions, digests,
      set element types), scalar types, the packed bytes of a set, and detached cells.
    \<^item> \<open>Relation_Descriptor\<close>: descriptors with their columns, references and domain identity: validation,
      column lookup, the canonical text that the descriptor digest covers.
    \<^item> \<open>Relation_Rows\<close>: the row builder (a \<open>guarded_machine\<close>), the independent row validation, the text of
      a row, and the domain identity derived from its projected cells.
    \<^item> \<open>Relation_Registry\<close>: the registry (a \<open>guarded_machine\<close>), the reference checks and the depth-first
      cycle search of \<open>build\<close>, and the engine it yields.
    \<^item> \<open>Claim_Condition\<close> and \<open>Claim_Identity\<close>: the claims of \<open>src/sdk/claim.cpp\<close>: conditions, guarantees and
      input bases with their validation and digests, the three identities of a claim, the constructors
      \<open>make_assertion\<close>, \<open>make_canonical_claim\<close>, \<open>make_derived_claim\<close> and the independent \<open>validate_claim\<close>.
    \<^item> \<open>Project_Catalog\<close>: compile units, the catalog's canonical projection, \<open>make\<close> and \<open>validate\<close>.

  How the model corresponds to the code. Structs and classes are records, enumerations are datatypes (or,
  for \<open>message_type\<close>, which carries unregistered identifiers, the 16-bit word itself), \<open>std::uint64_t\<close> and
  its kin are words of their width with the wrap-around of C++, sizes of memory objects are natural
  numbers, \<open>result<T>\<close> is \<open>sdk_error + 'a\<close>. An operation that a failure leaves without effect is a
  function to a result of the next state; the recovery adapter, whose operations may fail and still move,
  returns both. Every early return of the source is a branch of the definition, in the source's order and
  with its error code, field and detail. What the C++ implementation chooses (\<open>sizeof\<close> and the capacities of
  containers, which the closure decoder charges against a memory limit) is the parameter \<open>host_layout\<close>;
  the properties hold for every layout.

  Bounds and termination. Loops are structural, or functions with a measure: the length of the unread
  suffix (UTF-8, canonical values, transcripts), the remaining depth (\<open>decode_visit\<close>), the remaining
  item budget (\<open>scan_loop\<close>), the relations not yet visited (\<open>visit_all\<close>). No fuel is used, so no definition can run short of it. A machine's run is
  over a list of inputs of any length, rejected inputs included.

  What the lemmas show: that each format has one spelling per value and both directions invert each other;
  that the optimised routines equal their reference (streaming and one-shot digest, scanner and decoder,
  portable and exact product); that no accepted run has a gap, a replay, a clock that runs backwards, an
  overdrawn or overflowing account, or a quota exceeded; that silence is detected and that a session ends;
  that a replay is only ever admitted right after a durably acknowledged prefix of the same session; that a
  source closure is sealed only when every declared byte of it arrived in order; that the log a staging
  session wrote is read back as exactly the records it admitted, by the session itself and by its
  successor after a restart; and that the canonical texts and digests of descriptors, rows, domain
  identities, claims, registries and catalogs determine what they identify. Where the code falls short of
  that the lemmas say exactly when: \<open>cbor_item_budget_exact\<close> (encodings the decoder refuses under the
  encoder's own limits), \<open>descriptor_digest_misses_set_type\<close> (element types the digest does not see) and
  \<open>row_validation_exact\<close> (cells under column names). A registry is built exactly when its references
  resolve without a hard cycle.

  Not modelled: failure of memory allocation (the \<open>std::bad_alloc\<close> handlers), which the model's values
  cannot express; the observation callbacks of \<open>invalid_utf8_offset\<close>; and the parts of the program whose
  behaviour is that of an external library or of the operating system: the clang-based extraction under
  \<open>src/llvm\<close>, the SQLite VFS and shared-memory registry under \<open>src/sdk/sqlite_*\<close>, the SQLite store, and
  the process and file ports (the Linux spill port included: the session is modelled over any port, and an
  exception a port throws is one of the effects a port may have). \<open>std::ranges::sort\<close> is modelled by a stable
  sort; where the code sorts by a key, equal keys are refused next to it or cannot occur. The flag that the
  copies of a registry share is followed for one of them. The layers above (NG1 sessions and transport,
  claim batches, queries, snapshot stores) are not modelled; the manifest lists them.
\<close>

end
